(* ===== verification/Prelude.thy ===== *)
theory Prelude
  imports Main "HOL-Library.Word"
begin

text \<open>
  Shared material of the development: machine integer types, the result type of kernel
  code that can panic, byte-addressed memory with little-endian 32- and 64-bit accesses,
  C's conversion of a value to \<open>int\<close>, and the list lemmas that several components use.
\<close>

unbundle bit_operations_syntax

type_synonym u8 = "8 word"
type_synonym u16 = "16 word"
type_synonym u32 = "32 word"
type_synonym u64 = "64 word"

named_theorems kdefs \<open>definitions of the kernel model that proofs unfold\<close>
named_theorems kframe \<open>frame facts: which parts of the state an operation leaves alone\<close>

section \<open>Results of kernel code\<close>

text \<open>
  \<open>Ok x\<close>: the code returned \<open>x\<close>.  \<open>Panic msg\<close>: it called \<open>panic(msg)\<close>, which prints the
  message and loops for ever.  \<open>Stuck\<close>: it spins or recurses without end (the fuel of the
  model ran out).
\<close>

datatype 'a res = Ok 'a | Panic string | Stuck

fun rbind :: "'a res \<Rightarrow> ('a \<Rightarrow> 'b res) \<Rightarrow> 'b res" where
  "rbind (Ok x) f = f x"
| "rbind (Panic e) f = Panic e"
| "rbind Stuck f = Stuck"

lemma rbind_eq_Ok [simp]: "rbind r f = Ok y \<longleftrightarrow> (\<exists>x. r = Ok x \<and> f x = Ok y)"
  by (cases r) auto

lemma rbind_eq_Panic: "rbind r f = Panic e \<longleftrightarrow> r = Panic e \<or> (\<exists>x. r = Ok x \<and> f x = Panic e)"
  by (cases r) auto

lemma rbind_split: "P (rbind r f) \<longleftrightarrow>
    (\<forall>x. r = Ok x \<longrightarrow> P (f x)) \<and> (\<forall>e. r = Panic e \<longrightarrow> P (Panic e)) \<and> (r = Stuck \<longrightarrow> P Stuck)"
  by (cases r) auto

lemma rbind_cong [fundef_cong]:
  "r = r' \<Longrightarrow> (\<And>x. r' = Ok x \<Longrightarrow> f x = g x) \<Longrightarrow> rbind r f = rbind r' g"
  by (cases r') auto

lemma rbind_assoc: "rbind (rbind r f) g = rbind r (\<lambda>x. rbind (f x) g)"
  by (cases r) auto

section \<open>C integers\<close>

text \<open>
  A C \<open>int\<close> is modelled as a HOL \<open>int\<close> in the range of 32-bit two's complement;
  \<open>i32\<close> is the conversion to \<open>int\<close> (gcc reduces modulo \<open>2^32\<close>).
\<close>

definition i32 :: "int \<Rightarrow> int" where
  "i32 x = signed_take_bit 31 x"

definition in_i32 :: "int \<Rightarrow> bool" where
  "in_i32 x \<longleftrightarrow> - (2 ^ 31) \<le> x \<and> x < 2 ^ 31"

lemma i32_id: "in_i32 x \<Longrightarrow> i32 x = x"
  by (simp add: i32_def in_i32_def signed_take_bit_int_eq_self)

lemma i32_small: "- (2 ^ 31) \<le> x \<Longrightarrow> x < 2 ^ 31 \<Longrightarrow> i32 x = x"
  by (simp add: i32_id in_i32_def)

lemma i32_numeral [simp]: "i32 0 = 0" "i32 1 = 1" "i32 (- 1) = - 1"
  by (simp_all add: i32_small)

lemma in_i32_i32: "in_i32 (i32 x)"
  unfolding in_i32_def i32_def
  using signed_take_bit_int_greater_eq_minus_exp[of 31 x] signed_take_bit_int_less_exp[of 31 x]
  by simp

section \<open>Bytes of a word, little endian\<close>

definition byte_of :: "nat \<Rightarrow> 'a::len word \<Rightarrow> u8" where
  "byte_of k v = ucast (drop_bit (8 * k) v)"

definition le32 :: "u8 \<Rightarrow> u8 \<Rightarrow> u8 \<Rightarrow> u8 \<Rightarrow> u32" where
  "le32 b0 b1 b2 b3 = ucast b0 OR push_bit 8 (ucast b1) OR push_bit 16 (ucast b2)
     OR push_bit 24 (ucast b3)"

definition le64 :: "u32 \<Rightarrow> u32 \<Rightarrow> u64" where
  "le64 lo hi = ucast lo OR push_bit 32 (ucast hi)"

lemma bit_byte_of: "bit (byte_of k v) n \<longleftrightarrow> n < 8 \<and> bit v (8 * k + n)"
  by (auto simp: byte_of_def bit_simps)

lemma le32_byte_of: "le32 (byte_of 0 v) (byte_of (Suc 0) v) (byte_of 2 v) (byte_of 3 v) = v"
proof (rule bit_word_eqI)
  fix n assume "n < LENGTH(32)"
  then have n: "n < 32" by simp
  consider "n < 8" | "8 \<le> n" "n < 16" | "16 \<le> n" "n < 24" | "24 \<le> n" "n < 32"
    using n by linarith
  then show "bit (le32 (byte_of 0 v) (byte_of (Suc 0) v) (byte_of 2 v) (byte_of 3 v)) n = bit v n"
    by cases (auto simp: le32_def bit_simps bit_byte_of)
qed

lemma byte_of_le32:
  "byte_of 0 (le32 b0 b1 b2 b3) = b0" "byte_of 1 (le32 b0 b1 b2 b3) = b1"
  "byte_of 2 (le32 b0 b1 b2 b3) = b2" "byte_of 3 (le32 b0 b1 b2 b3) = b3"
proof -
  have *: "b = c" if "\<And>n. n < 8 \<Longrightarrow> bit b n = bit c n" for b c :: u8
    using that by (auto intro!: bit_word_eqI)
  have h: "\<not> bit (b :: u8) n" if "n \<ge> 8" for b n
    using that by (simp add: impossible_bit)
  show "byte_of 0 (le32 b0 b1 b2 b3) = b0" by (rule *) (auto simp: bit_byte_of le32_def bit_simps)
  show "byte_of 1 (le32 b0 b1 b2 b3) = b1" by (rule *) (auto simp: bit_byte_of le32_def bit_simps h)
  show "byte_of 2 (le32 b0 b1 b2 b3) = b2" by (rule *) (auto simp: bit_byte_of le32_def bit_simps h)
  show "byte_of 3 (le32 b0 b1 b2 b3) = b3" by (rule *) (auto simp: bit_byte_of le32_def bit_simps h)
qed

lemma le64_halves: "le64 (ucast (v :: u64)) (ucast (drop_bit 32 v)) = v"
proof (rule bit_word_eqI)
  fix n assume "n < LENGTH(64)"
  then have n: "n < 64" by simp
  show "bit (le64 (ucast v) (ucast (drop_bit 32 v))) n = bit v n"
    using n by (cases "n < 32") (auto simp: le64_def bit_simps)
qed

section \<open>Byte-addressed memory\<close>

type_synonym mem = "u64 \<Rightarrow> u8"

definition ld32 :: "mem \<Rightarrow> u64 \<Rightarrow> u32" where
  "ld32 m a = le32 (m a) (m (a + 1)) (m (a + 2)) (m (a + 3))"

definition st32 :: "mem \<Rightarrow> u64 \<Rightarrow> u32 \<Rightarrow> mem" where
  "st32 m a v = m(a := byte_of 0 v, a + 1 := byte_of 1 v, a + 2 := byte_of 2 v, a + 3 := byte_of 3 v)"

definition ld64 :: "mem \<Rightarrow> u64 \<Rightarrow> u64" where
  "ld64 m a = le64 (ld32 m a) (ld32 m (a + 4))"

definition st64 :: "mem \<Rightarrow> u64 \<Rightarrow> u64 \<Rightarrow> mem" where
  "st64 m a v = st32 (st32 m a (ucast v)) (a + 4) (ucast (drop_bit 32 v))"


lemma word_small_cases:
  fixes d :: u64
  shows "d < 4 \<longleftrightarrow> d = 0 \<or> d = 1 \<or> d = 2 \<or> d = 3"
    and "d < 8 \<longleftrightarrow> d = 0 \<or> d = 1 \<or> d = 2 \<or> d = 3 \<or> d = 4 \<or> d = 5 \<or> d = 6 \<or> d = 7"
  by unat_arith+


lemma st32_apply: "st32 m a v x = (if x - a < 4 then byte_of (unat (x - a)) v else m x)"
proof -
  define d where "d = x - a"
  have x: "x = a + d" by (simp add: d_def)
  have [simp]: "a + d = a \<longleftrightarrow> d = 0" "a + d = a + k \<longleftrightarrow> d = k" for k by auto
  show ?thesis
    unfolding d_def[symmetric] x st32_def word_small_cases by (auto split: if_splits)
qed

lemma byte_of_ucast_lo: "k < 4 \<Longrightarrow> byte_of k (ucast (v :: u64) :: u32) = byte_of k v"
  by (rule bit_word_eqI) (auto simp: bit_byte_of bit_simps)

lemma byte_of_ucast_hi: "k < 4 \<Longrightarrow> byte_of k (ucast (drop_bit 32 (v :: u64)) :: u32) = byte_of (k + 4) v"
proof (rule bit_word_eqI)
  fix n assume k: "k < 4"
  have e: "8 * (k + 4) + n = 32 + (8 * k + n)" by simp
  show "bit (byte_of k (ucast (drop_bit 32 v) :: u32)) n = bit (byte_of (k + 4) v) n"
  proof -
    have "bit (byte_of k (ucast (drop_bit 32 v) :: u32)) n \<longleftrightarrow>
        n < 8 \<and> 8 * k + n < 32 \<and> bit v (32 + (8 * k + n))"
      by (auto simp: bit_byte_of bit_unsigned_iff bit_drop_bit_eq)
    moreover have "n < 8 \<Longrightarrow> 8 * k + n < 32" using k by linarith
    ultimately have "bit (byte_of k (ucast (drop_bit 32 v) :: u32)) n \<longleftrightarrow>
        n < 8 \<and> bit v (32 + (8 * k + n))" by blast
    then show ?thesis by (simp only: bit_byte_of e)
  qed
qed

lemma st64_apply: "st64 m a v x = (if x - a < 8 then byte_of (unat (x - a)) v else m x)"
proof -
  define d where "d = x - a"
  have x: "x = a + d" by (simp add: d_def)
  have e: "x - (a + 4) = d - 4" unfolding d_def by (simp add: algebra_simps)
  have *: "st64 m a v x = (if d - 4 < 4 then byte_of (unat (d - 4)) (ucast (drop_bit 32 v) :: u32)
      else if d < 4 then byte_of (unat d) (ucast v :: u32) else m x)"
    by (simp only: st64_def st32_apply e d_def)
  consider "d < 4" | "\<not> d < 4" "d < 8" | "\<not> d < 8" by blast
  then have "st64 m a v x = (if d < 8 then byte_of (unat d) v else m x)"
  proof cases
    case 1
    then have "d = 0 \<or> d = 1 \<or> d = 2 \<or> d = 3" by (simp only: word_small_cases)
    then have "\<not> d - 4 < 4" "d < 8" "unat d < 4" by auto
    then show ?thesis using 1 by (simp only: * if_True if_False byte_of_ucast_lo)
  next
    case 2
    then have b: "4 \<le> unat d" "unat d < 8" by (simp_all add: word_less_nat_alt)
    have "unat (d - 4) = unat d - 4"
      using b unat_sub[of 4 d] by (simp add: word_le_nat_alt)
    then have "d - 4 < 4" "unat d = unat (d - 4) + 4" "unat (d - 4) < 4"
      using b by (simp_all add: word_less_nat_alt)
    then show ?thesis using 2 by (simp only: * if_True if_False byte_of_ucast_hi)
  next
    case 3
    then have b: "8 \<le> unat d" by (simp add: word_less_nat_alt)
    then have "unat (d - 4) = unat d - 4" using unat_sub[of 4 d] by (simp add: word_le_nat_alt)
    then have "\<not> d - 4 < 4" "\<not> d < 4" using b by (simp_all add: word_less_nat_alt)
    then show ?thesis using 3 by (simp only: * if_True if_False)
  qed
  then show ?thesis by (simp only: d_def)
qed

lemma ld32_cong: "(\<And>i. i < 4 \<Longrightarrow> m (a + i) = m' (a + i)) \<Longrightarrow> ld32 m a = ld32 m' a"
  using word_small_cases(1) by (simp add: ld32_def) (metis add.right_neutral)

lemma ld64_cong: "(\<And>i. i < 8 \<Longrightarrow> m (a + i) = m' (a + i)) \<Longrightarrow> ld64 m a = ld64 m' a"
proof -
  assume h: "\<And>i. i < 8 \<Longrightarrow> m (a + i) = m' (a + i)"
  have "ld32 m a = ld32 m' a" by (rule ld32_cong) (rule h, unat_arith)
  moreover have "ld32 m (a + 4) = ld32 m' (a + 4)"
  proof (rule ld32_cong)
    fix i :: u64 assume "i < 4"
    then have "4 + i < 8" by unat_arith
    from h[OF this] show "m (a + 4 + i) = m' (a + 4 + i)" by (simp add: add.assoc)
  qed
  ultimately show ?thesis by (simp add: ld64_def)
qed

lemma ld32_st32: "ld32 (st32 m a v) a = v"
  by (simp add: ld32_def st32_apply word_small_cases le32_byte_of)

lemma ld64_st64: "ld64 (st64 m a v) a = v"
proof -
  have "ld32 (st64 m a v) a = ucast v"
  proof -
    have "ld32 (st64 m a v) a = ld32 (st32 m a (ucast v)) a"
      by (rule ld32_cong) (auto simp: st64_apply st32_apply byte_of_ucast_lo word_small_cases)
    then show ?thesis by (simp add: ld32_st32)
  qed
  moreover have "ld32 (st64 m a v) (a + 4) = ucast (drop_bit 32 v)"
    by (simp add: st64_def ld32_st32)
  ultimately show ?thesis by (simp add: ld64_def le64_halves)
qed

text \<open>Two eight-byte cells that do not overlap.\<close>

definition cells_disjoint :: "u64 \<Rightarrow> u64 \<Rightarrow> bool" where
  "cells_disjoint a b \<longleftrightarrow> \<not> b - a < 8 \<and> \<not> a - b < 8"

lemma ld64_st64_other: "cells_disjoint a b \<Longrightarrow> ld64 (st64 m a v) b = ld64 m b"
proof (rule ld64_cong)
  fix i :: u64 assume "i < 8" and d: "cells_disjoint a b"
  then have "\<not> b + i - a < 8" unfolding cells_disjoint_def by unat_arith
  then show "st64 m a v (b + i) = m (b + i)" by (simp add: st64_apply)
qed

section \<open>Ranges of addresses\<close>

text \<open>\<open>x - a < n\<close> says that \<open>x\<close> lies in the \<open>n\<close> bytes from \<open>a\<close>.\<close>

lemma in_range_iff:
  fixes a x n :: u64
  assumes "unat a + unat n < 2 ^ 64"
  shows "x - a < n \<longleftrightarrow> unat a \<le> unat x \<and> unat x < unat a + unat n"
proof (cases "unat a \<le> unat x")
  case True
  then have "unat (x - a) = unat x - unat a" by (simp add: unat_sub word_le_nat_alt)
  then show ?thesis using True by (auto simp: word_less_nat_alt)
next
  case False
  have "unat (x - a) = 2 ^ 64 + unat x - unat a"
    using False unat_sub_if'[of x a] by (simp add: word_le_nat_alt)
  then show ?thesis using False assms unsigned_less[where 'a=nat, of x] by (simp add: word_less_nat_alt)
qed

lemma unat_add_no_wrap:
  fixes a b :: u64
  assumes "unat a + unat b < 2 ^ 64"
  shows "unat (a + b) = unat a + unat b"
  using assms by (simp add: unat_word_ariths)

lemma unat_u32_less: "unat (n :: u32) < 2 ^ 32"
  using unsigned_less[where 'a=nat, of n] by simp

lemma unat_ucast_u32 [simp]: "unat (ucast (n :: u32) :: u64) = unat n"
  using unat_u32_less[of n] by (simp add: unsigned_ucast_eq take_bit_nat_eq_self)

lemma unat_of_nat_u64: "n < 2 ^ 64 \<Longrightarrow> unat (word_of_nat n :: u64) = n"
  by (simp add: unat_of_nat)

section \<open>Lists\<close>

lemma all_set_update: "\<forall>p\<in>set xs. P p \<Longrightarrow> P y \<Longrightarrow> \<forall>p\<in>set (xs[i := y]). P p"
  using set_update_subset_insert[of xs i y] by auto

end
