(* ===== verification/CStrings.thy ===== *)
theory CStrings
  imports Prelude
begin

text \<open>
  \<open>kernel/string.c\<close>: the kernel's memory and string primitives over byte-addressed memory.
  A \<open>char*\<close> is an address; a loop over \<open>n\<close> bytes is a recursion on the number of bytes
  left.  The string loops that stop at a NUL byte only (\<open>strlen\<close>) take fuel.
\<close>

section \<open>Definitions\<close>

fun memset_loop :: "nat \<Rightarrow> u64 \<Rightarrow> u8 \<Rightarrow> mem \<Rightarrow> mem" where
  "memset_loop 0 d c m = m"
| "memset_loop (Suc k) d c m = memset_loop k (d + 1) c (m(d := c))"

definition memset :: "mem \<Rightarrow> u64 \<Rightarrow> int \<Rightarrow> u32 \<Rightarrow> mem" where
  "memset m dst c n = memset_loop (unat n) dst (word_of_int c) m"

fun memcmp_loop :: "nat \<Rightarrow> u64 \<Rightarrow> u64 \<Rightarrow> mem \<Rightarrow> int" where
  "memcmp_loop 0 s1 s2 m = 0"
| "memcmp_loop (Suc k) s1 s2 m =
     (if m s1 \<noteq> m s2 then uint (m s1) - uint (m s2) else memcmp_loop k (s1 + 1) (s2 + 1) m)"

definition memcmp :: "mem \<Rightarrow> u64 \<Rightarrow> u64 \<Rightarrow> u32 \<Rightarrow> int" where
  "memcmp m v1 v2 n = memcmp_loop (unat n) v1 v2 m"

fun move_backward :: "nat \<Rightarrow> u64 \<Rightarrow> u64 \<Rightarrow> mem \<Rightarrow> mem" where
  "move_backward 0 s d m = m"
| "move_backward (Suc k) s d m = move_backward k (s - 1) (d - 1) (m(d - 1 := m (s - 1)))"

fun move_forward :: "nat \<Rightarrow> u64 \<Rightarrow> u64 \<Rightarrow> mem \<Rightarrow> mem" where
  "move_forward 0 s d m = m"
| "move_forward (Suc k) s d m = move_forward k (s + 1) (d + 1) (m(d := m s))"

definition memmove :: "mem \<Rightarrow> u64 \<Rightarrow> u64 \<Rightarrow> u32 \<Rightarrow> mem" where
  "memmove m dst src n =
     (if n = 0 then m
      else if src < dst \<and> src + ucast n > dst
      then move_backward (unat n) (src + ucast n) (dst + ucast n) m
      else move_forward (unat n) src dst m)"

definition memcpy :: "mem \<Rightarrow> u64 \<Rightarrow> u64 \<Rightarrow> u32 \<Rightarrow> mem" where
  "memcpy m dst src n = memmove m dst src n"

fun strncmp_loop :: "nat \<Rightarrow> u64 \<Rightarrow> u64 \<Rightarrow> mem \<Rightarrow> int" where
  "strncmp_loop 0 p q m = 0"
| "strncmp_loop (Suc k) p q m =
     (if m p \<noteq> 0 \<and> m p = m q then strncmp_loop k (p + 1) (q + 1) m
      else uint (m p) - uint (m q))"

definition strncmp :: "mem \<Rightarrow> u64 \<Rightarrow> u64 \<Rightarrow> u32 \<Rightarrow> int" where
  "strncmp m p q n = strncmp_loop (unat n) p q m"

text \<open>
  \<open>strncpy\<close>: the first loop copies up to and including the NUL, the second one pads with
  zeros.  \<open>n\<close> is a C \<open>int\<close>; both loops test \<open>n-- > 0\<close>.
\<close>

fun strncpy_pad :: "nat \<Rightarrow> u64 \<Rightarrow> mem \<Rightarrow> mem" where
  "strncpy_pad 0 s m = m"
| "strncpy_pad (Suc k) s m = strncpy_pad k (s + 1) (m(s := 0))"

fun strncpy_loop :: "nat \<Rightarrow> u64 \<Rightarrow> u64 \<Rightarrow> mem \<Rightarrow> mem" where
  "strncpy_loop 0 s t m = m"
| "strncpy_loop (Suc k) s t m =
     (let c = m t; m' = m(s := c)
      in if c \<noteq> 0 then strncpy_loop k (s + 1) (t + 1) m' else strncpy_pad k (s + 1) m')"

definition strncpy :: "mem \<Rightarrow> u64 \<Rightarrow> u64 \<Rightarrow> int \<Rightarrow> mem" where
  "strncpy m s t n = strncpy_loop (nat n) s t m"

text \<open>\<open>safestrcpy\<close>: at most \<open>n - 1\<close> bytes, then a NUL; nothing at all for \<open>n \<le> 0\<close>.\<close>

fun safestrcpy_loop :: "nat \<Rightarrow> u64 \<Rightarrow> u64 \<Rightarrow> mem \<Rightarrow> mem" where
  "safestrcpy_loop 0 s t m = m(s := 0)"
| "safestrcpy_loop (Suc k) s t m =
     (let c = m t; m' = m(s := c)
      in if c \<noteq> 0 then safestrcpy_loop k (s + 1) (t + 1) m' else m'(s + 1 := 0))"

definition safestrcpy :: "mem \<Rightarrow> u64 \<Rightarrow> u64 \<Rightarrow> int \<Rightarrow> mem" where
  "safestrcpy m s t n = (if n \<le> 0 then m else safestrcpy_loop (nat (n - 1)) s t m)"

fun strlen_fuel :: "nat \<Rightarrow> mem \<Rightarrow> u64 \<Rightarrow> int res" where
  "strlen_fuel 0 m s = Stuck"
| "strlen_fuel (Suc k) m s =
     (if m s = 0 then Ok 0 else rbind (strlen_fuel k m (s + 1)) (\<lambda>n. Ok (n + 1)))"

section \<open>Loops\<close>

text \<open>\<open>within d k x\<close>: the address \<open>x\<close> is one of the \<open>k\<close> bytes from \<open>d\<close>.\<close>

definition within :: "u64 \<Rightarrow> nat \<Rightarrow> u64 \<Rightarrow> bool" where
  "within d k x \<longleftrightarrow> unat d \<le> unat x \<and> unat x < unat d + k"

lemma unat_Suc_u64: "unat (d :: u64) + Suc k < 2 ^ 64 \<Longrightarrow> unat (d + 1) = Suc (unat d)"
  using unat_add_no_wrap[of d 1] by simp

lemma unat_pred_u64: "0 < unat (d :: u64) \<Longrightarrow> unat (d - 1) = unat d - 1"
  using unat_sub[of 1 d] by (simp add: word_le_nat_alt)

lemma within_Suc:
  "unat d + Suc k < 2 ^ 64 \<Longrightarrow> within d (Suc k) x \<longleftrightarrow> x = d \<or> within (d + 1) k x"
  by (auto simp: within_def unat_Suc_u64 simp: word_unat_eq_iff)

lemma memset_loop_apply:
  "unat d + k < 2 ^ 64 \<Longrightarrow> memset_loop k d c m x = (if within d k x then c else m x)"
proof (induction k arbitrary: d m)
  case 0
  then show ?case by (auto simp: within_def)
next
  case (Suc k)
  then show ?case by (simp add: within_Suc unat_Suc_u64)
qed

lemma strncpy_pad_memset: "strncpy_pad k s m = memset_loop k s 0 m"
  by (induction k arbitrary: s m) auto

lemma move_forward_apply:
  assumes "unat d + k < 2 ^ 64" "unat s + k < 2 ^ 64" "unat d \<le> unat s \<or> unat s + k \<le> unat d"
  shows "move_forward k s d m x = (if within d k x then m (s + (x - d)) else m x)"
  using assms
proof (induction k arbitrary: d s m)
  case 0
  then show ?case by (auto simp: within_def)
next
  case (Suc k)
  let ?m = "m(d := m s)"
  have IH: "move_forward (Suc k) s d m x =
      (if within (d + 1) k x then ?m (s + (x - d)) else ?m x)"
  proof -
    have "s + 1 + (x - (d + 1)) = s + (x - d)" by simp
    moreover have "unat (d + 1) + k < 2 ^ 64" "unat (s + 1) + k < 2 ^ 64"
      "unat (d + 1) \<le> unat (s + 1) \<or> unat (s + 1) + k \<le> unat (d + 1)"
      using Suc.prems unat_Suc_u64[of d k] unat_Suc_u64[of s k] by auto
    ultimately show ?thesis using Suc.IH[of "d + 1" "s + 1" ?m] by (simp only: move_forward.simps)
  qed
  have "s + (x - d) \<noteq> d" if w: "within (d + 1) k x"
  proof -
    have u: "unat (x - d) = unat x - unat d" "unat d < unat x" "unat x \<le> unat d + k"
      using w unat_Suc_u64[of d k] Suc.prems(1) by (auto simp: within_def unat_sub word_le_nat_alt)
    then have "unat (s + (x - d)) = unat s + (unat x - unat d)"
      using Suc.prems(2) by (subst unat_add_no_wrap) auto
    then have "unat (s + (x - d)) \<noteq> unat d" using u Suc.prems(3) by linarith
    then show ?thesis by metis
  qed
  then show ?case unfolding IH within_Suc[OF Suc.prems(1)]
    using Suc.prems(1) unat_Suc_u64[of d k] by (auto simp: within_def)
qed

lemma move_backward_apply:
  assumes "k \<le> unat d" "k \<le> unat s" "unat s \<le> unat d"
  shows "move_backward k s d m x =
    (if unat d - k \<le> unat x \<and> unat x < unat d then m (s - (d - x)) else m x)"
  using assms
proof (induction k arbitrary: d s m)
  case 0
  then show ?case by auto
next
  case (Suc k)
  let ?m = "m(d - 1 := m (s - 1))"
  have u1: "unat (d - 1) = unat d - 1" "unat (s - 1) = unat s - 1"
    using Suc.prems unat_pred_u64 by auto
  have IH: "move_backward (Suc k) s d m x =
      (if unat d - 1 - k \<le> unat x \<and> unat x < unat d - 1 then ?m (s - (d - x)) else ?m x)"
  proof -
    have "s - 1 - (d - 1 - x) = s - (d - x)" by simp
    moreover have "k \<le> unat (d - 1)" "k \<le> unat (s - 1)" "unat (s - 1) \<le> unat (d - 1)"
      using Suc.prems u1 by auto
    ultimately show ?thesis using Suc.IH[of "d - 1" "s - 1" ?m] u1 by (simp only: move_backward.simps)
  qed
  have ne: "s - (d - x) \<noteq> d - 1" if "unat x < unat d - 1" "unat d - 1 - k \<le> unat x"
  proof -
    have u: "unat (d - x) = unat d - unat x" using that by (simp add: unat_sub word_le_nat_alt)
    then have "unat (s - (d - x)) = unat s - (unat d - unat x)"
      using Suc.prems that by (subst unat_sub) (auto simp: word_le_nat_alt)
    then have "unat (s - (d - x)) \<noteq> unat (d - 1)" using that Suc.prems u1 by linarith
    then show ?thesis by metis
  qed
  have eq: "x = d - 1 \<longleftrightarrow> unat x = unat d - 1" using u1 by (auto simp: word_unat_eq_iff)
  show ?case
  proof (cases "x = d - 1")
    case True
    then show ?thesis unfolding IH using eq Suc.prems by auto
  next
    case False
    then show ?thesis unfolding IH using eq ne Suc.prems by auto
  qed
qed

lemma within_outside_forward:
  assumes "unat s + Suc k < 2 ^ 64" "\<not> within s (Suc k) x"
  shows "x \<noteq> s" "\<not> within (s + 1) k x"
  using assms by (simp_all add: within_Suc)

section \<open>NUL-terminated strings\<close>

text \<open>\<open>cstring m a cs\<close>: the string at \<open>a\<close> is \<open>cs\<close>, followed by a NUL.\<close>

fun cstring :: "mem \<Rightarrow> u64 \<Rightarrow> u8 list \<Rightarrow> bool" where
  "cstring m a [] \<longleftrightarrow> m a = 0"
| "cstring m a (c # cs) \<longleftrightarrow> m a = c \<and> c \<noteq> 0 \<and> cstring m (a + 1) cs"

lemma cstring_cong:
  "(\<And>i. i \<le> length cs \<Longrightarrow> m' (a + word_of_nat i) = m (a + word_of_nat i)) \<Longrightarrow>
    cstring m' a cs = cstring m a cs"
proof (induction cs arbitrary: a)
  case Nil
  from Nil[of 0] show ?case by simp
next
  case (Cons c cs)
  have "m' a = m a" using Cons.prems[of 0] by simp
  moreover have "cstring m' (a + 1) cs = cstring m (a + 1) cs"
  proof (rule Cons.IH)
    fix i assume "i \<le> length cs"
    with Cons.prems[of "Suc i"] show "m' (a + 1 + word_of_nat i) = m (a + 1 + word_of_nat i)"
      by (simp add: algebra_simps)
  qed
  ultimately show ?case by simp
qed

lemma strlen_fuel_cstring:
  "cstring m a cs \<Longrightarrow> length cs < k \<Longrightarrow> strlen_fuel k m a = Ok (int (length cs))"
proof (induction cs arbitrary: a k)
  case Nil
  then show ?case by (cases k) auto
next
  case (Cons c cs)
  then show ?case by (cases k) auto
qed

lemma safestrcpy_loop_outside:
  "unat s + Suc k < 2 ^ 64 \<Longrightarrow> \<not> within s (Suc k) x \<Longrightarrow> safestrcpy_loop k s t m x = m x"
proof (induction k arbitrary: s t m)
  case 0
  then show ?case by (auto simp: within_def)
next
  case (Suc k)
  then have "x \<noteq> s" "\<not> within (s + 1) (Suc k) x"
    using within_outside_forward[of s "Suc k" x] by auto
  moreover have "x \<noteq> s + 1" using Suc.prems unat_Suc_u64[of s "Suc k"] by (auto simp: within_def)
  ultimately show ?case using Suc unat_Suc_u64[of s "Suc k"] by (auto simp: Let_def)
qed

lemma strncpy_loop_outside:
  "unat s + k < 2 ^ 64 \<Longrightarrow> \<not> within s k x \<Longrightarrow> strncpy_loop k s t m x = m x"
proof (induction k arbitrary: s t m)
  case 0
  then show ?case by simp
next
  case (Suc k)
  then have "x \<noteq> s" "\<not> within (s + 1) k x" using within_outside_forward[of s k x] by auto
  then show ?case using Suc unat_Suc_u64[of s k]
    by (auto simp: Let_def strncpy_pad_memset memset_loop_apply)
qed

lemma safestrcpy_loop_cstring:
  assumes "cstring m t cs" "unat s + Suc k < 2 ^ 64"
    and "\<And>i. i \<le> length cs \<Longrightarrow> \<not> within s (Suc k) (t + word_of_nat i)"
  shows "cstring (safestrcpy_loop k s t m) s (take k cs)"
  using assms
proof (induction k arbitrary: s t m cs)
  case 0
  then show ?case by simp
next
  case (Suc k)
  have s1: "unat (s + 1) = Suc (unat s)" using Suc.prems(2) unat_Suc_u64[of s "Suc k"] by simp
  show ?case
  proof (cases cs)
    case Nil
    then have "m t = 0" using Suc.prems(1) by simp
    then show ?thesis using Nil s1 by (auto simp: Let_def)
  next
    case (Cons c cs')
    let ?m = "m(s := c)"
    have c: "m t = c" "c \<noteq> 0" and cs': "cstring m (t + 1) cs'" using Suc.prems(1) Cons by auto
    have out: "\<not> within s (Suc (Suc k)) (t + 1 + word_of_nat i)" if "i \<le> length cs'" for i
      using Suc.prems(3)[of "Suc i"] that Cons by (simp add: algebra_simps)
    have "cstring ?m (t + 1) cs' = cstring m (t + 1) cs'"
      
    proof (rule cstring_cong)
      fix i assume "i \<le> length cs'"
      from out[OF this] have "t + 1 + word_of_nat i \<noteq> s" by (auto simp: within_def)
      then show "?m (t + 1 + word_of_nat i) = m (t + 1 + word_of_nat i)" by simp
    qed
    then have "cstring (safestrcpy_loop k (s + 1) (t + 1) ?m) (s + 1) (take k cs')"
    proof (intro Suc.IH, goal_cases)
      case 1 then show ?case using cs' by (simp only:)
    next
      case 2 then show ?case using Suc.prems(2) s1 by simp
    next
      case (3 i)
      then show ?case using out[of i] Suc.prems(2) by (auto simp: within_def s1)
    qed
    moreover have "safestrcpy_loop k (s + 1) (t + 1) ?m s = ?m s"
      by (rule safestrcpy_loop_outside) (use Suc.prems(2) s1 in \<open>auto simp: within_def\<close>)
    ultimately show ?thesis using c Cons by (simp add: Let_def)
  qed
qed

lemma strncmp_loop_zero:
  "strncmp_loop k p q m = 0 \<longleftrightarrow>
    (\<forall>i<k. (\<forall>j<i. m (p + word_of_nat j) \<noteq> 0) \<longrightarrow> m (p + word_of_nat i) = m (q + word_of_nat i))"
proof (induction k arbitrary: p q)
  case 0
  then show ?case by simp
next
  case (Suc k)
  show ?case
  proof (cases "m p \<noteq> 0 \<and> m p = m q")
    case True
    have "(\<forall>i<Suc k. (\<forall>j<i. m (p + word_of_nat j) \<noteq> 0) \<longrightarrow>
          m (p + word_of_nat i) = m (q + word_of_nat i)) \<longleftrightarrow>
        (\<forall>i<k. (\<forall>j<i. m (p + 1 + word_of_nat j) \<noteq> 0) \<longrightarrow>
          m (p + 1 + word_of_nat i) = m (q + 1 + word_of_nat i))"
      using True by (auto simp: add.assoc All_less_Suc2)
    moreover have "strncmp_loop (Suc k) p q m = strncmp_loop k (p + 1) (q + 1) m"
      unfolding strncmp_loop.simps by (rule if_P [OF True])
    ultimately show ?thesis using Suc.IH[of "p + 1" "q + 1"] by (simp only:)
  next
    case False
    have "uint (m p) - uint (m q) = 0 \<longleftrightarrow> m p = m q" by (simp add: word_uint_eq_iff)
    moreover have "(\<forall>i<Suc k. (\<forall>j<i. m (p + word_of_nat j) \<noteq> 0) \<longrightarrow>
          m (p + word_of_nat i) = m (q + word_of_nat i)) \<longleftrightarrow> m p = m q"
      using False by (auto simp: All_less_Suc2)
    moreover have "strncmp_loop (Suc k) p q m = uint (m p) - uint (m q)"
      unfolding strncmp_loop.simps by (rule if_not_P [OF False])
    ultimately show ?thesis by (simp only:)
  qed
qed

lemma memmove_apply:
  assumes "unat dst + unat n < 2 ^ 64" and "unat src + unat n < 2 ^ 64"
  shows "memmove m dst src n x = (if within dst (unat n) x then m (src + (x - dst)) else m x)"
proof -
  have e: "unat (src + ucast n) = unat src + unat n" "unat (dst + ucast n) = unat dst + unat n"
    using assms unat_add_no_wrap[of src "ucast n"] unat_add_no_wrap[of dst "ucast n"] by auto
  consider "n = 0" | "n \<noteq> 0" "src < dst" "src + ucast n > dst"
    | "n \<noteq> 0" "\<not> (src < dst \<and> src + ucast n > dst)" by blast
  then show ?thesis
  proof cases
    case 1
    then show ?thesis by (auto simp: memmove_def within_def)
  next
    case 2
    have "src + ucast n - (dst + ucast n - x) = src + (x - dst)" by simp
    then show ?thesis
      using 2 by (auto simp: memmove_def within_def e word_less_nat_alt move_backward_apply)
  next
    case 3
    then show ?thesis using assms
      by (auto simp: memmove_def e word_less_nat_alt move_forward_apply)
  qed
qed

section \<open>Properties\<close>

text \<open>C40. \<open>memmove\<close> copies correctly even when source and destination overlap, and writes
  nothing outside the destination.\<close>

theorem memmove_correct:
  assumes "unat dst + unat n < 2 ^ 64" and "unat src + unat n < 2 ^ 64"
  shows "memmove m dst src n x = (if within dst (unat n) x then m (src + (x - dst)) else m x)"
  using assms by (rule memmove_apply)

theorem memmove_correct_witness:
  "memmove (\<lambda>a. ucast a) 12 10 4 14 = 12 \<and> memmove (\<lambda>a. ucast a) 12 10 4 17 = 17"
  using memmove_correct[of 12 4 10 "\<lambda>a. ucast a" 14] memmove_correct[of 12 4 10 "\<lambda>a. ucast a" 17]
  by (simp add: within_def)

text \<open>\<open>safestrcpy\<close> always leaves a NUL-terminated string: the source truncated to
  \<open>n - 1\<close> bytes, and it writes nothing outside its \<open>n\<close>-byte destination.\<close>

theorem safestrcpy_correct:
  assumes "0 < n" and "cstring m t cs" and "unat s + nat n < 2 ^ 64"
    and "\<And>i. i \<le> length cs \<Longrightarrow> \<not> within s (nat n) (t + word_of_nat i)"
  shows "cstring (safestrcpy m s t n) s (take (nat n - 1) cs) \<and>
    (\<forall>x. \<not> within s (nat n) x \<longrightarrow> safestrcpy m s t n x = m x)"
proof -
  have n: "nat n = Suc (nat (n - 1))" using assms(1) by simp
  show ?thesis
    using assms safestrcpy_loop_cstring[of m t cs s "nat (n - 1)"]
      safestrcpy_loop_outside[of s "nat (n - 1)" _ t m]
    unfolding n by (auto simp: safestrcpy_def)
qed

theorem safestrcpy_correct_witness:
  "cstring (safestrcpy ((\<lambda>_. 0)(100 := 97, 101 := 98, 102 := 99)) 10 100 3) 10 [97, 98]"
proof -
  let ?m = "(\<lambda>_. 0)(100 := 97, 101 := 98, 102 := 99) :: mem"
  have "\<not> within 10 (nat 3) (100 + word_of_nat i)" if "i \<le> length [97, 98, 99 :: u8]" for i
  proof -
    from that have "i = 0 \<or> i = 1 \<or> i = 2 \<or> i = 3" by auto
    then show ?thesis by (auto simp: within_def)
  qed
  then have "cstring (safestrcpy ?m 10 100 3) 10 (take (nat 3 - 1) [97, 98, 99]) \<and>
      (\<forall>x. \<not> within 10 (nat 3) x \<longrightarrow> safestrcpy ?m 10 100 3 x = ?m x)"
    by (intro safestrcpy_correct) auto
  then show ?thesis by (simp add: numeral_2_eq_2 [symmetric])
qed

text \<open>\<open>strncmp\<close> returns 0 exactly when the two strings agree up to the first NUL or
  the first \<open>n\<close> bytes: the comparison \<open>namecmp\<close> makes of directory entry names.\<close>

theorem strncmp_zero_iff:
  "strncmp m p q n = 0 \<longleftrightarrow>
    (\<forall>i < unat n. (\<forall>j<i. m (p + word_of_nat j) \<noteq> 0) \<longrightarrow> m (p + word_of_nat i) = m (q + word_of_nat i))"
  unfolding strncmp_def by (rule strncmp_loop_zero)

theorem strncmp_zero_iff_witness:
  "strncmp ((\<lambda>_. 0)(8 := 47, 16 := 47)) 8 16 1 = 0 \<and> strncmp ((\<lambda>_. 0)(8 := 47)) 8 16 1 \<noteq> 0"
  by (simp add: strncmp_zero_iff)

end
