(* ===== verification/Kalloc.thy ===== *)
theory Kalloc
  imports CStrings
begin

text \<open>
  \<open>kernel/kalloc.c\<close>: the physical page allocator.  The free pages form a linked list whose
  \<open>next\<close> pointers are stored in the first eight bytes of the free pages themselves.  The
  abstraction is the list of free page addresses; \<open>kfree\<close> pushes, \<open>kalloc\<close> pops.
\<close>

abbreviation PGSIZE :: u64 where "PGSIZE \<equiv> 4096"
abbreviation KERNBASE :: u64 where "KERNBASE \<equiv> 0x80000000"
abbreviation PHYSTOP :: u64 where "PHYSTOP \<equiv> 0x88000000"

definition PGROUNDUP :: "u64 \<Rightarrow> u64" where
  "PGROUNDUP sz = (sz + PGSIZE - 1) AND NOT (PGSIZE - 1)"

definition PGROUNDDOWN :: "u64 \<Rightarrow> u64" where
  "PGROUNDDOWN a = a AND NOT (PGSIZE - 1)"

text \<open>
  \<open>kmem\<close>: the memory, the head of the free list, and \<open>kend\<close>, the linker symbol \<open>end\<close> (the
  first address after the kernel image), which \<open>kernel.ld\<close> fixes.  Every step of the kernel
  is one critical section of \<open>kmem.lock\<close>.
\<close>

record kmem =
  mem :: mem
  freelist :: u64
  kend :: u64

definition kfree :: "u64 \<Rightarrow> 'a kmem_scheme \<Rightarrow> 'a kmem_scheme res" where
  "kfree pa s =
     (if pa mod PGSIZE \<noteq> 0 \<or> pa < kend s \<or> pa \<ge> PHYSTOP then Panic ''kfree''
      else let m1 = memset (mem s) pa 1 4096
           in Ok (s\<lparr>mem := st64 m1 pa (freelist s), freelist := pa\<rparr>))"

definition kalloc :: "'a kmem_scheme \<Rightarrow> u64 \<times> 'a kmem_scheme" where
  "kalloc s =
     (let r = freelist s;
          s1 = (if r \<noteq> 0 then s\<lparr>freelist := ld64 (mem s) r\<rparr> else s)
      in (r, if r \<noteq> 0 then s1\<lparr>mem := memset (mem s1) r 5 4096\<rparr> else s1))"

text \<open>The loop of \<open>freerange\<close> ends because \<open>kfree\<close> panics at \<open>PHYSTOP\<close>.\<close>

lemma kfree_Ok_bounds:
  "kfree pa s = Ok s' \<Longrightarrow> pa mod PGSIZE = 0 \<and> kend s \<le> pa \<and> pa < PHYSTOP"
  by (auto simp: kfree_def Let_def not_le not_less split: if_splits)

function freerange_loop :: "u64 \<Rightarrow> u64 \<Rightarrow> 'a kmem_scheme \<Rightarrow> 'a kmem_scheme res" where
  "freerange_loop p e s =
     (if p + PGSIZE \<le> e then rbind (kfree p s) (\<lambda>s'. freerange_loop (p + PGSIZE) e s') else Ok s)"
  by pat_completeness auto
termination
proof (relation "measure (\<lambda>(p, e, s). unat PHYSTOP - unat p)")
  fix p e :: u64 and s s' :: "'a kmem_scheme"
  assume "kfree p s = Ok s'"
  then have "unat p < unat PHYSTOP" using kfree_Ok_bounds word_less_nat_alt by blast
  moreover from this have "unat (p + PGSIZE) = unat p + unat PGSIZE"
    by (intro unat_add_no_wrap) simp
  ultimately show "((p + PGSIZE, e, s'), (p, e, s)) \<in> measure (\<lambda>(p, e, s). unat PHYSTOP - unat p)"
    by simp
qed simp

declare freerange_loop.simps [simp del]

definition freerange :: "u64 \<Rightarrow> u64 \<Rightarrow> 'a kmem_scheme \<Rightarrow> 'a kmem_scheme res" where
  "freerange pa_start pa_end s = freerange_loop (PGROUNDUP pa_start) pa_end s"

definition kinit :: "'a kmem_scheme \<Rightarrow> 'a kmem_scheme res" where
  "kinit s = freerange (kend s) PHYSTOP s"

section \<open>The free list\<close>

text \<open>\<open>free_page e p\<close>: \<open>p\<close> is an address \<open>kfree\<close> accepts (and not the null pointer).\<close>

definition aligned :: "u64 \<Rightarrow> bool" where
  "aligned p \<longleftrightarrow> p mod PGSIZE = 0"

definition free_page :: "u64 \<Rightarrow> u64 \<Rightarrow> bool" where
  "free_page e p \<longleftrightarrow> aligned p \<and> e \<le> p \<and> p < PHYSTOP \<and> p \<noteq> 0"

text \<open>\<open>chain m p ps\<close>: from \<open>p\<close>, the \<open>next\<close> pointers lead through exactly \<open>ps\<close> to null.\<close>

fun chain :: "mem \<Rightarrow> u64 \<Rightarrow> u64 list \<Rightarrow> bool" where
  "chain m p [] \<longleftrightarrow> p = 0"
| "chain m p (x # xs) \<longleftrightarrow> p = x \<and> x \<noteq> 0 \<and> chain m (ld64 m x) xs"

definition free_pages :: "'a kmem_scheme \<Rightarrow> u64 list \<Rightarrow> bool" where
  "free_pages s ps \<longleftrightarrow> chain (mem s) (freelist s) ps \<and> distinct ps \<and> (\<forall>p\<in>set ps. free_page (kend s) p)"

lemma and_not_4095: "(x :: u64) AND NOT (PGSIZE - 1) = push_bit 12 (drop_bit 12 x)"
proof -
  have m: "PGSIZE - 1 = (mask 12 :: u64)" by (simp add: mask_eq_exp_minus_1)
  show ?thesis unfolding m by (rule bit_word_eqI) (auto simp: bit_simps)
qed

lemma unat_PGROUNDDOWN: "unat (PGROUNDDOWN x) = unat x - unat x mod 4096"
proof -
  have "push_bit 12 (drop_bit 12 x) + take_bit 12 x = x" by (rule bits_ident)
  then have "push_bit 12 (drop_bit 12 x) = x - take_bit 12 x" by (metis add_diff_cancel_right')
  moreover have t: "unat (take_bit 12 x) = unat x mod 4096"
    by (simp only: unsigned_take_bit_eq) (simp add: take_bit_eq_mod)
  moreover have "take_bit 12 x \<le> x" using t by (simp add: word_le_nat_alt)
  ultimately show ?thesis unfolding PGROUNDDOWN_def and_not_4095 by (simp add: unat_sub)
qed

lemma aligned_iff: "aligned x \<longleftrightarrow> unat x mod 4096 = 0"
  unfolding aligned_def by (simp only: word_unat_eq_iff unat_mod) simp

lemma div_page: "4096 * a \<le> x \<Longrightarrow> x < 4096 * a + 4096 \<Longrightarrow> a = (x :: nat) div 4096"
  by arith

lemma PGROUNDDOWN_aligned: "aligned (PGROUNDDOWN x)"
  by (simp add: aligned_iff unat_PGROUNDDOWN minus_mod_eq_mult_div)

lemma PGROUNDDOWN_le: "unat (PGROUNDDOWN x) \<le> unat x"
  by (simp add: unat_PGROUNDDOWN)

lemma PGROUNDUP_eq: "PGROUNDUP x = PGROUNDDOWN (x + 4095)"
  by (simp add: PGROUNDUP_def PGROUNDDOWN_def add.commute)

lemma PGROUNDUP_aligned: "aligned (PGROUNDUP x)"
  by (simp add: PGROUNDUP_eq PGROUNDDOWN_aligned)

lemma PGROUNDUP_bounds:
  assumes "unat x + 4095 < 2 ^ 64"
  shows "unat x \<le> unat (PGROUNDUP x)" "unat (PGROUNDUP x) < unat x + 4096"
proof -
  have "unat (x + 4095) = unat x + 4095" using assms unat_add_no_wrap[of x 4095] by simp
  then have *: "unat (PGROUNDUP x) = unat x + 4095 - (unat x + 4095) mod 4096"
    by (simp add: PGROUNDUP_eq unat_PGROUNDDOWN)
  have "(unat x + 4095) mod 4096 < 4096" by simp
  then show "unat x \<le> unat (PGROUNDUP x)" "unat (PGROUNDUP x) < unat x + 4096"
    unfolding * by linarith+
qed

lemma aligned_within:
  assumes "aligned p" "within p 4096 x"
  shows "unat p = 4096 * (unat x div 4096)"
proof -
  obtain k where k: "unat p = 4096 * k" using assms(1) unfolding aligned_iff by (metis mod_0_imp_dvd dvdE)
  have "k = unat x div 4096" using assms(2) unfolding within_def k by (intro div_page) simp_all
  then show ?thesis by (simp only: k)
qed

lemma pages_disjoint:
  assumes "aligned p" "aligned q" "p \<noteq> q" "within p 4096 x"
  shows "\<not> within q 4096 x"
proof
  assume "within q 4096 x"
  then have "unat q = unat p" using aligned_within[of q x] aligned_within[of p x] assms by simp
  then show False using assms(3) by (simp only: word_unat_eq_iff)
qed

lemma free_page_no_wrap: "free_page e p \<Longrightarrow> unat p + 4096 < 2 ^ 64"
  by (auto simp: free_page_def word_less_nat_alt)

lemma memset_page: "unat p + 4096 < 2 ^ 64 \<Longrightarrow>
    memset m p c 4096 x = (if within p 4096 x then word_of_int c else m x)"
  by (simp add: memset_def memset_loop_apply)

lemma st64_page:
  assumes "unat p + 4096 < 2 ^ 64" "\<not> within p 4096 x"
  shows "st64 m p v x = m x"
proof -
  have "\<not> x - p < 8" using assms in_range_iff[of p 8 x] by (auto simp: within_def)
  then show ?thesis by (simp add: st64_apply)
qed

lemma ld64_page_cong:
  assumes "unat p + 4096 < 2 ^ 64" "\<And>x. within p 4096 x \<Longrightarrow> m x = m' x"
  shows "ld64 m p = ld64 m' p"
proof (rule ld64_cong)
  fix i :: u64 assume "i < 8"
  then have "unat i < 8" by (simp add: word_less_nat_alt)
  then have "unat (p + i) = unat p + unat i" using assms(1) by (intro unat_add_no_wrap) simp
  then show "m (p + i) = m' (p + i)" using \<open>unat i < 8\<close> by (intro assms(2)) (simp add: within_def)
qed

lemma chain_cong:
  "(\<And>p. p \<in> set ps \<Longrightarrow> ld64 m' p = ld64 m p) \<Longrightarrow> chain m' a ps = chain m a ps"
  by (induction ps arbitrary: a) auto

lemma chain_other_page:
  assumes "\<And>x. \<not> within r 4096 x \<Longrightarrow> m' x = m x"
    and "\<forall>p\<in>set ps. free_page e p" "aligned r" "r \<notin> set ps"
  shows "chain m' a ps = chain m a ps"
proof (rule chain_cong)
  fix p assume p: "p \<in> set ps"
  have "m' x = m x" if "within p 4096 x" for x
    using assms(1) pages_disjoint[of p r x] assms(2-4) p that by (auto simp: free_page_def)
  moreover have "unat p + 4096 < 2 ^ 64" using assms(2) p free_page_no_wrap by blast
  ultimately show "ld64 m' p = ld64 m p" using ld64_page_cong by blast
qed

lemma kalloc_empty: "free_pages s [] \<Longrightarrow> kalloc s = (0, s)"
  by (simp add: kalloc_def free_pages_def)

lemma kalloc_pops:
  assumes "free_pages s (p # ps)"
  shows "\<exists>s'. kalloc s = (p, s') \<and> free_pages s' ps \<and>
    s' = s\<lparr>mem := memset (mem s) p 5 4096, freelist := ld64 (mem s) p\<rparr>"
proof -
  let ?m = "memset (mem s) p 5 4096"
  have h: "freelist s = p" "p \<noteq> 0" "chain (mem s) (ld64 (mem s) p) ps" "distinct (p # ps)"
    "free_page (kend s) p" "\<forall>q\<in>set ps. free_page (kend s) q"
    using assms by (auto simp: free_pages_def)
  have "chain ?m (ld64 (mem s) p) ps = chain (mem s) (ld64 (mem s) p) ps"
    using h free_page_no_wrap[of "kend s" p]
    by (intro chain_other_page[of p]) (auto simp: memset_page free_page_def)
  then show ?thesis using h by (auto simp: kalloc_def free_pages_def Let_def)
qed

lemma kfree_pushes:
  assumes "free_pages s ps" "free_page (kend s) p" "p \<notin> set ps"
  shows "\<exists>s'. kfree p s = Ok s' \<and> free_pages s' (p # ps) \<and>
    s' = s\<lparr>mem := st64 (memset (mem s) p 1 4096) p (freelist s), freelist := p\<rparr>"
proof -
  let ?m = "st64 (memset (mem s) p 1 4096) p (freelist s)"
  have nw: "unat p + 4096 < 2 ^ 64" using assms(2) by (rule free_page_no_wrap)
  have "chain ?m (freelist s) ps = chain (mem s) (freelist s) ps"
    using assms nw by (intro chain_other_page[of p])
      (auto simp: memset_page st64_page free_page_def free_pages_def)
  moreover have "ld64 ?m p = freelist s" by (rule ld64_st64)
  ultimately show ?thesis using assms
    by (auto simp: kfree_def free_pages_def free_page_def aligned_def Let_def)
qed


section \<open>The allocator interface\<close>

text \<open>
  What the rest of the kernel relies on: an abstract stack of free pages, popped by
  allocation and pushed by freeing.
\<close>

locale page_allocator =
  fixes alloc :: "'s \<Rightarrow> u64 \<times> 's"
    and free :: "u64 \<Rightarrow> 's \<Rightarrow> 's res"
    and pages :: "'s \<Rightarrow> u64 list \<Rightarrow> bool"
    and can_free :: "'s \<Rightarrow> u64 \<Rightarrow> bool"
  assumes alloc_empty: "pages s [] \<Longrightarrow> alloc s = (0, s)"
    and alloc_pop: "pages s (p # ps) \<Longrightarrow> \<exists>s'. alloc s = (p, s') \<and> pages s' ps"
    and free_push: "pages s ps \<Longrightarrow> can_free s p \<Longrightarrow> p \<notin> set ps \<Longrightarrow>
      \<exists>s'. free p s = Ok s' \<and> pages s' (p # ps)"
    and pages_distinct: "pages s ps \<Longrightarrow> distinct ps \<and> 0 \<notin> set ps"

text \<open>\<open>n\<close> allocations in a row, the failed ones (null results) included.\<close>

fun alloc_many :: "('s \<Rightarrow> u64 \<times> 's) \<Rightarrow> nat \<Rightarrow> 's \<Rightarrow> u64 list \<times> 's" where
  "alloc_many alloc 0 s = ([], s)"
| "alloc_many alloc (Suc n) s =
     (let (p, s1) = alloc s; (ps, s2) = alloc_many alloc n s1 in (p # ps, s2))"

context page_allocator
begin

lemma alloc_many_pages:
  "pages s ps \<Longrightarrow> \<exists>s'. alloc_many alloc n s = (take n ps @ replicate (n - length ps) 0, s') \<and>
    pages s' (drop n ps)"
proof (induction n arbitrary: s ps)
  case 0
  then show ?case by simp
next
  case (Suc n)
  show ?case
  proof (cases ps)
    case Nil
    then show ?thesis using Suc.IH[of s "[]"] Suc.prems alloc_empty by auto
  next
    case (Cons p qs)
    then obtain s1 where "alloc s = (p, s1)" "pages s1 qs" using alloc_pop Suc.prems by blast
    then show ?thesis using Suc.IH[of s1 qs] Cons by auto
  qed
qed

lemma alloc_many_distinct:
  assumes "pages s ps"
  shows "distinct (filter (\<lambda>p. p \<noteq> 0) (fst (alloc_many alloc n s)))"
    and "set (filter (\<lambda>p. p \<noteq> 0) (fst (alloc_many alloc n s))) \<subseteq> set ps"
proof -
  have "filter (\<lambda>p. p \<noteq> 0) (take n ps) = take n ps"
    using pages_distinct[OF assms] by (auto simp: filter_id_conv dest: in_set_takeD)
  then show "distinct (filter (\<lambda>p. p \<noteq> 0) (fst (alloc_many alloc n s)))"
    "set (filter (\<lambda>p. p \<noteq> 0) (fst (alloc_many alloc n s))) \<subseteq> set ps"
    using alloc_many_pages[OF assms, of n] pages_distinct[OF assms]
    by (auto simp: set_take_subset dest: in_set_takeD)
qed

lemma free_then_alloc:
  assumes "pages s ps" "can_free s p" "p \<notin> set ps"
  shows "\<exists>s1 s2. free p s = Ok s1 \<and> alloc s1 = (p, s2) \<and> pages s2 ps"
  using free_push[OF assms] alloc_pop by blast

end

interpretation kmem: page_allocator kalloc kfree free_pages "\<lambda>s p. free_page (kend s) p"
proof unfold_locales
  fix s :: "'a kmem_scheme" and p ps
  show "free_pages s [] \<Longrightarrow> kalloc s = (0, s)" by (rule kalloc_empty)
  show "free_pages s (p # ps) \<Longrightarrow> \<exists>s'. kalloc s = (p, s') \<and> free_pages s' ps"
    using kalloc_pops by blast
  show "free_pages s ps \<Longrightarrow> free_page (kend s) p \<Longrightarrow> p \<notin> set ps \<Longrightarrow>
      \<exists>s'. kfree p s = Ok s' \<and> free_pages s' (p # ps)"
    using kfree_pushes by blast
  show "free_pages s ps \<Longrightarrow> distinct ps \<and> 0 \<notin> set ps"
    by (auto simp: free_pages_def free_page_def)
qed

section \<open>Boot: \<open>freerange\<close>\<close>

text \<open>The pages \<open>freerange_loop\<close> frees, in order.\<close>

definition page_run :: "u64 \<Rightarrow> nat \<Rightarrow> u64 list" where
  "page_run p n = map (\<lambda>i. p + 4096 * word_of_nat i) [0..<n]"

lemma page_run_Suc: "page_run p (Suc n) = p # page_run (p + PGSIZE) n"
  by (simp add: page_run_def upt_conv_Cons map_Suc_upt[symmetric] algebra_simps del: upt_Suc)

lemma freerange_loop_pages:
  assumes "free_pages s ps" "aligned p" "kend s \<le> p" "p \<noteq> 0" "unat e \<le> unat PHYSTOP"
    and "\<forall>q\<in>set ps. unat q < unat p"
    and "n = (unat e - unat p) div 4096" "unat p \<le> unat PHYSTOP"
  shows "\<exists>s'. freerange_loop p e s = Ok s' \<and> free_pages s' (rev (page_run p n) @ ps) \<and> kend s' = kend s"
  using assms
proof (induction n arbitrary: p s ps)
  case 0
  have "unat (p + PGSIZE) = unat p + 4096"
    using 0 by (subst unat_add_no_wrap) auto
  then have "\<not> p + PGSIZE \<le> e" using 0 by (simp add: word_le_nat_alt)
  then show ?case using 0 by (simp add: freerange_loop.simps page_run_def)
next
  case (Suc n)
  have lt: "unat p + 4096 \<le> unat e" using Suc.prems(7) by (cases "unat p + 4096 \<le> unat e") auto
  then have pe: "unat (p + PGSIZE) = unat p + 4096"
    using Suc.prems(5) by (subst unat_add_no_wrap) auto
  have fp: "free_page (kend s) p"
    using Suc.prems lt by (auto simp: free_page_def word_less_nat_alt)
  have "p \<notin> set ps" using Suc.prems(6) by auto
  then obtain s1 where s1: "kfree p s = Ok s1" "free_pages s1 (p # ps)" "kend s1 = kend s"
    using kfree_pushes[OF Suc.prems(1) fp] by auto
  have "\<exists>s'. freerange_loop (p + PGSIZE) e s1 = Ok s' \<and>
      free_pages s' (rev (page_run (p + PGSIZE) n) @ (p # ps)) \<and> kend s' = kend s1"
  proof (rule Suc.IH)
    show "aligned (p + PGSIZE)" using Suc.prems(2) pe by (simp add: aligned_iff)
    show "kend s1 \<le> p + PGSIZE" using Suc.prems(3) pe s1(3) by (simp add: word_le_nat_alt)
    show "p + PGSIZE \<noteq> 0" using pe by (metis unat_0 add_is_0 zero_neq_numeral)
    show "\<forall>q\<in>set (p # ps). unat q < unat (p + PGSIZE)" using Suc.prems(6) pe by auto
    show "n = (unat e - unat (p + PGSIZE)) div 4096" using Suc.prems(7) pe lt by simp
    show "unat (p + PGSIZE) \<le> unat PHYSTOP" using pe lt Suc.prems(5) by simp
  qed (use s1 Suc.prems in auto)
  moreover have "p + PGSIZE \<le> e" using lt pe by (simp add: word_le_nat_alt)
  ultimately show ?case using s1 by (simp add: freerange_loop.simps[of p] page_run_Suc)
qed


section \<open>Properties\<close>

text \<open>C21. The allocator is a stack of pages: a page freed is the next one allocated, and the
  free list is back where it was.\<close>

theorem kfree_kalloc_roundtrip:
  assumes "free_pages s ps" and "free_page (kend s) p" and "p \<notin> set ps"
  shows "\<exists>s1 s2. kfree p s = Ok s1 \<and> kalloc s1 = (p, s2) \<and> free_pages s2 ps"
  using assms by (rule kmem.free_then_alloc)

theorem kfree_kalloc_roundtrip_witness:
  "\<exists>s1 s2. kfree 0x80003000 \<lparr>mem = \<lambda>_. 0, freelist = 0, kend = 0x80001234\<rparr> = Ok s1 \<and>
     kalloc s1 = (0x80003000, s2) \<and> free_pages s2 []"
  by (rule kfree_kalloc_roundtrip) (auto simp: free_pages_def free_page_def aligned_def)

text \<open>C22. \<open>n\<close> calls of \<open>kalloc\<close> never hand out the same page twice, only pages of the free
  list, and null only once the list is empty.\<close>

theorem kalloc_distinct_pages:
  assumes "free_pages s ps"
  shows "fst (alloc_many kalloc n s) = take n ps @ replicate (n - length ps) 0 \<and>
    distinct (filter (\<lambda>p. p \<noteq> 0) (fst (alloc_many kalloc n s)))"
  using kmem.alloc_many_pages[OF assms, of n] kmem.alloc_many_distinct(1)[OF assms, of n] by auto

theorem kalloc_distinct_pages_witness:
  "fst (alloc_many kalloc 2 \<lparr>mem = \<lambda>_. 0, freelist = 0x80003000, kend = 0x80001234\<rparr>) = [0x80003000, 0]"
proof -
  have "free_pages \<lparr>mem = \<lambda>_. 0, freelist = 0x80003000, kend = 0x80001234\<rparr> [0x80003000]"
    by (simp add: free_pages_def free_page_def aligned_def ld64_def ld32_def le64_def le32_def)
  from kalloc_distinct_pages[OF this, of 2] show ?thesis by simp
qed

text \<open>At boot \<open>kinit\<close> succeeds and puts on the free list exactly the whole pages between
  the end of the kernel image and \<open>PHYSTOP\<close>.\<close>

theorem kinit_frees_all_pages:
  assumes "freelist s = 0" and "0 < unat (kend s)" and "unat (kend s) \<le> unat PHYSTOP"
  shows "\<exists>s'. kinit s = Ok s' \<and> free_pages s' (rev (page_run (PGROUNDUP (kend s))
    ((unat PHYSTOP - unat (PGROUNDUP (kend s))) div 4096)))"
proof -
  have b: "unat (kend s) \<le> unat (PGROUNDUP (kend s))" "unat (PGROUNDUP (kend s)) < unat (kend s) + 4096"
    using PGROUNDUP_bounds[of "kend s"] assms(3) by auto
  have al: "aligned (PGROUNDUP (kend s))" "aligned PHYSTOP"
    by (rule PGROUNDUP_aligned) (simp add: aligned_iff)
  have "unat (PGROUNDUP (kend s)) \<le> unat PHYSTOP"
    using b assms(3) al unfolding aligned_iff by auto
  moreover have "free_pages s []" using assms(1) by (simp add: free_pages_def)
  moreover have "PGROUNDUP (kend s) \<noteq> 0" using b(1) assms(2) by auto
  ultimately show ?thesis
    using freerange_loop_pages[of s "[]" "PGROUNDUP (kend s)" PHYSTOP] al(1) b(1)
    by (auto simp: kinit_def freerange_def word_le_nat_alt)
qed

theorem kinit_frees_all_pages_witness:
  "\<exists>s'. kinit \<lparr>mem = \<lambda>_. 0, freelist = 0, kend = 0x87ffe123\<rparr> = Ok s' \<and> free_pages s' [0x87fff000]"
proof -
  have "PGROUNDUP 0x87ffe123 = 0x87fff000" by (simp add: PGROUNDUP_def)
  then show ?thesis
    using kinit_frees_all_pages[of "\<lparr>mem = \<lambda>_. 0, freelist = 0, kend = 0x87ffe123\<rparr>"]
    by (simp add: page_run_def)
qed

end
