(* ===== verification/Vm.thy ===== *)
theory Vm
  imports Kalloc
begin

text \<open>
  \<open>kernel/vm.c\<close> (with the page-table macros of \<open>riscv.h\<close>): Sv39 page tables that live in
  physical memory.  A \<open>pagetable_t\<close> is the address of a page of 512 eight-byte entries, a
  \<open>pte_t*\<close> the address of an entry.  \<open>panic\<close> is \<open>Panic\<close>, a null result is 0, a C return
  code of -1 is the value -1.  The address-increment loops need no fuel: \<open>walk\<close> panics at
  \<open>MAXVA\<close>.  The recursion of \<open>freewalk\<close> takes the depth of the tree as fuel (3 for Sv39).
  Kernel memory that \<open>copyout\<close> reads and \<open>copyin\<close>/\<open>copyinstr\<close> write is passed as the list
  of its bytes.
\<close>

section \<open>Page table entries\<close>

definition PTE_V :: u64 where "PTE_V = 1"
definition PTE_R :: u64 where "PTE_R = 2"
definition PTE_W :: u64 where "PTE_W = 4"
definition PTE_X :: u64 where "PTE_X = 8"
definition PTE_U :: u64 where "PTE_U = 16"

definition PA2PTE :: "u64 \<Rightarrow> u64" where "PA2PTE pa = push_bit 10 (drop_bit 12 pa)"
definition PTE2PA :: "u64 \<Rightarrow> u64" where "PTE2PA pte = push_bit 12 (drop_bit 10 pte)"
definition PTE_FLAGS :: "u64 \<Rightarrow> u64" where "PTE_FLAGS pte = pte AND 0x3FF"
definition PX :: "nat \<Rightarrow> u64 \<Rightarrow> u64" where "PX level va = drop_bit (12 + 9 * level) va AND 0x1FF"

abbreviation MAXVA :: u64 where "MAXVA \<equiv> 0x4000000000"
abbreviation TRAMPOLINE :: u64 where "TRAMPOLINE \<equiv> 0x3FFFFFF000"
abbreviation TRAPFRAME :: u64 where "TRAPFRAME \<equiv> 0x3FFFFFE000"

definition KSTACK :: "nat \<Rightarrow> u64" where
  "KSTACK p = TRAMPOLINE - (word_of_nat p + 1) * 2 * PGSIZE"

lemmas pte_defs = PTE_V_def PTE_R_def PTE_W_def PTE_X_def PTE_U_def

section \<open>Walking\<close>

fun walk_level :: "nat \<Rightarrow> u64 \<Rightarrow> u64 \<Rightarrow> bool \<Rightarrow> 'a kmem_scheme \<Rightarrow> u64 \<times> 'a kmem_scheme" where
  "walk_level 0 pagetable va alloc s = (pagetable + 8 * PX 0 va, s)"
| "walk_level (Suc l) pagetable va alloc s =
     (let pte = pagetable + 8 * PX (Suc l) va; v = ld64 (mem s) pte
      in if v AND PTE_V \<noteq> 0 then walk_level l (PTE2PA v) va alloc s
         else if \<not> alloc then (0, s)
         else let (pt, s1) = kalloc s
              in if pt = 0 then (0, s1)
                 else let m1 = memset (mem s1) pt 0 4096;
                          s2 = s1\<lparr>mem := st64 m1 pte (PA2PTE pt OR PTE_V)\<rparr>
                      in walk_level l pt va alloc s2)"

definition walk :: "u64 \<Rightarrow> u64 \<Rightarrow> bool \<Rightarrow> 'a kmem_scheme \<Rightarrow> (u64 \<times> 'a kmem_scheme) res" where
  "walk pagetable va alloc s =
     (if va \<ge> MAXVA then Panic ''walk'' else Ok (walk_level 2 pagetable va alloc s))"

definition walkaddr :: "u64 \<Rightarrow> u64 \<Rightarrow> 'a kmem_scheme \<Rightarrow> u64" where
  "walkaddr pagetable va s =
     (if va \<ge> MAXVA then 0
      else let (pte, _) = walk_level 2 pagetable va False s
           in if pte = 0 then 0
              else let v = ld64 (mem s) pte
                   in if v AND PTE_V = 0 then 0 else if v AND PTE_U = 0 then 0 else PTE2PA v)"

lemma walk_Ok: "walk pt va al s = Ok r \<Longrightarrow> va < MAXVA \<and> r = walk_level 2 pt va al s"
  by (auto simp: walk_def not_le split: if_splits)

lemma PGROUNDDOWN_MAXVA:
  "PGROUNDDOWN a < MAXVA \<Longrightarrow> unat a < unat MAXVA" 
proof -
  assume "PGROUNDDOWN a < MAXVA"
  then have "unat a - unat a mod 4096 < 4096 * 67108864"
    by (simp add: word_less_nat_alt unat_PGROUNDDOWN)
  then have "unat a < 4096 * 67108864" by (simp add: minus_mod_eq_mult_div)
  then show ?thesis by simp
qed

section \<open>Mapping\<close>

function mappages_loop ::
  "u64 \<Rightarrow> u64 \<Rightarrow> u64 \<Rightarrow> u64 \<Rightarrow> u64 \<Rightarrow> 'a kmem_scheme \<Rightarrow> (int \<times> 'a kmem_scheme) res" where
  "mappages_loop pt a lastva pa perm s =
     rbind (walk pt a True s) (\<lambda>(pte, s1).
       if pte = 0 then Ok (-1, s1)
       else if ld64 (mem s1) pte AND PTE_V \<noteq> 0 then Panic ''mappages: remap''
       else let s2 = s1\<lparr>mem := st64 (mem s1) pte (PA2PTE pa OR perm OR PTE_V)\<rparr>
            in if a = lastva then Ok (0, s2)
               else mappages_loop pt (a + PGSIZE) lastva (pa + PGSIZE) perm s2)"
  by pat_completeness auto
termination
proof (relation "measure (\<lambda>(pt, a, lastva, pa, perm, s). unat MAXVA - unat a)", goal_cases)
  case 1
  then show ?case by simp
next
  case (2 pt a lastva pa perm s x pte s1 s2)
  then have "unat a < unat MAXVA" using walk_Ok word_less_nat_alt by blast
  moreover from this have "unat (a + PGSIZE) = unat a + 4096"
    by (subst unat_add_no_wrap) simp_all
  ultimately show ?case by simp
qed

declare mappages_loop.simps [simp del]

definition mappages ::
  "u64 \<Rightarrow> u64 \<Rightarrow> u64 \<Rightarrow> u64 \<Rightarrow> u64 \<Rightarrow> 'a kmem_scheme \<Rightarrow> (int \<times> 'a kmem_scheme) res" where
  "mappages pt va sz pa perm s =
     (if sz = 0 then Panic ''mappages: size''
      else mappages_loop pt (PGROUNDDOWN va) (PGROUNDDOWN (va + sz - 1)) pa perm s)"

definition kvmmap :: "u64 \<Rightarrow> u64 \<Rightarrow> u64 \<Rightarrow> u64 \<Rightarrow> u64 \<Rightarrow> 'a kmem_scheme \<Rightarrow> 'a kmem_scheme res" where
  "kvmmap kpgtbl va pa sz perm s =
     rbind (mappages kpgtbl va sz pa perm s) (\<lambda>(r, s'). if r \<noteq> 0 then Panic ''kvmmap'' else Ok s')"

text \<open>\<open>proc_mapstacks\<close> of \<open>proc.c\<close>, over the process slots \<open>i, \<dots>, NPROC - 1\<close>.\<close>

fun proc_mapstacks :: "nat list \<Rightarrow> u64 \<Rightarrow> 'a kmem_scheme \<Rightarrow> 'a kmem_scheme res" where
  "proc_mapstacks [] kpgtbl s = Ok s"
| "proc_mapstacks (i # is) kpgtbl s =
     (let (pa, s1) = kalloc s
      in if pa = 0 then Panic ''kalloc''
         else rbind (kvmmap kpgtbl (KSTACK i) pa PGSIZE (PTE_R OR PTE_W) s1)
                (\<lambda>s2. proc_mapstacks is kpgtbl s2))"

text \<open>\<open>etext\<close> and \<open>trampoline\<close> are linker symbols.\<close>

definition kvmmake :: "u64 \<Rightarrow> u64 \<Rightarrow> 'a kmem_scheme \<Rightarrow> (u64 \<times> 'a kmem_scheme) res" where
  "kvmmake etext trampoline s =
     (let (kpgtbl, s0) = kalloc s;
          s1 = s0\<lparr>mem := memset (mem s0) kpgtbl 0 4096\<rparr>
      in rbind (kvmmap kpgtbl 0x10000000 0x10000000 PGSIZE (PTE_R OR PTE_W) s1) (\<lambda>s2.
         rbind (kvmmap kpgtbl 0x10001000 0x10001000 PGSIZE (PTE_R OR PTE_W) s2) (\<lambda>s3.
         rbind (kvmmap kpgtbl 0x0c000000 0x0c000000 0x400000 (PTE_R OR PTE_W) s3) (\<lambda>s4.
         rbind (kvmmap kpgtbl KERNBASE KERNBASE (etext - KERNBASE) (PTE_R OR PTE_X) s4) (\<lambda>s5.
         rbind (kvmmap kpgtbl etext etext (PHYSTOP - etext) (PTE_R OR PTE_W) s5) (\<lambda>s6.
         rbind (kvmmap kpgtbl TRAMPOLINE trampoline PGSIZE (PTE_R OR PTE_X) s6) (\<lambda>s7.
         rbind (proc_mapstacks [0..<64] kpgtbl s7) (\<lambda>s8. Ok (kpgtbl, s8)))))))))"

section \<open>Unmapping, growing and shrinking user memory\<close>

function uvmunmap_loop :: "u64 \<Rightarrow> u64 \<Rightarrow> u64 \<Rightarrow> bool \<Rightarrow> 'a kmem_scheme \<Rightarrow> 'a kmem_scheme res" where
  "uvmunmap_loop pt a end_va do_free s =
     (if a < end_va then
        rbind (walk pt a False s) (\<lambda>(pte, s1).
          if pte = 0 then Panic ''uvmunmap: walk''
          else if ld64 (mem s1) pte AND PTE_V = 0 then Panic ''uvmunmap: not mapped''
          else if PTE_FLAGS (ld64 (mem s1) pte) = PTE_V then Panic ''uvmunmap: not a leaf''
          else rbind (if do_free then kfree (PTE2PA (ld64 (mem s1) pte)) s1 else Ok s1)
                 (\<lambda>s2. uvmunmap_loop pt (a + PGSIZE) end_va do_free
                         (s2\<lparr>mem := st64 (mem s2) pte 0\<rparr>)))
      else Ok s)"
  by pat_completeness auto
termination
proof (relation "measure (\<lambda>(pt, a, e, f, s). unat MAXVA - unat a)", goal_cases)
  case 1
  then show ?case by simp
next
  case (2 pt a e f s x pte s1 s2)
  then have "unat a < unat MAXVA" using walk_Ok word_less_nat_alt by blast
  moreover from this have "unat (a + PGSIZE) = unat a + 4096"
    by (subst unat_add_no_wrap) simp_all
  ultimately show ?case by simp
qed

declare uvmunmap_loop.simps [simp del]

definition uvmunmap :: "u64 \<Rightarrow> u64 \<Rightarrow> u64 \<Rightarrow> bool \<Rightarrow> 'a kmem_scheme \<Rightarrow> 'a kmem_scheme res" where
  "uvmunmap pt va npages do_free s =
     (if va mod PGSIZE \<noteq> 0 then Panic ''uvmunmap: not aligned''
      else uvmunmap_loop pt va (va + npages * PGSIZE) do_free s)"

definition uvmcreate :: "'a kmem_scheme \<Rightarrow> u64 \<times> 'a kmem_scheme" where
  "uvmcreate s =
     (let (pt, s1) = kalloc s
      in if pt = 0 then (0, s1) else (pt, s1\<lparr>mem := memset (mem s1) pt 0 4096\<rparr>))"

definition uvmfirst :: "u64 \<Rightarrow> u64 \<Rightarrow> u32 \<Rightarrow> 'a kmem_scheme \<Rightarrow> 'a kmem_scheme res" where
  "uvmfirst pt src sz s =
     (if sz \<ge> 4096 then Panic ''uvmfirst: more than a page''
      else let (pg, s1) = kalloc s; s2 = s1\<lparr>mem := memset (mem s1) pg 0 4096\<rparr>
           in rbind (mappages pt 0 PGSIZE pg (PTE_W OR PTE_R OR PTE_X OR PTE_U) s2)
                (\<lambda>(_, s3). Ok (s3\<lparr>mem := memmove (mem s3) pg src sz\<rparr>)))"

definition uvmdealloc :: "u64 \<Rightarrow> u64 \<Rightarrow> u64 \<Rightarrow> 'a kmem_scheme \<Rightarrow> (u64 \<times> 'a kmem_scheme) res" where
  "uvmdealloc pt oldsz newsz s =
     (if newsz \<ge> oldsz then Ok (oldsz, s)
      else if PGROUNDUP newsz < PGROUNDUP oldsz
      then let npages = scast (ucast ((PGROUNDUP oldsz - PGROUNDUP newsz) div PGSIZE) :: u32) :: u64
           in rbind (uvmunmap pt (PGROUNDUP newsz) npages True s) (\<lambda>s'. Ok (newsz, s'))
      else Ok (newsz, s))"

lemma mappages_page_Ok:
  assumes "mappages pt a PGSIZE pa perm s = Ok r"
  shows "unat a < unat MAXVA"
proof -
  have "mappages_loop pt (PGROUNDDOWN a) (PGROUNDDOWN (a + PGSIZE - 1)) pa perm s = Ok r"
    using assms by (simp add: mappages_def)
  then have "\<exists>x. walk pt (PGROUNDDOWN a) True s = Ok x"
    by (subst (asm) mappages_loop.simps) auto
  then show ?thesis using walk_Ok PGROUNDDOWN_MAXVA by blast
qed

text \<open>\<open>a\<close> is the loop variable, \<open>oldsz\<close> the rounded-up old size the error path shrinks back to.\<close>

function uvmalloc_loop ::
  "u64 \<Rightarrow> u64 \<Rightarrow> u64 \<Rightarrow> u64 \<Rightarrow> u64 \<Rightarrow> 'a kmem_scheme \<Rightarrow> (u64 \<times> 'a kmem_scheme) res" where
  "uvmalloc_loop pt a oldsz newsz xperm s =
     (if a < newsz then
        (case kalloc s of (pg, s1) \<Rightarrow>
           if pg = 0 then rbind (uvmdealloc pt a oldsz s1) (\<lambda>(_, s2). Ok (0, s2))
           else let s2 = s1\<lparr>mem := memset (mem s1) pg 0 4096\<rparr>
                in rbind (mappages pt a PGSIZE pg (PTE_R OR PTE_U OR xperm) s2) (\<lambda>(r, s3).
                     if r \<noteq> 0
                     then rbind (kfree pg s3) (\<lambda>s4.
                          rbind (uvmdealloc pt a oldsz s4) (\<lambda>(_, s5). Ok (0, s5)))
                     else uvmalloc_loop pt (a + PGSIZE) oldsz newsz xperm s3))
      else Ok (newsz, s))"
  by pat_completeness auto
termination
proof (relation "measure (\<lambda>(pt, a, l, n, x, s). unat MAXVA - unat a)", goal_cases)
  case 1
  then show ?case by simp
next
  case (2 pt a l n xp s pg s1 s2 q r s3)
  then have "unat a < unat MAXVA" using mappages_page_Ok by blast
  moreover from this have "unat (a + PGSIZE) = unat a + 4096"
    by (subst unat_add_no_wrap) simp_all
  ultimately show ?case by simp
qed

declare uvmalloc_loop.simps [simp del]

definition uvmalloc ::
  "u64 \<Rightarrow> u64 \<Rightarrow> u64 \<Rightarrow> u64 \<Rightarrow> 'a kmem_scheme \<Rightarrow> (u64 \<times> 'a kmem_scheme) res" where
  "uvmalloc pt oldsz newsz xperm s =
     (if newsz < oldsz then Ok (oldsz, s)
      else uvmalloc_loop pt (PGROUNDUP oldsz) (PGROUNDUP oldsz) newsz xperm s)"

text \<open>
  One page-table page: every valid non-leaf entry is freed recursively and cleared, a valid
  leaf is a panic; then the page itself is freed.
\<close>

fun freewalk_entries ::
  "(u64 \<Rightarrow> 'a kmem_scheme \<Rightarrow> 'a kmem_scheme res) \<Rightarrow> nat list \<Rightarrow> u64 \<Rightarrow> 'a kmem_scheme \<Rightarrow> 'a kmem_scheme res"
where
  "freewalk_entries rec [] pt s = Ok s"
| "freewalk_entries rec (i # is) pt s =
     (let a = pt + 8 * word_of_nat i; pte = ld64 (mem s) a
      in if pte AND PTE_V \<noteq> 0 \<and> pte AND (PTE_R OR PTE_W OR PTE_X) = 0
         then rbind (rec (PTE2PA pte) s)
                (\<lambda>s1. freewalk_entries rec is pt (s1\<lparr>mem := st64 (mem s1) a 0\<rparr>))
         else if pte AND PTE_V \<noteq> 0 then Panic ''freewalk: leaf''
         else freewalk_entries rec is pt s)"

fun freewalk :: "nat \<Rightarrow> u64 \<Rightarrow> 'a kmem_scheme \<Rightarrow> 'a kmem_scheme res" where
  "freewalk 0 pt s = Stuck"
| "freewalk (Suc d) pt s = rbind (freewalk_entries (freewalk d) [0..<512] pt s) (\<lambda>s1. kfree pt s1)"

definition uvmfree :: "u64 \<Rightarrow> u64 \<Rightarrow> 'a kmem_scheme \<Rightarrow> 'a kmem_scheme res" where
  "uvmfree pt sz s =
     rbind (if sz > 0 then uvmunmap pt 0 (PGROUNDUP sz div PGSIZE) True s else Ok s)
       (\<lambda>s1. freewalk 3 pt s1)"

definition uvmclear :: "u64 \<Rightarrow> u64 \<Rightarrow> 'a kmem_scheme \<Rightarrow> 'a kmem_scheme res" where
  "uvmclear pt va s =
     rbind (walk pt va False s) (\<lambda>(pte, s1).
       if pte = 0 then Panic ''uvmclear''
       else Ok (s1\<lparr>mem := st64 (mem s1) pte (ld64 (mem s1) pte AND NOT PTE_U)\<rparr>))"

function uvmcopy_loop ::
  "u64 \<Rightarrow> u64 \<Rightarrow> u64 \<Rightarrow> u64 \<Rightarrow> 'a kmem_scheme \<Rightarrow> (int \<times> 'a kmem_scheme) res" where
  "uvmcopy_loop old new i sz s =
     (if i < sz then
        rbind (walk old i False s) (\<lambda>(pte, s0).
          if pte = 0 then Panic ''uvmcopy: pte should exist''
          else if ld64 (mem s0) pte AND PTE_V = 0 then Panic ''uvmcopy: page not present''
          else (let v = ld64 (mem s0) pte; pa = PTE2PA v; flags = PTE_FLAGS v in
            case kalloc s0 of (pg, s1) \<Rightarrow>
              if pg = 0
              then rbind (uvmunmap new 0 (i div PGSIZE) True s1) (\<lambda>s2. Ok (-1, s2))
              else rbind (mappages new i PGSIZE pg flags (s1\<lparr>mem := memmove (mem s1) pg pa 4096\<rparr>))
                     (\<lambda>(r, s2).
                       if r \<noteq> 0
                       then rbind (kfree pg s2) (\<lambda>s3.
                            rbind (uvmunmap new 0 (i div PGSIZE) True s3) (\<lambda>s4. Ok (-1, s4)))
                       else uvmcopy_loop old new (i + PGSIZE) sz s2)))
      else Ok (0, s))"
  by pat_completeness auto
termination
proof (relation "measure (\<lambda>(old, new, i, sz, s). unat MAXVA - unat i)", goal_cases)
  case 1
  then show ?case by simp
next
  case (2 old new i sz s x pte s0 v pa flags pg s1 z r s2)
  then have "unat i < unat MAXVA" using mappages_page_Ok by blast
  moreover from this have "unat (i + PGSIZE) = unat i + 4096"
    by (subst unat_add_no_wrap) simp_all
  ultimately show ?case by simp
qed

declare uvmcopy_loop.simps [simp del]

definition uvmcopy :: "u64 \<Rightarrow> u64 \<Rightarrow> u64 \<Rightarrow> 'a kmem_scheme \<Rightarrow> (int \<times> 'a kmem_scheme) res" where
  "uvmcopy old new sz s = uvmcopy_loop old new 0 sz s"

section \<open>Copying between kernel and user memory\<close>

fun store_bytes :: "mem \<Rightarrow> u64 \<Rightarrow> u8 list \<Rightarrow> mem" where
  "store_bytes m a [] = m"
| "store_bytes m a (b # bs) = store_bytes (m(a := b)) (a + 1) bs"

fun load_bytes :: "mem \<Rightarrow> u64 \<Rightarrow> nat \<Rightarrow> u8 list" where
  "load_bytes m a 0 = []"
| "load_bytes m a (Suc n) = m a # load_bytes m (a + 1) n"

text \<open>How many bytes of \<open>len\<close> are on the page of \<open>va\<close>.\<close>

definition page_chunk :: "u64 \<Rightarrow> nat \<Rightarrow> nat" where
  "page_chunk va len = min (unat (PGSIZE - (va - PGROUNDDOWN va))) len"

lemma page_offset: "unat (va - PGROUNDDOWN va) = unat va mod 4096"
  by (simp add: unat_sub word_le_nat_alt unat_PGROUNDDOWN)

lemma page_chunk_eq: "page_chunk va len = min (4096 - unat va mod 4096) len"
proof -
  have "unat (va - PGROUNDDOWN va) < 4096" by (simp add: page_offset)
  then have "unat (PGSIZE - (va - PGROUNDDOWN va)) = 4096 - unat (va - PGROUNDDOWN va)"
    by (subst unat_sub) (auto simp: word_le_nat_alt)
  then show ?thesis by (simp add: page_chunk_def page_offset)
qed

lemma page_chunk_pos: "0 < len \<Longrightarrow> 0 < page_chunk va len"
  by (simp add: page_chunk_eq)

lemma page_chunk_le: "page_chunk va len \<le> len"
  by (simp add: page_chunk_eq)

function copyout :: "u64 \<Rightarrow> u64 \<Rightarrow> u8 list \<Rightarrow> 'a kmem_scheme \<Rightarrow> int \<times> 'a kmem_scheme" where
  "copyout pt dstva src s =
     (if src = [] then (0, s)
      else let va0 = PGROUNDDOWN dstva; pa0 = walkaddr pt va0 s
           in if pa0 = 0 then (-1, s)
              else let n = page_chunk dstva (length src)
                   in copyout pt (va0 + PGSIZE) (drop n src)
                        (s\<lparr>mem := store_bytes (mem s) (pa0 + (dstva - va0)) (take n src)\<rparr>))"
  by pat_completeness auto
termination
  by (relation "measure (\<lambda>(pt, va, src, s). length src)") (auto simp: page_chunk_pos)

function copyin :: "u64 \<Rightarrow> u64 \<Rightarrow> nat \<Rightarrow> 'a kmem_scheme \<Rightarrow> int \<times> u8 list" where
  "copyin pt srcva len s =
     (if len = 0 then (0, [])
      else let va0 = PGROUNDDOWN srcva; pa0 = walkaddr pt va0 s
           in if pa0 = 0 then (-1, [])
              else let n = page_chunk srcva len;
                       bs = load_bytes (mem s) (pa0 + (srcva - va0)) n;
                       (r, rest) = copyin pt (va0 + PGSIZE) (len - n) s
                   in (r, bs @ rest))"
  by pat_completeness auto
termination
  by (relation "measure (\<lambda>(pt, va, len, s). len)") (auto simp: page_chunk_pos)

text \<open>The inner loop of \<open>copyinstr\<close>: the bytes copied, and whether the NUL was reached.\<close>

fun scan_page :: "mem \<Rightarrow> u64 \<Rightarrow> nat \<Rightarrow> u8 list \<times> bool" where
  "scan_page m p 0 = ([], False)"
| "scan_page m p (Suc n) =
     (if m p = 0 then ([0], True)
      else let (bs, got) = scan_page m (p + 1) n in (m p # bs, got))"

function copyinstr :: "u64 \<Rightarrow> u64 \<Rightarrow> nat \<Rightarrow> 'a kmem_scheme \<Rightarrow> int \<times> u8 list" where
  "copyinstr pt srcva mx s =
     (if mx = 0 then (-1, [])
      else let va0 = PGROUNDDOWN srcva; pa0 = walkaddr pt va0 s
           in if pa0 = 0 then (-1, [])
              else let n = page_chunk srcva mx;
                       (bs, got) = scan_page (mem s) (pa0 + (srcva - va0)) n
                   in if got then (0, bs)
                      else let (r, rest) = copyinstr pt (va0 + PGSIZE) (mx - n) s
                           in (r, bs @ rest))"
  by pat_completeness auto
termination
  by (relation "measure (\<lambda>(pt, va, mx, s). mx)") (auto simp: page_chunk_pos)

declare copyout.simps [simp del] copyin.simps [simp del] copyinstr.simps [simp del]

section \<open>Page table entries: encoding\<close>

lemma PTE2PA_PA2PTE:
  assumes "aligned pa" "perm < 1024"
  shows "PTE2PA (PA2PTE pa OR perm OR PTE_V) = pa"
proof (rule bit_word_eqI)
  fix n assume n: "n < LENGTH(64)"
  have "take_bit 12 pa = 0"
    using assms(1) by (simp add: aligned_def take_bit_eq_mod)
  then have lo: "\<not> bit pa k" if "k < 12" for k
    using that by (metis bit_take_bit_iff bit_0_eq bot_apply bot_bool_def)
  have "take_bit 10 perm = perm"
    using assms(2) by (simp add: take_bit_word_eq_self word_less_nat_alt take_bit_eq_mod unat_mod
        word_unat_eq_iff unsigned_take_bit_eq)
  then have hi: "\<not> bit perm k" if "10 \<le> k" for k
    using that by (metis bit_take_bit_iff not_le)
  show "bit (PTE2PA (PA2PTE pa OR perm OR PTE_V)) n = bit pa n"
    using n lo hi by (cases "n < 12") (auto simp: PTE2PA_def PA2PTE_def pte_defs bit_simps)
qed

lemma PA2PTE_valid: "(PA2PTE pa OR perm OR PTE_V) AND PTE_V \<noteq> 0"
proof -
  have "bit ((PA2PTE pa OR perm OR PTE_V) AND PTE_V) 0" by (simp add: pte_defs bit_simps)
  then show ?thesis by (metis bit_0_eq bot_apply bot_bool_def)
qed

lemma PA2PTE_user: "perm AND PTE_U \<noteq> 0 \<Longrightarrow> (PA2PTE pa OR perm OR PTE_V) AND PTE_U \<noteq> 0"
  by (metis or_eq_0_iff bit.conj_disj_distrib2)

lemma PX_less: "PX l va < 512"
proof -
  have "PX l va \<le> 0x1FF" unfolding PX_def by (rule word_and_le1)
  then show ?thesis by (simp add: word_le_nat_alt word_less_nat_alt)
qed

section \<open>The table pages a walk visits\<close>

text \<open>From \<open>pt\<close> at level \<open>l\<close> down to the last valid entry.\<close>

fun table_path :: "nat \<Rightarrow> u64 \<Rightarrow> u64 \<Rightarrow> mem \<Rightarrow> u64 list" where
  "table_path 0 pt va m = [pt]"
| "table_path (Suc l) pt va m =
     pt # (let v = ld64 m (pt + 8 * PX (Suc l) va)
           in if v AND PTE_V \<noteq> 0 then table_path l (PTE2PA v) va m else [])"

definition table_page :: "u64 \<Rightarrow> bool" where
  "table_page t \<longleftrightarrow> aligned t \<and> unat t + 4096 < 2 ^ 64 \<and> t \<noteq> 0"

lemma free_page_table_page: "free_page e p \<Longrightarrow> table_page p"
  using free_page_no_wrap by (auto simp: table_page_def free_page_def)

lemma entry_within:
  assumes "table_page t" "i < 8"
  shows "within t 4096 (t + 8 * PX l va + i)"
proof -
  have i: "unat i < 8" using assms(2) by (simp add: word_less_nat_alt)
  have px: "unat (PX l va) < 512" using PX_less[of l va] by (simp add: word_less_nat_alt)
  then have "unat (8 * PX l va) = 8 * unat (PX l va)" by (simp add: unat_word_ariths)
  then have "unat (8 * PX l va + i) = 8 * unat (PX l va) + unat i"
    using px i by (subst unat_add_no_wrap) auto
  moreover from this have "unat (t + (8 * PX l va + i)) = unat t + unat (8 * PX l va + i)"
    using assms(1) px i by (intro unat_add_no_wrap) (auto simp: table_page_def)
  ultimately show ?thesis using px i by (simp add: within_def add.assoc)
qed

lemma entry_nonzero: "table_page t \<Longrightarrow> t + 8 * PX l va \<noteq> 0"
  using entry_within[of t 0 l va] by (auto simp: within_def table_page_def word_unat_eq_iff)

lemma ld64_entry_cong:
  assumes "table_page t" "\<And>x. within t 4096 x \<Longrightarrow> m' x = m x"
  shows "ld64 m' (t + 8 * PX l va) = ld64 m (t + 8 * PX l va)"
  by (rule ld64_cong) (use assms entry_within in blast)

lemma st64_entry_outside:
  assumes "table_page t" "\<not> within t 4096 x"
  shows "st64 m (t + 8 * PX l va) v x = m x"
proof -
  have "\<not> x - (t + 8 * PX l va) < 8"
  proof
    assume "x - (t + 8 * PX l va) < 8"
    from entry_within[OF assms(1) this, of l va] show False using assms(2) by simp
  qed
  then show ?thesis by (simp add: st64_apply)
qed

lemma table_path_cong:
  assumes "\<forall>t\<in>set (butlast (table_path l pt va m)). table_page t \<and> (\<forall>x. within t 4096 x \<longrightarrow> m' x = m x)"
    and "length (table_path l pt va m) = Suc l"
  shows "table_path l pt va m' = table_path l pt va m"
  using assms
proof (induction l arbitrary: pt)
  case 0
  then show ?case by simp
next
  case (Suc l)
  let ?v = "ld64 m (pt + 8 * PX (Suc l) va)"
  have v: "?v AND PTE_V \<noteq> 0" using Suc.prems(2) by (auto simp: Let_def split: if_splits)
  have ne: "table_path l (PTE2PA ?v) va m \<noteq> []" by (cases l) auto
  have "ld64 m' (pt + 8 * PX (Suc l) va) = ?v"
    using Suc.prems(1) v ne by (intro ld64_entry_cong) auto
  then show ?case using Suc v ne by auto
qed

lemma walk_level_path:
  "walk_level l pt va False s =
    (if length (table_path l pt va (mem s)) = Suc l
     then (last (table_path l pt va (mem s)) + 8 * PX 0 va, s) else (0, s))"
proof (induction l arbitrary: pt)
  case 0
  then show ?case by simp
next
  case (Suc l)
  have "table_path l q va m \<noteq> []" for q m by (cases l) auto
  then show ?case using Suc by (auto simp: Let_def)
qed

lemma table_path_zero_page:
  assumes "table_page p" "\<And>x. within p 4096 x \<Longrightarrow> m x = 0"
  shows "table_path l p va m = [p]"
proof (cases l)
  case (Suc k)
  have "ld64 m (p + 8 * PX (Suc k) va) = ld64 (\<lambda>_. 0) (p + 8 * PX (Suc k) va)"
    using assms by (intro ld64_entry_cong) auto
  then show ?thesis using Suc by (simp add: ld64_def ld32_def le32_def le64_def)
qed simp

text \<open>One level added by an allocating walk: a zeroed page hung into entry \<open>?a\<close> of \<open>pt\<close>.\<close>

lemma new_level:
  fixes s :: "'a kmem_scheme" and l :: nat and va :: u64
  assumes "free_pages s (p # qs)" "table_page pt" "pt \<notin> set (p # qs)"
    and s2_def: "s2 = (snd (kalloc s))\<lparr>mem := st64 (memset (mem (snd (kalloc s))) p 0 4096)
      (pt + 8 * PX l va) (PA2PTE p OR PTE_V)\<rparr>"
  shows "fst (kalloc s) = p" "p \<noteq> 0" "table_page p" "free_pages s2 qs" "kend s2 = kend s"
    and "\<And>x. \<not> within p 4096 x \<Longrightarrow> \<not> within pt 4096 x \<Longrightarrow> mem s2 x = mem s x"
    and "\<And>x. within p 4096 x \<Longrightarrow> mem s2 x = 0"
    and "ld64 (mem s2) (pt + 8 * PX l va) = PA2PTE p OR PTE_V"
proof -
  let ?a = "pt + 8 * PX l va"
  have fp: "free_page (kend s) p" "p \<notin> set qs" using assms(1) by (auto simp: free_pages_def)
  obtain s0 where k: "kalloc s = (p, s0)" "free_pages s0 qs" "kend s0 = kend s"
    "\<And>x. \<not> within p 4096 x \<Longrightarrow> mem s0 x = mem s x"
    using kalloc_pops[OF assms(1)] free_page_no_wrap[OF fp(1)] by (auto simp: memset_page)
  show "fst (kalloc s) = p" "kend s2 = kend s" using k by (auto simp: s2_def)
  show tp: "table_page p" using fp(1) by (rule free_page_table_page)
  then show "p \<noteq> 0" by (simp add: table_page_def)
  have other: "mem s2 x = mem s0 x" if "\<not> within p 4096 x" "\<not> within pt 4096 x" for x
    using that assms(2) tp k(1) by (simp add: s2_def st64_entry_outside memset_page table_page_def)
  show "mem s2 x = mem s x" if "\<not> within p 4096 x" "\<not> within pt 4096 x" for x
    using other[OF that] k(4)[OF that(1)] by simp
  show "mem s2 x = 0" if "within p 4096 x" for x
  proof -
    have "\<not> within pt 4096 x"
      using pages_disjoint[of p pt x] tp assms(2,3) that by (auto simp: table_page_def)
    then show ?thesis using that assms(2) tp k(1)
      by (simp add: s2_def st64_entry_outside memset_page table_page_def)
  qed
  show "ld64 (mem s2) ?a = PA2PTE p OR PTE_V" by (simp add: s2_def ld64_st64)
  have "chain (mem s2) (freelist s0) qs = chain (mem s0) (freelist s0) qs"
  proof (rule chain_cong)
    fix q assume q: "q \<in> set qs"
    then have fq: "free_page (kend s) q" using assms(1) by (auto simp: free_pages_def)
    have "mem s2 x = mem s0 x" if "within q 4096 x" for x
    proof -
      have "q \<noteq> p" "q \<noteq> pt" using q fp(2) assms(3) by auto
      then have "\<not> within p 4096 x" "\<not> within pt 4096 x"
        using pages_disjoint[of q _ x] that fq tp assms(2) by (auto simp: table_page_def free_page_def)
      then show ?thesis by (rule other)
    qed
    then show "ld64 (mem s2) q = ld64 (mem s0) q"
      using free_page_no_wrap[OF fq] by (intro ld64_page_cong) auto
  qed
  then show "free_pages s2 qs" using k by (simp add: s2_def free_pages_def)
qed

lemma walk_level_new:
  assumes "free_pages s (p # qs)" "table_page pt" "pt \<notin> set (p # qs)"
    and "ld64 (mem s) (pt + 8 * PX (Suc l) va) AND PTE_V = 0"
  shows "walk_level (Suc l) pt va True s =
    walk_level l p va True ((snd (kalloc s))\<lparr>mem := st64 (memset (mem (snd (kalloc s))) p 0 4096)
      (pt + 8 * PX (Suc l) va) (PA2PTE p OR PTE_V)\<rparr>)"
  using assms(4) new_level(1,2)[OF assms(1-3) refl] by (auto simp: Let_def split: prod.splits)

text \<open>
  What an allocating walk guarantees when the free list has the pages it may need: a complete
  path of distinct table pages, from the old path and the free list only; an entry that was
  valid before or an invalid one; memory outside that path and the free list are as before.
\<close>

definition leaf_valid :: "nat \<Rightarrow> u64 \<Rightarrow> u64 \<Rightarrow> mem \<Rightarrow> bool" where
  "leaf_valid l pt va m \<longleftrightarrow> length (table_path l pt va m) = Suc l \<and>
     ld64 m (last (table_path l pt va m) + 8 * PX 0 va) AND PTE_V \<noteq> 0"

lemma walk_level_alloc:
  assumes "free_pages s ps" and "distinct (table_path l pt va (mem s))"
    and "\<forall>t\<in>set (table_path l pt va (mem s)). table_page t \<and> t \<notin> set ps"
    and "l \<le> length ps + length (table_path l pt va (mem s)) - 1"
  shows "\<exists>pte s1 ps'. walk_level l pt va True s = (pte, s1) \<and> pte \<noteq> 0 \<and>
    free_pages s1 ps' \<and> set ps' \<subseteq> set ps \<and>
    length (table_path l pt va (mem s1)) = Suc l \<and> distinct (table_path l pt va (mem s1)) \<and>
    set (table_path l pt va (mem s1)) \<subseteq> set (table_path l pt va (mem s)) \<union> (set ps - set ps') \<and>
    (\<forall>t\<in>set (table_path l pt va (mem s1)). table_page t) \<and>
    pte = last (table_path l pt va (mem s1)) + 8 * PX 0 va \<and>
    (\<forall>x. (\<forall>t\<in>set (table_path l pt va (mem s1)). \<not> within t 4096 x) \<longrightarrow> mem s1 x = mem s x) \<and>
    kend s1 = kend s \<and> (leaf_valid l pt va (mem s1) \<longrightarrow> leaf_valid l pt va (mem s))"
  using assms
proof (induction l arbitrary: pt s ps)
  case 0
  then show ?case using entry_nonzero[of pt 0 va] by auto
next
  case (Suc l)
  let ?a = "pt + 8 * PX (Suc l) va"
  let ?v = "ld64 (mem s) ?a"
  have pt: "table_page pt" "pt \<notin> set ps" using Suc.prems(3) by auto
  have ne: "table_path l q va m \<noteq> []" for q m by (cases l) auto
  have ne0: "0 < length (table_path l q va m)" for q m using ne by blast
  show ?case
  proof (cases "?v AND PTE_V \<noteq> 0")
    case True
    have path: "table_path (Suc l) pt va (mem s) = pt # table_path l (PTE2PA ?v) va (mem s)"
      using True by (simp add: Let_def)
    have len: "l \<le> length ps + length (table_path l (PTE2PA ?v) va (mem s)) - 1"
      using Suc.prems(4) ne0[of "PTE2PA ?v" "mem s"] unfolding path by simp
    obtain pte s1 ps' where IH: "walk_level l (PTE2PA ?v) va True s = (pte, s1)" "pte \<noteq> 0"
      "free_pages s1 ps'" "set ps' \<subseteq> set ps"
      "length (table_path l (PTE2PA ?v) va (mem s1)) = Suc l"
      "distinct (table_path l (PTE2PA ?v) va (mem s1))"
      "set (table_path l (PTE2PA ?v) va (mem s1)) \<subseteq>
        set (table_path l (PTE2PA ?v) va (mem s)) \<union> (set ps - set ps')"
      "\<forall>t\<in>set (table_path l (PTE2PA ?v) va (mem s1)). table_page t"
      "pte = last (table_path l (PTE2PA ?v) va (mem s1)) + 8 * PX 0 va"
      "\<forall>x. (\<forall>t\<in>set (table_path l (PTE2PA ?v) va (mem s1)). \<not> within t 4096 x) \<longrightarrow> mem s1 x = mem s x"
      "kend s1 = kend s" "leaf_valid l (PTE2PA ?v) va (mem s1) \<longrightarrow> leaf_valid l (PTE2PA ?v) va (mem s)"
      using Suc.IH[OF Suc.prems(1) _ _ len] Suc.prems(2,3) unfolding path by auto
    have out: "pt \<notin> set (table_path l (PTE2PA ?v) va (mem s1))"
      using IH(7) Suc.prems(2) pt(2) unfolding path by auto
    have "mem s1 x = mem s x" if "within pt 4096 x" for x
      using IH(8,10) out pages_disjoint[of pt _ x] pt(1) that by (metis table_page_def)
    then have "ld64 (mem s1) ?a = ?v" using pt(1) by (intro ld64_entry_cong) auto
    then have path1: "table_path (Suc l) pt va (mem s1) = pt # table_path l (PTE2PA ?v) va (mem s1)"
      using True by (simp add: Let_def)
    have "walk_level (Suc l) pt va True s = (pte, s1)" using True IH(1) by (simp add: Let_def)
    moreover have "leaf_valid (Suc l) pt va (mem s1) \<longrightarrow> leaf_valid (Suc l) pt va (mem s)"
      using IH(12) ne unfolding leaf_valid_def path path1 by simp
    ultimately show ?thesis using IH(2-11) out pt ne
      by (intro exI[of _ pte] exI[of _ s1] exI[of _ ps'] conjI) (auto simp: path path1 simp del: walk_level.simps table_path.simps)
  next
    case False
    then have path: "table_path (Suc l) pt va (mem s) = [pt]" by (simp add: Let_def)
    obtain p qs where ps: "ps = p # qs" using Suc.prems(4) unfolding path by (cases ps) auto
    have pt': "pt \<notin> set (p # qs)" using pt ps by simp
    define s2 where "s2 = (snd (kalloc s))\<lparr>mem := st64 (memset (mem (snd (kalloc s))) p 0 4096) ?a (PA2PTE p OR PTE_V)\<rparr>"
    note N = new_level[OF Suc.prems(1)[unfolded ps] pt(1) pt' s2_def]
    have ppt: "p \<noteq> pt" "p \<notin> set qs" using pt' Suc.prems(1) ps by (auto simp: free_pages_def)
    have path2: "table_path k p va (mem s2) = [p]" for k using table_path_zero_page[OF N(3,7)] .
    have len: "l \<le> length qs + length (table_path l p va (mem s2)) - 1"
      using Suc.prems(4) unfolding path path2 ps by simp
    have nl: "\<not> leaf_valid l p va (mem s2)"
    proof (cases l)
      case 0
      have "ld64 (mem s2) (p + 8 * PX 0 va) = ld64 (\<lambda>_. 0) (p + 8 * PX 0 va)"
        using N(3,7) by (intro ld64_entry_cong) auto
      then show ?thesis using 0 by (simp add: leaf_valid_def ld64_def ld32_def le32_def le64_def)
    qed (simp add: leaf_valid_def path2)
    obtain pte s1 ps' where IH: "walk_level l p va True s2 = (pte, s1)" "pte \<noteq> 0"
      "free_pages s1 ps'" "set ps' \<subseteq> set qs"
      "length (table_path l p va (mem s1)) = Suc l" "distinct (table_path l p va (mem s1))"
      "set (table_path l p va (mem s1)) \<subseteq> {p} \<union> (set qs - set ps')"
      "\<forall>t\<in>set (table_path l p va (mem s1)). table_page t"
      "pte = last (table_path l p va (mem s1)) + 8 * PX 0 va"
      "\<forall>x. (\<forall>t\<in>set (table_path l p va (mem s1)). \<not> within t 4096 x) \<longrightarrow> mem s1 x = mem s2 x"
      "kend s1 = kend s2" "\<not> leaf_valid l p va (mem s1)"
      using Suc.IH[OF N(4) _ _ len] N(3) ppt nl unfolding path2 by auto
    have out: "pt \<notin> set (table_path l p va (mem s1))" using IH(7) ppt(1) pt' by auto
    have hd: "p \<in> set (table_path l p va (mem s1))" by (cases l) auto
    have "mem s1 x = mem s2 x" if "within pt 4096 x" for x
      using IH(8,10) out pages_disjoint[of pt _ x] pt(1) that by (metis table_page_def)
    then have "ld64 (mem s1) ?a = ld64 (mem s2) ?a" using pt(1) by (intro ld64_entry_cong) auto
    moreover have "PTE2PA (PA2PTE p OR PTE_V) = p" "(PA2PTE p OR PTE_V) AND PTE_V \<noteq> 0"
      using PTE2PA_PA2PTE[of p 0] PA2PTE_valid[of p 0] N(3) by (auto simp: table_page_def)
    ultimately have path1: "table_path (Suc l) pt va (mem s1) = pt # table_path l p va (mem s1)"
      using N(8) by (simp add: Let_def)
    have "mem s1 x = mem s x" if "\<forall>t\<in>set (pt # table_path l p va (mem s1)). \<not> within t 4096 x" for x
      using IH(10) N(6)[of x] that hd by auto
    moreover have "walk_level (Suc l) pt va True s = (pte, s1)"
      using walk_level_new[OF Suc.prems(1)[unfolded ps] pt(1) pt', where l = l and va = va] False IH(1) by (simp add: s2_def)
    moreover have "\<not> leaf_valid (Suc l) pt va (mem s1)"
      using IH(12) ne unfolding leaf_valid_def path1 by simp
    ultimately show ?thesis using IH(2-11) out pt ne ps ppt N(5)
      by (intro exI[of _ pte] exI[of _ s1] exI[of _ ps'] conjI) (auto simp: path path1 simp del: walk_level.simps table_path.simps)
  qed
qed

lemma table_path_leaf_store:
  assumes "length (table_path 2 pt va m) = 3" "distinct (table_path 2 pt va m)"
    and "\<forall>t\<in>set (table_path 2 pt va m). table_page t"
  shows "table_path 2 pt va (st64 m (last (table_path 2 pt va m) + 8 * PX l va) v) = table_path 2 pt va m"
    (is "table_path 2 pt va ?m = ?P")
proof (rule table_path_cong)
  show "length ?P = Suc 2" using assms(1) by simp
  have lp: "last ?P \<in> set ?P" using assms(1) by (intro last_in_set) auto
  show "\<forall>t\<in>set (butlast ?P). table_page t \<and> (\<forall>x. within t 4096 x \<longrightarrow> ?m x = m x)"
  proof (intro ballI conjI allI impI)
    fix t x assume t: "t \<in> set (butlast ?P)" and x: "within t 4096 x"
    then have "t \<noteq> last ?P" using assms(1,2)
      by (metis append_butlast_last_id disjoint_iff distinct_append list.set_intros(1) list.size(3) zero_neq_numeral)
    then have "\<not> within (last ?P) 4096 x"
      using pages_disjoint[of t "last ?P" x] assms(3) lp x in_set_butlastD[OF t] by (auto simp: table_page_def)
    then show "?m x = m x" using assms(3) lp by (simp add: st64_entry_outside)
  next
    show "table_page t" if "t \<in> set (butlast ?P)" for t using assms(3) in_set_butlastD[OF that] by blast
  qed
qed

lemma page_last:
  assumes "aligned va" "va < MAXVA"
  shows "PGROUNDDOWN va = va \<and> PGROUNDDOWN (va + PGSIZE - 1) = va"
proof -
  have m: "unat va mod 4096 = 0" using assms(1) by (simp add: aligned_iff)
  have "unat (va + 4095) = unat va + 4095"
    using assms(2) by (subst unat_add_no_wrap) (auto simp: word_less_nat_alt)
  moreover have "(unat va + 4095) mod 4096 = 4095" using m by (simp add: mod_add_left_eq[symmetric])
  ultimately show ?thesis using m by (simp add: word_unat_eq_iff unat_PGROUNDDOWN add.commute)
qed

section \<open>User buffers\<close>

text \<open>The physical address of a user address.\<close>

definition uaddr :: "u64 \<Rightarrow> 'a kmem_scheme \<Rightarrow> u64 \<Rightarrow> u64 option" where
  "uaddr pt s va = (let pa = walkaddr pt (PGROUNDDOWN va) s
    in if pa = 0 then None else Some (pa + (va - PGROUNDDOWN va)))"

lemma walkaddr_path:
  "walkaddr pt va s = (if va \<ge> MAXVA \<or> length (table_path 2 pt va (mem s)) \<noteq> 3 then 0
     else let pte = last (table_path 2 pt va (mem s)) + 8 * PX 0 va; v = ld64 (mem s) pte
          in if pte = 0 \<or> v AND PTE_V = 0 \<or> v AND PTE_U = 0 then 0 else PTE2PA v)"
  by (auto simp: walkaddr_def walk_level_path Let_def)

lemma walkaddr_cong:
  assumes "walkaddr pt va s \<noteq> 0"
    and "\<forall>t\<in>set (table_path 2 pt va (mem s)). table_page t \<and> (\<forall>x. within t 4096 x \<longrightarrow> mem s' x = mem s x)"
  shows "walkaddr pt va s' = walkaddr pt va s \<and> table_path 2 pt va (mem s') = table_path 2 pt va (mem s)"
proof -
  let ?P = "table_path 2 pt va (mem s)"
  have l: "length ?P = 3" using assms(1) by (auto simp: walkaddr_path split: if_splits)
  have P: "table_path 2 pt va (mem s') = ?P"
    using assms(2) l by (intro table_path_cong) (auto dest: in_set_butlastD)
  have "last ?P \<in> set ?P" using l by (intro last_in_set) auto
  then have "ld64 (mem s') (last ?P + 8 * PX 0 va) = ld64 (mem s) (last ?P + 8 * PX 0 va)"
    using assms(2) by (intro ld64_entry_cong) auto
  then show ?thesis using P by (simp add: walkaddr_path)
qed

lemma page_step:
  assumes "i < 4096 - unat va mod 4096"
  shows "PGROUNDDOWN (va + word_of_nat i) = PGROUNDDOWN va"
    and "va + word_of_nat i - PGROUNDDOWN va = (va - PGROUNDDOWN va) + word_of_nat i"
proof -
  have m: "unat va mod 4096 + i < 4096" using assms by linarith
  have b: "unat va div 4096 * 4096 + 4096 \<le> 2 ^ 64"
    using unsigned_less[where 'a=nat, of va] by simp
  have d: "unat va = unat va div 4096 * 4096 + unat va mod 4096" by simp
  have i: "unat (word_of_nat i :: u64) = i" using m by (simp add: unat_of_nat_u64)
  have "unat va + i < 2 ^ 64" using b d m by linarith
  then have u: "unat (va + word_of_nat i) = unat va + i"
    using i by (subst unat_add_no_wrap) auto
  have "(unat va + i) mod 4096 = unat va mod 4096 + i"
    using m by (metis mod_add_left_eq mod_less)
  then show "PGROUNDDOWN (va + word_of_nat i) = PGROUNDDOWN va"
    by (simp add: word_unat_eq_iff unat_PGROUNDDOWN u)
qed simp

lemma page_next:
  assumes "page_chunk va len < len"
  shows "PGROUNDDOWN va + PGSIZE = va + word_of_nat (page_chunk va len)"
proof -
  have c: "page_chunk va len = 4096 - unat va mod 4096" using assms by (simp add: page_chunk_eq min_def split: if_splits)
  have "word_of_nat (unat (va - PGROUNDDOWN va)) = va - PGROUNDDOWN va" by simp
  then have "word_of_nat (unat va mod 4096) = va - PGROUNDDOWN va" unfolding page_offset .
  moreover have "(word_of_nat (4096 - unat va mod 4096) :: u64) = 4096 - word_of_nat (unat va mod 4096)"
    by (subst of_nat_diff) auto
  ultimately show ?thesis unfolding c by simp
qed

lemma uaddr_chunk:
  assumes "i < page_chunk va len"
  shows "uaddr pt s (va + word_of_nat i) =
    (if walkaddr pt (PGROUNDDOWN va) s = 0 then None
     else Some (walkaddr pt (PGROUNDDOWN va) s + (va - PGROUNDDOWN va) + word_of_nat i))"
  using page_step[of i va] assms by (auto simp: uaddr_def page_chunk_eq Let_def)

lemma load_bytes_map: "load_bytes m a n = map (\<lambda>i. m (a + word_of_nat i)) [0..<n]"
  by (induction n arbitrary: a) (simp_all add: upt_conv_Cons map_Suc_upt[symmetric] ac_simps del: upt_Suc)

lemma store_bytes_outside: "(\<forall>i<length bs. x \<noteq> a + word_of_nat i) \<Longrightarrow> store_bytes m a bs x = m x"
proof (induction bs arbitrary: m a)
  case (Cons b bs)
  have "\<forall>i<length bs. x \<noteq> (a + 1) + word_of_nat i"
    using Cons.prems by (auto simp: add.assoc dest: spec[of _ "Suc _"])
  moreover have "x \<noteq> a" using Cons.prems by (auto dest: spec[of _ 0])
  ultimately show ?case by (simp add: Cons.IH)
qed simp

lemma store_bytes_inside:
  "length bs \<le> 4096 \<Longrightarrow> i < length bs \<Longrightarrow> store_bytes m a bs (a + word_of_nat i) = bs ! i"
proof (induction bs arbitrary: m a i)
  case (Cons b bs)
  show ?case
  proof (cases i)
    case 0
    have "\<forall>j<length bs. a \<noteq> (a + 1) + word_of_nat j"
    proof (intro allI impI notI)
      fix j assume j: "j < length bs" and "a = (a + 1) + word_of_nat j"
      then have "(word_of_nat (Suc j) :: u64) = 0" by (simp add: add.assoc)
      moreover have "unat (word_of_nat (Suc j) :: u64) = Suc j"
        using j Cons.prems(1) by (intro unat_of_nat_u64) simp
      ultimately show False by simp
    qed
    then show ?thesis using 0 by (simp add: store_bytes_outside)
  next
    case (Suc j)
    have "store_bytes (m(a := b)) (a + 1) bs (a + 1 + word_of_nat j) = bs ! j"
      using Cons.prems Suc by (intro Cons.IH) auto
    then show ?thesis using Suc by (simp add: add.assoc)
  qed
qed simp

lemma map_upt_shift: "c \<le> n \<Longrightarrow> map (\<lambda>i. f (c + i)) [0..<n - c] = map f [c..<n]"
  by (rule nth_equalityI) auto

lemma copyin_bytes:
  assumes "\<forall>i<n. uaddr pt s (va + word_of_nat i) \<noteq> None"
  shows "copyin pt va n s = (0, map (\<lambda>i. mem s (the (uaddr pt s (va + word_of_nat i)))) [0..<n])"
  using assms
proof (induction n arbitrary: va rule: less_induct)
  case (less n)
  let ?c = "page_chunk va n"
  show ?case
  proof (cases "n = 0")
    case False
    then have c: "0 < ?c" "?c \<le> n" by (simp_all add: page_chunk_pos page_chunk_le)
    have w: "walkaddr pt (PGROUNDDOWN va) s \<noteq> 0"
      using less.prems False by (auto simp: uaddr_def Let_def dest: spec[of _ 0])
    have here: "load_bytes (mem s) (walkaddr pt (PGROUNDDOWN va) s + (va - PGROUNDDOWN va)) ?c =
        map (\<lambda>i. mem s (the (uaddr pt s (va + word_of_nat i)))) [0..<?c]"
      using w by (simp add: load_bytes_map uaddr_chunk[of _ va n])
    have rest: "copyin pt (PGROUNDDOWN va + PGSIZE) (n - ?c) s =
        (0, map (\<lambda>i. mem s (the (uaddr pt s (va + word_of_nat i)))) [?c..<n])"
    proof (cases "?c = n")
      case True
      then show ?thesis by (simp add: copyin.simps)
    next
      case False
      then have nx: "PGROUNDDOWN va + PGSIZE = va + word_of_nat ?c" using c by (intro page_next) simp
      have "\<forall>i<n - ?c. uaddr pt s (va + word_of_nat ?c + word_of_nat i) \<noteq> None"
        using less.prems by (auto simp: add.assoc of_nat_add[symmetric] simp del: of_nat_add)
      from less.IH[OF _ this] show ?thesis unfolding nx using c
        by (simp add: add.assoc of_nat_add[symmetric] 
            map_upt_shift[OF c(2), of "\<lambda>i. mem s (the (uaddr pt s (va + word_of_nat i)))"] del: of_nat_add)
    qed
    have "[0..<n] = [0..<?c] @ [?c..<n]" using c by (metis le_add_diff_inverse upt_add_eq_append zero_le)
    then show ?thesis using False w here rest by (simp add: copyin.simps[of pt va n] Let_def)
  qed (simp add: copyin.simps)
qed


text \<open>
  A user buffer is separate when every byte is mapped, no two bytes share a physical address
  and none lies in a page of the tables that translate the buffer.
\<close>

definition buffer_ok :: "u64 \<Rightarrow> u64 \<Rightarrow> nat \<Rightarrow> 'a kmem_scheme \<Rightarrow> bool" where
  "buffer_ok pt va n s \<longleftrightarrow>
     (\<forall>i<n. uaddr pt s (va + word_of_nat i) \<noteq> None) \<and>
     (\<forall>i<n. \<forall>j<n. uaddr pt s (va + word_of_nat i) = uaddr pt s (va + word_of_nat j) \<longrightarrow> i = j) \<and>
     (\<forall>i<n. \<forall>t\<in>set (table_path 2 pt (PGROUNDDOWN (va + word_of_nat i)) (mem s)). table_page t \<and>
        (\<forall>j<n. \<not> within t 4096 (the (uaddr pt s (va + word_of_nat j)))))"

lemma buffer_ok_mem:
  assumes "buffer_ok pt va n s" "k + c = n"
    and "\<forall>x. (\<forall>i<n. x \<noteq> the (uaddr pt s (va + word_of_nat i))) \<longrightarrow> mem s' x = mem s x"
  shows "buffer_ok pt (va + word_of_nat c) k s'"
    and "i < k \<Longrightarrow> uaddr pt s' (va + word_of_nat c + word_of_nat i) = uaddr pt s (va + word_of_nat (c + i))"
proof -
  have same: "uaddr pt s' (va + word_of_nat i) = uaddr pt s (va + word_of_nat i)"
    "table_path 2 pt (PGROUNDDOWN (va + word_of_nat i)) (mem s') =
      table_path 2 pt (PGROUNDDOWN (va + word_of_nat i)) (mem s)" if i: "i < n" for i
  proof -
    let ?a = "PGROUNDDOWN (va + word_of_nat i)"
    have w: "walkaddr pt ?a s \<noteq> 0" using assms(1) i by (auto simp: buffer_ok_def uaddr_def Let_def)
    have "\<forall>t\<in>set (table_path 2 pt ?a (mem s)). table_page t \<and> (\<forall>x. within t 4096 x \<longrightarrow> mem s' x = mem s x)"
      using assms(1,3) i unfolding buffer_ok_def by metis
    from walkaddr_cong[OF w this] show "uaddr pt s' (va + word_of_nat i) = uaddr pt s (va + word_of_nat i)"
      "table_path 2 pt ?a (mem s') = table_path 2 pt ?a (mem s)" by (simp_all add: uaddr_def)
  qed
  have sh: "va + word_of_nat c + word_of_nat i = va + word_of_nat (c + i)" for i
    by (simp add: add.assoc)
  have lt: "c + i < n" if "i < k" for i using that assms(2) by simp
  show "i < k \<Longrightarrow> uaddr pt s' (va + word_of_nat c + word_of_nat i) = uaddr pt s (va + word_of_nat (c + i))"
    using same(1) lt by (simp only: sh)
  show "buffer_ok pt (va + word_of_nat c) k s'"
    unfolding buffer_ok_def sh
  proof (intro conjI allI impI ballI)
    fix i assume i: "i < k"
    show "uaddr pt s' (va + word_of_nat (c + i)) \<noteq> None"
      using assms(1) lt[OF i] same(1)[OF lt[OF i]] by (simp add: buffer_ok_def del: of_nat_add)
    show "i = j" if "j < k" "uaddr pt s' (va + word_of_nat (c + i)) = uaddr pt s' (va + word_of_nat (c + j))" for j
      using assms(1) lt[OF i] lt[OF that(1)] that(2) same(1) unfolding buffer_ok_def
      by (metis add_left_cancel)
    fix t assume t: "t \<in> set (table_path 2 pt (PGROUNDDOWN (va + word_of_nat (c + i))) (mem s'))"
    then have t': "t \<in> set (table_path 2 pt (PGROUNDDOWN (va + word_of_nat (c + i))) (mem s))"
      using same(2)[OF lt[OF i]] by simp
    then show "table_page t" using assms(1) lt[OF i] unfolding buffer_ok_def by blast
    show "\<not> within t 4096 (the (uaddr pt s' (va + word_of_nat (c + j))))" if "j < k" for j
      using assms(1) lt[OF i] lt[OF that] t' same(1)[OF lt[OF that]] unfolding buffer_ok_def by metis
  qed
qed

lemma copyout_bytes:
  assumes "buffer_ok pt va (length bs) s"
  shows "\<exists>s'. copyout pt va bs s = (0, s') \<and>
    (\<forall>i<length bs. mem s' (the (uaddr pt s (va + word_of_nat i))) = bs ! i) \<and>
    (\<forall>x. (\<forall>i<length bs. x \<noteq> the (uaddr pt s (va + word_of_nat i))) \<longrightarrow> mem s' x = mem s x)"
  using assms
proof (induction "length bs" arbitrary: va bs s rule: less_induct)
  case less
  let ?n = "length bs"
  let ?c = "page_chunk va ?n"
  let ?u = "\<lambda>i. the (uaddr pt s (va + word_of_nat i))"
  show ?case
  proof (cases "bs = []")
    case False
    then have c: "0 < ?c" "?c \<le> ?n" "?c \<le> 4096" by (simp_all add: page_chunk_pos page_chunk_le) (simp add: page_chunk_eq)
    define a where "a = walkaddr pt (PGROUNDDOWN va) s + (va - PGROUNDDOWN va)"
    have w: "walkaddr pt (PGROUNDDOWN va) s \<noteq> 0"
      using less.prems False by (auto simp: buffer_ok_def uaddr_def Let_def dest: spec[of _ 0])
    have u: "?u i = a + word_of_nat i" if "i < ?c" for i
      using w uaddr_chunk[OF that, of pt s] by (simp add: a_def)
    define s1 where "s1 = s\<lparr>mem := store_bytes (mem s) a (take ?c bs)\<rparr>"
    have in1: "mem s1 (?u i) = bs ! i" if "i < ?c" for i
      using that c u[OF that] by (simp add: s1_def store_bytes_inside)
    have out1: "mem s1 x = mem s x" if "\<forall>i<?c. x \<noteq> ?u i" for x
      unfolding s1_def using that u c by (simp add: store_bytes_outside)
    have ok1: "\<forall>x. (\<forall>i<?n. x \<noteq> ?u i) \<longrightarrow> mem s1 x = mem s x" using out1 c by auto
    have kc: "(?n - ?c) + ?c = ?n" using c by simp
    note B = buffer_ok_mem[OF less.prems kc ok1]
    have "\<exists>s'. copyout pt (va + word_of_nat ?c) (drop ?c bs) s1 = (0, s') \<and>
      (\<forall>i<?n - ?c. mem s' (?u (?c + i)) = bs ! (?c + i)) \<and>
      (\<forall>x. (\<forall>i<?n - ?c. x \<noteq> ?u (?c + i)) \<longrightarrow> mem s' x = mem s1 x)"
      using less.hyps[of "drop ?c bs" "va + word_of_nat ?c" s1] B c by simp
    then obtain s' where s': "copyout pt (va + word_of_nat ?c) (drop ?c bs) s1 = (0, s')"
      "\<forall>i<?n - ?c. mem s' (?u (?c + i)) = bs ! (?c + i)"
      "\<forall>x. (\<forall>i<?n - ?c. x \<noteq> ?u (?c + i)) \<longrightarrow> mem s' x = mem s1 x" by blast
    have nx: "copyout pt (PGROUNDDOWN va + PGSIZE) (drop ?c bs) s1 = (0, s')"
    proof (cases "?c = ?n")
      case True
      then show ?thesis using s'(1) by (simp add: copyout.simps)
    next
      case neq: False
      then have "PGROUNDDOWN va + PGSIZE = va + word_of_nat ?c" using c by (intro page_next) simp
      then show ?thesis using s'(1) by simp
    qed
    have "copyout pt va bs s = (0, s')"
      using False w nx by (simp add: copyout.simps[of pt va bs] Let_def s1_def a_def)
    moreover have "mem s' (?u i) = bs ! i" if i: "i < ?n" for i
    proof (cases "i < ?c")
      case True
      have "?u i \<noteq> ?u (?c + j)" if "j < ?n - ?c" for j
      proof
        have j: "?c + j < ?n" using that by simp
        assume "?u i = ?u (?c + j)"
        then have "uaddr pt s (va + word_of_nat i) = uaddr pt s (va + word_of_nat (?c + j))"
          using less.prems i j unfolding buffer_ok_def by (metis option.expand)
        then have "i = ?c + j" using less.prems i j unfolding buffer_ok_def by blast
        then show False using True by simp
      qed
      then show ?thesis using s'(3) in1[OF True] by simp
    next
      case ge: False
      then obtain k where k: "i = ?c + k" using le_Suc_ex not_less by blast
      then have "k < ?n - ?c" using i by simp
      then show ?thesis using s'(2) k by blast
    qed
    moreover have "mem s' x = mem s x" if "\<forall>i<?n. x \<noteq> ?u i" for x
    proof -
      have "\<forall>i<?n - ?c. x \<noteq> ?u (?c + i)" using that c less_diff_conv2 by (simp add: add.commute del: of_nat_add)
      then have "mem s' x = mem s1 x" using s'(3) by blast
      then show ?thesis using out1[of x] that c by simp
    qed
    ultimately show ?thesis by blast
  qed (simp add: copyout.simps)
qed

text \<open>A three-level table that maps page 0 to the page at \<open>0x80006000\<close>.\<close>

definition sample_tables :: mem where
  "sample_tables = st64 (st64 (st64 (\<lambda>_. 0) 0x80003000 0x20001001) 0x80004000 0x20001401) 0x80005000 0x20001817"

lemma sample_entries:
  "ld64 sample_tables 0x80003000 = 0x20001001" "ld64 sample_tables 0x80004000 = 0x20001401"
  "ld64 sample_tables 0x80005000 = 0x20001817"
  unfolding sample_tables_def by (simp_all add: ld64_st64 ld64_st64_other cells_disjoint_def)

lemma sample_path: "table_path 2 0x80003000 0 sample_tables = [0x80003000, 0x80004000, 0x80005000]"
proof -
  have "PTE2PA 0x20001001 = 0x80004000" "PTE2PA 0x20001401 = 0x80005000" by (simp_all add: PTE2PA_def)
  moreover have "table_path (Suc (Suc 0)) 0x80003000 0 sample_tables =
      0x80003000 # table_path (Suc 0) (PTE2PA 0x20001001) 0 sample_tables"
    using sample_entries by (simp add: PX_def PTE_V_def)
  moreover have "table_path (Suc 0) 0x80004000 0 sample_tables =
      0x80004000 # table_path 0 (PTE2PA 0x20001401) 0 sample_tables"
    using sample_entries by (simp add: PX_def PTE_V_def)
  ultimately show ?thesis by (simp add: numeral_2_eq_2)
qed

lemma all_less_two: "(\<forall>i<Suc (Suc 0). P i) \<longleftrightarrow> P 0 \<and> P (Suc 0)"
  by (auto simp: less_Suc_eq)

section \<open>What the memory operations leave alone\<close>

text \<open>
  The allocator and the page-table operations change physical memory and the free list only:
  the rest of an extended state is as before.
\<close>

definition rest :: "'a kmem_scheme \<Rightarrow> u64 \<times> 'a" where
  "rest s = (kend s, kmem.more s)"

lemma rest_mem [simp]: "rest (s\<lparr>mem := m\<rparr>) = rest s" "rest (s\<lparr>freelist := p\<rparr>) = rest s"
  by (simp_all add: rest_def)

lemma kalloc_rest [kframe]: "kalloc s = (p, s') \<Longrightarrow> rest s' = rest s"
  by (auto simp: kalloc_def rest_def Let_def split: if_splits)

lemma kfree_rest [kframe]: "kfree p s = Ok s' \<Longrightarrow> rest s' = rest s"
  by (auto simp: kfree_def rest_def Let_def split: if_splits)

lemma walk_level_rest [kframe]: "walk_level l pt va al s = (p, s') \<Longrightarrow> rest s' = rest s"
proof (induction l pt va al s rule: walk_level.induct)
  case (2 l pagetable va alloc s)
  then show ?case
    by (auto simp: Let_def split: if_splits prod.splits dest!: kalloc_rest)
qed simp

lemma walk_rest [kframe]: "walk pt va al s = Ok (p, s') \<Longrightarrow> rest s' = rest s"
  using walk_Ok[of pt va al s] walk_level_rest by metis

lemma mappages_loop_rest [kframe]: "mappages_loop pt a la pa perm s = Ok (r, s') \<Longrightarrow> rest s' = rest s"
proof (induction pt a la pa perm s rule: mappages_loop.induct)
  case (1 pt a la pa perm s)
  obtain pte s1 where w: "walk pt a True s = Ok (pte, s1)"
    using "1.prems" by (subst (asm) mappages_loop.simps) auto
  show ?case
    using "1.prems" walk_rest[OF w] "1.IH"[OF w refl _ _ refl]
    by (auto simp: mappages_loop.simps[of pt a] w Let_def split: if_splits)
qed

lemma mappages_rest [kframe]: "mappages pt a n pa perm s = Ok (r, s') \<Longrightarrow> rest s' = rest s"
  by (auto simp: mappages_def split: if_splits dest: mappages_loop_rest)

lemma uvmunmap_loop_rest [kframe]: "uvmunmap_loop pt a e f s = Ok s' \<Longrightarrow> rest s' = rest s"
proof (induction pt a e f s rule: uvmunmap_loop.induct)
  case (1 pt a e f s)
  show ?case
  proof (cases "a < e")
    case True
    then obtain pte s1 where w: "walk pt a False s = Ok (pte, s1)"
      using "1.prems" by (subst (asm) uvmunmap_loop.simps) auto
    show ?thesis
      using "1.prems" True walk_rest[OF w] "1.IH"[OF True w refl]
      by (auto simp: uvmunmap_loop.simps[of pt a] w Let_def split: if_splits
          ) (drule kfree_rest; simp)+
  qed (use "1.prems" in \<open>simp add: uvmunmap_loop.simps\<close>)
qed

lemma uvmunmap_rest [kframe]: "uvmunmap pt a n f s = Ok s' \<Longrightarrow> rest s' = rest s"
  by (auto simp: uvmunmap_def split: if_splits dest: uvmunmap_loop_rest)

lemma uvmdealloc_rest [kframe]: "uvmdealloc pt ol n s = Ok (r, s') \<Longrightarrow> rest s' = rest s"
  by (auto simp: uvmdealloc_def Let_def split: if_splits dest: uvmunmap_rest)

lemma uvmalloc_loop_rest [kframe]: "uvmalloc_loop pt a l n x s = Ok (r, s') \<Longrightarrow> rest s' = rest s"
proof (induction pt a l n x s rule: uvmalloc_loop.induct)
  case (1 pt a l n x s)
  show ?case
  proof (cases "a < n")
    case True
    obtain pg s1 where k: "kalloc s = (pg, s1)" by fastforce
    show ?thesis
      using "1.prems" True kalloc_rest[OF k] "1.IH"[OF True k[symmetric] _ refl _ refl]
      by (auto simp: uvmalloc_loop.simps[of pt a] k Let_def split: if_splits
          dest!: uvmdealloc_rest kfree_rest) (drule mappages_rest; simp)+
  qed (use "1.prems" in \<open>simp add: uvmalloc_loop.simps\<close>)
qed

lemma uvmalloc_rest [kframe]: "uvmalloc pt ol n x s = Ok (r, s') \<Longrightarrow> rest s' = rest s"
  by (auto simp: uvmalloc_def split: if_splits dest: uvmalloc_loop_rest)

lemma freewalk_entries_rest:
  assumes "\<And>p s s'. rec p s = Ok s' \<Longrightarrow> rest s' = rest s"
  shows "freewalk_entries rec is pt s = Ok s' \<Longrightarrow> rest s' = rest s"
proof (induction "is" arbitrary: s)
  case (Cons i "is")
  then show ?case by (auto simp: Let_def split: if_splits dest!: assms)
qed simp

lemma freewalk_rest [kframe]: "freewalk d pt s = Ok s' \<Longrightarrow> rest s' = rest s"
proof (induction d arbitrary: pt s s')
  case (Suc d)
  then obtain s1 where "freewalk_entries (freewalk d) [0..<512] pt s = Ok s1" "kfree pt s1 = Ok s'"
    by (auto simp del: upt_rec_numeral)
  then show ?case using freewalk_entries_rest[of "freewalk d"] Suc.IH kfree_rest by metis
qed simp

lemma uvmfree_rest [kframe]: "uvmfree pt n s = Ok s' \<Longrightarrow> rest s' = rest s"
  by (auto simp: uvmfree_def split: if_splits dest!: uvmunmap_rest freewalk_rest)

lemma uvmcreate_rest [kframe]: "uvmcreate s = (pt, s') \<Longrightarrow> rest s' = rest s"
  by (auto simp: uvmcreate_def Let_def split: if_splits prod.splits dest: kalloc_rest)

lemma uvmcopy_loop_rest [kframe]: "uvmcopy_loop old new i n s = Ok (r, s') \<Longrightarrow> rest s' = rest s"
proof (induction old new i n s rule: uvmcopy_loop.induct)
  case (1 old new i n s)
  show ?case
  proof (cases "i < n")
    case True
    then obtain pte s0 where w: "walk old i False s = Ok (pte, s0)"
      using "1.prems" by (subst (asm) uvmcopy_loop.simps) auto
    obtain pg s1 where k: "kalloc s0 = (pg, s1)" by fastforce
    have r1: "rest s1 = rest s" using walk_rest[OF w] kalloc_rest[OF k] by simp
    show ?thesis
      using "1.prems" True r1 "1.IH"[OF True w refl _ _ refl refl refl k[symmetric] _ _ refl]
      by (auto simp: uvmcopy_loop.simps[of old new i] w k Let_def split: if_splits
          dest!: uvmunmap_rest kfree_rest) (drule mappages_rest; simp)+
  qed (use "1.prems" in \<open>simp add: uvmcopy_loop.simps\<close>)
qed

lemma uvmcopy_rest [kframe]: "uvmcopy old new n s = Ok (r, s') \<Longrightarrow> rest s' = rest s"
  by (auto simp: uvmcopy_def dest: uvmcopy_loop_rest)

lemma copyout_rest [kframe]: "copyout pt va bs s = (r, s') \<Longrightarrow> rest s' = rest s"
proof (induction pt va bs s rule: copyout.induct)
  case (1 pt va bs s)
  then show ?case by (subst (asm) (2) copyout.simps) (auto simp: Let_def split: if_splits)
qed

section \<open>Properties\<close>

text \<open>C20. Mapping one user page into a well-formed page table whose slot is free, with the two
  pages the intermediate levels may need on the free list, succeeds, and \<open>walkaddr\<close> then
  translates the virtual address to the page mapped.\<close>

theorem mappages_walkaddr:
  assumes "free_pages s ps" and "distinct (table_path 2 pt va (mem s))"
    and "\<forall>t\<in>set (table_path 2 pt va (mem s)). table_page t \<and> t \<notin> set ps"
    and "2 \<le> length ps" and "\<not> leaf_valid 2 pt va (mem s)"
    and "aligned va" and "va < MAXVA" and "aligned pa" and "perm < 1024" and "perm AND PTE_U \<noteq> 0"
  shows "\<exists>s'. mappages pt va PGSIZE pa perm s = Ok (0, s') \<and> walkaddr pt va s' = pa"
proof -
  have va: "PGROUNDDOWN va = va" "PGROUNDDOWN (va + PGSIZE - 1) = va"
    using page_last[OF assms(6,7)] by auto
  have len: "2 \<le> length ps + length (table_path 2 pt va (mem s)) - 1"
    using assms(4) by (simp add: numeral_eq_Suc)
  obtain pte s1 where w: "walk_level 2 pt va True s = (pte, s1)" "pte \<noteq> 0"
    and A: "length (table_path 2 pt va (mem s1)) = 3" "distinct (table_path 2 pt va (mem s1))"
      "\<forall>t\<in>set (table_path 2 pt va (mem s1)). table_page t"
      "pte = last (table_path 2 pt va (mem s1)) + 8 * PX 0 va"
    and lv: "leaf_valid 2 pt va (mem s1) \<longrightarrow> leaf_valid 2 pt va (mem s)"
    using walk_level_alloc[OF assms(1-3) len] by (auto simp: numeral_eq_Suc)
  let ?m = "st64 (mem s1) pte (PA2PTE pa OR perm OR PTE_V)"
  let ?P = "table_path 2 pt va (mem s1)"
  have "ld64 (mem s1) pte AND PTE_V = 0" using lv assms(5) A(1,4) by (auto simp: leaf_valid_def)
  then have m: "mappages pt va PGSIZE pa perm s = Ok (0, s1\<lparr>mem := ?m\<rparr>)"
    using w va assms(7) by (simp add: mappages_def mappages_loop.simps[of pt va] walk_def not_le[symmetric])
  have "table_path 2 pt va ?m = ?P"
    using table_path_leaf_store[OF A(1-3)] A(4) by simp
  then have "walk_level 2 pt va False (s1\<lparr>mem := ?m\<rparr>) = (pte, s1\<lparr>mem := ?m\<rparr>)"
    using A by (simp add: walk_level_path)
  then have "walkaddr pt va (s1\<lparr>mem := ?m\<rparr>) = pa"
    using assms(7) w(2) PTE2PA_PA2PTE[OF assms(8,9)] PA2PTE_valid[of pa perm] PA2PTE_user[OF assms(10), of pa]
    by (auto simp: walkaddr_def ld64_st64 dest: leD)
  then show ?thesis using m by blast
qed

theorem mappages_walkaddr_witness:
  "\<exists>s'. mappages 0x80003000 0x5000 PGSIZE 0x80006000 (PTE_R OR PTE_W OR PTE_U)
     \<lparr>mem = st64 (\<lambda>_. 0) 0x80004000 0x80005000, freelist = 0x80004000, kend = 0x80001234\<rparr> = Ok (0, s') \<and>
     walkaddr 0x80003000 0x5000 s' = 0x80006000"
proof (rule mappages_walkaddr[where ps = "[0x80004000, 0x80005000]"])
  let ?m = "st64 (\<lambda>_. 0) 0x80004000 0x80005000"
  have z: "ld64 (\<lambda>_. 0) a = 0" for a by (simp add: ld64_def ld32_def le32_def le64_def)
  have "ld64 ?m 0x80005000 = 0" "ld64 ?m (0x80003000 + 8 * PX 2 0x5000) = 0"
    by (subst ld64_st64_other; simp add: z cells_disjoint_def PX_def)+
  then have p: "table_path 2 0x80003000 0x5000 ?m = [0x80003000]" and
    f: "ld64 ?m 0x80005000 = 0" by (auto simp: numeral_2_eq_2)
  show "free_pages \<lparr>mem = ?m, freelist = 0x80004000, kend = 0x80001234\<rparr> [0x80004000, 0x80005000]"
    using f by (simp add: free_pages_def free_page_def aligned_def ld64_st64)
  show "distinct (table_path 2 0x80003000 0x5000 (mem \<lparr>mem = ?m, freelist = 0x80004000, kend = 0x80001234\<rparr>))"
    "\<not> leaf_valid 2 0x80003000 0x5000 (mem \<lparr>mem = ?m, freelist = 0x80004000, kend = 0x80001234\<rparr>)"
    using p by (simp_all add: leaf_valid_def)
  show "\<forall>t\<in>set (table_path 2 0x80003000 0x5000 (mem \<lparr>mem = ?m, freelist = 0x80004000, kend = 0x80001234\<rparr>)).
      table_page t \<and> t \<notin> set [0x80004000, 0x80005000]"
    using p by (simp add: table_page_def aligned_def)
qed (simp_all add: aligned_def pte_defs)

text \<open>C19. A user buffer whose bytes are mapped, distinct and outside the tables: \<open>copyout\<close>
  succeeds and \<open>copyin\<close> of the same range returns the bytes written, across pages.\<close>

theorem copyout_copyin_roundtrip:
  assumes "buffer_ok pt va (length bs) s"
  shows "\<exists>s'. copyout pt va bs s = (0, s') \<and> copyin pt va (length bs) s' = (0, bs)"
proof -
  obtain s' where s': "copyout pt va bs s = (0, s')"
    "\<forall>i<length bs. mem s' (the (uaddr pt s (va + word_of_nat i))) = bs ! i"
    "\<forall>x. (\<forall>i<length bs. x \<noteq> the (uaddr pt s (va + word_of_nat i))) \<longrightarrow> mem s' x = mem s x"
    using copyout_bytes[OF assms] by blast
  have B: "buffer_ok pt va (length bs) s'"
    "\<And>i. i < length bs \<Longrightarrow> uaddr pt s' (va + word_of_nat i) = uaddr pt s (va + word_of_nat i)"
    using buffer_ok_mem[OF assms _ s'(3), of "length bs" 0] by simp_all
  then have "\<forall>i<length bs. uaddr pt s' (va + word_of_nat i) \<noteq> None" by (simp add: buffer_ok_def)
  from copyin_bytes[OF this] have "copyin pt va (length bs) s' = (0, bs)"
    using B(2) s'(2) by (auto intro: nth_equalityI)
  then show ?thesis using s'(1) by blast
qed

theorem copyout_copyin_roundtrip_witness:
  "\<exists>s'. copyout 0x80003000 8 [65, 66] \<lparr>mem = sample_tables, freelist = 0, kend = 0x80001234\<rparr> = (0, s') \<and>
     copyin 0x80003000 8 2 s' = (0, [65, 66])"
proof -
  let ?s = "\<lparr>mem = sample_tables, freelist = 0, kend = 0x80001234\<rparr>"
  have P: "table_path 2 0x80003000 0 sample_tables = [0x80003000, 0x80004000, 0x80005000]"
    and e: "ld64 sample_tables 0x80005000 = 0x20001817"
    using sample_entries sample_path by simp_all
  have w: "walkaddr 0x80003000 0 ?s = 0x80006000"
    by (simp add: walkaddr_path P e PX_def pte_defs PTE2PA_def)
  have u: "uaddr 0x80003000 ?s 8 = Some 0x80006008" "uaddr 0x80003000 ?s 9 = Some 0x80006009"
    by (simp_all add: uaddr_def PGROUNDDOWN_def w)
  have "buffer_ok 0x80003000 8 (length [65, 66 :: u8]) ?s"
    by (simp add: buffer_ok_def u PGROUNDDOWN_def P table_page_def aligned_def within_def
        all_less_two)
  from copyout_copyin_roundtrip[OF this] show ?thesis by (simp add: numeral_2_eq_2)
qed

end
