(* ===== verification/Spinlock.thy ===== *)
theory Spinlock
  imports Prelude
begin

text \<open>
  \<open>kernel/spinlock.c\<close>: the per-CPU interrupt nesting of \<open>push_off\<close>/\<open>pop_off\<close>, spin locks, and
  the interleaving of several CPUs on one lock.  \<open>mycpu()\<close> is the argument \<open>c\<close> (the hart id in
  \<open>tp\<close>).  The sequential \<open>acquire\<close> is \<open>Stuck\<close> when it would spin forever, that is when another
  holder has the lock; the step relation \<open>lstep\<close> splits it into its atomic accesses.
\<close>

section \<open>Data\<close>

text \<open>\<open>struct cpu\<close> without its saved context; \<open>intr\<close> is the SIE bit of \<open>sstatus\<close>, and
  \<open>cproc\<close> the index of the running process.\<close>

record cpu =
  cproc :: "nat option"
  noff :: int
  intena :: bool
  intr :: bool

record spinlock =
  locked :: bool
  lcpu :: "nat option"

definition initlock :: spinlock where
  "initlock = \<lparr>locked = False, lcpu = None\<rparr>"

section \<open>Interrupt nesting\<close>

definition push_off :: "cpu \<Rightarrow> cpu" where
  "push_off c =
     (let old = intr c; c1 = c\<lparr>intr := False\<rparr>;
          c2 = (if noff c1 = 0 then c1\<lparr>intena := old\<rparr> else c1)
      in c2\<lparr>noff := i32 (noff c2 + 1)\<rparr>)"

definition pop_off :: "cpu \<Rightarrow> cpu res" where
  "pop_off c =
     (if intr c then Panic ''pop_off - interruptible''
      else if noff c < 1 then Panic ''pop_off''
      else let c1 = c\<lparr>noff := i32 (noff c - 1)\<rparr>
           in Ok (if noff c1 = 0 \<and> intena c1 then c1\<lparr>intr := True\<rparr> else c1))"

text \<open>\<open>myproc\<close> reads the running process with interrupts off.\<close>

definition myproc :: "cpu \<Rightarrow> (nat option \<times> cpu) res" where
  "myproc c = (let c1 = push_off c; p = cproc c1 in rbind (pop_off c1) (\<lambda>c2. Ok (p, c2)))"

section \<open>Acquire and release\<close>

definition holding :: "nat \<Rightarrow> spinlock \<Rightarrow> bool" where
  "holding me lk \<longleftrightarrow> locked lk \<and> lcpu lk = Some me"

definition acquire :: "nat \<Rightarrow> spinlock \<Rightarrow> cpu \<Rightarrow> (spinlock \<times> cpu) res" where
  "acquire me lk c =
     (let c1 = push_off c
      in if holding me lk then Panic ''acquire''
         else if locked lk then Stuck
         else Ok (lk\<lparr>locked := True, lcpu := Some me\<rparr>, c1))"

definition release :: "nat \<Rightarrow> spinlock \<Rightarrow> cpu \<Rightarrow> (spinlock \<times> cpu) res" where
  "release me lk c =
     (if \<not> holding me lk then Panic ''release''
      else let lk1 = lk\<lparr>lcpu := None, locked := False\<rparr>
           in rbind (pop_off c) (\<lambda>c1. Ok (lk1, c1)))"

section \<open>Nesting depth\<close>

datatype nest = Push | Pop

fun run_nest :: "nest list \<Rightarrow> cpu \<Rightarrow> cpu res" where
  "run_nest [] c = Ok c"
| "run_nest (Push # ops) c = run_nest ops (push_off c)"
| "run_nest (Pop # ops) c = rbind (pop_off c) (run_nest ops)"

text \<open>The depth after a sequence whose prefixes all have at least as many pushes as pops.\<close>

fun depth :: "nest list \<Rightarrow> nat \<Rightarrow> nat option" where
  "depth [] d = Some d"
| "depth (Push # ops) d = depth ops (Suc d)"
| "depth (Pop # ops) d = (case d of 0 \<Rightarrow> None | Suc d' \<Rightarrow> depth ops d')"

text \<open>What holds at depth \<open>d\<close>, \<open>b\<close> being the interrupt state at depth 0.\<close>

definition nested :: "bool \<Rightarrow> nat \<Rightarrow> cpu \<Rightarrow> bool" where
  "nested b d c \<longleftrightarrow> noff c = int d \<and> intr c = (d = 0 \<and> b) \<and> (d \<noteq> 0 \<longrightarrow> intena c = b)"

lemma push_off_nested:
  "nested b d c \<Longrightarrow> int d < 2 ^ 31 - 1 \<Longrightarrow> nested b (Suc d) (push_off c) \<and> cproc (push_off c) = cproc c"
  using i32_small[of "int d + 1"] by (auto simp: nested_def push_off_def Let_def)

lemma pop_off_nested:
  "nested b (Suc d) c \<Longrightarrow> int d < 2 ^ 31 - 1 \<Longrightarrow> \<exists>c'. pop_off c = Ok c' \<and> nested b d c' \<and> cproc c' = cproc c"
  using i32_small[of "int d"] by (auto simp: nested_def pop_off_def Let_def)

lemma run_nest_nested:
  "nested b d c \<Longrightarrow> depth ops d = Some d' \<Longrightarrow> int d + int (length ops) < 2 ^ 31 \<Longrightarrow>
    \<exists>c'. run_nest ops c = Ok c' \<and> nested b d' c' \<and> cproc c' = cproc c"
proof (induction ops c arbitrary: d rule: run_nest.induct)
  case (2 ops c)
  then show ?case using push_off_nested[OF "2.prems"(1)] by fastforce
next
  case (3 ops c)
  then obtain e where e: "d = Suc e" by (cases d) auto
  then obtain c1 where "pop_off c = Ok c1" "nested b e c1" "cproc c1 = cproc c"
    using pop_off_nested[of b e c] "3.prems" by auto
  then show ?case using "3.IH"[of c1 e] "3.prems" e by auto
qed simp

section \<open>Several CPUs on one lock\<close>

text \<open>
  The atomic accesses of \<open>acquire\<close> and \<open>release\<close> by one CPU: \<open>Out\<close> (not using the lock),
  \<open>Spin\<close> (past the \<open>holding\<close> check, at the test-and-set), \<open>Got\<close> (test-and-set returned 0),
  \<open>Crit\<close> (owner recorded), \<open>Clear\<close> (\<open>lk->cpu = 0\<close> done, before \<open>__sync_lock_release\<close>),
  \<open>Dead\<close> (a panic).
\<close>

datatype pc = Out | Spin | Got | Crit | Clear | Dead

type_synonym lconf = "spinlock \<times> (nat \<Rightarrow> pc)"

inductive lstep :: "lconf \<Rightarrow> lconf \<Rightarrow> bool" where
  acquire_check: "pcs c = Out \<Longrightarrow> \<not> holding c lk \<Longrightarrow> lstep (lk, pcs) (lk, pcs(c := Spin))"
| acquire_panic: "pcs c = Out \<Longrightarrow> holding c lk \<Longrightarrow> lstep (lk, pcs) (lk, pcs(c := Dead))"
| tas_busy: "pcs c = Spin \<Longrightarrow> locked lk \<Longrightarrow> lstep (lk, pcs) (lk, pcs)"
| tas_got: "pcs c = Spin \<Longrightarrow> \<not> locked lk \<Longrightarrow> lstep (lk, pcs) (lk\<lparr>locked := True\<rparr>, pcs(c := Got))"
| record_owner: "pcs c = Got \<Longrightarrow> lstep (lk, pcs) (lk\<lparr>lcpu := Some c\<rparr>, pcs(c := Crit))"
| release_clear: "pcs c = Crit \<Longrightarrow> holding c lk \<Longrightarrow>
    lstep (lk, pcs) (lk\<lparr>lcpu := None\<rparr>, pcs(c := Clear))"
| release_panic: "pcs c = Crit \<Longrightarrow> \<not> holding c lk \<Longrightarrow> lstep (lk, pcs) (lk, pcs(c := Dead))"
| release_unlock: "pcs c = Clear \<Longrightarrow> lstep (lk, pcs) (lk\<lparr>locked := False\<rparr>, pcs(c := Out))"

inductive_cases lstepE: "lstep s s'"

inductive lreach :: "lconf \<Rightarrow> bool" where
  lreach_init: "lreach (initlock, \<lambda>_. Out)"
| lreach_step: "lreach s \<Longrightarrow> lstep s s' \<Longrightarrow> lreach s'"

text \<open>The CPUs between test-and-set and unlock.\<close>

definition inside :: "pc \<Rightarrow> bool" where
  "inside p \<longleftrightarrow> p = Got \<or> p = Crit \<or> p = Clear"

definition lock_inv :: "lconf \<Rightarrow> bool" where
  "lock_inv s = (case s of (lk, pcs) \<Rightarrow>
     (locked lk \<longleftrightarrow> (\<exists>c. inside (pcs c))) \<and>
     (\<forall>c d. inside (pcs c) \<and> inside (pcs d) \<longrightarrow> c = d) \<and>
     (\<forall>c. lcpu lk = Some c \<longleftrightarrow> pcs c = Crit) \<and> (\<forall>c. pcs c \<noteq> Dead))"

lemma inside_simps [simp]:
  "\<not> inside Out" "\<not> inside Spin" "inside Got" "inside Crit" "inside Clear" "\<not> inside Dead"
  by (simp_all add: inside_def)

text \<open>A step of the CPU that owns the lock.\<close>

lemma lock_inv_owner:
  assumes "lock_inv (lk, pcs)" "inside (pcs c)"
    and "inside q \<longleftrightarrow> locked lk'" "q \<noteq> Dead" "lcpu lk' = (if q = Crit then Some c else None)"
  shows "lock_inv (lk', pcs(c := q))"
proof -
  have o: "\<not> inside (pcs d)" "pcs d \<noteq> Crit" "pcs d \<noteq> Dead" if "d \<noteq> c" for d
    using assms(1,2) that by (auto simp: lock_inv_def inside_def)
  show ?thesis unfolding lock_inv_def prod.case
  proof (intro conjI allI impI)
    show "locked lk' = (\<exists>d. inside ((pcs(c := q)) d))" using o(1) assms(3) by auto
    show "d = e" if "inside ((pcs(c := q)) d) \<and> inside ((pcs(c := q)) e)" for d e
      using that o(1)[of d] o(1)[of e] by (auto split: if_splits)
    show "(lcpu lk' = Some d) = ((pcs(c := q)) d = Crit)" for d
      using assms(5) o(2)[of d] by auto
    show "(pcs(c := q)) d \<noteq> Dead" for d using assms(4) o(3)[of d] by simp
  qed
qed

lemma lock_inv_locked: "lock_inv (lk, pcs) \<Longrightarrow> inside (pcs c) \<Longrightarrow> locked lk"
  unfolding lock_inv_def by blast

lemma lock_inv_step:
  assumes "lock_inv s" "lstep s s'"
  shows "lock_inv s'"
  using assms(2)
proof cases
  case (tas_got pcs c lk)
  then have "\<forall>d. \<not> inside (pcs d)" "lcpu lk = None \<or> (\<exists>d. lcpu lk = Some d)" using assms(1) by (auto simp: lock_inv_def)
  then show ?thesis using tas_got assms(1) by (auto simp: lock_inv_def split: if_splits)
next
  case (acquire_panic pcs c lk)
  then have "lcpu lk = Some c \<longleftrightarrow> pcs c = Crit" using assms(1) unfolding lock_inv_def by blast
  then show ?thesis using acquire_panic by (simp add: holding_def)
next
  case (acquire_check pcs c lk)
  then have "inside ((pcs(c := Spin)) d) = inside (pcs d)" "(pcs(c := Spin)) d = Crit \<longleftrightarrow> pcs d = Crit"
    "(pcs(c := Spin)) d = Dead \<longleftrightarrow> pcs d = Dead" for d by auto
  then show ?thesis using acquire_check assms(1) by (simp add: lock_inv_def del: fun_upd_apply)
next
  case (release_panic pcs c lk)
  then have c: "inside (pcs c)" "pcs c = Crit" by auto
  have "lcpu lk = Some c \<longleftrightarrow> pcs c = Crit" "locked lk \<longleftrightarrow> (\<exists>c. inside (pcs c))"
    using assms(1) release_panic(1) unfolding lock_inv_def by blast+
  then have "lcpu lk = Some c" "locked lk" using c by blast+
  then show ?thesis using release_panic by (simp add: holding_def)
next
  case (record_owner pcs c lk)
  then show ?thesis using assms(1) lock_inv_owner[of lk pcs c Crit] lock_inv_locked[of lk pcs c] by simp
next
  case (release_clear pcs c lk)
  then show ?thesis using assms(1) lock_inv_owner[of lk pcs c Clear] lock_inv_locked[of lk pcs c] by simp
next
  case (release_unlock pcs c lk)
  have "lcpu lk \<noteq> Some d" for d
  proof
    assume "lcpu lk = Some d"
    then have d: "pcs d = Crit" using assms(1) release_unlock(1) unfolding lock_inv_def by blast
    have "inside (pcs c)" "inside (pcs d)" using d release_unlock by simp_all
    then have "c = d" using assms(1) release_unlock(1) unfolding lock_inv_def by blast
    then show False using d release_unlock by simp
  qed
  then have "lcpu lk = None" by (cases "lcpu lk") auto
  then show ?thesis using release_unlock assms(1) lock_inv_owner[of lk pcs c Out "lk\<lparr>locked := False\<rparr>"]
    by simp
qed (use assms(1) in auto)

lemma lock_inv_reach: "lreach s \<Longrightarrow> lock_inv s"
proof (induction rule: lreach.induct)
  case lreach_init
  show ?case by (simp add: lock_inv_def initlock_def inside_def)
qed (rule lock_inv_step)

section \<open>Properties\<close>

text \<open>C35. Interrupts nest: a sequence of \<open>push_off\<close>/\<open>pop_off\<close> whose prefixes never pop more
  than they pushed does not panic, counts the depth, keeps interrupts off while the depth is
  not 0 and restores their initial state when it returns to 0.\<close>

theorem push_pop_nesting:
  assumes "noff c = 0" and "depth ops 0 = Some d" and "length ops < 2 ^ 31"
  shows "\<exists>c'. run_nest ops c = Ok c' \<and> noff c' = int d \<and> intr c' = (d = 0 \<and> intr c)"
proof -
  have "int (length ops) < 2 ^ 31" using assms(3) by (simp add: of_nat_less_numeral_power_cancel_iff)
  then show ?thesis
    using run_nest_nested[of "intr c" 0 c ops d] assms(1,2) by (auto simp: nested_def)
qed

theorem push_pop_nesting_witness:
  "\<exists>c'. run_nest [Push, Push, Pop, Pop] \<lparr>cproc = None, noff = 0, intena = False, intr = True\<rparr> = Ok c' \<and>
    noff c' = 0 \<and> intr c'"
  using push_pop_nesting[of "\<lparr>cproc = None, noff = 0, intena = False, intr = True\<rparr>" "[Push, Push, Pop, Pop]" 0]
  by simp

text \<open>C8. Mutual exclusion on any number of CPUs: in every reachable interleaving at most one
  CPU is between a successful test-and-set and the unlock, the lock word says whether one is,
  and neither the \<open>holding\<close> check of \<open>acquire\<close> nor that of \<open>release\<close> ever panics.\<close>

theorem spinlock_mutual_exclusion:
  assumes "lreach (lk, pcs)"
  shows "(\<forall>c d. inside (pcs c) \<and> inside (pcs d) \<longrightarrow> c = d) \<and>
    (locked lk \<longleftrightarrow> (\<exists>c. inside (pcs c))) \<and> (\<forall>c. holding c lk \<longleftrightarrow> pcs c = Crit) \<and> (\<forall>c. pcs c \<noteq> Dead)"
  using lock_inv_reach[OF assms] by (auto simp: lock_inv_def holding_def inside_def)

theorem spinlock_mutual_exclusion_witness:
  "\<not> inside (((\<lambda>_. Out)(1 := Spin, 0 := Crit)) (1 :: nat)) \<and> locked (initlock\<lparr>locked := True, lcpu := Some 0\<rparr>)"
proof -
  have "lreach (initlock, (\<lambda>_. Out)(1 := Spin))"
    by (rule lreach_step[OF lreach_init]) (rule lstep.intros; simp add: initlock_def holding_def)
  then have "lreach (initlock, (\<lambda>_. Out)(1 := Spin, 0 := Spin))"
    by (rule lreach_step) (rule acquire_check; simp add: initlock_def holding_def)
  then have "lreach (initlock\<lparr>locked := True\<rparr>, (\<lambda>_. Out)(1 := Spin, 0 := Spin, 0 := Got))"
    by (rule lreach_step) (rule tas_got; simp add: initlock_def)
  then have "lreach (initlock\<lparr>locked := True, lcpu := Some 0\<rparr>,
      (\<lambda>_. Out)(1 := Spin, 0 := Spin, 0 := Got, 0 := Crit))"
    by (rule lreach_step) (rule record_owner; simp)
  then have "lreach (initlock\<lparr>locked := True, lcpu := Some 0\<rparr>, (\<lambda>_. Out)(1 := Spin, 0 := Crit))"
    by simp
  from spinlock_mutual_exclusion[OF this] show ?thesis by (auto simp: inside_def)
qed

end
