(* ===== verification/Proc.thy ===== *)
theory Proc
  imports Vm Spinlock
begin

text \<open>
  \<open>kernel/proc.h\<close> and the process table of \<open>kernel/proc.c\<close>: allocation and release of slots,
  \<open>fork\<close>, \<open>exit\<close>, \<open>wait\<close>, \<open>waitx\<close>, \<open>kill\<close>, \<open>wakeup\<close>, \<open>sleep\<close>.  A \<open>struct proc*\<close> is the index of
  its slot, a null one \<open>None\<close>; \<open>trapframe\<close> and \<open>backup\<close> are addresses of pages of physical
  memory.  Every operation is one atomic step under the locks the code takes
  (\<open>spinlock_mutual_exclusion\<close>); an operation that may sleep is split where \<open>sched\<close> switches
  away, so that its loop resumes with another call.  The scheduler chosen at compile time is
  the field \<open>config\<close>.
\<close>

section \<open>Data\<close>

datatype procstate = UNUSED | USED | SLEEPING | RUNNABLE | RUNNING | ZOMBIE

datatype sched = RR | MLFQ | LBS

text \<open>What a process may sleep on: an object of the kernel, told apart by its address.\<close>

datatype chan = NoChan | ChanProc nat | ChanTicks | ChanUart | ChanCons | ChanNread u64 | ChanNwrite u64
  | ChanSleeplock nat | ChanLog | ChanDisk nat

record proc =
  pstate :: procstate
  pchan :: chan
  pkilled :: int
  xstate :: int
  pid :: int
  parent :: "nat option"
  kstack :: u64
  sz :: u64
  pagetable :: u64
  trapframe :: u64
  context_ra :: u64
  context_sp :: u64
  ofile :: "nat option list"
  cwd :: "nat option"
  pname :: "u8 list"
  rtime :: u32
  ctime :: u32
  etime :: u32
  syscall_cnt :: "int list"
  backup :: u64
  pticks :: int
  total_ticks :: int
  handler :: u64
  alarm_state :: int
  tickets :: int
  arrival_time :: int
  queue_num :: int
  arrival_time_queue :: int
  ticks_in_queue :: int
  present_in_queue :: int

text \<open>
  The kernel's state: physical memory and its free list, then the globals of \<open>proc.c\<close> and
  \<open>trap.c\<close>.  \<open>trampoline_pa\<close> and \<open>forkret_pc\<close> are linker symbols.
\<close>

record kstate = kmem +
  config :: sched
  trampoline_pa :: u64
  forkret_pc :: u64
  procs :: "proc list"
  initproc :: "nat option"
  nextpid :: int
  sys_time :: int
  kticks :: u32

abbreviation NPROC :: nat where "NPROC \<equiv> 64"
abbreviation NOFILE :: nat where "NOFILE \<equiv> 16"

abbreviation proc_at :: "'a kstate_scheme \<Rightarrow> nat \<Rightarrow> proc" where
  "proc_at s i \<equiv> procs s ! i"

definition upd_proc :: "nat \<Rightarrow> (proc \<Rightarrow> proc) \<Rightarrow> 'a kstate_scheme \<Rightarrow> 'a kstate_scheme" where
  "upd_proc i f s = s\<lparr>procs := (procs s)[i := f (procs s ! i)]\<rparr>"

text \<open>The post-increment \<open>sys_time++\<close> stored into an \<open>int\<close>.\<close>

definition tick_sys_time :: "'a kstate_scheme \<Rightarrow> int \<times> 'a kstate_scheme" where
  "tick_sys_time s = (i32 (sys_time s), s\<lparr>sys_time := sys_time s + 1\<rparr>)"

text \<open>\<open>safestrcpy\<close> between two \<open>char[16]\<close> fields.\<close>

definition copy_name :: "u8 list \<Rightarrow> u8 list \<Rightarrow> u8 list" where
  "copy_name dst src = (let t = takeWhile (\<lambda>b. b \<noteq> 0) (take 15 src) in t @ 0 # drop (Suc (length t)) dst)"

section \<open>Boot\<close>

definition procinit :: "'a kstate_scheme \<Rightarrow> 'a kstate_scheme" where
  "procinit s = s\<lparr>procs := map (\<lambda>i. (procs s ! i)\<lparr>pstate := UNUSED, kstack := KSTACK i\<rparr>) [0..<length (procs s)]\<rparr>"

definition allocpid :: "'a kstate_scheme \<Rightarrow> int \<times> 'a kstate_scheme" where
  "allocpid s = (nextpid s, s\<lparr>nextpid := i32 (nextpid s + 1)\<rparr>)"

section \<open>Page tables of processes\<close>

definition proc_pagetable :: "proc \<Rightarrow> 'a kstate_scheme \<Rightarrow> (u64 \<times> 'a kstate_scheme) res" where
  "proc_pagetable p s =
     (let (pt, s1) = uvmcreate s
      in if pt = 0 then Ok (0, s1)
         else rbind (mappages pt TRAMPOLINE PGSIZE (trampoline_pa s) (PTE_R OR PTE_X) s1) (\<lambda>(r, s2).
           if r < 0 then rbind (uvmfree pt 0 s2) (\<lambda>s3. Ok (0, s3))
           else rbind (mappages pt TRAPFRAME PGSIZE (trapframe p) (PTE_R OR PTE_W) s2) (\<lambda>(r, s3).
             if r < 0
             then rbind (uvmunmap pt TRAMPOLINE 1 False s3) (\<lambda>s4. rbind (uvmfree pt 0 s4) (\<lambda>s5. Ok (0, s5)))
             else Ok (pt, s3))))"

definition proc_freepagetable :: "u64 \<Rightarrow> u64 \<Rightarrow> 'a kmem_scheme \<Rightarrow> 'a kmem_scheme res" where
  "proc_freepagetable pt psz s =
     rbind (uvmunmap pt TRAMPOLINE 1 False s) (\<lambda>s1.
     rbind (uvmunmap pt TRAPFRAME 1 False s1) (\<lambda>s2. uvmfree pt psz s2))"

section \<open>Slots\<close>

text \<open>\<open>freeproc\<close>; it leaves \<open>backup\<close> as it is.\<close>

definition freeproc :: "nat \<Rightarrow> 'a kstate_scheme \<Rightarrow> 'a kstate_scheme res" where
  "freeproc i s =
     (let p = proc_at s i in
      rbind (if trapframe p \<noteq> 0 then kfree (trapframe p) s else Ok s) (\<lambda>s1.
      rbind (if backup p \<noteq> 0 then kfree (backup p) s1 else Ok s1) (\<lambda>s2.
      rbind (if pagetable p \<noteq> 0 then proc_freepagetable (pagetable p) (sz p) s2 else Ok s2) (\<lambda>s3.
      Ok (upd_proc i (\<lambda>p. p\<lparr>trapframe := 0, pagetable := 0, sz := 0, pid := 0, parent := None,
            pname := (pname p)[0 := 0], pchan := NoChan, pkilled := 0, xstate := 0, pstate := UNUSED\<rparr>) s3)))))"

text \<open>The first slot, from \<open>i\<close> on, that satisfies a test.\<close>

fun scan_slots :: "(proc \<Rightarrow> bool) \<Rightarrow> proc list \<Rightarrow> nat \<Rightarrow> nat option" where
  "scan_slots P [] i = None"
| "scan_slots P (p # ps) i = (if P p then Some i else scan_slots P ps (Suc i))"

text \<open>The fields \<open>allocproc\<close> sets once the pages are there.\<close>

definition init_slot :: "nat \<Rightarrow> u64 \<Rightarrow> 'a kstate_scheme \<Rightarrow> 'a kstate_scheme" where
  "init_slot i pt s =
     (let s1 = upd_proc i (\<lambda>p. p\<lparr>pagetable := pt, context_ra := forkret_pc s, context_sp := kstack p + PGSIZE,
                 rtime := 0, etime := 0, ctime := kticks s, syscall_cnt := replicate 32 0,
                 pticks := 0, total_ticks := 0, handler := 0\<rparr>) s;
          s2 = (if config s1 = MLFQ
                then let (t, s') = tick_sys_time s1
                     in upd_proc i (\<lambda>p. p\<lparr>ticks_in_queue := 0, arrival_time_queue := t, queue_num := 0,
                          present_in_queue := 0\<rparr>) s'
                else s1);
          (t, s3) = tick_sys_time s2
      in upd_proc i (\<lambda>p. p\<lparr>arrival_time := t, tickets := 1, alarm_state := 0\<rparr>) s3)"

definition allocproc :: "'a kstate_scheme \<Rightarrow> (nat option \<times> 'a kstate_scheme) res" where
  "allocproc s =
     (case scan_slots (\<lambda>p. pstate p = UNUSED) (procs s) 0 of
        None \<Rightarrow> Ok (None, s)
      | Some i \<Rightarrow>
          (let (n, s1) = allocpid s;
               s2 = upd_proc i (\<lambda>p. p\<lparr>pid := n, pstate := USED\<rparr>) s1;
               (tf, s3) = kalloc s2;
               s4 = upd_proc i (\<lambda>p. p\<lparr>trapframe := tf\<rparr>) s3
           in if tf = 0 then rbind (freeproc i s4) (\<lambda>s5. Ok (None, s5))
              else let (bk, s5) = kalloc s4; s6 = upd_proc i (\<lambda>p. p\<lparr>backup := bk\<rparr>) s5
                   in if bk = 0 then rbind (freeproc i s6) (\<lambda>s7. Ok (None, s7))
                      else rbind (proc_pagetable (proc_at s6 i) s6) (\<lambda>(pt, s7).
                        if pt = 0
                        then rbind (freeproc i (upd_proc i (\<lambda>p. p\<lparr>pagetable := 0\<rparr>) s7)) (\<lambda>s8. Ok (None, s8))
                        else Ok (Some i, init_slot i pt s7))))"

section \<open>Trapframe fields\<close>

text \<open>Byte offsets of the registers saved in a trapframe.\<close>

definition tf_kernel_satp :: u64 where "tf_kernel_satp = 0"
definition tf_kernel_sp :: u64 where "tf_kernel_sp = 8"
definition tf_kernel_trap :: u64 where "tf_kernel_trap = 16"
definition tf_epc :: u64 where "tf_epc = 24"
definition tf_kernel_hartid :: u64 where "tf_kernel_hartid = 32"
definition tf_sp :: u64 where "tf_sp = 48"
definition tf_a0 :: u64 where "tf_a0 = 112"
definition tf_a1 :: u64 where "tf_a1 = 120"
definition tf_a2 :: u64 where "tf_a2 = 128"
definition tf_a3 :: u64 where "tf_a3 = 136"
definition tf_a4 :: u64 where "tf_a4 = 144"
definition tf_a5 :: u64 where "tf_a5 = 152"
definition tf_a7 :: u64 where "tf_a7 = 168"

lemmas tf_offsets = tf_kernel_satp_def tf_kernel_sp_def tf_kernel_trap_def tf_epc_def tf_kernel_hartid_def tf_sp_def
  tf_a0_def tf_a1_def tf_a2_def tf_a3_def tf_a4_def tf_a5_def tf_a7_def

definition tf_get :: "nat \<Rightarrow> u64 \<Rightarrow> 'a kstate_scheme \<Rightarrow> u64" where
  "tf_get i off s = ld64 (mem s) (trapframe (proc_at s i) + off)"

definition tf_set :: "nat \<Rightarrow> u64 \<Rightarrow> u64 \<Rightarrow> 'a kstate_scheme \<Rightarrow> 'a kstate_scheme" where
  "tf_set i off v s = s\<lparr>mem := st64 (mem s) (trapframe (proc_at s i) + off) v\<rparr>"

text \<open>The structure assignment \<open>*dst = *src\<close> of two trapframes (288 bytes).\<close>

definition copy_trapframe :: "u64 \<Rightarrow> u64 \<Rightarrow> 'a kmem_scheme \<Rightarrow> 'a kmem_scheme" where
  "copy_trapframe dst src s = s\<lparr>mem := store_bytes (mem s) dst (load_bytes (mem s) src 288)\<rparr>"

section \<open>First process, growing\<close>

text \<open>\<open>initcode_at\<close> is the address of the array \<open>initcode\<close> (52 bytes); \<open>root\<close> is \<open>namei("/")\<close>.\<close>

definition userinit :: "u64 \<Rightarrow> nat option \<Rightarrow> 'a kstate_scheme \<Rightarrow> 'a kstate_scheme res" where
  "userinit initcode_at root s =
     rbind (allocproc s) (\<lambda>(r, s1). case r of
       None \<Rightarrow> Stuck
     | Some i \<Rightarrow>
         rbind (uvmfirst (pagetable (proc_at s1 i)) initcode_at 52 (s1\<lparr>initproc := Some i\<rparr>)) (\<lambda>s2.
           let s3 = upd_proc i (\<lambda>p. p\<lparr>sz := PGSIZE\<rparr>) s2;
               s4 = tf_set i tf_sp PGSIZE (tf_set i tf_epc 0 s3)
           in Ok (upd_proc i (\<lambda>p. p\<lparr>pname := copy_name (pname p) [105, 110, 105, 116, 99, 111, 100, 101, 0],
                    cwd := root, pstate := RUNNABLE\<rparr>) s4)))"

definition growproc :: "nat \<Rightarrow> int \<Rightarrow> 'a kstate_scheme \<Rightarrow> (int \<times> 'a kstate_scheme) res" where
  "growproc me n s =
     (let p = proc_at s me; old = sz p in
      if n > 0
      then rbind (uvmalloc (pagetable p) old (old + word_of_int n) PTE_W s) (\<lambda>(new, s1).
             if new = 0 then Ok (-1, s1) else Ok (0, upd_proc me (\<lambda>p. p\<lparr>sz := new\<rparr>) s1))
      else if n < 0
      then rbind (uvmdealloc (pagetable p) old (old + word_of_int n) s) (\<lambda>(new, s1).
             Ok (0, upd_proc me (\<lambda>p. p\<lparr>sz := new\<rparr>) s1))
      else Ok (0, upd_proc me (\<lambda>p. p\<lparr>sz := old\<rparr>) s))"

section \<open>Sleep and wakeup\<close>

text \<open>
  \<open>sleep\<close> up to the switch in \<open>sched\<close>, and from the switch back on; \<open>me\<close> is \<open>myproc()\<close>, which
  is null when an interrupt arrives in the scheduler.
\<close>

definition sleep_enter :: "nat \<Rightarrow> chan \<Rightarrow> 'a kstate_scheme \<Rightarrow> 'a kstate_scheme" where
  "sleep_enter me ch s = upd_proc me (\<lambda>p. p\<lparr>pchan := ch, pstate := SLEEPING\<rparr>) s"

definition sleep_leave :: "nat \<Rightarrow> 'a kstate_scheme \<Rightarrow> 'a kstate_scheme" where
  "sleep_leave me s = upd_proc me (\<lambda>p. p\<lparr>pchan := NoChan\<rparr>) s"

definition wakeup_one :: "chan \<Rightarrow> nat \<Rightarrow> 'a kstate_scheme \<Rightarrow> 'a kstate_scheme" where
  "wakeup_one ch i s =
     (if pstate (proc_at s i) = SLEEPING \<and> pchan (proc_at s i) = ch
      then let s1 = upd_proc i (\<lambda>p. p\<lparr>pstate := RUNNABLE\<rparr>) s; (t, s2) = tick_sys_time s1
           in if config s = MLFQ then upd_proc i (\<lambda>p. p\<lparr>arrival_time_queue := t\<rparr>) s2
              else upd_proc i (\<lambda>p. p\<lparr>arrival_time := t\<rparr>) s2
      else s)"

fun wakeup_loop :: "nat list \<Rightarrow> nat option \<Rightarrow> chan \<Rightarrow> 'a kstate_scheme \<Rightarrow> 'a kstate_scheme" where
  "wakeup_loop [] me ch s = s"
| "wakeup_loop (i # is) me ch s =
     wakeup_loop is me ch (if Some i \<noteq> me then wakeup_one ch i s else s)"

definition wakeup :: "nat option \<Rightarrow> chan \<Rightarrow> 'a kstate_scheme \<Rightarrow> 'a kstate_scheme" where
  "wakeup me ch s = wakeup_loop [0..<length (procs s)] me ch s"

section \<open>Fork\<close>

text \<open>
  \<open>filedup\<close> and \<open>idup\<close> of the file system, which return their argument, are the arguments
  \<open>fdup\<close> and \<open>idup\<close>.
\<close>

fun dup_files ::
  "(nat \<Rightarrow> 'a kstate_scheme \<Rightarrow> 'a kstate_scheme res) \<Rightarrow> nat list \<Rightarrow> nat \<Rightarrow> nat \<Rightarrow> 'a kstate_scheme \<Rightarrow> 'a kstate_scheme res"
where
  "dup_files fdup [] me np s = Ok s"
| "dup_files fdup (i # is) me np s =
     (case ofile (proc_at s me) ! i of
        None \<Rightarrow> dup_files fdup is me np s
      | Some f \<Rightarrow> rbind (fdup f s) (\<lambda>s1.
          dup_files fdup is me np (upd_proc np (\<lambda>p. p\<lparr>ofile := (ofile p)[i := Some f]\<rparr>) s1)))"

definition dup_cwd ::
  "(nat \<Rightarrow> 'a kstate_scheme \<Rightarrow> 'a kstate_scheme res) \<Rightarrow> nat \<Rightarrow> nat \<Rightarrow> 'a kstate_scheme \<Rightarrow> 'a kstate_scheme res"
where
  "dup_cwd idup me np s =
     (case cwd (proc_at s me) of None \<Rightarrow> Stuck
      | Some ip \<Rightarrow> rbind (idup ip s) (\<lambda>s1. Ok (upd_proc np (\<lambda>p. p\<lparr>cwd := Some ip\<rparr>) s1)))"

text \<open>The tail of \<open>fork\<close>, once memory and files are copied.\<close>

definition fork_finish :: "nat \<Rightarrow> nat \<Rightarrow> 'a kstate_scheme \<Rightarrow> int \<times> 'a kstate_scheme" where
  "fork_finish me np s =
     (let p = proc_at s me;
          s1 = upd_proc np (\<lambda>q. q\<lparr>pname := copy_name (pname q) (pname p)\<rparr>) s;
          n = pid (proc_at s1 np);
          s2 = upd_proc np (\<lambda>q. q\<lparr>parent := Some me\<rparr>) s1;
          s3 = upd_proc np (\<lambda>q. q\<lparr>pstate := RUNNABLE\<rparr>) s2;
          s4 = upd_proc np (\<lambda>q. q\<lparr>tickets := tickets (proc_at s3 me)\<rparr>) s3;
          (t, s5) = tick_sys_time s4
      in (n, if config s = MLFQ then upd_proc me (\<lambda>p. p\<lparr>arrival_time_queue := t\<rparr>) s5
             else upd_proc me (\<lambda>p. p\<lparr>arrival_time := t\<rparr>) s5))"

definition fork ::
  "(nat \<Rightarrow> 'a kstate_scheme \<Rightarrow> 'a kstate_scheme res) \<Rightarrow> (nat \<Rightarrow> 'a kstate_scheme \<Rightarrow> 'a kstate_scheme res) \<Rightarrow>
   nat \<Rightarrow> 'a kstate_scheme \<Rightarrow> (int \<times> 'a kstate_scheme) res"
where
  "fork fdup idup me s =
     rbind (allocproc s) (\<lambda>(r, s1). case r of
       None \<Rightarrow> Ok (-1, s1)
     | Some np \<Rightarrow>
         rbind (uvmcopy (pagetable (proc_at s1 me)) (pagetable (proc_at s1 np)) (sz (proc_at s1 me)) s1)
           (\<lambda>(r, s2).
             if r < 0 then rbind (freeproc np s2) (\<lambda>s3. Ok (-1, s3))
             else let s3 = upd_proc np (\<lambda>q. q\<lparr>sz := sz (proc_at s2 me)\<rparr>) s2;
                      s4 = copy_trapframe (trapframe (proc_at s3 np)) (trapframe (proc_at s3 me)) s3;
                      s5 = tf_set np tf_a0 0 s4
                  in rbind (dup_files fdup [0..<NOFILE] me np s5) (\<lambda>s6.
                     rbind (dup_cwd idup me np s6) (\<lambda>s7. Ok (fork_finish me np s7)))))"

section \<open>Exit\<close>

fun reparent_loop :: "nat list \<Rightarrow> nat \<Rightarrow> 'a kstate_scheme \<Rightarrow> 'a kstate_scheme" where
  "reparent_loop [] p s = s"
| "reparent_loop (i # is) p s =
     reparent_loop is p
       (if parent (proc_at s i) = Some p
        then let s1 = upd_proc i (\<lambda>q. q\<lparr>parent := initproc s\<rparr>) s
             in wakeup (Some p) (case initproc s1 of None \<Rightarrow> NoChan | Some j \<Rightarrow> ChanProc j) s1
        else s)"

definition reparent :: "nat \<Rightarrow> 'a kstate_scheme \<Rightarrow> 'a kstate_scheme" where
  "reparent p s = reparent_loop [0..<length (procs s)] p s"

text \<open>\<open>fileclose\<close>, \<open>begin_op\<close>, \<open>iput\<close> and \<open>end_op\<close> are arguments.\<close>

fun close_files ::
  "(nat \<Rightarrow> 'a kstate_scheme \<Rightarrow> 'a kstate_scheme res) \<Rightarrow> nat list \<Rightarrow> nat \<Rightarrow> 'a kstate_scheme \<Rightarrow> 'a kstate_scheme res"
where
  "close_files fclose [] me s = Ok s"
| "close_files fclose (i # is) me s =
     (case ofile (proc_at s me) ! i of
        None \<Rightarrow> close_files fclose is me s
      | Some f \<Rightarrow> rbind (fclose f s) (\<lambda>s1.
          close_files fclose is me (upd_proc me (\<lambda>p. p\<lparr>ofile := (ofile p)[i := None]\<rparr>) s1)))"

text \<open>\<open>exit\<close> from taking \<open>wait_lock\<close> to the final switch.\<close>

definition exit_tail :: "nat \<Rightarrow> int \<Rightarrow> 'a kstate_scheme \<Rightarrow> 'a kstate_scheme" where
  "exit_tail me status s =
     (let s1 = reparent me s;
          s2 = wakeup (Some me) (case parent (proc_at s1 me) of None \<Rightarrow> NoChan | Some j \<Rightarrow> ChanProc j) s1
      in upd_proc me (\<lambda>p. p\<lparr>xstate := status, pstate := ZOMBIE, etime := kticks s2\<rparr>) s2)"

definition exit_proc ::
  "(nat \<Rightarrow> 'a kstate_scheme \<Rightarrow> 'a kstate_scheme res) \<Rightarrow> ('a kstate_scheme \<Rightarrow> 'a kstate_scheme res) \<Rightarrow>
   (nat option \<Rightarrow> 'a kstate_scheme \<Rightarrow> 'a kstate_scheme res) \<Rightarrow> ('a kstate_scheme \<Rightarrow> 'a kstate_scheme res) \<Rightarrow>
   nat \<Rightarrow> int \<Rightarrow> 'a kstate_scheme \<Rightarrow> 'a kstate_scheme res"
where
  "exit_proc fclose begin_op iput end_op me status s =
     (if initproc s = Some me then Panic ''init exiting''
      else rbind (close_files fclose [0..<NOFILE] me s) (\<lambda>s1.
           rbind (begin_op s1) (\<lambda>s2.
           rbind (iput (cwd (proc_at s2 me)) s2) (\<lambda>s3.
           rbind (end_op s3) (\<lambda>s4.
           Ok (exit_tail me status (upd_proc me (\<lambda>p. p\<lparr>cwd := None\<rparr>) s4)))))))"

section \<open>Wait\<close>

text \<open>The four bytes of an \<open>int\<close> in memory.\<close>

definition int_bytes :: "int \<Rightarrow> u8 list" where
  "int_bytes x = (let w = word_of_int x :: u32 in [byte_of 0 w, byte_of 1 w, byte_of 2 w, byte_of 3 w])"

text \<open>\<open>copyout\<close> of the exit status, unless \<open>addr\<close> is null.\<close>

definition put_status :: "nat \<Rightarrow> u64 \<Rightarrow> int \<Rightarrow> 'a kstate_scheme \<Rightarrow> int \<times> 'a kstate_scheme" where
  "put_status me addr st s =
     (if addr \<noteq> 0 then copyout (pagetable (proc_at s me)) addr (int_bytes st) s else (0, s))"

text \<open>
  One pass over the table: \<open>Inl n\<close> is a return of \<open>n\<close>, \<open>Inr havekids\<close> the end of the loop
  without a zombie.
\<close>

fun wait_scan ::
  "nat list \<Rightarrow> bool \<Rightarrow> nat \<Rightarrow> u64 \<Rightarrow> 'a kstate_scheme \<Rightarrow> ((int + bool) \<times> 'a kstate_scheme) res" where
  "wait_scan [] havekids me addr s = Ok (Inr havekids, s)"
| "wait_scan (i # is) havekids me addr s =
     (if parent (proc_at s i) = Some me
      then if pstate (proc_at s i) = ZOMBIE
           then let n = pid (proc_at s i); (r, s1) = put_status me addr (xstate (proc_at s i)) s
                in if r < 0 then Ok (Inl (-1), s1)
                   else rbind (freeproc i s1) (\<lambda>s2. Ok (Inl n, s2))
           else wait_scan is True me addr s
      else wait_scan is havekids me addr s)"

text \<open>
  \<open>wait\<close> up to its return (\<open>Some\<close> of the value) or to the switch inside \<open>sleep(p, &wait_lock)\<close>
  (\<open>None\<close>); the loop resumes with \<open>sleep_leave\<close> and another call.
\<close>

definition killed :: "nat \<Rightarrow> 'a kstate_scheme \<Rightarrow> int" where
  "killed i s = pkilled (proc_at s i)"

definition wait_proc :: "nat \<Rightarrow> u64 \<Rightarrow> 'a kstate_scheme \<Rightarrow> (int option \<times> 'a kstate_scheme) res" where
  "wait_proc me addr s =
     rbind (wait_scan [0..<length (procs s)] False me addr s) (\<lambda>(out, s1). case out of
       Inl n \<Rightarrow> Ok (Some n, s1)
     | Inr havekids \<Rightarrow>
         if \<not> havekids \<or> killed me s1 \<noteq> 0 then Ok (Some (-1), s1)
         else Ok (None, sleep_enter me (ChanProc me) s1))"

text \<open>\<open>waitx\<close>; the third component is \<open>*wtime, *rtime\<close> when they are written.\<close>

fun waitx_scan ::
  "nat list \<Rightarrow> bool \<Rightarrow> nat \<Rightarrow> u64 \<Rightarrow> 'a kstate_scheme \<Rightarrow>
   ((int + bool) \<times> (u32 \<times> u32) option \<times> 'a kstate_scheme) res" where
  "waitx_scan [] havekids me addr s = Ok (Inr havekids, None, s)"
| "waitx_scan (i # is) havekids me addr s =
     (if parent (proc_at s i) = Some me
      then if pstate (proc_at s i) = ZOMBIE
           then let np = proc_at s i; n = pid np;
                    times = Some (etime np - ctime np - rtime np, rtime np);
                    (r, s1) = put_status me addr (xstate np) s
                in if r < 0 then Ok (Inl (-1), times, s1)
                   else rbind (freeproc i s1) (\<lambda>s2. Ok (Inl n, times, s2))
           else waitx_scan is True me addr s
      else waitx_scan is havekids me addr s)"

definition waitx ::
  "nat \<Rightarrow> u64 \<Rightarrow> 'a kstate_scheme \<Rightarrow> (int option \<times> (u32 \<times> u32) option \<times> 'a kstate_scheme) res" where
  "waitx me addr s =
     rbind (waitx_scan [0..<length (procs s)] False me addr s) (\<lambda>(out, times, s1). case out of
       Inl n \<Rightarrow> Ok (Some n, times, s1)
     | Inr havekids \<Rightarrow>
         if \<not> havekids \<or> pkilled (proc_at s1 me) \<noteq> 0 then Ok (Some (-1), times, s1)
         else Ok (None, times, sleep_enter me (ChanProc me) s1))"

section \<open>Kill, time, copying\<close>

definition kill :: "int \<Rightarrow> 'a kstate_scheme \<Rightarrow> int \<times> 'a kstate_scheme" where
  "kill n s =
     (case scan_slots (\<lambda>p. pid p = n) (procs s) 0 of
        None \<Rightarrow> (-1, s)
      | Some i \<Rightarrow> (0, upd_proc i (\<lambda>p. let q = p\<lparr>pkilled := 1\<rparr>
                       in if pstate q = SLEEPING then q\<lparr>pstate := RUNNABLE\<rparr> else q) s))"

definition setkilled :: "nat \<Rightarrow> 'a kstate_scheme \<Rightarrow> 'a kstate_scheme" where
  "setkilled i s = upd_proc i (\<lambda>p. p\<lparr>pkilled := 1\<rparr>) s"

definition update_time :: "'a kstate_scheme \<Rightarrow> 'a kstate_scheme" where
  "update_time s =
     s\<lparr>procs := map (\<lambda>p. if pstate p = RUNNING then p\<lparr>rtime := rtime p + 1\<rparr> else p) (procs s)\<rparr>"

text \<open>\<open>either_copyout\<close>/\<open>either_copyin\<close>, the kernel side being the list of bytes.\<close>

definition either_copyout :: "nat \<Rightarrow> bool \<Rightarrow> u64 \<Rightarrow> u8 list \<Rightarrow> 'a kstate_scheme \<Rightarrow> int \<times> 'a kstate_scheme" where
  "either_copyout me user_dst dst src s =
     (if user_dst then copyout (pagetable (proc_at s me)) dst src s
      else (0, s\<lparr>mem := store_bytes (mem s) dst src\<rparr>))"

definition either_copyin :: "nat \<Rightarrow> bool \<Rightarrow> u64 \<Rightarrow> nat \<Rightarrow> 'a kstate_scheme \<Rightarrow> int \<times> u8 list" where
  "either_copyin me user_src src len s =
     (if user_src then copyin (pagetable (proc_at s me)) src len s
      else (0, load_bytes (mem s) src len))"

section \<open>Listing\<close>

fun state_name :: "procstate \<Rightarrow> string" where
  "state_name UNUSED = ''unused''"
| "state_name USED = ''used''"
| "state_name SLEEPING = ''sleep ''"
| "state_name RUNNABLE = ''runble''"
| "state_name RUNNING = ''run   ''"
| "state_name ZOMBIE = ''zombie''"

text \<open>The arguments of the \<open>printf\<close> of each line of \<open>procdump\<close>.\<close>

definition procdump :: "'a kstate_scheme \<Rightarrow> (int \<times> string \<times> u8 list \<times> int) list" where
  "procdump s = map (\<lambda>p. (pid p, state_name (pstate p), takeWhile (\<lambda>b. b \<noteq> 0) (pname p), tickets p))
     (filter (\<lambda>p. pstate p \<noteq> UNUSED) (procs s))"

section \<open>Frames\<close>

lemma upd_proc_simps [simp]:
  "procs (upd_proc i f s) = (procs s)[i := f (procs s ! i)]"
  "config (upd_proc i f s) = config s" "trampoline_pa (upd_proc i f s) = trampoline_pa s"
  "forkret_pc (upd_proc i f s) = forkret_pc s" "initproc (upd_proc i f s) = initproc s"
  "nextpid (upd_proc i f s) = nextpid s" "sys_time (upd_proc i f s) = sys_time s"
  "kticks (upd_proc i f s) = kticks s" "mem (upd_proc i f s) = mem s"
  "freelist (upd_proc i f s) = freelist s" "kend (upd_proc i f s) = kend s"
  by (simp_all add: upd_proc_def)

lemma upd_proc_comp [simp]:
  "i < length (procs s) \<Longrightarrow> upd_proc i g (upd_proc i f s) = upd_proc i (\<lambda>p. g (f p)) s"
  by (simp add: upd_proc_def)

lemma rest_kstate:
  fixes s s' :: "'a kstate_scheme"
  assumes "rest s' = rest s"
  shows "procs s' = procs s" "config s' = config s" "trampoline_pa s' = trampoline_pa s"
    "forkret_pc s' = forkret_pc s" "initproc s' = initproc s" "nextpid s' = nextpid s"
    "sys_time s' = sys_time s" "kticks s' = kticks s"
  using assms by (cases s; cases s'; simp add: rest_def)+

lemma tf_set_rest [simp]: "rest (tf_set i off v s) = rest s" "rest (copy_trapframe d e s) = rest s"
  by (simp_all add: tf_set_def copy_trapframe_def)

text \<open>
  The part of a slot the table invariant is about: free or not, zombie or not, pid and parent.
\<close>

datatype key = Key (k_free: bool) (k_zombie: bool) (k_pid: int) (k_parent: "nat option")

definition slot_key :: "proc \<Rightarrow> key" where
  "slot_key p = Key (pstate p = UNUSED) (pstate p = ZOMBIE) (pid p) (parent p)"

definition keys :: "'a kstate_scheme \<Rightarrow> key list" where
  "keys s = map slot_key (procs s)"

definition table_view :: "'a kstate_scheme \<Rightarrow> key list \<times> int \<times> nat option" where
  "table_view s = (keys s, nextpid s, initproc s)"

lemma rest_view: "rest s' = rest s \<Longrightarrow> table_view s' = table_view (s :: 'a kstate_scheme)"
  using rest_kstate[of s' s] by (simp add: table_view_def keys_def)

lemma keys_upd: "keys (upd_proc i f s) = (keys s)[i := slot_key (f (procs s ! i))]"
  by (simp add: keys_def map_update)

lemma keys_upd_same:
  assumes "slot_key (f (procs s ! i)) = slot_key (procs s ! i)"
  shows "keys (upd_proc i f s) = keys s"
proof (cases "i < length (procs s)")
  case True
  then have "slot_key (procs s ! i) = keys s ! i" by (simp add: keys_def)
  then show ?thesis by (simp only: keys_upd assms list_update_id)
next
  case False
  then have "length (keys s) \<le> i" by (simp add: keys_def)
  then show ?thesis by (simp only: keys_upd list_update_beyond)
qed

lemma view_upd:
  "table_view (upd_proc i f s) = ((keys s)[i := slot_key (f (procs s ! i))], nextpid s, initproc s)"
  by (simp add: table_view_def keys_upd)

lemma view_upd_same:
  "slot_key (f (procs s ! i)) = slot_key (procs s ! i) \<Longrightarrow> table_view (upd_proc i f s) = table_view s"
  by (simp add: table_view_def keys_upd_same)

lemma view_tick [simp]: "table_view (snd (tick_sys_time s)) = table_view s"
  "procs (snd (tick_sys_time s)) = procs s" "config (snd (tick_sys_time s)) = config s"
  by (simp_all add: tick_sys_time_def table_view_def keys_def)

lemma proc_freepagetable_rest: "proc_freepagetable pt n s = Ok s' \<Longrightarrow> rest s' = rest s"
  by (auto simp: proc_freepagetable_def dest!: uvmunmap_rest uvmfree_rest)

lemma proc_pagetable_rest: "proc_pagetable p s = Ok (pt, s') \<Longrightarrow> rest s' = rest s"
  by (auto simp: proc_pagetable_def Let_def split: prod.splits if_splits
      dest!: uvmcreate_rest mappages_rest uvmunmap_rest uvmfree_rest)

abbreviation free_key :: key where "free_key \<equiv> Key True False 0 None"

lemma freeproc_rest:
  assumes "freeproc i s = Ok s'"
  shows "\<exists>s3. rest s3 = rest s \<and> s' = upd_proc i (\<lambda>p. p\<lparr>trapframe := 0, pagetable := 0, sz := 0, pid := 0, parent := None,
            pname := (pname p)[0 := 0], pchan := NoChan, pkilled := 0, xstate := 0, pstate := UNUSED\<rparr>) s3"
proof -
  obtain s1 s2 s3 where "(if trapframe (proc_at s i) \<noteq> 0 then kfree (trapframe (proc_at s i)) s else Ok s) = Ok s1"
    "(if backup (proc_at s i) \<noteq> 0 then kfree (backup (proc_at s i)) s1 else Ok s1) = Ok s2"
    and s3: "(if pagetable (proc_at s i) \<noteq> 0
      then proc_freepagetable (pagetable (proc_at s i)) (sz (proc_at s i)) s2 else Ok s2) = Ok s3"
    "s' = upd_proc i (\<lambda>p. p\<lparr>trapframe := 0, pagetable := 0, sz := 0, pid := 0, parent := None,
            pname := (pname p)[0 := 0], pchan := NoChan, pkilled := 0, xstate := 0, pstate := UNUSED\<rparr>) s3"
    using assms by (fastforce simp: freeproc_def Let_def rbind_eq_Ok)
  then have "rest s1 = rest s" "rest s2 = rest s1" "rest s3 = rest s2"
    using kfree_rest proc_freepagetable_rest by (metis res.inject(1))+
  then show ?thesis using s3 by auto
qed

lemma freeproc_view:
  assumes "freeproc i s = Ok s'"
  shows "table_view s' = ((keys s)[i := free_key], nextpid s, initproc s) \<and> length (procs s') = length (procs s)"
proof -
  obtain s3 where r: "rest s3 = rest s" and s': "s' = upd_proc i (\<lambda>p. p\<lparr>trapframe := 0, pagetable := 0, sz := 0, pid := 0, parent := None,
            pname := (pname p)[0 := 0], pchan := NoChan, pkilled := 0, xstate := 0, pstate := UNUSED\<rparr>) s3"
    using freeproc_rest[OF assms] by blast
  have "keys s3 = keys s" "nextpid s3 = nextpid s" "initproc s3 = initproc s" "procs s3 = procs s"
    using rest_kstate[OF r] by (simp_all add: keys_def)
  then show ?thesis by (simp add: s' view_upd slot_key_def)
qed

lemma init_slot_view [simp]: "table_view (init_slot i pt s) = table_view s"
proof -
  have u: "table_view (upd_proc i f x) = table_view x" if "\<And>p. slot_key (f p) = slot_key p" for f and x :: "'a kstate_scheme"
    using that by (rule view_upd_same)
  show ?thesis unfolding init_slot_def Let_def split_beta by (auto simp: u slot_key_def)
qed

lemma scan_slots_Some:
  "scan_slots P ps i = Some j \<Longrightarrow> i \<le> j \<and> j < i + length ps \<and> P (ps ! (j - i)) \<and> (\<forall>k<j - i. \<not> P (ps ! k))"
proof (induction ps arbitrary: i)
  case (Cons p ps)
  show ?case
  proof (cases "P p")
    case False
    then have IH: "Suc i \<le> j" "j < Suc i + length ps" "P (ps ! (j - Suc i))" "\<forall>k<j - Suc i. \<not> P (ps ! k)"
      using Cons.IH[of "Suc i"] Cons.prems by simp_all
    then have j: "j - i = Suc (j - Suc i)" by simp
    show ?thesis using IH False by (auto simp: j nth_Cons split: nat.split)
  qed (use Cons.prems in simp)
qed simp

lemma scan_slots_None: "scan_slots P ps i = None \<longleftrightarrow> (\<forall>p\<in>set ps. \<not> P p)"
  by (induction ps arbitrary: i) auto

text \<open>The effect of \<open>allocproc\<close> on the table.\<close>

lemma allocproc_view:
  assumes "allocproc s = Ok (r, s')"
  shows "(r = None \<and> table_view s' = table_view s) \<or>
    (\<exists>i n. n = nextpid s \<and> i < length (procs s) \<and> pstate (proc_at s i) = UNUSED \<and>
      (r = None \<and> table_view s' = ((keys s)[i := free_key], i32 (n + 1), initproc s) \<or>
       r = Some i \<and> table_view s' = ((keys s)[i := Key False False n (parent (proc_at s i))], i32 (n + 1), initproc s)))"
proof (cases "scan_slots (\<lambda>p. pstate p = UNUSED) (procs s) 0")
  case None
  then show ?thesis using assms by (simp add: allocproc_def)
next
  case (Some i)
  then have i: "i < length (procs s)" "pstate (proc_at s i) = UNUSED" using scan_slots_Some by fastforce+
  define s2 where "s2 = upd_proc i (\<lambda>p. p\<lparr>pid := nextpid s, pstate := USED\<rparr>) (snd (allocpid s))"
  have v2: "table_view s2 = ((keys s)[i := Key False False (nextpid s) (parent (proc_at s i))], i32 (nextpid s + 1), initproc s)"
    by (simp add: s2_def view_upd allocpid_def slot_key_def keys_def)
  have fr: "table_view x = ((keys s)[i := free_key], i32 (nextpid s + 1), initproc s)"
    if "freeproc i y = Ok x" "table_view y = table_view s2" for x y :: "'a kstate_scheme"
    using freeproc_view[OF that(1)] that(2) v2 by (simp add: table_view_def)
  obtain tf s3 where k1: "kalloc s2 = (tf, s3)" by fastforce
  define s4 where "s4 = upd_proc i (\<lambda>p. p\<lparr>trapframe := tf\<rparr>) s3"
  have v4: "table_view s4 = table_view s2"
    using rest_view[OF kalloc_rest[OF k1]] by (simp add: s4_def view_upd_same slot_key_def)
  obtain bk s5 where k2: "kalloc s4 = (bk, s5)" by fastforce
  define s6 where "s6 = upd_proc i (\<lambda>p. p\<lparr>backup := bk\<rparr>) s5"
  have v6: "table_view s6 = table_view s2"
    using rest_view[OF kalloc_rest[OF k2]] v4 by (simp add: s6_def view_upd_same slot_key_def)
  have run: "(if tf = 0 then rbind (freeproc i s4) (\<lambda>s5. Ok (None, s5))
      else if bk = 0 then rbind (freeproc i s6) (\<lambda>s7. Ok (None, s7))
      else rbind (proc_pagetable (proc_at s6 i) s6) (\<lambda>(pt, s7).
        if pt = 0 then rbind (freeproc i (upd_proc i (\<lambda>p. p\<lparr>pagetable := 0\<rparr>) s7)) (\<lambda>s8. Ok (None, s8))
        else Ok (Some i, init_slot i pt s7))) = Ok (r, s')"
  proof -
    have k1': "kalloc (upd_proc i (\<lambda>p. p\<lparr>pid := nextpid s, pstate := USED\<rparr>) (s\<lparr>nextpid := i32 (nextpid s + 1)\<rparr>)) = (tf, s3)"
      using k1 by (simp add: s2_def allocpid_def)
    show ?thesis
      using assms unfolding allocproc_def Some option.case allocpid_def Let_def prod.case k1' s4_def[symmetric] k2 s6_def[symmetric]
      by simp
  qed
  have v7: "table_view x = table_view s2" if "proc_pagetable (proc_at s6 i) s6 = Ok (pt, x)" for pt x
    using rest_view[OF proc_pagetable_rest[OF that]] v6 by simp
  show ?thesis
    using run i fr v4 v6 v7 v2
    by (auto split: if_splits simp: view_upd_same slot_key_def)
qed

section \<open>The invariant of the process table\<close>

definition live :: "key \<Rightarrow> bool" where
  "live k \<longleftrightarrow> \<not> k_free k \<and> \<not> k_zombie k"

definition key_ok :: "key list \<Rightarrow> int \<Rightarrow> key \<Rightarrow> bool" where
  "key_ok ks n k \<longleftrightarrow>
     (if k_free k then k_pid k = 0 \<and> k_parent k = None else 0 < k_pid k \<and> k_pid k < n) \<and>
     (\<forall>j. k_parent k = Some j \<longrightarrow> j < length ks \<and> live (ks ! j))"

text \<open>
  Free slots have pid 0 and no parent; the others have distinct positive pids that were handed
  out; parents and the init process are neither free nor zombies.
\<close>

definition keys_inv :: "key list \<Rightarrow> int \<Rightarrow> nat option \<Rightarrow> bool" where
  "keys_inv ks n ini \<longleftrightarrow> 1 \<le> n \<and> (\<forall>i<length ks. key_ok ks n (ks ! i)) \<and>
     (\<forall>i<length ks. \<forall>j<length ks. i \<noteq> j \<longrightarrow> \<not> k_free (ks ! i) \<longrightarrow> k_pid (ks ! i) \<noteq> k_pid (ks ! j)) \<and>
     (\<forall>j. ini = Some j \<longrightarrow> j < length ks \<and> live (ks ! j))"

lemma keys_invI:
  assumes "1 \<le> n" "\<And>i. i < length ks \<Longrightarrow> key_ok ks n (ks ! i)"
    and "\<And>i j. i < length ks \<Longrightarrow> j < length ks \<Longrightarrow> i \<noteq> j \<Longrightarrow> \<not> k_free (ks ! i) \<Longrightarrow> k_pid (ks ! i) \<noteq> k_pid (ks ! j)"
    and "\<And>j. ini = Some j \<Longrightarrow> j < length ks \<and> live (ks ! j)"
  shows "keys_inv ks n ini"
  using assms by (simp add: keys_inv_def)

lemma keys_invD:
  assumes "keys_inv ks n ini"
  shows "1 \<le> n" "i < length ks \<Longrightarrow> key_ok ks n (ks ! i)"
    and "i < length ks \<Longrightarrow> j < length ks \<Longrightarrow> i \<noteq> j \<Longrightarrow> \<not> k_free (ks ! i) \<Longrightarrow> k_pid (ks ! i) \<noteq> k_pid (ks ! j)"
    and "ini = Some j \<Longrightarrow> j < length ks \<and> live (ks ! j)"
  using assms by (simp_all add: keys_inv_def)

lemma key_ok_mono:
  assumes "key_ok ks n k" "n \<le> n'" "length ks' = length ks"
    and "\<And>j. live (ks ! j) \<Longrightarrow> live (ks' ! j)"
  shows "key_ok ks' n' k"
  using assms by (auto simp: key_ok_def)

lemma keys_pid_range: "keys_inv ks n ini \<Longrightarrow> i < length ks \<Longrightarrow> k_pid (ks ! i) < n \<and> (\<not> k_free (ks ! i) \<longrightarrow> 0 < k_pid (ks ! i))"
  using keys_invD(1)[of ks n ini] keys_invD(2)[of ks n ini i] by (auto simp: key_ok_def split: if_splits)

text \<open>Replacing one key by one that is no less live.\<close>

lemma keys_inv_update:
  assumes inv: "keys_inv ks n ini" and n: "n \<le> n'"
    and ok: "key_ok ks n' k" and lv: "live (ks ! i) \<Longrightarrow> live k"
    and pid: "\<And>j. j < length ks \<Longrightarrow> j \<noteq> i \<Longrightarrow> (\<not> k_free k \<or> \<not> k_free (ks ! j)) \<Longrightarrow> k_pid (ks ! j) \<noteq> k_pid k"
  shows "keys_inv (ks[i := k]) n' ini"
proof (cases "i < length ks")
  case True
  have L: "live (ks ! j) \<Longrightarrow> live (ks[i := k] ! j)" for j using lv True by (cases "j = i") auto
  show ?thesis
  proof (rule keys_invI)
    show "1 \<le> n'" using keys_invD(1)[OF inv] n by simp
    show "key_ok (ks[i := k]) n' (ks[i := k] ! j)" if "j < length (ks[i := k])" for j
    proof (cases "j = i")
      case eq: True
      then show ?thesis using True ok L by (simp add: key_ok_mono[of ks n'])
    next
      case False
      have "key_ok ks n (ks ! j)" using keys_invD(2)[OF inv] that by simp
      then show ?thesis using False n L by (simp add: key_ok_mono[of ks n])
    qed
    show "k_pid (ks[i := k] ! a) \<noteq> k_pid (ks[i := k] ! b)"
      if "a < length (ks[i := k])" "b < length (ks[i := k])" "a \<noteq> b" "\<not> k_free (ks[i := k] ! a)" for a b
      using that True pid[of a] pid[of b] keys_invD(3)[OF inv, of a b] by (auto simp: nth_list_update split: if_splits)
    show "j < length (ks[i := k]) \<and> live (ks[i := k] ! j)" if "ini = Some j" for j
      using keys_invD(4)[OF inv that] L by simp
  qed
next
  case False
  then show ?thesis using assms keys_invD[OF inv]
    by (auto simp: list_update_beyond intro!: keys_invI intro: key_ok_mono[of ks n])
qed

lemma keys_inv_fresh:
  assumes "keys_inv ks n ini" "i < length ks" "k_free (ks ! i)"
  shows "keys_inv (ks[i := Key False False n (k_parent (ks ! i))]) (n + 1) ini"
  using assms keys_invD(1)[OF assms(1)] keys_invD(2)[OF assms(1), of i] keys_pid_range[OF assms(1)]
  by (intro keys_inv_update[of ks n]) (fastforce simp: key_ok_def live_def)+

lemma keys_inv_free:
  assumes "keys_inv ks n ini" "\<not> live (ks ! i)" "n \<le> n'"
  shows "keys_inv (ks[i := free_key]) n' ini"
  using assms keys_pid_range[OF assms(1)]
  by (intro keys_inv_update[of ks n]) (fastforce simp: key_ok_def)+

lemma keys_inv_parent:
  assumes "keys_inv ks n ini" "ks ! i = Key False False p q" "i < length ks" "j < length ks" "live (ks ! j)"
  shows "keys_inv (ks[i := Key False False p (Some j)]) n ini"
proof (rule keys_inv_update[OF assms(1) order_refl])
  show "key_ok ks n (Key False False p (Some j))"
    using keys_invD(2)[OF assms(1,3)] assms by (simp add: key_ok_def)
  show "k_pid (ks ! a) \<noteq> k_pid (Key False False p (Some j))" if "a < length ks" "a \<noteq> i" for a
    using keys_invD(3)[OF assms(1,3) that(1)] that assms(2) by auto
qed (simp add: live_def)

text \<open>Exit: the children of \<open>me\<close> go to init, then \<open>me\<close> becomes a zombie.\<close>

definition reparent_key :: "nat \<Rightarrow> nat option \<Rightarrow> key \<Rightarrow> key" where
  "reparent_key me ini k = Key (k_free k) (k_zombie k) (k_pid k) (if k_parent k = Some me then ini else k_parent k)"

definition zombie_key :: "key \<Rightarrow> key" where
  "zombie_key k = Key False True (k_pid k) (k_parent k)"

lemma keys_inv_exit:
  assumes inv: "keys_inv ks n (Some j)" and me: "me < length ks" "live (ks ! me)" "me \<noteq> j"
  defines "ks' \<equiv> map (reparent_key me (Some j)) ks"
  shows "keys_inv (ks'[me := zombie_key (ks' ! me)]) n (Some j)"
proof -
  let ?r = "ks'[me := zombie_key (ks' ! me)]"
  have len: "length ?r = length ks" by (simp add: ks'_def)
  have jl: "j < length ks" "live (ks ! j)" using keys_invD(4)[OF inv] by auto
  have lv: "live (?r ! k)" if "live (ks ! k)" "k < length ks" "k \<noteq> me" for k
    using that by (simp add: ks'_def live_def reparent_key_def)
  have same: "k_free (?r ! k) = k_free (ks ! k)" "k_pid (?r ! k) = k_pid (ks ! k)"
    "k_parent (?r ! k) = (if k_parent (ks ! k) = Some me then Some j else k_parent (ks ! k))" if "k < length ks" for k
    using that me(1,2) by (cases "k = me"; simp add: ks'_def zombie_key_def live_def reparent_key_def)+
  show ?thesis
  proof (rule keys_invI)
    show "1 \<le> n" by (rule keys_invD(1)[OF inv])
    show "key_ok ?r n (?r ! k)" if "k < length ?r" for k
    proof -
      have k: "k < length ks" using that len by simp
      have "q < length ks \<and> live (?r ! q)" if "k_parent (?r ! k) = Some q" for q
        using that keys_invD(2)[OF inv k] jl lv[of q] me(3) k
        by (auto simp: same key_ok_def split: if_splits)
      then show ?thesis using keys_invD(2)[OF inv k] k len by (simp add: key_ok_def same split: if_splits)
    qed
    show "k_pid (?r ! a) \<noteq> k_pid (?r ! b)" if "a < length ?r" "b < length ?r" "a \<noteq> b" "\<not> k_free (?r ! a)" for a b
      using that keys_invD(3)[OF inv, of a b] len by (simp add: same)
    show "q < length ?r \<and> live (?r ! q)" if "Some j = Some q" for q
      using that jl lv[of q] me(3) len by simp
  qed
qed

section \<open>The operations on the invariant\<close>

definition table_inv :: "'a kstate_scheme \<Rightarrow> bool" where
  "table_inv s \<longleftrightarrow> keys_inv (keys s) (nextpid s) (initproc s)"

lemma table_inv_view: "table_view s' = table_view s \<Longrightarrow> table_inv s' = table_inv s"
  by (simp add: table_inv_def table_view_def)

lemma wakeup_one_view [simp]: "table_view (wakeup_one ch i s) = table_view s"
  by (simp add: wakeup_one_def Let_def split_beta view_upd_same slot_key_def)

lemma wakeup_loop_view [simp]: "table_view (wakeup_loop is me ch s) = table_view s"
  by (induction "is" me ch s rule: wakeup_loop.induct) auto

lemma wakeup_view [simp]: "table_view (wakeup me ch s) = table_view s"
  by (simp add: wakeup_def)

lemma keys_view: "table_view s' = table_view s \<Longrightarrow> keys s' = keys s \<and> nextpid s' = nextpid s \<and> initproc s' = initproc s"
  by (simp add: table_view_def)

lemma keys_length: "length (procs s) = length (keys s)"
  by (simp add: keys_def)

lemma reparent_loop_view:
  "\<forall>i\<in>set is. i < length (keys s) \<Longrightarrow> distinct is \<Longrightarrow>
   table_view (reparent_loop is p s) =
     (map (\<lambda>i. if i \<in> set is then reparent_key p (initproc s) (keys s ! i) else keys s ! i) [0..<length (keys s)],
      nextpid s, initproc s)"
proof (induction "is" arbitrary: s)
  case Nil
  then show ?case by (simp add: table_view_def map_nth)
next
  case (Cons i "is")
  let ?k = "reparent_key p (initproc s) (keys s ! i)"
  define s' where "s' = (if parent (proc_at s i) = Some p
        then wakeup (Some p) (case initproc s of None \<Rightarrow> NoChan | Some j \<Rightarrow> ChanProc j)
               (upd_proc i (\<lambda>q. q\<lparr>parent := initproc s\<rparr>) s) else s)"
  have i: "i < length (keys s)" "i < length (procs s)" using Cons.prems by (simp_all add: keys_def)
  have "table_view s' = ((keys s)[i := ?k], nextpid s, initproc s)"
  proof (cases "parent (proc_at s i) = Some p")
    case True
    then have "slot_key (proc_at s i\<lparr>parent := initproc s\<rparr>) = ?k"
      using i by (simp add: slot_key_def reparent_key_def keys_def)
    then show ?thesis using True by (simp add: s'_def view_upd)
  next
    case False
    then have "?k = keys s ! i" using i by (simp add: slot_key_def reparent_key_def keys_def)
    then show ?thesis using False by (simp add: s'_def table_view_def)
  qed
  then have v: "keys s' = (keys s)[i := ?k]" "nextpid s' = nextpid s" "initproc s' = initproc s"
    by (simp_all add: table_view_def)
  have "reparent_loop (i # is) p s = reparent_loop is p s'" by (simp add: s'_def Let_def)
  moreover have "table_view (reparent_loop is p s') =
     (map (\<lambda>i. if i \<in> set is then reparent_key p (initproc s') (keys s' ! i) else keys s' ! i) [0..<length (keys s')],
      nextpid s', initproc s')"
    using Cons v by simp
  ultimately show ?case using v Cons.prems i by (auto intro!: nth_equalityI simp: nth_list_update)
qed

lemma reparent_view:
  "table_view (reparent p s) = (map (reparent_key p (initproc s)) (keys s), nextpid s, initproc s)"
  using reparent_loop_view[of "[0..<length (procs s)]" s p]
  by (auto simp: reparent_def keys_length intro!: nth_equalityI)

lemma exit_tail_view:
  assumes "me < length (procs s)"
  defines "ks \<equiv> map (reparent_key me (initproc s)) (keys s)"
  shows "table_view (exit_tail me st s) = (ks[me := zombie_key (ks ! me)], nextpid s, initproc s)"
proof -
  define s2 where "s2 = wakeup (Some me) (case parent (proc_at (reparent me s) me) of None \<Rightarrow> NoChan | Some j \<Rightarrow> ChanProc j) (reparent me s)"
  have v: "keys s2 = ks" "nextpid s2 = nextpid s" "initproc s2 = initproc s"
  proof -
    have "table_view s2 = table_view (reparent me s)" by (simp add: s2_def)
    then show "keys s2 = ks" "nextpid s2 = nextpid s" "initproc s2 = initproc s"
      using reparent_view[of me s] by (simp_all add: ks_def table_view_def)
  qed
  have "me < length (keys s2)" using v(1) assms(1) by (simp add: ks_def keys_def)
  then have "keys s2 ! me = slot_key (proc_at s2 me)" by (simp add: keys_def)
  then have "ks ! me = slot_key (proc_at s2 me)" using v(1) by simp
  then show ?thesis
    by (simp add: exit_tail_def Let_def s2_def[symmetric] view_upd v slot_key_def zombie_key_def)
qed


text \<open>Operations of the layers above that leave the table alone.\<close>

definition keeps_table :: "('b \<Rightarrow> 'a kstate_scheme \<Rightarrow> 'a kstate_scheme res) \<Rightarrow> bool" where
  "keeps_table f \<longleftrightarrow> (\<forall>x s s'. f x s = Ok s' \<longrightarrow> table_view s' = table_view s)"

lemma dup_files_view:
  assumes "keeps_table fdup"
  shows "dup_files fdup is me np s = Ok s' \<Longrightarrow> table_view s' = table_view s"
proof (induction "is" arbitrary: s)
  case (Cons i "is")
  show ?case
  proof (cases "ofile (proc_at s me) ! i")
    case (Some f)
    then obtain s1 where "fdup f s = Ok s1" "dup_files fdup is me np (upd_proc np (\<lambda>p. p\<lparr>ofile := (ofile p)[i := Some f]\<rparr>) s1) = Ok s'"
      using Cons.prems by auto
    then show ?thesis using Cons.IH assms by (fastforce simp: keeps_table_def view_upd_same slot_key_def)
  qed (use Cons in simp)
qed simp

lemma close_files_view:
  assumes "keeps_table fclose"
  shows "close_files fclose is me s = Ok s' \<Longrightarrow> table_view s' = table_view s"
proof (induction "is" arbitrary: s)
  case (Cons i "is")
  show ?case
  proof (cases "ofile (proc_at s me) ! i")
    case (Some f)
    then obtain s1 where "fclose f s = Ok s1" "close_files fclose is me (upd_proc me (\<lambda>p. p\<lparr>ofile := (ofile p)[i := None]\<rparr>) s1) = Ok s'"
      using Cons.prems by auto
    then show ?thesis using Cons.IH assms by (fastforce simp: keeps_table_def view_upd_same slot_key_def)
  qed (use Cons in simp)
qed simp

lemma dup_cwd_view: "keeps_table idup \<Longrightarrow> dup_cwd idup me np s = Ok s' \<Longrightarrow> table_view s' = table_view s"
  by (auto simp: dup_cwd_def keeps_table_def view_upd_same slot_key_def split: option.splits)

lemma fork_finish_view:
  assumes "fork_finish me np s = (n, s')" "np < length (procs s)" "me \<noteq> np"
    and "keys s ! np = Key False False p q"
  shows "n = p \<and> table_view s' = ((keys s)[np := Key False False p (Some me)], nextpid s, initproc s)"
proof -
  have k: "slot_key (proc_at s np) = Key False False p q" using assms(2,4) by (simp add: keys_def)
  then have p: "pid (proc_at s np) = p" by (simp add: slot_key_def)
  define s4 where "s4 = upd_proc np (\<lambda>q. q\<lparr>pname := copy_name (pname q) (pname (proc_at s me)),
    parent := Some me, pstate := RUNNABLE, tickets := tickets (proc_at s me)\<rparr>) s"
  have "table_view s' = table_view s4 \<and> n = p"
    using assms(1-3) p unfolding fork_finish_def Let_def split_beta
    by (auto simp: upd_proc_comp s4_def view_upd_same slot_key_def)
  then show ?thesis using p by (simp add: s4_def view_upd slot_key_def)
qed


lemma allocproc_inv:
  assumes "table_inv s" "nextpid s < 2 ^ 31 - 1" "allocproc s = Ok (r, s')"
  shows "table_inv s' \<and> length (keys s') = length (keys s) \<and> initproc s' = initproc s \<and> nextpid s' \<le> nextpid s + 1 \<and>
    (\<forall>j. live (keys s ! j) \<longrightarrow> live (keys s' ! j)) \<and>
    (\<forall>i. r = Some i \<longrightarrow> i < length (keys s) \<and> k_free (keys s ! i) \<and> keys s' ! i = Key False False (nextpid s) None \<and>
      keys_inv ((keys s')[i := free_key]) (nextpid s') (initproc s'))"
proof -
  have n: "i32 (nextpid s + 1) = nextpid s + 1"
    using assms(1,2) keys_invD(1) by (intro i32_small) (fastforce simp: table_inv_def)+
  have inv: "keys_inv (keys s) (nextpid s) (initproc s)" using assms(1) by (simp add: table_inv_def)
  consider (none) "table_view s' = table_view s" "r = None"
    | (slot) i where "i < length (procs s)" "pstate (proc_at s i) = UNUSED"
        "r = None \<and> table_view s' = ((keys s)[i := free_key], nextpid s + 1, initproc s) \<or>
         r = Some i \<and> table_view s' = ((keys s)[i := Key False False (nextpid s) (parent (proc_at s i))], nextpid s + 1, initproc s)"
    using allocproc_view[OF assms(3)] n by auto
  then show ?thesis
  proof cases
    case none
    then show ?thesis using assms(1) keys_view[OF none(1)] table_inv_view none(1) by (auto simp: table_view_def)
  next
    case slot
    then have i: "i < length (keys s)" "k_free (keys s ! i)" "k_parent (keys s ! i) = parent (proc_at s i)"
      by (simp_all add: keys_def slot_key_def)
    then have nl: "\<not> live (keys s ! i)" by (simp add: live_def)
    have par: "parent (proc_at s i) = None" using i keys_invD(2)[OF inv i(1)] by (simp add: key_ok_def)
    have lv: "live ((keys s)[i := k] ! j)" if "live (keys s ! j)" for j k
      using nl that by (cases "j = i") auto
    show ?thesis
      using slot(3) keys_inv_fresh[OF inv i(1,2)] keys_inv_free[OF inv nl, of "nextpid s + 1"] i par lv
      by (auto simp: table_view_def table_inv_def)
  qed
qed

lemma fork_inv:
  assumes "table_inv s" "nextpid s < 2 ^ 31 - 1" "live (keys s ! me)" "me < length (procs s)"
    and keep: "keeps_table fdup" "keeps_table idup"
    and "fork fdup idup me s = Ok (r, s')"
  shows "table_inv s' \<and> nextpid s' \<le> nextpid s + 1"
proof -
  obtain a s1 where a: "allocproc s = Ok (a, s1)" using assms(7) by (cases "allocproc s") (auto simp: fork_def)
  note A = allocproc_inv[OF assms(1,2) a]
  show ?thesis
  proof (cases a)
    case None
    then show ?thesis using assms(7) a A by (simp add: fork_def)
  next
    case (Some np)
    then have np: "np < length (keys s)" "k_free (keys s ! np)" "keys s1 ! np = Key False False (nextpid s) None"
      "keys_inv ((keys s1)[np := free_key]) (nextpid s1) (initproc s1)" using A by auto
    have me: "me \<noteq> np" using np(2) assms(3) by (auto simp: live_def)
    obtain c s2 where c: "uvmcopy (pagetable (proc_at s1 me)) (pagetable (proc_at s1 np)) (sz (proc_at s1 me)) s1 = Ok (c, s2)"
      using assms(7) a Some by (auto simp: fork_def)
    have v2: "table_view s2 = table_view s1" using rest_view[OF uvmcopy_rest[OF c]] .
    show ?thesis
    proof (cases "c < 0")
      case True
      then have "freeproc np s2 = Ok s'" using assms(7) a Some c by (auto simp: fork_def)
      from freeproc_view[OF this] show ?thesis using np(4) v2 A by (simp add: table_inv_def table_view_def)
    next
      case False
      define s5 where "s5 = tf_set np tf_a0 0 (copy_trapframe (trapframe (proc_at (upd_proc np (\<lambda>q. q\<lparr>sz := sz (proc_at s2 me)\<rparr>) s2) np))
        (trapframe (proc_at (upd_proc np (\<lambda>q. q\<lparr>sz := sz (proc_at s2 me)\<rparr>) s2) me)) (upd_proc np (\<lambda>q. q\<lparr>sz := sz (proc_at s2 me)\<rparr>) s2))"
      have v5: "table_view s5 = table_view s1"
        unfolding s5_def v2[symmetric] by (subst rest_view[OF tf_set_rest(1)], subst rest_view[OF tf_set_rest(2)])
          (simp add: view_upd_same slot_key_def)
      obtain s6 s7 where s7: "dup_files fdup [0..<NOFILE] me np s5 = Ok s6" "dup_cwd idup me np s6 = Ok s7"
        "fork_finish me np s7 = (r, s')"
        using assms(7) a Some c False by (auto simp: fork_def Let_def s5_def simp del: upt_rec_numeral)
      have v7: "table_view s7 = table_view s1"
        using dup_files_view[OF keep(1) s7(1)] dup_cwd_view[OF keep(2) s7(2)] v5 by simp
      have "keys s7 ! np = Key False False (nextpid s) None" "np < length (procs s7)"
        using v7 np A by (simp_all add: table_view_def keys_length)
      from fork_finish_view[OF s7(3) this(2) me this(1)]
      have "table_view s' = ((keys s1)[np := Key False False (nextpid s) (Some me)], nextpid s1, initproc s1)"
        using v7 by (simp add: table_view_def)
      moreover have "keys_inv ((keys s1)[np := Key False False (nextpid s) (Some me)]) (nextpid s1) (initproc s1)"
        using A np assms(3,4) by (intro keys_inv_parent) (auto simp: table_inv_def keys_length)
      ultimately show ?thesis using A by (simp add: table_inv_def table_view_def)
    qed
  qed
qed

lemma exit_inv:
  assumes "table_inv s" "live (keys s ! me)" "me < length (procs s)" "initproc s = Some j"
    and keep: "keeps_table fclose" "keeps_table iput" "keeps_table (\<lambda>_ :: unit. bop)" "keeps_table (\<lambda>_ :: unit. eop)"
    and "exit_proc fclose bop iput eop me st s = Ok s'"
  shows "table_inv s' \<and> nextpid s' = nextpid s \<and> pstate (proc_at s' me) = ZOMBIE"
proof -
  have ne: "me \<noteq> j" using assms(4,9) by (auto simp: exit_proc_def)
  obtain s1 s2 s3 s4 where s: "close_files fclose [0..<NOFILE] me s = Ok s1" "bop s1 = Ok s2"
    "iput (cwd (proc_at s2 me)) s2 = Ok s3" "eop s3 = Ok s4"
    "s' = exit_tail me st (upd_proc me (\<lambda>p. p\<lparr>cwd := None\<rparr>) s4)"
    using assms(9) ne assms(4) by (auto simp: exit_proc_def simp del: upt_rec_numeral)
  let ?s5 = "upd_proc me (\<lambda>p. p\<lparr>cwd := None\<rparr>) s4"
  have "table_view s4 = table_view s"
    using close_files_view[OF keep(1) s(1)] keep(2-4) s(2-4) by (simp add: keeps_table_def)
  then have v: "table_view ?s5 = table_view s" by (simp add: view_upd_same slot_key_def)
  then have k: "keys ?s5 = keys s" "nextpid ?s5 = nextpid s" "initproc ?s5 = Some j"
    using assms(4) by (simp_all add: table_view_def)
  have me: "me < length (procs ?s5)" using assms(3) k(1) unfolding keys_length by metis
  have "table_view s' = ((map (reparent_key me (Some j)) (keys s))
      [me := zombie_key (map (reparent_key me (Some j)) (keys s) ! me)], nextpid s, Some j)"
    using exit_tail_view[OF me, of st] k s(5) by simp
  moreover have "keys_inv ((map (reparent_key me (Some j)) (keys s))
      [me := zombie_key (map (reparent_key me (Some j)) (keys s) ! me)]) (nextpid s) (Some j)"
    using assms(1-4) ne by (intro keys_inv_exit) (auto simp: table_inv_def keys_length)
  ultimately have "table_inv s' \<and> nextpid s' = nextpid s" by (simp add: table_inv_def table_view_def)
  moreover have "k_zombie (keys s' ! me)" "me < length (procs s')"
  proof -
    have *: "keys s' = (map (reparent_key me (Some j)) (keys s))
      [me := zombie_key (map (reparent_key me (Some j)) (keys s) ! me)]"
      using \<open>table_view s' = _\<close> by (simp add: table_view_def)
    show "me < length (procs s')" "k_zombie (keys s' ! me)"
      unfolding keys_length * using assms(3) by (simp_all add: zombie_key_def keys_length)
  qed
  ultimately show ?thesis by (simp add: keys_def slot_key_def)
qed


lemma put_status_rest: "put_status me addr st s = (r, s') \<Longrightarrow> rest s' = rest s"
  by (auto simp: put_status_def split: if_splits dest: copyout_rest)

lemma freeproc_inv:
  assumes "table_inv s" "pstate (proc_at s i) = ZOMBIE" "i < length (procs s)" "freeproc i s = Ok s'"
  shows "table_inv s' \<and> nextpid s' = nextpid s"
proof -
  have "\<not> live (keys s ! i)" using assms(2,3) by (simp add: keys_def slot_key_def live_def)
  then show ?thesis using freeproc_view[OF assms(4)] assms(1) keys_inv_free
    by (auto simp: table_inv_def table_view_def)
qed

lemma wait_scan_inv:
  assumes "table_inv s" "\<forall>i\<in>set is. i < length (procs s)"
  shows "wait_scan is h me addr s = Ok (out, s') \<Longrightarrow> table_inv s' \<and> nextpid s' = nextpid s"
  using assms
proof (induction "is" arbitrary: h)
  case (Cons i "is")
  show ?case
  proof (cases "parent (proc_at s i) = Some me \<and> pstate (proc_at s i) = ZOMBIE")
    case True
    obtain r s1 where p: "put_status me addr (xstate (proc_at s i)) s = (r, s1)" by fastforce
    then have r: "rest s1 = rest s" by (rule put_status_rest)
    then have "table_inv s1" "procs s1 = procs s" "nextpid s1 = nextpid s"
      using Cons.prems(2) table_inv_view[OF rest_view[OF r]] rest_kstate[OF r] by simp_all
    then show ?thesis using Cons.prems(1,3) True p freeproc_inv[of s1 i] by (auto split: if_splits)
  next
    case False
    then show ?thesis using Cons by (auto split: if_splits)
  qed
qed simp

lemma sleep_enter_inv: "\<not> k_free (slot_key (proc_at s me)) \<Longrightarrow> \<not> k_zombie (slot_key (proc_at s me)) \<Longrightarrow>
    table_view (sleep_enter me ch s) = table_view s"
  by (simp add: sleep_enter_def view_upd_same slot_key_def)

lemma wait_scan_Inr:
  "wait_scan is h me addr s = Ok (Inr k, s') \<Longrightarrow> s' = s"
  by (induction "is" arbitrary: h) (auto split: if_splits prod.splits)

lemma wait_proc_inv:
  assumes "table_inv s" "wait_proc me addr s = Ok (r, s')" "live (keys s ! me)" "me < length (procs s)"
  shows "table_inv s' \<and> nextpid s' = nextpid s"
proof -
  obtain out s1 where w: "wait_scan [0..<length (procs s)] False me addr s = Ok (out, s1)"
    using assms(2) by (auto simp: wait_proc_def)
  have i1: "table_inv s1 \<and> nextpid s1 = nextpid s" using wait_scan_inv[OF assms(1) _ w] by simp
  show ?thesis
  proof (cases out)
    case (Inl n)
    then show ?thesis using assms(2) w i1 by (simp add: wait_proc_def)
  next
    case (Inr k)
    have "s1 = s" using w Inr wait_scan_Inr by blast
    moreover have "table_view (sleep_enter me (ChanProc me) s) = table_view s"
      using assms(3,4) by (intro sleep_enter_inv) (simp_all add: live_def keys_def)
    moreover from this have "nextpid (sleep_enter me (ChanProc me) s) = nextpid s" by (simp add: table_view_def)
    ultimately show ?thesis using assms(1,2) w Inr table_inv_view
      by (auto simp: wait_proc_def split: if_splits)
  qed
qed

lemma kill_view: "table_view (snd (kill n s)) = table_view s"
  by (auto simp: kill_def Let_def split: option.splits intro!: view_upd_same simp: slot_key_def)


lemma waitx_scan_wait:
  "wait_scan is h me addr s = rbind (waitx_scan is h me addr s) (\<lambda>(r, t, s'). Ok (r, s'))"
  by (induction "is" arbitrary: h) (auto simp: Let_def rbind_assoc split: prod.splits)

lemma waitx_wait: "wait_proc me addr s = rbind (waitx me addr s) (\<lambda>(r, t, s'). Ok (r, s'))"
  unfolding wait_proc_def waitx_def waitx_scan_wait rbind_assoc
  by (rule rbind_cong) (auto simp: killed_def split: sum.splits)

lemma userinit_inv:
  assumes "table_inv s" "nextpid s < 2 ^ 31 - 1" "initproc s = None" "userinit code root s = Ok s'"
  shows "table_inv s' \<and> nextpid s' \<le> nextpid s + 1"
proof -
  obtain a s1 where a: "allocproc s = Ok (a, s1)" using assms(4) by (cases "allocproc s") (auto simp: userinit_def)
  note A = allocproc_inv[OF assms(1,2) a]
  obtain i where i: "a = Some i" using assms(4) a by (cases a) (auto simp: userinit_def)
  then have k: "i < length (keys s1)" "keys s1 ! i = Key False False (nextpid s) None" using A by auto
  obtain s2 where u: "uvmfirst (pagetable (proc_at s1 i)) code 52 (s1\<lparr>initproc := Some i\<rparr>) = Ok s2"
    using assms(4) a i by (auto simp: userinit_def)
  have "rest s2 = rest (s1\<lparr>initproc := Some i\<rparr>)"
    using u by (auto simp: uvmfirst_def Let_def split: if_splits prod.splits dest!: kalloc_rest mappages_rest)
  from rest_view[OF this] have v2: "table_view s2 = (keys s1, nextpid s1, Some i)"
    by (simp add: table_view_def keys_def)
  define s4 where "s4 = tf_set i tf_sp PGSIZE (tf_set i tf_epc 0 (upd_proc i (\<lambda>p. p\<lparr>sz := PGSIZE\<rparr>) s2))"
  have v4: "table_view s4 = table_view s2"
    using rest_view[of s4 "upd_proc i (\<lambda>p. p\<lparr>sz := PGSIZE\<rparr>) s2"]
    by (simp add: s4_def view_upd_same slot_key_def)
  then have k4: "keys s4 ! i = Key False False (nextpid s) None" "i < length (keys s4)"
    using v2 k by (simp_all add: table_view_def)
  then have "slot_key (proc_at s4 i) = Key False False (nextpid s) None" by (simp add: keys_def)
  then have "table_view s' = table_view s4"
    using assms(4) a i u by (auto simp: userinit_def Let_def s4_def[symmetric] slot_key_def intro!: view_upd_same)
  then show ?thesis using v4 v2 A k by (simp add: table_inv_def table_view_def keys_inv_def live_def)
qed

text \<open>Sleepers and wakeup.\<close>

definition woken :: "nat option \<Rightarrow> chan \<Rightarrow> nat \<Rightarrow> proc \<Rightarrow> bool" where
  "woken me ch i p \<longleftrightarrow> Some i \<noteq> me \<and> pstate p = SLEEPING \<and> pchan p = ch"

lemma wakeup_loop_state:
  "distinct is \<Longrightarrow> \<forall>i\<in>set is. i < length (procs s) \<Longrightarrow> j < length (procs s) \<Longrightarrow>
   pstate (proc_at (wakeup_loop is me ch s) j) =
     (if j \<in> set is \<and> woken me ch j (proc_at s j) then RUNNABLE else pstate (proc_at s j)) \<and>
   pchan (proc_at (wakeup_loop is me ch s) j) = pchan (proc_at s j) \<and>
   length (procs (wakeup_loop is me ch s)) = length (procs s)"
proof (induction "is" arbitrary: s)
  case (Cons i "is")
  let ?s = "if Some i \<noteq> me then wakeup_one ch i s else s"
  have l: "length (procs ?s) = length (procs s)"
    by (simp add: wakeup_one_def Let_def split_beta tick_sys_time_def)
  have st: "pstate (proc_at ?s j) = (if j = i \<and> woken me ch i (proc_at s i) then RUNNABLE else pstate (proc_at s j))"
    "pchan (proc_at ?s j) = pchan (proc_at s j)"
    using Cons.prems by (auto simp: wakeup_one_def Let_def tick_sys_time_def woken_def nth_list_update)
  show ?case using Cons.IH[of ?s] Cons.prems l st by (auto simp: woken_def)
qed simp


text \<open>The first zombie child.\<close>

definition zombie_child :: "nat \<Rightarrow> proc \<Rightarrow> bool" where
  "zombie_child me p \<longleftrightarrow> parent p = Some me \<and> pstate p = ZOMBIE"

lemma wait_scan_none:
  "\<forall>i\<in>set xs. \<not> zombie_child me (proc_at s i) \<Longrightarrow>
   wait_scan xs h me addr s = Ok (Inr (h \<or> (\<exists>i\<in>set xs. parent (proc_at s i) = Some me)), s)"
  by (induction xs arbitrary: h) (auto simp: zombie_child_def)

lemma wait_scan_first:
  "z \<in> set is \<Longrightarrow> zombie_child me (proc_at s z) \<Longrightarrow> sorted_wrt (<) is \<Longrightarrow>
   \<forall>k\<in>set is. k < z \<longrightarrow> \<not> zombie_child me (proc_at s k) \<Longrightarrow>
   wait_scan is h me addr s = (case put_status me addr (xstate (proc_at s z)) s of (r, s1) \<Rightarrow>
     if r < 0 then Ok (Inl (-1), s1) else rbind (freeproc z s1) (\<lambda>s2. Ok (Inl (pid (proc_at s z)), s2)))"
proof (induction "is" arbitrary: h)
  case (Cons i "is")
  show ?case
  proof (cases "i = z")
    case True
    then show ?thesis using Cons.prems by (simp add: zombie_child_def)
  next
    case False
    then have "i < z" using Cons.prems by auto
    then have "\<not> zombie_child me (proc_at s i)" using Cons.prems by auto
    then show ?thesis using Cons False by (auto simp: zombie_child_def)
  qed
qed simp

lemma waitx_scan_times:
  assumes "waitx_scan is h me addr s = Ok (out, t, s')" "sorted_wrt (<) is"
  shows "(\<forall>z\<in>set is. zombie_child me (proc_at s z) \<and> (\<forall>k\<in>set is. k < z \<longrightarrow> \<not> zombie_child me (proc_at s k)) \<longrightarrow>
      t = Some (etime (proc_at s z) - ctime (proc_at s z) - rtime (proc_at s z), rtime (proc_at s z))) \<and>
    ((\<forall>z\<in>set is. \<not> zombie_child me (proc_at s z)) \<longrightarrow> t = None)"
  using assms
proof (induction "is" arbitrary: h)
  case (Cons i "is")
  show ?case
  proof (cases "zombie_child me (proc_at s i)")
    case True
    then have "t = Some (etime (proc_at s i) - ctime (proc_at s i) - rtime (proc_at s i), rtime (proc_at s i))"
      using Cons.prems(1) by (auto simp: zombie_child_def Let_def rbind_eq_Ok split: prod.splits if_splits)
    then show ?thesis using True Cons.prems(2) by auto
  next
    case False
    then obtain h' where "waitx_scan is h' me addr s = Ok (out, t, s')"
      using Cons.prems(1) by (auto simp: zombie_child_def split: if_splits)
    from Cons.IH[OF this] show ?thesis using False Cons.prems(2) by auto
  qed
qed simp

lemma fork_finish_child:
  assumes "fork_finish me np s = (n, s')" "np < length (procs s)" "me \<noteq> np"
  shows "n = pid (proc_at s np) \<and> mem s' = mem s \<and> proc_at s' np = (proc_at s np)\<lparr>pname := copy_name (pname (proc_at s np)) (pname (proc_at s me)),
    parent := Some me, pstate := RUNNABLE, tickets := tickets (proc_at s me)\<rparr>"
  using assms by (auto simp: fork_finish_def Let_def tick_sys_time_def)

text \<open>Operations of the layers above that leave the slots and memory alone.\<close>

definition keeps_procs :: "(nat \<Rightarrow> 'a kstate_scheme \<Rightarrow> 'a kstate_scheme res) \<Rightarrow> bool" where
  "keeps_procs f \<longleftrightarrow> (\<forall>x s s'. f x s = Ok s' \<longrightarrow> procs s' = procs s \<and> mem s' = mem s)"

text \<open>Two tables that differ at slot \<open>i\<close> only.\<close>

definition only_slot :: "nat \<Rightarrow> 'a kstate_scheme \<Rightarrow> 'a kstate_scheme \<Rightarrow> bool" where
  "only_slot i s s' \<longleftrightarrow> length (procs s') = length (procs s) \<and> (\<forall>j. j \<noteq> i \<longrightarrow> procs s' ! j = procs s ! j)"

lemma only_slot_trans: "only_slot i s s' \<Longrightarrow> only_slot i s' s'' \<Longrightarrow> only_slot i s s''"
  by (simp add: only_slot_def)

lemma only_slot_upd [simp]: "only_slot i s (upd_proc i f s')= only_slot i s s'"
  by (simp add: only_slot_def)

lemma only_slot_rest: "rest s' = rest s \<Longrightarrow> only_slot i s (s' :: 'a kstate_scheme)"
  using rest_kstate[of s' s] by (simp add: only_slot_def)

lemma only_slot_procs: "procs s' = procs s'' \<Longrightarrow> only_slot i s s' = only_slot i s s''"
  by (simp add: only_slot_def)

lemma init_slot_slot:
  assumes "i < length (procs s)"
  shows "only_slot i s (init_slot i pt s)" "pid (proc_at (init_slot i pt s) i) = pid (proc_at s i)"
    "pstate (proc_at (init_slot i pt s) i) = pstate (proc_at s i)"
    "trapframe (proc_at (init_slot i pt s) i) = trapframe (proc_at s i)"
  using assms by (simp_all add: init_slot_def Let_def tick_sys_time_def only_slot_def)

lemma allocproc_slot:
  assumes "allocproc s = Ok (Some i, s')"
  shows "i < length (procs s)" "pstate (proc_at s i) = UNUSED" "only_slot i s s'"
    "pid (proc_at s' i) = nextpid s"
proof -
  have i: "scan_slots (\<lambda>p. pstate p = UNUSED) (procs s) 0 = Some i"
    using assms by (auto simp: allocproc_def allocpid_def Let_def split: option.splits prod.splits if_splits)
  then show il: "i < length (procs s)" "pstate (proc_at s i) = UNUSED" using scan_slots_Some[OF i] by auto
  define s2 where "s2 = upd_proc i (\<lambda>p. p\<lparr>pid := nextpid s, pstate := USED\<rparr>) (s\<lparr>nextpid := i32 (nextpid s + 1)\<rparr>)"
  obtain tf s3 where k1: "kalloc s2 = (tf, s3)" by fastforce
  define s4 where "s4 = upd_proc i (\<lambda>p. p\<lparr>trapframe := tf\<rparr>) s3"
  obtain bk s5 where k2: "kalloc s4 = (bk, s5)" by fastforce
  define s6 where "s6 = upd_proc i (\<lambda>p. p\<lparr>backup := bk\<rparr>) s5"
  have run: "(if tf = 0 then rbind (freeproc i s4) (\<lambda>s5. Ok (None, s5))
      else if bk = 0 then rbind (freeproc i s6) (\<lambda>s7. Ok (None, s7))
      else rbind (proc_pagetable (proc_at s6 i) s6) (\<lambda>(pt, s7).
        if pt = 0 then rbind (freeproc i (upd_proc i (\<lambda>p. p\<lparr>pagetable := 0\<rparr>) s7)) (\<lambda>s8. Ok (None, s8))
        else Ok (Some i, init_slot i pt s7))) = Ok (Some i, s')"
    using assms unfolding allocproc_def i option.case allocpid_def Let_def prod.case s2_def[symmetric] k1 s4_def[symmetric] k2 s6_def[symmetric]
    by simp
  then obtain pt s7 where s7: "proc_pagetable (proc_at s6 i) s6 = Ok (pt, s7)" "s' = init_slot i pt s7"
    by (auto split: if_splits)
  have p: "procs s3 = procs s2" "procs s5 = procs s4" "procs s7 = procs s6"
    using rest_kstate(1)[OF kalloc_rest[OF k1]] rest_kstate(1)[OF kalloc_rest[OF k2]]
      rest_kstate(1)[OF proc_pagetable_rest[OF s7(1)]] by auto
  have l: "i < length (procs s7)" using p il by (simp add: s6_def s4_def s2_def)
  have "only_slot i s s7" using p by (simp add: only_slot_def s6_def s4_def s2_def)
  then show "only_slot i s s'" using init_slot_slot(1)[OF l] s7(2) only_slot_trans by blast
  show "pid (proc_at s' i) = nextpid s" using init_slot_slot(2)[OF l] s7(2) p il by (simp add: s6_def s4_def s2_def)
qed

lemma dup_files_slot:
  assumes "keeps_procs fdup"
  shows "dup_files fdup is me np s = Ok s' \<Longrightarrow> np < length (procs s) \<Longrightarrow> only_slot np s s' \<and> mem s' = mem s \<and>
    (\<exists>fs. proc_at s' np = (proc_at s np)\<lparr>ofile := fs\<rparr>)"
proof (induction "is" arbitrary: s)
  case Nil
  then show ?case by (auto simp: only_slot_def intro!: exI[of _ "ofile (proc_at s np)"])
next
  case (Cons i "is")
  show ?case
  proof (cases "ofile (proc_at s me) ! i")
    case (Some f)
    then obtain s1 where s1: "fdup f s = Ok s1" "dup_files fdup is me np (upd_proc np (\<lambda>p. p\<lparr>ofile := (ofile p)[i := Some f]\<rparr>) s1) = Ok s'"
      using Cons.prems by auto
    then have p: "procs s1 = procs s" "mem s1 = mem s" using assms by (auto simp: keeps_procs_def)
    then show ?thesis using Cons.IH[OF s1(2)] Cons.prems(2) by (auto simp: only_slot_def)
  qed (use Cons in simp)
qed

lemma wakeup_state:
  assumes "j < length (procs s)"
  shows "pstate (proc_at (wakeup me ch s) j) = (if woken me ch j (proc_at s j) then RUNNABLE else pstate (proc_at s j))"
    "pchan (proc_at (wakeup me ch s) j) = pchan (proc_at s j)"
  using wakeup_loop_state[of "[0..<length (procs s)]" s j me ch] assms by (auto simp: wakeup_def)

lemma wakeup_length [simp]: "length (procs (wakeup me ch s)) = length (procs s)"
  using keys_view[OF wakeup_view[of me ch s]] by (metis keys_length)

lemma wakeup_loop_kticks: "kticks (wakeup_loop is me ch s) = kticks s"
  by (induction "is" me ch s rule: wakeup_loop.induct)
     (auto simp: wakeup_one_def Let_def tick_sys_time_def)

lemma reparent_loop_kticks: "kticks (reparent_loop is p s) = kticks s"
  by (induction "is" p s rule: reparent_loop.induct) (auto simp: wakeup_def wakeup_loop_kticks Let_def)

text \<open>Reparenting may wake a sleeper, and does nothing else to it.\<close>

lemma reparent_loop_sleeper:
  "j < length (procs s) \<Longrightarrow> pchan (proc_at s j) = ch \<Longrightarrow> pstate (proc_at s j) \<in> {SLEEPING, RUNNABLE} \<Longrightarrow>
   pchan (proc_at (reparent_loop is p s) j) = ch \<and> pstate (proc_at (reparent_loop is p s) j) \<in> {SLEEPING, RUNNABLE}"
proof (induction "is" p s rule: reparent_loop.induct)
  case (2 i "is" p s)
  let ?s = "if parent (proc_at s i) = Some p
        then let s1 = upd_proc i (\<lambda>q. q\<lparr>parent := initproc s\<rparr>) s
             in wakeup (Some p) (case initproc s1 of None \<Rightarrow> NoChan | Some j \<Rightarrow> ChanProc j) s1
        else s"
  have "j < length (procs ?s)" "pchan (proc_at ?s j) = ch" "pstate (proc_at ?s j) \<in> {SLEEPING, RUNNABLE}"
    using 2(2-4) by (cases "i = j"; auto simp: Let_def wakeup_state)+
  then show ?case using 2(1) by simp
qed simp

text \<open>The child of a successful \<open>fork\<close>.\<close>

lemma fork_child:
  assumes "keeps_procs fdup" "keeps_procs idup" and "me < length (procs s)" "pstate (proc_at s me) = RUNNING"
    and "fork fdup idup me s = Ok (n, s')" and "0 \<le> n" and "0 \<le> nextpid s"
  shows "\<exists>np<length (procs s). pstate (proc_at s np) = UNUSED \<and> n = nextpid s \<and> pid (proc_at s' np) = n \<and>
    pstate (proc_at s' np) = RUNNABLE \<and> parent (proc_at s' np) = Some me \<and>
    sz (proc_at s' np) = sz (proc_at s me) \<and> tickets (proc_at s' np) = tickets (proc_at s me) \<and>
    tf_get np tf_a0 s' = 0"
proof -
  obtain a s1 where a: "allocproc s = Ok (a, s1)" using assms(5) by (cases "allocproc s") (auto simp: fork_def)
  then obtain np where np: "a = Some np" using assms(5,6) by (cases a) (auto simp: fork_def)
  note A = allocproc_slot[OF a[unfolded np]]
  have me: "me \<noteq> np" using A(2) assms(4) by auto
  obtain c s2 where c: "uvmcopy (pagetable (proc_at s1 me)) (pagetable (proc_at s1 np)) (sz (proc_at s1 me)) s1 = Ok (c, s2)"
    "0 \<le> c" using assms(5,6) a np by (auto simp: fork_def split: if_splits)
  have p2: "procs s2 = procs s1" using rest_kstate(1)[OF uvmcopy_rest[OF c(1)]] .
  define s4 where "s4 = copy_trapframe (trapframe (proc_at (upd_proc np (\<lambda>q. q\<lparr>sz := sz (proc_at s2 me)\<rparr>) s2) np))
        (trapframe (proc_at (upd_proc np (\<lambda>q. q\<lparr>sz := sz (proc_at s2 me)\<rparr>) s2) me)) (upd_proc np (\<lambda>q. q\<lparr>sz := sz (proc_at s2 me)\<rparr>) s2)"
  have p4: "procs s4 = (procs s1)[np := (proc_at s1 np)\<lparr>sz := sz (proc_at s1 me)\<rparr>]"
    using p2 by (simp add: s4_def copy_trapframe_def)
  obtain s6 s7 where s7: "dup_files fdup [0..<NOFILE] me np (tf_set np tf_a0 0 s4) = Ok s6" "dup_cwd idup me np s6 = Ok s7"
    "fork_finish me np s7 = (n, s')"
    using assms(5) a np c by (auto simp: fork_def Let_def s4_def simp del: upt_rec_numeral)
  have l1: "np < length (procs s1)" "me < length (procs s1)" using A assms(3) by (simp_all add: only_slot_def)
  have p5: "procs (tf_set np tf_a0 0 s4) = procs s4" by (simp add: tf_set_def)
  obtain fs where D: "only_slot np (tf_set np tf_a0 0 s4) s6" "mem s6 = mem (tf_set np tf_a0 0 s4)"
    "proc_at s6 np = (proc_at s4 np)\<lparr>ofile := fs\<rparr>"
    using dup_files_slot[OF assms(1) s7(1)] l1 p4 p5 by auto
  obtain d where W: "procs s7 = (procs s6)[np := (proc_at s6 np)\<lparr>cwd := d\<rparr>]" "mem s7 = mem s6"
    using s7(2) assms(2) by (auto simp: dup_cwd_def keeps_procs_def split: option.splits)
  have l7: "np < length (procs s7)" using W D p4 p5 l1 by (simp add: only_slot_def)
  note F = fork_finish_child[OF s7(3) l7 me]
  have npp: "proc_at s7 np = (proc_at s1 np)\<lparr>sz := sz (proc_at s1 me), ofile := fs, cwd := d\<rparr>"
    using W D(3) p4 l1 l7 by simp
  have mep: "proc_at s7 me = proc_at s me"
    using W D(1) p4 p5 me A(3) by (simp add: only_slot_def)
  have m: "mem s' = mem (tf_set np tf_a0 0 s4)" "trapframe (proc_at s4 np) = trapframe (proc_at s' np)"
    using F W D npp p4 l1 by simp_all
  have "tf_get np tf_a0 s' = 0"
    using m by (simp add: tf_get_def tf_set_def ld64_st64)
  moreover have "proc_at s1 me = proc_at s me" using A(3) me by (simp add: only_slot_def)
  ultimately show ?thesis using F npp mep A by (intro exI[of _ np]) simp
qed

section \<open>Properties\<close>

text \<open>C37. \<open>wakeup\<close> makes runnable exactly the processes asleep on the channel, apart from the
  caller, and changes the state and channel of no other.\<close>

theorem wakeup_exact:
  assumes "i < length (procs s)"
  shows "pstate (proc_at (wakeup me ch s) i) =
      (if Some i \<noteq> me \<and> pstate (proc_at s i) = SLEEPING \<and> pchan (proc_at s i) = ch then RUNNABLE
       else pstate (proc_at s i)) \<and>
    pchan (proc_at (wakeup me ch s) i) = pchan (proc_at s i)"
  using wakeup_loop_state[of "[0..<length (procs s)]" s i me ch] assms
  by (auto simp: wakeup_def woken_def)

text \<open>C30. \<open>waitx\<close> reaps the same child with the same effects as \<open>wait\<close>; when there is a zombie child it reports the
  times of the first one: the ticks it ran, and as waiting time the rest of its life from creation to exit, so that
  \<open>wtime + rtime = etime - ctime\<close> (modulo \<open>2 ^ 32\<close>); otherwise it writes no times.\<close>

theorem waitx_refines_wait:
  "wait_proc me addr s = rbind (waitx me addr s) (\<lambda>(r, t, s'). Ok (r, s')) \<and>
   (\<forall>r t s'. waitx me addr s = Ok (r, t, s') \<longrightarrow>
      (\<forall>z<length (procs s). zombie_child me (proc_at s z) \<and> (\<forall>k<z. \<not> zombie_child me (proc_at s k)) \<longrightarrow>
         (\<exists>wtime. t = Some (wtime, rtime (proc_at s z)) \<and> wtime + rtime (proc_at s z) = etime (proc_at s z) - ctime (proc_at s z))) \<and>
      ((\<forall>z<length (procs s). \<not> zombie_child me (proc_at s z)) \<longrightarrow> t = None))"
proof -
  have T: "(\<forall>z<length (procs s). zombie_child me (proc_at s z) \<and> (\<forall>k<z. \<not> zombie_child me (proc_at s k)) \<longrightarrow>
         t = Some (etime (proc_at s z) - ctime (proc_at s z) - rtime (proc_at s z), rtime (proc_at s z))) \<and>
      ((\<forall>z<length (procs s). \<not> zombie_child me (proc_at s z)) \<longrightarrow> t = None)"
    if w: "waitx me addr s = Ok (r, t, s')" for r t s'
  proof -
    obtain out s1 where "waitx_scan [0..<length (procs s)] False me addr s = Ok (out, t, s1)"
      using w by (cases "waitx_scan [0..<length (procs s)] False me addr s") (auto simp: waitx_def split: sum.splits if_splits)
    from waitx_scan_times[OF this] show ?thesis by (simp add: sorted_wrt_upt)
  qed
  have "\<exists>wtime. t = Some (wtime, rtime (proc_at s z)) \<and> wtime + rtime (proc_at s z) = etime (proc_at s z) - ctime (proc_at s z)"
    if "waitx me addr s = Ok (r, t, s')" "z < length (procs s)" "zombie_child me (proc_at s z) \<and> (\<forall>k<z. \<not> zombie_child me (proc_at s k))"
    for r t s' z
    using T[OF that(1)] that(2,3) by (intro exI[of _ "etime (proc_at s z) - ctime (proc_at s z) - rtime (proc_at s z)"]) auto
  then show ?thesis using waitx_wait T by blast
qed

text \<open>\<open>kill\<close> marks the first process with the pid, waking it if it sleeps, and leaves
  every other process alone; it fails, changing nothing, exactly when no slot has the pid.\<close>

theorem kill_spec:
  "(case kill n s of (r, s') \<Rightarrow>
     if \<exists>p\<in>set (procs s). pid p = n
     then r = 0 \<and> (\<exists>i<length (procs s). pid (proc_at s i) = n \<and> (\<forall>k<i. pid (proc_at s k) \<noteq> n) \<and>
       s' = upd_proc i (\<lambda>p. p\<lparr>pkilled := 1, pstate := if pstate p = SLEEPING then RUNNABLE else pstate p\<rparr>) s)
     else r = -1 \<and> s' = s)"
proof (cases "scan_slots (\<lambda>p. pid p = n) (procs s) 0")
  case None
  then have "\<not> (\<exists>p\<in>set (procs s). pid p = n)" by (simp add: scan_slots_None)
  then show ?thesis by (simp add: kill_def None)
next
  case (Some i)
  then have i: "i < length (procs s)" "pid (proc_at s i) = n" "\<forall>k<i. pid (proc_at s k) \<noteq> n"
    using scan_slots_Some[OF Some] by auto
  have eq: "(\<lambda>p. let q = p\<lparr>pkilled := 1\<rparr> in if pstate q = SLEEPING then q\<lparr>pstate := RUNNABLE\<rparr> else q) =
      (\<lambda>p. p\<lparr>pkilled := 1, pstate := if pstate p = SLEEPING then RUNNABLE else pstate p\<rparr>)"
    by (auto simp: Let_def)
  have "kill n s = (0, upd_proc i (\<lambda>p. p\<lparr>pkilled := 1, pstate := if pstate p = SLEEPING then RUNNABLE else pstate p\<rparr>) s)"
    unfolding kill_def Some option.case eq by (rule refl)
  moreover have "\<exists>p\<in>set (procs s). pid p = n" using i nth_mem by blast
  ultimately show ?thesis using i by (simp only: prod.case if_True) blast
qed


text \<open>C31. \<open>wait\<close> reaps the first zombie child if there is one (its status copied out, its slot
  freed, its pid returned), fails when the caller has no children or was killed, and otherwise
  goes to sleep on its own slot.\<close>

theorem wait_proc_spec:
  "(\<forall>z<length (procs s). zombie_child me (proc_at s z) \<and> (\<forall>k<z. \<not> zombie_child me (proc_at s k)) \<longrightarrow>
      wait_proc me addr s = (case put_status me addr (xstate (proc_at s z)) s of (r, s1) \<Rightarrow>
        if r < 0 then Ok (Some (-1), s1) else rbind (freeproc z s1) (\<lambda>s2. Ok (Some (pid (proc_at s z)), s2)))) \<and>
   ((\<forall>i<length (procs s). \<not> zombie_child me (proc_at s i)) \<longrightarrow>
      wait_proc me addr s =
        (if (\<exists>i<length (procs s). parent (proc_at s i) = Some me) \<and> pkilled (proc_at s me) = 0
         then Ok (None, sleep_enter me (ChanProc me) s) else Ok (Some (-1), s)))"
proof (intro conjI allI impI)
  fix z assume z: "z < length (procs s)" "zombie_child me (proc_at s z) \<and> (\<forall>k<z. \<not> zombie_child me (proc_at s k))"
  obtain r s1 where p: "put_status me addr (xstate (proc_at s z)) s = (r, s1)" by fastforce
  have "wait_scan [0..<length (procs s)] False me addr s =
      (if r < 0 then Ok (Inl (-1), s1) else rbind (freeproc z s1) (\<lambda>s2. Ok (Inl (pid (proc_at s z)), s2)))"
  proof (subst wait_scan_first[where z = z])
    show "z \<in> set [0..<length (procs s)]" "zombie_child me (proc_at s z)" "sorted_wrt (<) [0..<length (procs s)]"
      using z by (simp_all add: sorted_wrt_upt)
    show "\<forall>k\<in>set [0..<length (procs s)]. k < z \<longrightarrow> \<not> zombie_child me (proc_at s k)" using z by simp
  qed (simp add: p)
  then show "wait_proc me addr s = (case put_status me addr (xstate (proc_at s z)) s of (r, s1) \<Rightarrow>
        if r < 0 then Ok (Some (-1), s1) else rbind (freeproc z s1) (\<lambda>s2. Ok (Some (pid (proc_at s z)), s2)))"
    using p by (simp add: wait_proc_def rbind_assoc)
next
  assume "\<forall>i<length (procs s). \<not> zombie_child me (proc_at s i)"
  then show "wait_proc me addr s =
        (if (\<exists>i<length (procs s). parent (proc_at s i) = Some me) \<and> pkilled (proc_at s me) = 0
         then Ok (None, sleep_enter me (ChanProc me) s) else Ok (Some (-1), s))"
    using wait_scan_none[where s = s and me = me and h = False and addr = addr and xs = "[0..<length (procs s)]"]
    by (simp add: wait_proc_def killed_def Bex_def)
qed

text \<open>C32. The end of \<open>exit\<close>: the process is a zombie with its status and exit time, none of
  its children is left behind (init adopts them), and its parent, if it sleeps in \<open>wait\<close>, is
  made runnable.\<close>

theorem exit_tail_spec:
  assumes "me < length (procs s)"
  shows "pstate (proc_at (exit_tail me st s) me) = ZOMBIE \<and> xstate (proc_at (exit_tail me st s) me) = st \<and>
    etime (proc_at (exit_tail me st s) me) = kticks s \<and>
    (\<forall>i<length (procs s). parent (proc_at (exit_tail me st s) i) =
       (if parent (proc_at s i) = Some me then initproc s else parent (proc_at s i))) \<and>
    (\<forall>q<length (procs s). q \<noteq> me \<longrightarrow> parent (proc_at s me) = Some q \<longrightarrow> q \<noteq> me \<longrightarrow>
       pstate (proc_at s q) = SLEEPING \<longrightarrow> pchan (proc_at s q) = ChanProc q \<longrightarrow>
       pstate (proc_at (exit_tail me st s) q) = RUNNABLE)"
proof -
  define s2 where "s2 = wakeup (Some me) (case parent (proc_at (reparent me s) me) of None \<Rightarrow> NoChan | Some j \<Rightarrow> ChanProc j) (reparent me s)"
  have e: "exit_tail me st s = upd_proc me (\<lambda>p. p\<lparr>xstate := st, pstate := ZOMBIE, etime := kticks s2\<rparr>) s2"
    by (simp add: exit_tail_def Let_def s2_def)
  have "table_view s2 = table_view (reparent me s)" by (simp add: s2_def)
  then have k: "keys s2 = map (reparent_key me (initproc s)) (keys s)"
    using reparent_view[of me s] by (simp add: table_view_def)
  then have l: "length (procs s2) = length (procs s)" by (simp add: keys_length)
  have par: "parent (proc_at s2 i) = (if parent (proc_at s i) = Some me then initproc s else parent (proc_at s i))"
    if "i < length (procs s)" for i
  proof -
    have "keys s2 ! i = reparent_key me (initproc s) (keys s ! i)" using k that by (simp add: keys_length)
    then show ?thesis using that l by (simp add: keys_def slot_key_def reparent_key_def)
  qed
  have t: "kticks s2 = kticks s"
    by (simp add: s2_def wakeup_def wakeup_loop_kticks reparent_def reparent_loop_kticks)
  have woke: "pstate (proc_at s2 q) = RUNNABLE"
    if "q < length (procs s)" "q \<noteq> me" "parent (proc_at s me) = Some q" "pstate (proc_at s q) = SLEEPING"
      "pchan (proc_at s q) = ChanProc q" for q
  proof -
    have "table_view (reparent me s) = (map (reparent_key me (initproc s)) (keys s), nextpid s, initproc s)"
      by (rule reparent_view)
    then have kr: "keys (reparent me s) = map (reparent_key me (initproc s)) (keys s)" by (simp add: table_view_def)
    then have lr: "length (procs (reparent me s)) = length (procs s)" by (simp add: keys_length)
    have "keys (reparent me s) ! me = reparent_key me (initproc s) (keys s ! me)"
      using kr assms by (simp add: keys_length)
    then have "parent (proc_at (reparent me s) me) = Some q"
      using that assms lr by (simp add: keys_def slot_key_def reparent_key_def)
    moreover have "pchan (proc_at (reparent me s) q) = ChanProc q \<and>
        pstate (proc_at (reparent me s) q) \<in> {SLEEPING, RUNNABLE}"
      unfolding reparent_def using that by (intro reparent_loop_sleeper) auto
    ultimately show ?thesis using that lr by (auto simp: s2_def wakeup_state woken_def)
  qed
  show ?thesis using assms l par t woke by (auto simp: e nth_list_update)
qed


text \<open>A slot that still has the backup page of its last process.\<close>

lemma allocproc_stale:
  assumes "i < length (procs s)" and "pstate (proc_at s i) = UNUSED" and "\<forall>k<i. pstate (proc_at s k) \<noteq> UNUSED"
    and "pagetable (proc_at s i) = 0" and "freelist s = 0"
    and "backup (proc_at s i) = b" "b \<noteq> 0" "free_page (kend s) b"
  shows "\<exists>s'. allocproc s = Ok (None, s') \<and> freelist s' = b"
proof -
  have sc: "scan_slots (\<lambda>p. pstate p = UNUSED) (procs s) 0 = Some i"
  proof (cases "scan_slots (\<lambda>p. pstate p = UNUSED) (procs s) 0")
    case None
    then show ?thesis using assms(1,2) by (auto simp: scan_slots_None)
  next
    case (Some j)
    then have "pstate (proc_at s j) = UNUSED" "\<forall>k<j. pstate (proc_at s k) \<noteq> UNUSED"
      using scan_slots_Some by fastforce+
    then have "j = i" using assms(2,3) by (metis linorder_neqE_nat)
    then show ?thesis using Some by simp
  qed
  have k: "kalloc (upd_proc i f (s\<lparr>nextpid := n\<rparr>)) = (0, upd_proc i f (s\<lparr>nextpid := n\<rparr>))" for f n
    using assms(5) by (simp add: kalloc_def)
  show ?thesis
    using assms by (auto simp: allocproc_def sc allocpid_def k freeproc_def kfree_def free_page_def Let_def aligned_def)
qed

lemma freeproc_backup:
  assumes "i < length (procs s)" "freeproc i s = Ok s'" "backup (proc_at s i) = b" "b \<noteq> 0"
  shows "backup (proc_at s' i) = b" "pstate (proc_at s' i) = UNUSED" "pagetable (proc_at s' i) = 0" "kend s' = kend s"
    "free_page (kend s) b" "pagetable (proc_at s i) = 0 \<Longrightarrow> freelist s' = b"
proof -
  obtain s1 s2 s3 where k: "(if trapframe (proc_at s i) \<noteq> 0 then kfree (trapframe (proc_at s i)) s else Ok s) = Ok s1"
    "kfree b s1 = Ok s2"
    and s3: "(if pagetable (proc_at s i) \<noteq> 0
      then proc_freepagetable (pagetable (proc_at s i)) (sz (proc_at s i)) s2 else Ok s2) = Ok s3"
    "s' = upd_proc i (\<lambda>p. p\<lparr>trapframe := 0, pagetable := 0, sz := 0, pid := 0, parent := None,
            pname := (pname p)[0 := 0], pchan := NoChan, pkilled := 0, xstate := 0, pstate := UNUSED\<rparr>) s3"
    using assms(2-) by (fastforce simp: freeproc_def Let_def rbind_eq_Ok)
  have "rest s1 = rest s" "rest s3 = rest s2" "rest s2 = rest s1"
    using k s3(1) kfree_rest proc_freepagetable_rest by (auto split: if_splits)
  then have r: "rest s1 = rest s" "rest s3 = rest s" by simp_all
  show "backup (proc_at s' i) = b" "pstate (proc_at s' i) = UNUSED" "pagetable (proc_at s' i) = 0" "kend s' = kend s"
    using assms(1,3) rest_kstate[OF r(2)] r(2) by (simp_all add: s3(2) rest_def)
  show "free_page (kend s) b"
    using k(2) r(1) assms(4) by (auto simp: kfree_def free_page_def aligned_def rest_def split: if_splits)
  show "freelist s' = b" if "pagetable (proc_at s i) = 0"
    using that s3 k(2) by (auto simp: kfree_def split: if_splits)
qed

text \<open>C39. \<open>freeproc\<close> frees the backup page of a slot and leaves \<open>backup\<close> set (for a process without page table, as
  when \<open>allocproc\<close> itself gives up, the page is the first of the free list from then on).  So in every later state with that
  slot unchanged, when \<open>allocproc\<close> takes the slot and finds no memory for the trapframe, it frees the same page a second time:
  the page is put on the free list whoever owns it by then.\<close>

theorem allocproc_frees_stale_backup:
  assumes "i < length (procs s)" and "freeproc i s = Ok s1" and "backup (proc_at s i) = b" and "b \<noteq> 0"
  shows "backup (proc_at s1 i) = b \<and> pstate (proc_at s1 i) = UNUSED \<and>
    (pagetable (proc_at s i) = 0 \<longrightarrow> freelist s1 = b) \<and>
    (\<forall>s2. i < length (procs s2) \<and> proc_at s2 i = proc_at s1 i \<and> kend s2 = kend s \<and> freelist s2 = 0 \<and>
       (\<forall>k<i. pstate (proc_at s2 k) \<noteq> UNUSED) \<longrightarrow> (\<exists>s3. allocproc s2 = Ok (None, s3) \<and> freelist s3 = b))"
  using freeproc_backup[OF assms] assms(4) allocproc_stale by metis

text \<open>A table of two slots.\<close>

definition blank_proc :: proc where
  "blank_proc = \<lparr>pstate = UNUSED, pchan = NoChan, pkilled = 0, xstate = 0, pid = 0, parent = None,
     kstack = 0, sz = 0, pagetable = 0, trapframe = 0, context_ra = 0, context_sp = 0,
     ofile = replicate 16 None, cwd = None, pname = replicate 16 0, rtime = 0, ctime = 0, etime = 0,
     syscall_cnt = replicate 32 0, backup = 0, pticks = 0, total_ticks = 0, handler = 0, alarm_state = 0,
     tickets = 0, arrival_time = 0, queue_num = 0, arrival_time_queue = 0, ticks_in_queue = 0,
     present_in_queue = 0\<rparr>"

definition sample_kstate :: "proc list \<Rightarrow> kstate" where
  "sample_kstate ps = \<lparr>mem = \<lambda>_. 0, freelist = 0, kend = 0x80001234, config = RR, trampoline_pa = 0x80000000,
     forkret_pc = 0x80000100, procs = ps, initproc = None, nextpid = 1, sys_time = 0, kticks = 0\<rparr>"

lemma sample_simps [simp]:
  "procs (sample_kstate ps) = ps" "initproc (sample_kstate ps) = None" "kticks (sample_kstate ps) = 0"
  "pstate blank_proc = UNUSED" "pid blank_proc = 0" "parent blank_proc = None" "pkilled blank_proc = 0"
  "pchan blank_proc = NoChan" "tickets blank_proc = 0" "queue_num blank_proc = 0" "pticks blank_proc = 0"
  by (simp_all add: sample_kstate_def blank_proc_def)

text \<open>The page of slot 0 is freed with its process; slot 1 allocates it, so that no page is left; a process creation then
  fails and frees the page of slot 1.\<close>

theorem allocproc_frees_stale_backup_witness:
  "\<exists>s1 s2 s3. freeproc 0 (sample_kstate [blank_proc\<lparr>pstate := USED, backup := 0x80003000\<rparr>]) = Ok s1 \<and>
     kalloc s1 = (0x80003000, s2) \<and> allocproc s2 = Ok (None, s3) \<and> freelist s3 = 0x80003000"
proof -
  let ?s = "sample_kstate [blank_proc\<lparr>pstate := USED, backup := 0x80003000\<rparr>]"
  obtain s1 where s1: "freeproc 0 ?s = Ok s1" "mem s1 = st64 (memset (mem ?s) 0x80003000 1 4096) 0x80003000 0"
    "length (procs s1) = 1" "kend s1 = kend ?s"
    by (simp add: freeproc_def kfree_def sample_kstate_def blank_proc_def Let_def)
  have pre: "0 < length (procs ?s)" "backup (proc_at ?s 0) = 0x80003000" "(0x80003000 :: u64) \<noteq> 0" "pagetable (proc_at ?s 0) = 0"
    by (simp_all add: blank_proc_def)
  note T = allocproc_frees_stale_backup[OF pre(1) s1(1) pre(2,3)]
  have f: "freelist s1 = 0x80003000" using T pre(4) by blast
  define s2 where "s2 = snd (kalloc s1)"
  have k: "kalloc s1 = (0x80003000, s2)" using f by (simp add: s2_def kalloc_def Let_def)
  have "freelist s2 = 0" "procs s2 = procs s1" "kend s2 = kend ?s"
    using f s1(2,4) by (simp_all add: s2_def kalloc_def Let_def ld64_st64)
  then have "0 < length (procs s2) \<and> proc_at s2 0 = proc_at s1 0 \<and> kend s2 = kend ?s \<and> freelist s2 = 0 \<and>
      (\<forall>k<0. pstate (proc_at s2 k) \<noteq> UNUSED)" using s1(3) by simp
  then have "\<exists>s3. allocproc s2 = Ok (None, s3) \<and> freelist s3 = 0x80003000" using T by blast
  then show ?thesis using s1(1) k by blast
qed

text \<open>A child that lived from tick 2 to tick 10 and ran for 3.\<close>

theorem waitx_refines_wait_witness:
  "\<exists>s'. waitx 0 0 (sample_kstate [blank_proc\<lparr>pstate := RUNNING\<rparr>,
     blank_proc\<lparr>pstate := ZOMBIE, parent := Some 0, pid := 7, ctime := 2, etime := 10, rtime := 3\<rparr>]) = Ok (Some 7, Some (5, 3), s')"
proof -
  let ?s = "sample_kstate [blank_proc\<lparr>pstate := RUNNING\<rparr>,
     blank_proc\<lparr>pstate := ZOMBIE, parent := Some 0, pid := 7, ctime := 2, etime := 10, rtime := 3\<rparr>]"
  obtain s1 where f: "freeproc 1 ?s = Ok s1" by (simp add: freeproc_def blank_proc_def Let_def)
  have l: "[0..<length (procs ?s)] = [0, 1]" by (simp add: upt_rec)
  have "\<exists>t s'. waitx 0 0 ?s = Ok (Some 7, t, s')"
    unfolding waitx_def l using f by (simp add: put_status_def Let_def)
  then obtain t s' where w: "waitx 0 0 ?s = Ok (Some 7, t, s')" by blast
  have z: "(1 :: nat) < length (procs ?s)" "zombie_child 0 (proc_at ?s 1) \<and> (\<forall>k<1. \<not> zombie_child 0 (proc_at ?s k))"
    by (simp_all add: zombie_child_def)
  have "\<exists>wt. t = Some (wt, rtime (proc_at ?s 1)) \<and> wt + rtime (proc_at ?s 1) = etime (proc_at ?s 1) - ctime (proc_at ?s 1)"
    using waitx_refines_wait[of 0 0 ?s] w z by blast
  then obtain wt where t: "t = Some (wt, 3)" "wt + 3 = (8 :: u32)" by (auto simp: blank_proc_def)
  have "wt = 8 - 3" using t(2) by (simp only: eq_diff_eq)
  then show ?thesis using w t(1) by auto
qed

theorem exit_tail_spec_witness:
  "parent (proc_at (exit_tail 0 7 (sample_kstate [blank_proc\<lparr>pstate := RUNNING\<rparr>,
      blank_proc\<lparr>parent := Some 0, pstate := RUNNABLE\<rparr>])) 1) = None"
  using exit_tail_spec[of 0 "sample_kstate [blank_proc\<lparr>pstate := RUNNING\<rparr>,
      blank_proc\<lparr>parent := Some 0, pstate := RUNNABLE\<rparr>]" 7]
  by (auto simp: sample_kstate_def blank_proc_def all_less_two dest!: spec[of _ "Suc 0"])

theorem wakeup_exact_witness:
  "pstate (proc_at (wakeup None ChanTicks (sample_kstate [blank_proc, blank_proc\<lparr>pstate := SLEEPING, pchan := ChanTicks\<rparr>])) 1) = RUNNABLE"
  using wakeup_exact[of 1 "sample_kstate [blank_proc, blank_proc\<lparr>pstate := SLEEPING, pchan := ChanTicks\<rparr>]" None ChanTicks]
  by (simp add: sample_kstate_def blank_proc_def)

theorem kill_spec_witness:
  "fst (kill 3 (sample_kstate [blank_proc, blank_proc\<lparr>pid := 3, pstate := SLEEPING\<rparr>])) = 0"
  using kill_spec[where n = 3 and s = "sample_kstate [blank_proc, blank_proc\<lparr>pid := 3, pstate := SLEEPING\<rparr>]"]
  by (simp split: prod.splits)

theorem wait_proc_spec_witness:
  "wait_proc 0 0 (sample_kstate [blank_proc\<lparr>pstate := RUNNING\<rparr>, blank_proc\<lparr>parent := Some 0, pstate := RUNNABLE\<rparr>]) =
    Ok (None, sleep_enter 0 (ChanProc 0)
      (sample_kstate [blank_proc\<lparr>pstate := RUNNING\<rparr>, blank_proc\<lparr>parent := Some 0, pstate := RUNNABLE\<rparr>]))"
proof -
  let ?s = "sample_kstate [blank_proc\<lparr>pstate := RUNNING\<rparr>, blank_proc\<lparr>parent := Some 0, pstate := RUNNABLE\<rparr>]"
  have nz: "\<forall>i<length (procs ?s). \<not> zombie_child 0 (proc_at ?s i)"
    by (simp add: all_less_two zombie_child_def)
  have "(\<exists>i<length (procs ?s). parent (proc_at ?s i) = Some 0) \<and> pkilled (proc_at ?s 0) = 0"
    by (rule conjI, rule exI[of _ 1]) simp_all
  then show ?thesis by (simp only: wait_proc_spec[of ?s 0 0, THEN conjunct2, THEN mp, OF nz] if_True simp_thms)
qed

end
