(* ===== verification/Sched.thy ===== *)
theory Sched
  imports Proc
begin

text \<open>
  The schedulers of \<open>kernel/proc.c\<close> (round robin, multi-level feedback queue, lottery), the LCG
  behind the lottery, the queue of \<open>struct proc*\<close>, and \<open>sched\<close>/\<open>yield\<close> with their lock protocol.
  A scheduler's round is a function of the table it reads; \<open>swtch\<close> runs the chosen process.
\<close>

section \<open>Random numbers\<close>

definition lcg :: "u64 \<Rightarrow> u64" where
  "lcg r = (r * 1664525 + 1013904223) mod 4294967296"

text \<open>\<open>get_random\<close> returns the new \<open>randstate\<close>.\<close>

definition get_random :: "u64 \<Rightarrow> u64" where
  "get_random r = (lcg ^^ 10) r"

section \<open>Queues\<close>

record queue =
  queue_proc :: "nat option list"
  qend :: nat

definition empty_queue :: queue where
  "empty_queue = \<lparr>queue_proc = replicate NPROC None, qend = 0\<rparr>"

text \<open>The loop of \<open>deque\<close> shifts the elements below \<open>end - 1\<close>; with \<open>end = 0\<close> the bound wraps
  around and the loop leaves the array.\<close>

fun shift_left :: "nat list \<Rightarrow> nat option list \<Rightarrow> nat option list" where
  "shift_left [] xs = xs"
| "shift_left (i # is) xs = shift_left is (xs[i := xs ! Suc i])"

definition deque :: "queue \<Rightarrow> queue res" where
  "deque a = (if qend a = 0 then Stuck
     else Ok (a\<lparr>queue_proc := shift_left [0..<qend a - 1] (queue_proc a), qend := qend a - 1\<rparr>))"

definition enqueue :: "queue \<Rightarrow> nat \<Rightarrow> queue res" where
  "enqueue a x = (if qend a = NPROC then Panic ''Error!''
     else Ok (a\<lparr>queue_proc := (queue_proc a)[qend a := Some x], qend := qend a + 1\<rparr>))"

definition queue_size :: "queue \<Rightarrow> nat" where
  "queue_size q = qend q"

section \<open>Round robin\<close>

definition runnable :: "proc \<Rightarrow> bool" where
  "runnable p \<longleftrightarrow> pstate p = RUNNABLE"

text \<open>The first runnable slot at or after the scheduler's place in the table.\<close>

definition rr_pick :: "nat \<Rightarrow> proc list \<Rightarrow> nat option" where
  "rr_pick i ps = scan_slots runnable (drop i ps) i"

text \<open>
  The endless loop, one slot at a time: whether the slot visited is dispatched, and the place
  of the next visit.
\<close>

definition rr_visit :: "nat \<Rightarrow> proc list \<Rightarrow> bool \<times> nat" where
  "rr_visit i ps = (runnable (ps ! i), if Suc i < length ps then Suc i else 0)"

text \<open>A run of the loop; \<open>tab k\<close> is the table at the \<open>k\<close>-th visit from here.\<close>

fun rr_run :: "nat \<Rightarrow> nat \<Rightarrow> (nat \<Rightarrow> proc list) \<Rightarrow> nat list" where
  "rr_run 0 i tab = []"
| "rr_run (Suc n) i tab =
     (case rr_visit i (tab 0) of (run, j) \<Rightarrow> (if run then [i] else []) @ rr_run n j (\<lambda>k. tab (Suc k)))"

section \<open>Multi-level feedback queue\<close>

text \<open>Enqueueing the runnable slots at and after \<open>i\<close> into the four queues.\<close>

fun mlfq_build :: "proc list \<Rightarrow> nat \<Rightarrow> queue list \<Rightarrow> queue list res" where
  "mlfq_build [] i qs = Ok qs"
| "mlfq_build (p # ps) i qs =
     (if runnable p
      then rbind (enqueue (qs ! nat (queue_num p)) i)
             (\<lambda>q. mlfq_build ps (Suc i) (qs[nat (queue_num p) := q]))
      else mlfq_build ps (Suc i) qs)"

text \<open>The earliest runnable member of one queue below the time bound \<open>leasttime\<close>.\<close>

fun mlfq_scan :: "nat option list \<Rightarrow> proc list \<Rightarrow> int \<Rightarrow> nat option \<Rightarrow> int \<times> nat option" where
  "mlfq_scan [] ps least best = (least, best)"
| "mlfq_scan (None # xs) ps least best = mlfq_scan xs ps least best"
| "mlfq_scan (Some i # xs) ps least best =
     (if runnable (ps ! i) \<and> least > arrival_time_queue (ps ! i)
      then mlfq_scan xs ps (arrival_time_queue (ps ! i)) (Some i)
      else mlfq_scan xs ps least best)"

fun mlfq_select :: "queue list \<Rightarrow> proc list \<Rightarrow> int \<Rightarrow> nat option" where
  "mlfq_select [] ps least = None"
| "mlfq_select (q # qs) ps least =
     (if queue_size q \<noteq> 0
      then (case mlfq_scan (queue_proc q) ps least None of
              (l, None) \<Rightarrow> mlfq_select qs ps l | (l, Some i) \<Rightarrow> Some i)
      else mlfq_select qs ps least)"

definition mlfq_pick :: "proc list \<Rightarrow> nat option res" where
  "mlfq_pick ps = rbind (mlfq_build ps 0 (replicate 4 empty_queue)) (\<lambda>qs. Ok (mlfq_select qs ps 1000000))"

section \<open>Lottery\<close>

fun total_tickets :: "proc list \<Rightarrow> int \<Rightarrow> int" where
  "total_tickets [] t = t"
| "total_tickets (p # ps) t = total_tickets ps (if runnable p then i32 (t + tickets p) else t)"

fun lbs_scan :: "proc list \<Rightarrow> nat \<Rightarrow> int \<Rightarrow> int \<Rightarrow> (nat \<times> proc) option \<Rightarrow> (nat \<times> proc) option" where
  "lbs_scan [] i win cur best = best"
| "lbs_scan (p # ps) i win cur best =
     (if runnable p
      then let cur1 = i32 (cur + tickets p)
           in lbs_scan ps (Suc i) win cur1
                (if cur1 \<ge> win
                 then (case best of None \<Rightarrow> Some (i, p)
                       | Some (j, w) \<Rightarrow>
                           if tickets p = tickets w \<and> arrival_time p < arrival_time w then Some (i, p) else best)
                 else best)
      else lbs_scan ps (Suc i) win cur best)"

text \<open>\<open>get_random() % (total_tickets + 1)\<close> is unsigned 64-bit arithmetic; a divisor of 0
  (\<open>total_tickets = -1\<close>) is undefined.\<close>

definition winning_ticket :: "u64 \<Rightarrow> int \<Rightarrow> int res" where
  "winning_ticket rnd tot =
     (let d = word_of_int (i32 (tot + 1)) :: u64 in
      if d = 0 then Stuck else Ok (i32 (uint (rnd mod d))))"

definition lbs_pick :: "u64 \<Rightarrow> proc list \<Rightarrow> (nat option \<times> u64) res" where
  "lbs_pick rnd ps =
     (let tot = total_tickets ps 0 in
      if tot = 0 then Ok (None, rnd)
      else let rnd1 = get_random rnd
           in rbind (winning_ticket rnd1 tot) (\<lambda>w. Ok (map_option fst (lbs_scan ps 0 w 0 None), rnd1)))"

section \<open>Dispatch, sched, yield\<close>

text \<open>The switch to a picked process, which is checked again under its lock.\<close>

definition dispatch :: "nat \<Rightarrow> 'a kstate_scheme \<Rightarrow> cpu \<Rightarrow> bool \<times> 'a kstate_scheme \<times> cpu" where
  "dispatch i s c =
     (if runnable (proc_at s i)
      then (True, upd_proc i (\<lambda>p. p\<lparr>pstate := RUNNING\<rparr>) s, c\<lparr>cproc := Some i\<rparr>)
      else (False, s, c))"

text \<open>The checks of \<open>sched\<close> by the CPU \<open>me\<close> on the process's lock, and the value of \<open>intena\<close> it saves.\<close>

definition sched_enter :: "nat \<Rightarrow> spinlock \<Rightarrow> procstate \<Rightarrow> cpu \<Rightarrow> bool res" where
  "sched_enter me lk st c =
     (if \<not> holding me lk then Panic ''sched p->lock''
      else if noff c \<noteq> 1 then Panic ''sched locks''
      else if st = RUNNING then Panic ''sched running''
      else if intr c then Panic ''sched interruptible''
      else Ok (intena c))"

text \<open>Back from \<open>swtch\<close>, perhaps on another CPU.\<close>

definition sched_leave :: "bool \<Rightarrow> cpu \<Rightarrow> cpu" where
  "sched_leave saved c = c\<lparr>intena := saved\<rparr>"

text \<open>\<open>yield\<close> before the switch (lock, state and saved \<open>intena\<close>), and after it.\<close>

definition yield_enter :: "nat \<Rightarrow> spinlock \<Rightarrow> cpu \<Rightarrow> (spinlock \<times> procstate \<times> bool \<times> cpu) res" where
  "yield_enter me lk c =
     rbind (acquire me lk c) (\<lambda>(lk1, c1).
     rbind (sched_enter me lk1 RUNNABLE c1) (\<lambda>saved. Ok (lk1, RUNNABLE, saved, c1)))"

definition yield_leave :: "nat \<Rightarrow> spinlock \<Rightarrow> bool \<Rightarrow> cpu \<Rightarrow> (spinlock \<times> cpu) res" where
  "yield_leave me lk saved c = release me lk (sched_leave saved c)"

text \<open>What \<open>yield\<close> does to the table.\<close>

definition yield_state :: "nat \<Rightarrow> 'a kstate_scheme \<Rightarrow> 'a kstate_scheme" where
  "yield_state me s = upd_proc me (\<lambda>p. p\<lparr>pstate := RUNNABLE\<rparr>) s"

text \<open>The scheduler's side: it holds the lock when the process runs, and releases it when the
  process has switched back to it.\<close>

definition scheduler_dispatch :: "nat \<Rightarrow> spinlock \<Rightarrow> cpu \<Rightarrow> (spinlock \<times> cpu) res" where
  "scheduler_dispatch me lk c = acquire me lk (c\<lparr>intr := True\<rparr>)"

definition scheduler_return :: "nat \<Rightarrow> spinlock \<Rightarrow> cpu \<Rightarrow> (spinlock \<times> cpu) res" where
  "scheduler_return me lk c = release me lk (c\<lparr>cproc := None\<rparr>)"

section \<open>Lemmas: the generator\<close>

definition lcg_nat :: "nat \<Rightarrow> nat" where
  "lcg_nat r = (r * 1664525 + 1013904223) mod 2 ^ 32"

lemma unat_lcg:
  assumes "unat r < 2 ^ 32"
  shows "unat (lcg r) = lcg_nat (unat r)"
proof -
  have m: "unat (r * 1664525) = unat r * 1664525"
    using assms by (subst unat_mult_lem[THEN iffD1]) auto
  then have "unat (r * 1664525 + 1013904223) = unat r * 1664525 + 1013904223"
    using assms by (subst unat_add_no_wrap) auto
  then show ?thesis by (simp add: lcg_def lcg_nat_def unat_mod)
qed

lemma lcg_range: "unat (lcg r) < 2 ^ 32"
  by (simp add: lcg_def unat_mod)

lemma unat_lcg_funpow: "unat r < 2 ^ 32 \<Longrightarrow> unat ((lcg ^^ n) r) = (lcg_nat ^^ n) (unat r)"
proof (induction n)
  case (Suc n)
  have "unat ((lcg ^^ n) r) < 2 ^ 32" using Suc.prems lcg_range by (cases n) auto
  then show ?case using Suc by (simp add: unat_lcg)
qed simp

section \<open>Lemmas: round robin\<close>

lemma rr_run_visits:
  assumes "\<And>k. length (tab k) = m" "i < m"
  shows "rr_run n i tab = map (\<lambda>k. (i + k) mod m) (filter (\<lambda>k. runnable (tab k ! ((i + k) mod m))) [0..<n])"
  using assms
proof (induction n arbitrary: i tab)
  case (Suc n)
  define j where "j = (if Suc i < m then Suc i else 0)"
  have j: "j < m" "j = Suc i mod m" using Suc.prems(2) by (auto simp: j_def) (metis Suc_lessI mod_self)
  have sh: "(j + k) mod m = (i + Suc k) mod m" for k
    using j(2) by (simp add: mod_add_left_eq)
  have up: "[0..<Suc n] = 0 # map Suc [0..<n]" by (simp add: upt_conv_Cons map_Suc_upt del: upt_Suc)
  have "rr_run (Suc n) i tab = (if runnable (tab 0 ! i) then [i] else []) @ rr_run n j (\<lambda>k. tab (Suc k))"
    using Suc.prems(1)[of 0] by (simp add: rr_visit_def j_def)
  also have "rr_run n j (\<lambda>k. tab (Suc k)) =
      map (\<lambda>k. (i + Suc k) mod m) (filter (\<lambda>k. runnable (tab (Suc k) ! ((i + Suc k) mod m))) [0..<n])"
    using Suc.IH[of "\<lambda>k. tab (Suc k)" j] Suc.prems(1) j(1) by (simp add: sh)
  finally show ?case unfolding up using Suc.prems(2) by (simp add: filter_map comp_def)
qed simp


lemma visits_all: "i < m \<Longrightarrow> j < m \<Longrightarrow> \<exists>k<m. (i + k) mod m = (j :: nat)"
proof -
  assume "i < m" "j < m"
  show ?thesis
  proof (cases "i \<le> j")
    case True
    then show ?thesis using \<open>j < m\<close> by (intro exI[of _ "j - i"]) auto
  next
    case False
    then have "i + (m - i + j) = m + j" "m - i + j < m" using \<open>i < m\<close> by auto
    then show ?thesis using \<open>j < m\<close> by (metis mod_add_self1 mod_less)
  qed
qed

lemma visits_inj: "k < m \<Longrightarrow> l < m \<Longrightarrow> (i + k) mod m = (i + l) mod m \<Longrightarrow> k = (l :: nat)"
proof (induction k l rule: linorder_wlog)
  case (le k l)
  then have "m dvd (i + l) - (i + k)" by (metis mod_eq_dvd_iff_nat add_le_cancel_left)
  then have "m dvd l - k" by simp
  then show ?case using le by (metis dvd_imp_le le_antisym less_imp_diff_less not_less zero_less_diff)
qed auto

section \<open>Lemmas: feedback queues\<close>

lemma all_Suc_conv: "(\<forall>i<Suc n. P i) \<longleftrightarrow> P 0 \<and> (\<forall>i<n. P (Suc i))"
  using less_Suc_eq_0_disj by auto

text \<open>A queue holding the slots \<open>xs\<close>.\<close>

definition holds_slots :: "queue \<Rightarrow> nat list \<Rightarrow> bool" where
  "holds_slots q xs \<longleftrightarrow> length xs \<le> NPROC \<and> qend q = length xs \<and>
     queue_proc q = map Some xs @ replicate (NPROC - length xs) None"

lemma holds_empty: "holds_slots empty_queue []"
  by (simp add: holds_slots_def empty_queue_def)

lemma holds_enqueue:
  assumes "holds_slots q xs" "length xs < NPROC"
  shows "\<exists>q'. enqueue q x = Ok q' \<and> holds_slots q' (xs @ [x])"
proof -
  have r: "replicate (NPROC - length xs) None = None # replicate (NPROC - Suc (length xs)) (None :: nat option)"
    using assms(2) by (metis Suc_diff_Suc replicate_Suc)
  have "(queue_proc q)[qend q := Some x] = map Some (xs @ [x]) @ replicate (NPROC - Suc (length xs)) None"
    using assms unfolding holds_slots_def r by (simp add: list_update_append)
  then show ?thesis using assms by (auto simp: enqueue_def holds_slots_def)
qed

text \<open>The runnable slots of queue \<open>k\<close>, numbered from \<open>i\<close>.\<close>

definition in_queue :: "int \<Rightarrow> proc \<Rightarrow> bool" where
  "in_queue k p \<longleftrightarrow> runnable p \<and> queue_num p = k"

fun queue_slots :: "int \<Rightarrow> proc list \<Rightarrow> nat \<Rightarrow> nat list" where
  "queue_slots k [] i = []"
| "queue_slots k (p # ps) i = (if in_queue k p then [i] else []) @ queue_slots k ps (Suc i)"

lemma queue_slots_length: "length (queue_slots k ps i) \<le> length ps"
  by (induction ps arbitrary: i) (auto simp: le_SucI)

lemma queue_slots_mem: "j \<in> set (queue_slots k ps i) \<longleftrightarrow> i \<le> j \<and> j < i + length ps \<and> in_queue k (ps ! (j - i))"
proof (induction ps arbitrary: i)
  case (Cons p ps)
  have d: "j - i = Suc (j - Suc i)" if "i < j" using that by simp
  show ?case using Cons.IH[of "Suc i"] d by (cases "i < j"; cases "j = i") auto
qed simp

definition queues_ok :: "proc list \<Rightarrow> bool" where
  "queues_ok ps \<longleftrightarrow> (\<forall>p\<in>set ps. runnable p \<longrightarrow> 0 \<le> queue_num p \<and> queue_num p < 4)"

lemma mlfq_build_slots:
  assumes "queues_ok ps" "length qs = 4" "length xss = 4"
    and "\<forall>k<4. holds_slots (qs ! k) (xss ! k) \<and> length (xss ! k) + length ps \<le> NPROC"
  shows "\<exists>qs'. mlfq_build ps i qs = Ok qs' \<and> length qs' = 4 \<and>
    (\<forall>k<4. holds_slots (qs' ! k) (xss ! k @ queue_slots (int k) ps i))"
  using assms
proof (induction ps arbitrary: i qs xss)
  case (Cons p ps)
  have ok: "queues_ok ps" using Cons.prems(1) by (simp add: queues_ok_def)
  show ?case
  proof (cases "runnable p")
    case True
    define k where "k = nat (queue_num p)"
    have k: "k < 4" "int k = queue_num p" using Cons.prems(1) True by (auto simp: queues_ok_def k_def)
    obtain q where q: "enqueue (qs ! k) i = Ok q" "holds_slots q (xss ! k @ [i])"
      using holds_enqueue[of "qs ! k" "xss ! k" i] Cons.prems(4) k by fastforce
    have "\<forall>l<4. holds_slots (qs[k := q] ! l) (xss[k := xss ! k @ [i]] ! l) \<and>
        length (xss[k := xss ! k @ [i]] ! l) + length ps \<le> NPROC"
      using Cons.prems q k by (auto simp: nth_list_update)
    from Cons.IH[OF ok _ _ this, of "Suc i"] Cons.prems(2,3)
    obtain qs' where qs': "mlfq_build ps (Suc i) (qs[k := q]) = Ok qs'" "length qs' = 4"
      "\<forall>l<4. holds_slots (qs' ! l) (xss[k := xss ! k @ [i]] ! l @ queue_slots (int l) ps (Suc i))" by auto
    have "xss[k := xss ! k @ [i]] ! l @ queue_slots (int l) ps (Suc i) = xss ! l @ queue_slots (int l) (p # ps) i"
      if "l < 4" for l
      using that k True Cons.prems(3) by (auto simp: nth_list_update in_queue_def)
    then show ?thesis using qs' True q by (simp add: k_def[symmetric])
  next
    case False
    have "\<forall>l<4. holds_slots (qs ! l) (xss ! l) \<and> length (xss ! l) + length ps \<le> NPROC"
      using Cons.prems(4) by fastforce
    from Cons.IH[OF ok Cons.prems(2,3) this, of "Suc i"] show ?thesis
      using False by (simp add: in_queue_def)
  qed
qed auto

text \<open>Scanning a queue finds its earliest member below the bound.\<close>

lemma mlfq_scan_pad: "mlfq_scan (map Some xs @ replicate n None) ps l b = mlfq_scan (map Some xs) ps l b"
proof (induction xs arbitrary: l b)
  case Nil
  show ?case by (induction n) auto
qed auto

lemma mlfq_scan_spec:
  assumes "\<forall>i\<in>set xs. runnable (ps ! i)" "mlfq_scan (map Some xs) ps l b = (l', b')"
  shows "l' \<le> l \<and> (\<forall>i\<in>set xs. l' \<le> arrival_time_queue (ps ! i)) \<and>
    (if l' = l then b' = b else \<exists>i\<in>set xs. b' = Some i \<and> arrival_time_queue (ps ! i) = l')"
  using assms
proof (induction xs arbitrary: l b)
  case (Cons i xs)
  show ?case
  proof (cases "l > arrival_time_queue (ps ! i)")
    case True
    then have "mlfq_scan (map Some xs) ps (arrival_time_queue (ps ! i)) (Some i) = (l', b')"
      using Cons.prems by simp
    from Cons.IH[OF _ this] Cons.prems(1) True show ?thesis by (auto split: if_splits)
  next
    case False
    then have "mlfq_scan (map Some xs) ps l b = (l', b')" using Cons.prems by simp
    from Cons.IH[OF _ this] Cons.prems(1) False show ?thesis by (auto split: if_splits)
  qed
qed simp


text \<open>Queues \<open>k, k + 1, \<dots>\<close> of the table, as \<open>mlfq_select\<close> goes through them.\<close>

lemma mlfq_select_spec:
  assumes "\<forall>j<length qs. holds_slots (qs ! j) (queue_slots (int (k + j)) ps 0)"
  shows "case mlfq_select qs ps l of
     None \<Rightarrow> \<forall>j<length qs. \<forall>i<length ps. in_queue (int (k + j)) (ps ! i) \<longrightarrow> l \<le> arrival_time_queue (ps ! i)
   | Some i \<Rightarrow> i < length ps \<and> arrival_time_queue (ps ! i) < l \<and>
       (\<exists>j<length qs. in_queue (int (k + j)) (ps ! i) \<and>
         (\<forall>m<length ps. in_queue (int (k + j)) (ps ! m) \<longrightarrow> arrival_time_queue (ps ! i) \<le> arrival_time_queue (ps ! m)) \<and>
         (\<forall>j'<j. \<forall>m<length ps. in_queue (int (k + j')) (ps ! m) \<longrightarrow> l \<le> arrival_time_queue (ps ! m)))"
  using assms
proof (induction qs arbitrary: k)
  case (Cons q qs)
  let ?xs = "queue_slots (int k) ps 0"
  have q: "holds_slots q ?xs" using Cons.prems by auto
  have tl: "\<forall>j<length qs. holds_slots (qs ! j) (queue_slots (int (Suc k + j)) ps 0)"
    using Cons.prems by (auto simp: all_Suc_conv add_ac)
  have mem: "i \<in> set ?xs \<longleftrightarrow> i < length ps \<and> in_queue (int k) (ps ! i)" for i
    by (simp add: queue_slots_mem)
  obtain l' b where sc: "mlfq_scan (queue_proc q) ps l None = (l', b)" by fastforce
  then have sc': "mlfq_scan (map Some ?xs) ps l None = (l', b)"
    using q by (simp add: holds_slots_def mlfq_scan_pad)
  have "\<forall>i\<in>set ?xs. runnable (ps ! i)" using mem by (auto simp: in_queue_def)
  from mlfq_scan_spec[OF this sc']
  have S: "l' \<le> l" "\<forall>i\<in>set ?xs. l' \<le> arrival_time_queue (ps ! i)"
    "if l' = l then b = None else \<exists>i\<in>set ?xs. b = Some i \<and> arrival_time_queue (ps ! i) = l'" by auto
  show ?case
  proof (cases b)
    case (Some i)
    then have i: "i < length ps" "in_queue (int k) (ps ! i)" "arrival_time_queue (ps ! i) = l'" "l' < l"
      using S(1,3) mem by (auto split: if_splits)
    then have "queue_size q \<noteq> 0" using q mem[of i] by (auto simp: queue_size_def holds_slots_def)
    then have "mlfq_select (q # qs) ps l = Some i" using sc Some by simp
    then show ?thesis using i S(2) mem by (auto intro!: exI[of _ 0])
  next
    case None
    then have ll: "l' = l" using S(3) by (auto split: if_splits)
    have sel: "mlfq_select (q # qs) ps l = mlfq_select qs ps l" using sc None ll by auto
    have here: "\<forall>i<length ps. in_queue (int k) (ps ! i) \<longrightarrow> l \<le> arrival_time_queue (ps ! i)"
      using S(2) ll mem by auto
    have IH: "case mlfq_select qs ps l of
     None \<Rightarrow> \<forall>j<length qs. \<forall>i<length ps. in_queue (int (Suc k + j)) (ps ! i) \<longrightarrow> l \<le> arrival_time_queue (ps ! i)
   | Some i \<Rightarrow> i < length ps \<and> arrival_time_queue (ps ! i) < l \<and>
       (\<exists>j<length qs. in_queue (int (Suc k + j)) (ps ! i) \<and>
         (\<forall>m<length ps. in_queue (int (Suc k + j)) (ps ! m) \<longrightarrow> arrival_time_queue (ps ! i) \<le> arrival_time_queue (ps ! m)) \<and>
         (\<forall>j'<j. \<forall>m<length ps. in_queue (int (Suc k + j')) (ps ! m) \<longrightarrow> l \<le> arrival_time_queue (ps ! m)))"
      using Cons.IH[OF tl] .
    show ?thesis
    proof (cases "mlfq_select qs ps l")
      case none: None
      then show ?thesis using IH here unfolding sel by (auto simp: all_Suc_conv add_ac simp del: mlfq_select.simps)
    next
      case (Some i)
      then obtain j where "i < length ps" "arrival_time_queue (ps ! i) < l" "j < length qs" "in_queue (int (k + Suc j)) (ps ! i)"
        "\<forall>m<length ps. in_queue (int (k + Suc j)) (ps ! m) \<longrightarrow> arrival_time_queue (ps ! i) \<le> arrival_time_queue (ps ! m)"
        "\<forall>j'<j. \<forall>m<length ps. in_queue (int (k + Suc j')) (ps ! m) \<longrightarrow> l \<le> arrival_time_queue (ps ! m)"
        using IH by auto
      then show ?thesis using here unfolding sel Some option.case
        by (intro conjI exI[of _ "Suc j"]) (simp_all add: all_Suc_conv del: of_nat_add of_nat_Suc)
    qed
  qed
qed simp


lemma mlfq_pick_cases:
  assumes "length ps \<le> NPROC" "queues_ok ps"
  shows "\<exists>r. mlfq_pick ps = Ok r \<and> (case r of
     None \<Rightarrow> \<forall>i<length ps. runnable (ps ! i) \<longrightarrow> 1000000 \<le> arrival_time_queue (ps ! i)
   | Some i \<Rightarrow> i < length ps \<and> runnable (ps ! i) \<and> arrival_time_queue (ps ! i) < 1000000 \<and>
       (\<forall>j<length ps. runnable (ps ! j) \<longrightarrow> 1000000 \<le> arrival_time_queue (ps ! j) \<or>
          queue_num (ps ! i) < queue_num (ps ! j) \<or>
          queue_num (ps ! i) = queue_num (ps ! j) \<and> arrival_time_queue (ps ! i) \<le> arrival_time_queue (ps ! j)))"
proof -
  have "\<forall>k<4. holds_slots (replicate 4 empty_queue ! k) (replicate 4 [] ! k) \<and>
      length (replicate 4 ([] :: nat list) ! k) + length ps \<le> NPROC"
    using holds_empty assms(1) by simp
  from mlfq_build_slots[OF assms(2) _ _ this, of 0]
  obtain qs where b: "mlfq_build ps 0 (replicate 4 empty_queue) = Ok qs" "length qs = 4"
    "\<forall>k<4. holds_slots (qs ! k) (queue_slots (int k) ps 0)" by auto
  have h: "\<forall>j<length qs. holds_slots (qs ! j) (queue_slots (int (0 + j)) ps 0)" using b by simp
  have q: "\<exists>k<4. in_queue (int k) (ps ! i)" if "i < length ps" "runnable (ps ! i)" for i
    using assms(2) that by (auto simp: queues_ok_def in_queue_def intro!: exI[of _ "nat (queue_num (ps ! i))"])
  have r: "mlfq_pick ps = Ok (mlfq_select qs ps 1000000)" using b(1) by (simp add: mlfq_pick_def)
  note S = mlfq_select_spec[OF h, of 1000000]
  show ?thesis
  proof (cases "mlfq_select qs ps 1000000")
    case None
    then show ?thesis using S r q b(2) by fastforce
  next
    case (Some i)
    then obtain j where j: "i < length ps" "arrival_time_queue (ps ! i) < 1000000" "j < 4" "in_queue (int j) (ps ! i)"
      "\<forall>m<length ps. in_queue (int j) (ps ! m) \<longrightarrow> arrival_time_queue (ps ! i) \<le> arrival_time_queue (ps ! m)"
      "\<forall>j'<j. \<forall>m<length ps. in_queue (int j') (ps ! m) \<longrightarrow> 1000000 \<le> arrival_time_queue (ps ! m)"
      using S b(2) by auto
    have "1000000 \<le> arrival_time_queue (ps ! m) \<or> queue_num (ps ! i) < queue_num (ps ! m) \<or>
        queue_num (ps ! i) = queue_num (ps ! m) \<and> arrival_time_queue (ps ! i) \<le> arrival_time_queue (ps ! m)"
      if m: "m < length ps" "runnable (ps ! m)" for m
    proof -
      obtain k where k: "k < 4" "in_queue (int k) (ps ! m)" using q[OF m] by blast
      show ?thesis using j k m by (cases j k rule: linorder_cases) (auto simp: in_queue_def)
    qed
    then show ?thesis using r Some j by (auto simp: in_queue_def)
  qed
qed

section \<open>Lemmas: lottery\<close>

text \<open>The tickets of the runnable slots, summed.\<close>

definition ticket_sum :: "proc list \<Rightarrow> int" where
  "ticket_sum ps = sum_list (map tickets (filter runnable ps))"

definition tickets_ok :: "proc list \<Rightarrow> bool" where
  "tickets_ok ps \<longleftrightarrow> (\<forall>p\<in>set ps. runnable p \<longrightarrow> 0 < tickets p)"

lemma ticket_sum_nonneg: "tickets_ok ps \<Longrightarrow> 0 \<le> ticket_sum ps"
  unfolding ticket_sum_def tickets_ok_def by (intro sum_list_nonneg) force

lemma total_tickets_sum:
  "tickets_ok ps \<Longrightarrow> 0 \<le> t \<Longrightarrow> t + ticket_sum ps < 2 ^ 31 \<Longrightarrow> total_tickets ps t = t + ticket_sum ps"
proof (induction ps arbitrary: t)
  case (Cons p ps)
  have ok: "tickets_ok ps" using Cons.prems(1) by (simp add: tickets_ok_def)
  show ?case
  proof (cases "runnable p")
    case True
    then have "0 < tickets p" "t + tickets p + ticket_sum ps < 2 ^ 31" using Cons.prems by (auto simp: tickets_ok_def ticket_sum_def)
    moreover from this have "i32 (t + tickets p) = t + tickets p"
      using ticket_sum_nonneg[OF ok] Cons.prems(2) by (intro i32_small) linarith+
    ultimately show ?thesis using Cons.IH[OF ok, of "t + tickets p"] True Cons.prems(2) by (simp add: ticket_sum_def)
  next
    case False
    then show ?thesis using Cons.IH[OF ok, of t] Cons.prems by (simp add: ticket_sum_def)
  qed
qed (simp add: ticket_sum_def)

text \<open>Once there is a winner, the rest of the table only breaks ties.\<close>

lemma lbs_scan_ties:
  assumes "tickets_ok ps" "win \<le> cur" "0 \<le> cur" "cur + ticket_sum ps < 2 ^ 31"
  shows "\<exists>j q. lbs_scan ps i win cur (Some (w, pw)) = Some (j, q) \<and>
    ((j, q) = (w, pw) \<or> i \<le> j \<and> j < i + length ps \<and> q = ps ! (j - i) \<and> runnable q) \<and>
    tickets q = tickets pw \<and> arrival_time q \<le> arrival_time pw \<and>
    (\<forall>p\<in>set ps. runnable p \<and> tickets p = tickets pw \<longrightarrow> arrival_time q \<le> arrival_time p)"
  using assms
proof (induction ps arbitrary: i cur w pw)
  case (Cons p ps)
  have ok: "tickets_ok ps" using Cons.prems(1) by (simp add: tickets_ok_def)
  show ?case
  proof (cases "runnable p")
    case False
    then obtain j q where "lbs_scan ps (Suc i) win cur (Some (w, pw)) = Some (j, q)"
      "(j, q) = (w, pw) \<or> Suc i \<le> j \<and> j < Suc i + length ps \<and> q = ps ! (j - Suc i) \<and> runnable q"
      "tickets q = tickets pw" "arrival_time q \<le> arrival_time pw"
      "\<forall>p\<in>set ps. runnable p \<and> tickets p = tickets pw \<longrightarrow> arrival_time q \<le> arrival_time p"
      using Cons.IH[OF ok Cons.prems(2,3), of "Suc i" w pw] Cons.prems(4) by (auto simp: ticket_sum_def)
    then show ?thesis using False by (intro exI[of _ j] exI[of _ q]) (auto simp: nth_Cons')
  next
    case True
    then have t: "0 < tickets p" "cur + tickets p + ticket_sum ps < 2 ^ 31"
      using Cons.prems by (auto simp: tickets_ok_def ticket_sum_def)
    have i: "i32 (cur + tickets p) = cur + tickets p"
      using t ticket_sum_nonneg[OF ok] Cons.prems(3) by (intro i32_small) linarith+
    let ?b = "tickets p = tickets pw \<and> arrival_time p < arrival_time pw"
    have c: "win \<le> cur + tickets p" "0 \<le> cur + tickets p" using t Cons.prems(2,3) by linarith+
    obtain j q where "lbs_scan ps (Suc i) win (cur + tickets p) (Some (if ?b then (i, p) else (w, pw))) = Some (j, q)"
      "(j, q) = (if ?b then (i, p) else (w, pw)) \<or> Suc i \<le> j \<and> j < Suc i + length ps \<and> q = ps ! (j - Suc i) \<and> runnable q"
      "tickets q = tickets pw" "arrival_time q \<le> arrival_time (if ?b then p else pw)"
      "\<forall>p\<in>set ps. runnable p \<and> tickets p = tickets pw \<longrightarrow> arrival_time q \<le> arrival_time p"
      using Cons.IH[OF ok c t(2), of "Suc i" "if ?b then i else w" "if ?b then p else pw"]
      by (auto split: if_splits)
    then show ?thesis using True i c
      by (intro exI[of _ j] exI[of _ q]) (auto simp: nth_Cons' Let_def split: if_splits)
  qed
qed simp


text \<open>
  The slot \<open>f\<close> the lottery draws: the first runnable one where the running ticket count, from
  \<open>cur\<close>, reaches \<open>win\<close>.
\<close>

definition drawn :: "proc list \<Rightarrow> int \<Rightarrow> int \<Rightarrow> nat \<Rightarrow> bool" where
  "drawn ps win cur f \<longleftrightarrow> f < length ps \<and> runnable (ps ! f) \<and> win \<le> cur + ticket_sum (take (Suc f) ps) \<and>
     (\<forall>g<f. runnable (ps ! g) \<longrightarrow> cur + ticket_sum (take (Suc g) ps) < win)"

definition lottery_winner :: "proc list \<Rightarrow> nat \<Rightarrow> nat \<Rightarrow> bool" where
  "lottery_winner ps f j \<longleftrightarrow> f \<le> j \<and> j < length ps \<and> runnable (ps ! j) \<and> tickets (ps ! j) = tickets (ps ! f) \<and>
     (\<forall>m<length ps. f \<le> m \<and> runnable (ps ! m) \<and> tickets (ps ! m) = tickets (ps ! f) \<longrightarrow>
        arrival_time (ps ! j) \<le> arrival_time (ps ! m))"

lemma lbs_scan_winner:
  assumes "tickets_ok ps" "0 \<le> cur" "cur + ticket_sum ps < 2 ^ 31" "win \<le> cur + ticket_sum ps" "0 < ticket_sum ps"
  shows "\<exists>f j. drawn ps win cur f \<and> lottery_winner ps f j \<and> lbs_scan ps i win cur None = Some (i + j, ps ! j)"
  using assms
proof (induction ps arbitrary: i cur)
  case (Cons p ps)
  have ok: "tickets_ok ps" using Cons.prems(1) by (simp add: tickets_ok_def)
  have sum: "ticket_sum (take (Suc (Suc g)) (p # ps)) = (if runnable p then tickets p else 0) + ticket_sum (take (Suc g) ps)" for g
    by (simp add: ticket_sum_def)
  have shift: "drawn (p # ps) win cur (Suc f) \<and> lottery_winner (p # ps) (Suc f) (Suc j)"
    if "drawn ps win (cur + (if runnable p then tickets p else 0)) f" "lottery_winner ps f j"
      "runnable p \<Longrightarrow> cur + tickets p < win" for f j
    using that by (auto simp: drawn_def lottery_winner_def sum nth_Cons all_Suc_conv ticket_sum_def split: nat.splits)
  show ?case
  proof (cases "runnable p")
    case False
    then obtain f j where "drawn ps win cur f" "lottery_winner ps f j"
      "lbs_scan ps (Suc i) win cur None = Some (Suc i + j, ps ! j)"
      using Cons.IH[OF ok Cons.prems(2), of "Suc i"] Cons.prems(3-5) by (auto simp: ticket_sum_def)
    then show ?thesis using False shift[of f j] by (intro exI[of _ "Suc f"] exI[of _ "Suc j"]) simp
  next
    case True
    have t: "0 < tickets p" "ticket_sum (p # ps) = tickets p + ticket_sum ps"
      using Cons.prems(1) True by (auto simp: tickets_ok_def ticket_sum_def)
    have i: "i32 (cur + tickets p) = cur + tickets p"
      using t ticket_sum_nonneg[OF ok] Cons.prems(2,3) by (intro i32_small) linarith+
    have c: "0 \<le> cur + tickets p" "cur + tickets p + ticket_sum ps < 2 ^ 31"
      using t Cons.prems(2,3) by linarith+
    show ?thesis
    proof (cases "win \<le> cur + tickets p")
      case won: True
      obtain j q where jq: "lbs_scan ps (Suc i) win (cur + tickets p) (Some (i, p)) = Some (j, q)"
        "(j, q) = (i, p) \<or> Suc i \<le> j \<and> j < Suc i + length ps \<and> q = ps ! (j - Suc i) \<and> runnable q"
        "tickets q = tickets p" "arrival_time q \<le> arrival_time p"
        "\<forall>p'\<in>set ps. runnable p' \<and> tickets p' = tickets p \<longrightarrow> arrival_time q \<le> arrival_time p'"
        using lbs_scan_ties[OF ok won c, of "Suc i" i p] by auto
      have d: "drawn (p # ps) win cur 0" using True won by (simp add: drawn_def ticket_sum_def)
      have "q = (p # ps) ! (j - i)" "i \<le> j" "j - i < length (p # ps)" "runnable q"
        using jq(2) True by (auto simp: nth_Cons')
      then have "lottery_winner (p # ps) 0 (j - i)" using jq(3-5)
        by (auto simp: lottery_winner_def all_Suc_conv)
      then show ?thesis using d jq(1) True won i \<open>i \<le> j\<close> \<open>q = _\<close>
        by (intro exI[of _ 0] exI[of _ "j - i"]) (simp add: Let_def)
    next
      case False
      have "0 < ticket_sum ps" using False Cons.prems(4) t by linarith
      then obtain f j where "drawn ps win (cur + tickets p) f" "lottery_winner ps f j"
        "lbs_scan ps (Suc i) win (cur + tickets p) None = Some (Suc i + j, ps ! j)"
        using Cons.IH[OF ok c, of "Suc i"] Cons.prems(4) t by auto
      then show ?thesis using True False i shift[of f j]
        by (intro exI[of _ "Suc f"] exI[of _ "Suc j"]) (simp add: Let_def)
    qed
  qed
qed (simp add: ticket_sum_def)

lemma winning_ticket_value:
  assumes "0 < t" "t < 2 ^ 31 - 1"
  shows "winning_ticket r t = Ok (uint r mod (t + 1))"
proof -
  have i: "i32 (t + 1) = t + 1" using assms by (intro i32_small) linarith+
  have "uint (word_of_int (t + 1) :: u64) = (t + 1) mod 2 ^ 64" by (subst uint_word_of_int) simp
  then have d: "uint (word_of_int (t + 1) :: u64) = t + 1"
    using assms by (simp add: mod_pos_pos_trivial del: of_int_add)
  then have "(word_of_int (t + 1) :: u64) \<noteq> 0" using assms by (metis uint_0_eq add_pos_pos less_irrefl zero_less_one)
  moreover have u: "uint (r mod word_of_int (t + 1)) = uint r mod (t + 1)"
    using d by (simp add: uint_mod)
  have "0 \<le> uint r mod (t + 1)" "uint r mod (t + 1) < t + 1"
    using assms pos_mod_bound[of "t + 1" "uint r"] by auto
  moreover from this have "i32 (uint r mod (t + 1)) = uint r mod (t + 1)"
    using assms by (intro i32_small) linarith+
  ultimately show ?thesis by (simp add: winning_ticket_def i Let_def u del: of_int_add)
qed

lemma winning_ticket_range:
  assumes "0 < t" "t < 2 ^ 31 - 1"
  shows "\<exists>w. winning_ticket r t = Ok w \<and> 0 \<le> w \<and> w \<le> t"
  using winning_ticket_value[OF assms, of r] pos_mod_bound[of "t + 1" "uint r"] assms by auto

section \<open>The interface of a scheduling policy\<close>

text \<open>
  What dispatching relies on: a pick is a runnable slot, and on a table the policy accepts
  (\<open>fair\<close>) there is a pick as soon as some slot is runnable.
\<close>

locale sched_policy =
  fixes pick :: "proc list \<Rightarrow> nat option" and fair :: "proc list \<Rightarrow> bool"
  assumes pick_runnable: "fair ps \<Longrightarrow> pick ps = Some i \<Longrightarrow> i < length ps \<and> runnable (ps ! i)"
    and pick_exists: "fair ps \<Longrightarrow> p \<in> set ps \<Longrightarrow> runnable p \<Longrightarrow> pick ps \<noteq> None"
begin

lemma pick_none_iff: "fair ps \<Longrightarrow> pick ps = None \<longleftrightarrow> (\<forall>p\<in>set ps. \<not> runnable p)"
  using pick_runnable pick_exists by (metis not_Some_eq nth_mem)

text \<open>A round on a table with a runnable process sets exactly that process running.\<close>

lemma round_dispatches:
  assumes "fair (procs s)" "\<exists>p\<in>set (procs s). runnable p"
  shows "\<exists>i<length (procs s). pick (procs s) = Some i \<and> runnable (proc_at s i) \<and>
    dispatch i s c = (True, upd_proc i (\<lambda>p. p\<lparr>pstate := RUNNING\<rparr>) s, c\<lparr>cproc := Some i\<rparr>)"
  using assms pick_none_iff[of "procs s"] pick_runnable[of "procs s"]
  by (cases "pick (procs s)") (auto simp: dispatch_def)

end

text \<open>Round robin from any place \<open>i\<close>: the slots from \<open>i\<close> on, then those before.\<close>

definition rr_next :: "nat \<Rightarrow> proc list \<Rightarrow> nat option" where
  "rr_next i ps = (case rr_pick i ps of None \<Rightarrow> scan_slots runnable (take i ps) 0 | Some j \<Rightarrow> Some j)"

lemma scan_slots_drop: "scan_slots P (drop i ps) i = Some j \<Longrightarrow> j < length ps \<and> P (ps ! j)"
  using scan_slots_Some[of P "drop i ps" i j] by auto

lemma scan_slots_take: "scan_slots P (take i ps) 0 = Some j \<Longrightarrow> j < length ps \<and> P (ps ! j)"
  using scan_slots_Some[of P "take i ps" 0 j] by auto

interpretation rr: sched_policy "rr_next i" "\<lambda>_. True" for i
proof unfold_locales
  fix ps j assume "rr_next i ps = Some j"
  then show "j < length ps \<and> runnable (ps ! j)"
    by (auto simp: rr_next_def rr_pick_def split: option.splits dest: scan_slots_drop scan_slots_take)
next
  fix ps p assume p: "p \<in> set ps" "runnable p"
  show "rr_next i ps \<noteq> None"
  proof
    assume "rr_next i ps = None"
    then have "\<forall>p\<in>set (drop i ps). \<not> runnable p" "\<forall>p\<in>set (take i ps). \<not> runnable p"
      by (auto simp: rr_next_def rr_pick_def scan_slots_None split: option.splits)
    then show False using p by (metis append_take_drop_id Un_iff set_append)
  qed
qed

definition mlfq_ok :: "proc list \<Rightarrow> bool" where
  "mlfq_ok ps \<longleftrightarrow> length ps \<le> NPROC \<and> queues_ok ps \<and> (\<forall>p\<in>set ps. runnable p \<longrightarrow> arrival_time_queue p < 1000000)"

definition res_pick :: "nat option res \<Rightarrow> nat option" where
  "res_pick r = (case r of Ok x \<Rightarrow> x | _ \<Rightarrow> None)"

interpretation mlfq: sched_policy "\<lambda>ps. res_pick (mlfq_pick ps)" mlfq_ok
proof unfold_locales
  fix ps i assume ok: "mlfq_ok ps" and "res_pick (mlfq_pick ps) = Some i"
  then show "i < length ps \<and> runnable (ps ! i)"
    using mlfq_pick_cases[of ps] by (auto simp: mlfq_ok_def res_pick_def)
next
  fix ps p assume ok: "mlfq_ok ps" and p: "p \<in> set ps" "runnable p"
  then obtain i where "i < length ps" "ps ! i = p" by (auto simp: in_set_conv_nth)
  then show "res_pick (mlfq_pick ps) \<noteq> None"
    using mlfq_pick_cases[of ps] ok p by (fastforce simp: mlfq_ok_def res_pick_def split: option.splits)
qed

definition lbs_ok :: "proc list \<Rightarrow> bool" where
  "lbs_ok ps \<longleftrightarrow> tickets_ok ps \<and> ticket_sum ps < 2 ^ 31 - 1"

lemma ticket_sum_pos: "tickets_ok ps \<Longrightarrow> p \<in> set ps \<Longrightarrow> runnable p \<Longrightarrow> 0 < ticket_sum ps"
proof (induction ps)
  case (Cons q ps)
  then have ok: "tickets_ok ps" by (simp add: tickets_ok_def)
  show ?case
    using Cons ok ticket_sum_nonneg[OF ok] by (auto simp: ticket_sum_def tickets_ok_def)
qed simp

lemma ticket_sum_zero: "tickets_ok ps \<Longrightarrow> ticket_sum ps = 0 \<Longrightarrow> p \<in> set ps \<Longrightarrow> \<not> runnable p"
  using ticket_sum_pos by fastforce

lemma lbs_pick_cases:
  assumes "lbs_ok ps"
  shows "(ticket_sum ps = 0 \<and> lbs_pick r ps = Ok (None, r)) \<or>
    (\<exists>w f j. 0 \<le> w \<and> w \<le> ticket_sum ps \<and> winning_ticket (get_random r) (ticket_sum ps) = Ok w \<and>
      drawn ps w 0 f \<and> lottery_winner ps f j \<and> lbs_pick r ps = Ok (Some j, get_random r))"
proof -
  have ok: "tickets_ok ps" "ticket_sum ps < 2 ^ 31 - 1" using assms by (auto simp: lbs_ok_def)
  have tot: "total_tickets ps 0 = ticket_sum ps" using total_tickets_sum[OF ok(1), of 0] ok(2) by simp
  show ?thesis
  proof (cases "ticket_sum ps = 0")
    case True
    then show ?thesis using tot by (simp add: lbs_pick_def)
  next
    case False
    then have pos: "0 < ticket_sum ps" using ticket_sum_nonneg[OF ok(1)] by simp
    obtain w where w: "winning_ticket (get_random r) (ticket_sum ps) = Ok w" "0 \<le> w" "w \<le> ticket_sum ps"
      using winning_ticket_range[OF pos ok(2)] by blast
    obtain f j where "drawn ps w 0 f" "lottery_winner ps f j" "lbs_scan ps 0 w 0 None = Some (0 + j, ps ! j)"
      using lbs_scan_winner[OF ok(1), of 0 w 0] ok(2) w pos by auto
    then show ?thesis using w False tot by (auto simp: lbs_pick_def)
  qed
qed

definition lbs_choice :: "u64 \<Rightarrow> proc list \<Rightarrow> nat option" where
  "lbs_choice r ps = res_pick (rbind (lbs_pick r ps) (\<lambda>(x, _). Ok x))"

interpretation lbs: sched_policy "lbs_choice r" lbs_ok for r
proof unfold_locales
  fix ps i assume ok: "lbs_ok ps" and "lbs_choice r ps = Some i"
  then show "i < length ps \<and> runnable (ps ! i)"
    using lbs_pick_cases[OF ok, of r] by (auto simp: lbs_choice_def res_pick_def lottery_winner_def)
next
  fix ps p assume ok: "lbs_ok ps" and p: "p \<in> set ps" "runnable p"
  then have "ticket_sum ps \<noteq> 0" using ticket_sum_pos by (fastforce simp: lbs_ok_def)
  then show "lbs_choice r ps \<noteq> None"
    using lbs_pick_cases[OF ok, of r] by (auto simp: lbs_choice_def res_pick_def)
qed


section \<open>Properties\<close>

text \<open>C27. The round-robin loop is fair: within one turn of the table it visits every slot
  exactly once, so a process that is runnable at each visit runs within \<open>m\<close> visits, after at
  most \<open>m - 1\<close> others, and no process runs twice before it.\<close>

theorem rr_bounded_waiting:
  assumes "\<forall>k. length (tab k) = m" and "i < m" and "j < m" and "\<forall>k<m. runnable (tab k ! j)"
  shows "j \<in> set (rr_run m i tab) \<and> distinct (rr_run m i tab) \<and> length (rr_run m i tab) \<le> m"
proof -
  have r: "rr_run m i tab = map (\<lambda>k. (i + k) mod m) (filter (\<lambda>k. runnable (tab k ! ((i + k) mod m))) [0..<m])"
    using assms(1,2) by (intro rr_run_visits) auto
  have "inj_on (\<lambda>k. (i + k) mod m) (set (filter (\<lambda>k. runnable (tab k ! ((i + k) mod m))) [0..<m]))"
    using visits_inj by (auto intro!: inj_onI)
  then have "distinct (rr_run m i tab)" unfolding r by (simp add: distinct_map)
  moreover have "length (rr_run m i tab) \<le> m"
    unfolding r using length_filter_le[of _ "[0..<m]"] by simp
  moreover obtain k where "k < m" "(i + k) mod m = j" using visits_all[OF assms(2,3)] by blast
  then have "j \<in> set (rr_run m i tab)" unfolding r using assms(4) by auto
  ultimately show ?thesis by blast
qed

theorem rr_bounded_waiting_witness:
  "1 \<in> set (rr_run 2 0 (\<lambda>_. [blank_proc, blank_proc\<lparr>pstate := RUNNABLE\<rparr>]))"
  using rr_bounded_waiting[of "\<lambda>_. [blank_proc, blank_proc\<lparr>pstate := RUNNABLE\<rparr>]" 2 0 1]
  by (simp add: runnable_def)

text \<open>C26. On a table whose runnable processes have a queue number in 0 to 3, the MLFQ
  scheduler never overflows its queues and picks the runnable process of the highest-priority
  queue that arrived first there, among those that arrived before time 1000000; it picks none
  exactly when every runnable process arrived later (they are then never scheduled).\<close>

theorem mlfq_pick_spec:
  assumes "length ps \<le> NPROC" and "\<forall>p\<in>set ps. runnable p \<longrightarrow> 0 \<le> queue_num p \<and> queue_num p < 4"
  shows "\<exists>r. mlfq_pick ps = Ok r \<and> (case r of
     None \<Rightarrow> \<forall>i<length ps. runnable (ps ! i) \<longrightarrow> 1000000 \<le> arrival_time_queue (ps ! i)
   | Some i \<Rightarrow> i < length ps \<and> runnable (ps ! i) \<and> arrival_time_queue (ps ! i) < 1000000 \<and>
       (\<forall>j<length ps. runnable (ps ! j) \<longrightarrow> 1000000 \<le> arrival_time_queue (ps ! j) \<or>
          queue_num (ps ! i) < queue_num (ps ! j) \<or>
          queue_num (ps ! i) = queue_num (ps ! j) \<and> arrival_time_queue (ps ! i) \<le> arrival_time_queue (ps ! j)))"
  using mlfq_pick_cases[of ps] assms by (simp add: queues_ok_def)

theorem mlfq_pick_spec_witness:
  "mlfq_pick [blank_proc\<lparr>pstate := RUNNABLE, arrival_time_queue := 1000000\<rparr>] = Ok None"
  using mlfq_pick_spec[of "[blank_proc\<lparr>pstate := RUNNABLE, arrival_time_queue := 1000000\<rparr>]"]
  by (cases "mlfq_pick [blank_proc\<lparr>pstate := RUNNABLE, arrival_time_queue := 1000000\<rparr>]")
    (auto simp: runnable_def split: option.splits)

text \<open>C28. With positive tickets that sum below \<open>2^31 - 1\<close>, the lottery draws a ticket between 0
  and the total, both included: the random number modulo the total plus one (the comment in the code says the total is
  excluded).  Its slot is the first runnable one whose running count of tickets reaches the ticket, and the process run is,
  among the runnable ones from that slot on with exactly as many tickets, one that arrived first (the README says: the first
  to arrive among those with at least as many tickets as the number drawn).  Without runnable processes it picks none and
  draws nothing.\<close>

theorem lbs_pick_spec:
  assumes "\<forall>p\<in>set ps. runnable p \<longrightarrow> 0 < tickets p" and "ticket_sum ps < 2 ^ 31 - 1"
  shows "(ticket_sum ps = 0 \<and> (\<forall>p\<in>set ps. \<not> runnable p) \<and> lbs_pick r ps = Ok (None, r)) \<or>
    (\<exists>f j. let w = uint (get_random r) mod (ticket_sum ps + 1) in
      0 < ticket_sum ps \<and> drawn ps w 0 f \<and> lottery_winner ps f j \<and> lbs_pick r ps = Ok (Some j, get_random r))"
proof (cases "ticket_sum ps = 0")
  case True
  then show ?thesis using assms ticket_sum_zero[of ps] by (simp add: tickets_ok_def lbs_pick_def total_tickets_sum)
next
  case False
  then have "0 < ticket_sum ps" using ticket_sum_nonneg[of ps] assms(1) by (simp add: tickets_ok_def)
  then show ?thesis
    using lbs_pick_cases[of ps r] assms winning_ticket_value[of "ticket_sum ps" "get_random r"]
    by (auto simp: lbs_ok_def tickets_ok_def Let_def)
qed

text \<open>Of ten numbers the draw is 3: the count reaches it in slot 1, and slot 2 has as many tickets and arrived earlier.\<close>

theorem lbs_pick_spec_witness:
  "lbs_pick 31 [blank_proc\<lparr>pstate := RUNNABLE, tickets := 1, arrival_time := 1\<rparr>,
     blank_proc\<lparr>pstate := RUNNABLE, tickets := 4, arrival_time := 9\<rparr>,
     blank_proc\<lparr>pstate := RUNNABLE, tickets := 4, arrival_time := 6\<rparr>] = Ok (Some 2, 1557788273)"
proof -
  define ps where "ps = [blank_proc\<lparr>pstate := RUNNABLE, tickets := 1, arrival_time := 1\<rparr>,
     blank_proc\<lparr>pstate := RUNNABLE, tickets := 4, arrival_time := 9\<rparr>,
     blank_proc\<lparr>pstate := RUNNABLE, tickets := 4, arrival_time := 6\<rparr>]"
  have n: "(10 :: nat) = Suc (Suc (Suc (Suc (Suc (Suc (Suc (Suc (Suc (Suc 0)))))))))" by simp
  have g: "get_random 31 = 1557788273" unfolding get_random_def n funpow.simps by (simp add: lcg_def)
  have t: "ticket_sum ps = 9" by (simp add: ps_def ticket_sum_def runnable_def)
  have pos: "\<forall>p\<in>set ps. runnable p \<longrightarrow> 0 < tickets p" by (simp add: ps_def)
  obtain f j where w: "drawn ps 3 0 f" "lottery_winner ps f j" "lbs_pick 31 ps = Ok (Some j, 1557788273)"
    using lbs_pick_spec[OF pos, of 31] by (auto simp: t g Let_def)
  have "f = 1"
    using w(1) by (auto simp: drawn_def ps_def ticket_sum_def runnable_def less_Suc_eq numeral_3_eq_3 take_Cons')
  then have "j = 2" using w(2) by (auto simp: lottery_winner_def ps_def runnable_def less_Suc_eq numeral_3_eq_3)
  then show ?thesis using w(3) by (simp add: ps_def)
qed

text \<open>C36. \<open>yield\<close> keeps the lock protocol and the interrupt state across the switch: entered with
  no spin lock held, the checks of \<open>sched\<close> pass; resumed by any CPU whose scheduler holds the
  lock, it releases it and restores the interrupt state the kernel thread had.\<close>

theorem yield_restores_interrupts:
  assumes "noff c = 0" and "\<not> locked lk"
    and "holding me' lk'" and "noff c' = 1" and "\<not> intr c'"
  shows "\<exists>lk1 saved c1. yield_enter me lk c = Ok (lk1, RUNNABLE, saved, c1) \<and> holding me lk1 \<and>
    noff c1 = 1 \<and> \<not> intr c1 \<and>
    (\<exists>lk2 c2. yield_leave me' lk' saved c' = Ok (lk2, c2) \<and> \<not> locked lk2 \<and> noff c2 = 0 \<and> intr c2 = intr c)"
  using assms
  by (auto simp: yield_enter_def acquire_def holding_def push_off_def Let_def sched_enter_def
      yield_leave_def sched_leave_def release_def pop_off_def)

theorem yield_restores_interrupts_witness:
  "\<exists>lk1 saved c1. yield_enter 0 initlock \<lparr>cproc = Some 3, noff = 0, intena = False, intr = True\<rparr> = Ok (lk1, RUNNABLE, saved, c1)"
  using yield_restores_interrupts[of "\<lparr>cproc = Some 3, noff = 0, intena = False, intr = True\<rparr>" initlock 1
      "\<lparr>locked = True, lcpu = Some 1\<rparr>" "\<lparr>cproc = Some 3, noff = 1, intena = True, intr = False\<rparr>" 0]
  by (auto simp: initlock_def holding_def)

text \<open>The generator is the full 32-bit linear congruential sequence: no step overflows the
  64-bit state, and every value is below \<open>2^32\<close>.\<close>

theorem get_random_lcg:
  assumes "unat r < 2 ^ 32"
  shows "unat (get_random r) = (lcg_nat ^^ 10) (unat r) \<and> unat (get_random r) < 2 ^ 32"
proof -
  have "get_random r = lcg ((lcg ^^ 9) r)" by (simp add: get_random_def funpow_Suc_right numeral_eq_Suc)
  then have "unat (get_random r) < 2 ^ 32" using lcg_range by metis
  then show ?thesis using unat_lcg_funpow[OF assms, of 10] by (simp add: get_random_def)
qed

theorem get_random_lcg_witness: "unat (get_random 31) < 2 ^ 32"
  using get_random_lcg[of 31] by simp

end
