(* ===== verification/Syscall.thy ===== *)
theory Syscall
  imports Sched
begin

text \<open>
  \<open>kernel/syscall.c\<close> (fetching arguments, the dispatcher) and \<open>kernel/sysproc.c\<close> (the process
  system calls, with \<open>getSysCount\<close>, \<open>sigalarm\<close>, \<open>sigreturn\<close> and \<open>settickets\<close>).  A system call ends
  in one of four ways: it returns a value, the process goes to sleep inside it, the process is
  gone (\<open>exit\<close>), or it goes straight to user space (\<open>sigreturn\<close> calls \<open>usertrapret\<close>).
\<close>

datatype 'a sysout = SRet u64 'a | SBlock 'a | SGone 'a | SUser 'a

section \<open>Arguments\<close>

definition argraw :: "nat \<Rightarrow> nat \<Rightarrow> 'a kstate_scheme \<Rightarrow> u64 res" where
  "argraw me n s =
     (if n = 0 then Ok (tf_get me tf_a0 s) else if n = 1 then Ok (tf_get me tf_a1 s)
      else if n = 2 then Ok (tf_get me tf_a2 s) else if n = 3 then Ok (tf_get me tf_a3 s)
      else if n = 4 then Ok (tf_get me tf_a4 s) else if n = 5 then Ok (tf_get me tf_a5 s)
      else Panic ''argraw'')"

text \<open>The low 32 bits of a register as a C \<open>int\<close>, and an \<open>int\<close> as a 64-bit register.\<close>

definition reg_int :: "u64 \<Rightarrow> int" where
  "reg_int v = sint (ucast v :: u32)"

definition int_reg :: "int \<Rightarrow> u64" where
  "int_reg x = word_of_int x"

definition argint :: "nat \<Rightarrow> nat \<Rightarrow> 'a kstate_scheme \<Rightarrow> int res" where
  "argint me n s = rbind (argraw me n s) (\<lambda>v. Ok (reg_int v))"

definition argaddr :: "nat \<Rightarrow> nat \<Rightarrow> 'a kstate_scheme \<Rightarrow> u64 res" where
  "argaddr me n s = argraw me n s"

text \<open>The eight bytes of a word as \<open>copyin\<close> delivers them.\<close>

definition word_of_bytes :: "u8 list \<Rightarrow> u64" where
  "word_of_bytes bs = le64 (le32 (bs ! 0) (bs ! 1) (bs ! 2) (bs ! 3)) (le32 (bs ! 4) (bs ! 5) (bs ! 6) (bs ! 7))"

definition fetchaddr :: "nat \<Rightarrow> u64 \<Rightarrow> 'a kstate_scheme \<Rightarrow> int \<times> u64 option" where
  "fetchaddr me addr s =
     (let p = proc_at s me in
      if addr \<ge> sz p \<or> addr + 8 > sz p then (-1, None)
      else let (r, bs) = copyin (pagetable p) addr 8 s
           in if r \<noteq> 0 then (-1, None) else (0, Some (word_of_bytes bs)))"

text \<open>The length of the string and its bytes without the NUL.\<close>

definition fetchstr :: "nat \<Rightarrow> u64 \<Rightarrow> nat \<Rightarrow> 'a kstate_scheme \<Rightarrow> int \<times> u8 list" where
  "fetchstr me addr mx s =
     (let (r, bs) = copyinstr (pagetable (proc_at s me)) addr mx s
      in if r < 0 then (-1, bs) else let str = takeWhile (\<lambda>b. b \<noteq> 0) bs in (int (length str), str))"

definition argstr :: "nat \<Rightarrow> nat \<Rightarrow> nat \<Rightarrow> 'a kstate_scheme \<Rightarrow> (int \<times> u8 list) res" where
  "argstr me n mx s = rbind (argaddr me n s) (\<lambda>a. Ok (fetchstr me a mx s))"

section \<open>The dispatcher\<close>

type_synonym 'a handler = "nat \<Rightarrow> 'a \<Rightarrow> 'a sysout res"

text \<open>\<open>NELEM(syscalls)\<close> is 27; every number from 1 to 26 has a handler.\<close>

abbreviation NSYSCALLS :: int where "NSYSCALLS \<equiv> 27"

definition count_call :: "nat \<Rightarrow> nat \<Rightarrow> 'a kstate_scheme \<Rightarrow> 'a kstate_scheme" where
  "count_call me n s = upd_proc me (\<lambda>p. p\<lparr>syscall_cnt := (syscall_cnt p)[n := i32 (syscall_cnt p ! n + 1)]\<rparr>) s"

definition syscall :: "(nat \<Rightarrow> 'a kstate_scheme handler) \<Rightarrow> nat \<Rightarrow> 'a kstate_scheme \<Rightarrow> 'a kstate_scheme sysout res" where
  "syscall calls me s =
     (let num = reg_int (tf_get me tf_a7 s) in
      if num > 0 \<and> num < NSYSCALLS
      then rbind (calls (nat num) me s) (\<lambda>r. case r of
             SRet v s1 \<Rightarrow> Ok (SRet v (count_call me (nat num) (tf_set me tf_a0 v s1)))
           | _ \<Rightarrow> Ok r)
      else Ok (SRet (-1) (tf_set me tf_a0 (-1) s)))"

text \<open>The end of \<open>syscall\<close> when a handler that slept returns \<open>v\<close>.\<close>

definition syscall_finish :: "nat \<Rightarrow> nat \<Rightarrow> u64 \<Rightarrow> 'a kstate_scheme \<Rightarrow> 'a kstate_scheme" where
  "syscall_finish me num v s = count_call me num (tf_set me tf_a0 v s)"

section \<open>Process system calls\<close>

text \<open>The caller's counters are added to its parent's before \<open>exit\<close>.\<close>

definition add_counts :: "nat \<Rightarrow> 'a kstate_scheme \<Rightarrow> 'a kstate_scheme" where
  "add_counts me s =
     (case parent (proc_at s me) of None \<Rightarrow> s
      | Some q \<Rightarrow> upd_proc q (\<lambda>p. p\<lparr>syscall_cnt :=
            map (\<lambda>i. i32 (syscall_cnt p ! i + syscall_cnt (proc_at s me) ! i)) [0..<32]\<rparr>) s)"

definition sys_exit :: "(nat \<Rightarrow> int \<Rightarrow> 'a kstate_scheme \<Rightarrow> 'a kstate_scheme res) \<Rightarrow> 'a kstate_scheme handler" where
  "sys_exit exit me s = rbind (argint me 0 s) (\<lambda>n. rbind (exit me n (add_counts me s)) (\<lambda>s1. Ok (SGone s1)))"

definition sys_getpid :: "'a kstate_scheme handler" where
  "sys_getpid me s = Ok (SRet (int_reg (pid (proc_at s me))) s)"

definition sys_fork :: "(nat \<Rightarrow> 'a kstate_scheme \<Rightarrow> (int \<times> 'a kstate_scheme) res) \<Rightarrow> 'a kstate_scheme handler" where
  "sys_fork forkf me s = rbind (forkf me s) (\<lambda>(n, s1). Ok (SRet (int_reg n) s1))"

definition sys_wait :: "'a kstate_scheme handler" where
  "sys_wait me s = rbind (argaddr me 0 s) (\<lambda>p. rbind (wait_proc me p s) (\<lambda>(r, s1).
     case r of None \<Rightarrow> Ok (SBlock s1) | Some n \<Rightarrow> Ok (SRet (int_reg n) s1)))"

definition sys_sbrk :: "'a kstate_scheme handler" where
  "sys_sbrk me s = rbind (argint me 0 s) (\<lambda>n.
     let addr = sz (proc_at s me) in
     rbind (growproc me n s) (\<lambda>(r, s1). if r < 0 then Ok (SRet (-1) s1) else Ok (SRet addr s1)))"

text \<open>One test of the loop of \<open>sys_sleep\<close>, \<open>ticks0\<close> being the tick it started at: the comparison
  \<open>ticks - ticks0 < n\<close> is unsigned.\<close>

definition sleep_check :: "nat \<Rightarrow> u32 \<Rightarrow> int \<Rightarrow> 'a kstate_scheme \<Rightarrow> 'a kstate_scheme sysout" where
  "sleep_check me ticks0 n s =
     (if kticks s - ticks0 < word_of_int n
      then if killed me s \<noteq> 0 then SRet (-1) s else SBlock (sleep_enter me ChanTicks s)
      else SRet 0 s)"

definition sys_sleep :: "'a kstate_scheme handler" where
  "sys_sleep me s = rbind (argint me 0 s) (\<lambda>n. Ok (sleep_check me (kticks s) n s))"

definition sys_kill :: "'a kstate_scheme handler" where
  "sys_kill me s = rbind (argint me 0 s) (\<lambda>n. let (r, s1) = kill n s in Ok (SRet (int_reg r) s1))"

definition sys_uptime :: "'a kstate_scheme handler" where
  "sys_uptime me s = Ok (SRet (ucast (kticks s)) s)"

definition word_bytes :: "u32 \<Rightarrow> u8 list" where
  "word_bytes w = [byte_of 0 w, byte_of 1 w, byte_of 2 w, byte_of 3 w]"

text \<open>\<open>junk\<close> is what \<open>wtime\<close> and \<open>rtime\<close> hold when \<open>waitx\<close> does not write them: they are
  uninitialised locals, copied out even when \<open>waitx\<close> fails.\<close>

definition waitx_finish :: "nat \<Rightarrow> int \<Rightarrow> u32 \<times> u32 \<Rightarrow> u64 \<Rightarrow> u64 \<Rightarrow> 'a kstate_scheme \<Rightarrow> 'a kstate_scheme sysout" where
  "waitx_finish me ret tms addr1 addr2 s =
     (let pt = pagetable (proc_at s me); (r, s1) = copyout pt addr1 (word_bytes (fst tms)) s
      in if r < 0 then SRet (-1) s1
         else let (r, s2) = copyout pt addr2 (word_bytes (snd tms)) s1
              in if r < 0 then SRet (-1) s2 else SRet (int_reg ret) s2)"

definition sys_waitx :: "u32 \<times> u32 \<Rightarrow> 'a kstate_scheme handler" where
  "sys_waitx junk me s =
     rbind (argaddr me 0 s) (\<lambda>a0. rbind (argaddr me 1 s) (\<lambda>a1. rbind (argaddr me 2 s) (\<lambda>a2.
     rbind (waitx me a0 s) (\<lambda>(r, times, s1). case r of
       None \<Rightarrow> Ok (SBlock s1)
     | Some n \<Rightarrow> Ok (waitx_finish me n (case times of None \<Rightarrow> junk | Some t \<Rightarrow> t) a1 a2 s1)))))"

text \<open>The shift loop of \<open>sys_getSysCount\<close>; \<open>mask - 1\<close> wraps at the least \<open>int\<close>.\<close>

function log2_loop :: "int \<Rightarrow> nat \<Rightarrow> nat" where
  "log2_loop msk k = (if msk > 1 then log2_loop (msk div 2) (Suc k) else k)"
  by pat_completeness auto
termination
  by (relation "measure (\<lambda>(m, k). nat m)") auto

declare log2_loop.simps [simp del]

definition getSysCount :: "int \<Rightarrow> int list \<Rightarrow> int" where
  "getSysCount msk cnt =
     (if msk = 0 \<or> msk AND i32 (msk - 1) \<noteq> 0 then -1
      else let i = log2_loop msk 0 in if i \<ge> 32 then -1 else cnt ! i)"

definition sys_getSysCount :: "'a kstate_scheme handler" where
  "sys_getSysCount me s = rbind (argint me 0 s) (\<lambda>mask.
     Ok (SRet (int_reg (getSysCount mask (syscall_cnt (proc_at s me)))) s))"

definition sys_sigalarm :: "'a kstate_scheme handler" where
  "sys_sigalarm me s = rbind (argint me 0 s) (\<lambda>n. rbind (argaddr me 1 s) (\<lambda>h.
     Ok (SRet 0 (upd_proc me (\<lambda>p. p\<lparr>handler := h, total_ticks := n, alarm_state := 0, pticks := 0\<rparr>) s))))"

definition sys_sigreturn :: "'a kstate_scheme handler" where
  "sys_sigreturn me s =
     (let p = proc_at s me; s1 = s\<lparr>mem := memmove (mem s) (trapframe p) (backup p) 288\<rparr>
      in Ok (SUser (upd_proc me (\<lambda>p. p\<lparr>pticks := 0, alarm_state := 0\<rparr>) s1)))"

definition sys_settickets :: "'a kstate_scheme handler" where
  "sys_settickets me s = rbind (argint me 0 s) (\<lambda>n. Ok (SRet 0 (upd_proc me (\<lambda>p. p\<lparr>tickets := n\<rparr>) s)))"

end
