(* ===== verification/Ring.thy ===== *)
theory Ring
  imports Prelude
begin

text \<open>
  The circular buffers of the kernel share one shape: an array of \<open>N\<close> bytes and two free-running
  unsigned counters, the element of counter value \<open>k\<close> being at \<open>k % N\<close>.  The locale states what
  makes this work when the counters wrap (\<open>N\<close> divides the range of the counters) and derives the
  list view once; \<open>Console\<close> (transmit buffer and input buffer) and \<open>Pipe\<close> interpret it at their sizes.
\<close>

definition ring_at :: "nat \<Rightarrow> u8 list \<Rightarrow> 'a::len word \<Rightarrow> u8" where
  "ring_at N xs k = xs ! (unat k mod N)"

definition ring_put :: "nat \<Rightarrow> u8 list \<Rightarrow> 'a::len word \<Rightarrow> u8 \<Rightarrow> u8 list" where
  "ring_put N xs k b = xs[unat k mod N := b]"

text \<open>The elements from counter \<open>r\<close> up to \<open>w\<close>.\<close>

definition ring_list :: "nat \<Rightarrow> u8 list \<Rightarrow> 'a::len word \<Rightarrow> 'a word \<Rightarrow> u8 list" where
  "ring_list N xs r w = map (\<lambda>i. ring_at N xs (r + word_of_nat i)) [0..<unat (w - r)]"

lemma unat_Suc_small:
  assumes "unat (x :: 'a::len word) < n" "n < 2 ^ LENGTH('a)"
  shows "unat (x + 1) = Suc (unat x)"
proof -
  have "unat (x + 1) = (unat x + unat (1 :: 'a word)) mod 2 ^ LENGTH('a)"
    by (simp only: unat_word_ariths)
  then show ?thesis using assms by (simp add: mod_less)
qed

locale ring_buffer =
  fixes N :: nat and wit :: "'a::len word"
  assumes pos: "0 < N" and divides: "N dvd 2 ^ LENGTH('a)" and proper: "N < 2 ^ LENGTH('a)"
begin

text \<open>Counter arithmetic modulo \<open>N\<close> survives the wrap-around of the counters.\<close>

lemma unat_mod_add: "unat (r + word_of_nat i :: 'a word) mod N = (unat r + i) mod N"
proof -
  have "unat (r + word_of_nat i :: 'a word) = (unat r + i) mod 2 ^ LENGTH('a)"
    by (simp add: unat_word_ariths unat_of_nat mod_add_right_eq)
  then show ?thesis using divides by (simp add: mod_mod_cancel)
qed

lemma slots_distinct:
  assumes "i < N" "j < N" "(unat (r :: 'a word) + i) mod N = (unat r + j) mod N"
  shows "i = j"
  using assms
proof (induction i j rule: linorder_wlog)
  case (le i j)
  then have "N dvd (unat r + j) - (unat r + i)" by (metis mod_eq_dvd_iff_nat add_le_cancel_left)
  then have "N dvd j - i" by simp
  then show ?case using le by (metis dvd_imp_le le_antisym less_imp_diff_less not_less zero_less_diff)
qed auto

lemma ring_list_put:
  assumes "length xs = N" "unat (w - r :: 'a word) < N"
  shows "ring_list N (ring_put N xs w b) r (w + 1) = ring_list N xs r w @ [b]"
proof -
  let ?n = "unat (w - r)"
  have "w + 1 - r = w - r + 1" by simp
  then have n: "unat (w + 1 - r) = Suc ?n"
    by (simp only: unat_Suc_small[OF assms(2) proper])
  have w: "r + word_of_nat ?n = w" by simp
  have old: "ring_at N (ring_put N xs w b) (r + word_of_nat i) = ring_at N xs (r + word_of_nat i)" if i: "i < ?n" for i
  proof -
    have "(unat r + i) mod N \<noteq> (unat r + ?n) mod N"
      using slots_distinct[of i ?n r] i assms(2) by auto
    then have "unat (r + word_of_nat i) mod N \<noteq> unat w mod N"
      using unat_mod_add[of r i] unat_mod_add[of r ?n] w by metis
    then show ?thesis by (simp add: ring_at_def ring_put_def)
  qed
  have "ring_at N (ring_put N xs w b) w = b" using assms(1) pos by (simp add: ring_at_def ring_put_def)
  then show ?thesis unfolding ring_list_def n using old w by simp
qed

lemma ring_list_take:
  assumes "(w :: 'a word) \<noteq> r"
  shows "ring_list N xs r w = ring_at N xs r # ring_list N xs (r + 1) w"
proof -
  have "w - r \<noteq> 0" using assms by simp
  then have n: "unat (w - r) = Suc (unat (w - (r + 1)))"
    using unat_minus_one[of "w - r"] by (simp add: diff_diff_eq[symmetric] unat_gt_0)
  show ?thesis unfolding ring_list_def n
    by (simp add: upt_conv_Cons map_Suc_upt[symmetric] ac_simps del: upt_Suc)
qed

lemma ring_list_empty [simp]: "ring_list N xs r r = []"
  by (simp add: ring_list_def)

lemma ring_list_length [simp]: "length (ring_list N xs r w) = unat (w - r)"
  by (simp add: ring_list_def)

lemma ring_put_length [simp]: "length (ring_put N xs k b) = length xs"
  by (simp add: ring_put_def)

text \<open>The test for a full buffer, \<open>w == r + N\<close>.\<close>

lemma ring_full_iff: "unat (w - r :: 'a word) \<le> N \<Longrightarrow> w = r + word_of_nat N \<longleftrightarrow> unat (w - r) = N"
proof -
  have u: "unat (word_of_nat N :: 'a word) = N" using proper by (simp add: unat_of_nat)
  have "w = r + word_of_nat N \<longleftrightarrow> w - r = word_of_nat N" by (metis add_diff_cancel_left' add.commute diff_add_cancel)
  also have "\<dots> \<longleftrightarrow> unat (w - r) = unat (word_of_nat N :: 'a word)" by (rule word_unat_eq_iff)
  finally show ?thesis by (simp only: u)
qed

lemma ring_put_count: "unat (w - r :: 'a word) < N \<Longrightarrow> unat (w + 1 - r) = Suc (unat (w - r))"
proof -
  assume a: "unat (w - r) < N"
  have "w + 1 - r = w - r + 1" by simp
  then show ?thesis by (simp only: unat_Suc_small[OF a proper])
qed

lemma ring_take_count: "(w :: 'a word) \<noteq> r \<Longrightarrow> unat (w - r) = Suc (unat (w - (r + 1)))"
  using ring_list_take[of w r "replicate N 0"] by (metis ring_list_length length_Cons)

lemma ring_list_last:
  assumes "(w :: 'a word) \<noteq> r"
  shows "ring_list N xs r w = ring_list N xs r (w - 1) @ [ring_at N xs (w - 1)]"
proof -
  have nz: "w - r \<noteq> 0" using assms by simp
  have "w - r - 1 = w - 1 - r" by simp
  then have "unat (w - 1 - r) = unat (w - r) - 1" using unat_minus_one[OF nz] by metis
  moreover have "0 < unat (w - r)" using nz by (simp add: unat_gt_0)
  ultimately have n: "unat (w - r) = Suc (unat (w - 1 - r))" by linarith
  have "r + word_of_nat (unat (w - 1 - r)) = w - 1" by simp
  then show ?thesis unfolding ring_list_def n by simp
qed

lemma ring_between: "unat (w - r :: 'a word) \<le> unat (e - r) \<Longrightarrow> unat (e - w) = unat (e - r) - unat (w - r)"
proof -
  assume "unat (w - r) \<le> unat (e - r)"
  moreover have "e - r - (w - r) = e - w" by simp
  ultimately show ?thesis using unat_sub[of "w - r" "e - r"] by (simp add: word_le_nat_alt)
qed

lemma ring_list_append:
  assumes "unat (w - r :: 'a word) \<le> unat (e - r)"
  shows "ring_list N xs r e = ring_list N xs r w @ ring_list N xs w e"
proof -
  have n: "unat (e - r) = unat (w - r) + unat (e - w)" using ring_between[OF assms] assms by simp
  let ?m = "unat (w - r)"
  have upt: "[0..<?m + k] = [0..<?m] @ map ((+) ?m) [0..<k]" for k by (induction k) auto
  have shift: "r + word_of_nat (?m + i) = w + word_of_nat i" for i by simp
  have "ring_list N xs r e = map (\<lambda>i. ring_at N xs (r + word_of_nat i)) ([0..<?m] @ map ((+) ?m) [0..<unat (e - w)])"
    unfolding ring_list_def n upt by (rule refl)
  also have "\<dots> = ring_list N xs r w @ map (\<lambda>i. ring_at N xs (r + word_of_nat (?m + i))) [0..<unat (e - w)]"
    by (simp add: ring_list_def)
  finally show ?thesis by (simp only: shift) (simp only: ring_list_def)
qed

lemma ring_put_keep:
  assumes "length xs = N" "unat (w - r :: 'a word) \<le> unat (e - r)" "unat (e - r) < N"
  shows "ring_list N (ring_put N xs e b) r w = ring_list N xs r w"
proof -
  have e: "unat (e + 1 - r) = Suc (unat (e - r))" by (rule ring_put_count[OF assms(3)])
  have ew: "unat (e + 1 - w) = Suc (unat (e - w))"
    using ring_between[of w r "e + 1"] ring_between[of w r e] assms(2) e by simp
  have "ring_list N (ring_put N xs e b) r (e + 1) = ring_list N (ring_put N xs e b) r w @ ring_list N (ring_put N xs e b) w (e + 1)"
    using assms(2) e by (intro ring_list_append) simp
  moreover have "ring_list N (ring_put N xs e b) r (e + 1) = ring_list N xs r w @ ring_list N xs w e @ [b]"
    using ring_list_put[OF assms(1) assms(3)] ring_list_append[OF assms(2), of xs] by simp
  ultimately show ?thesis using ew by (simp add: append_eq_append_conv)
qed

end

end
