(* ===== verification/Console.thy ===== *)
theory Console
  imports Syscall Ring
begin

text \<open>
  \<open>kernel/uart.c\<close>, \<open>kernel/console.c\<close> and \<open>kernel/printf.c\<close>: the serial line, the line editor of
  the console and formatted output.  What reaches the wire is the trace \<open>uart_out\<close>.  How often the
  status register reads idle in a run of \<open>uartstart\<close> is an argument, and so are the characters
  the receiver holds.
\<close>

section \<open>State\<close>

record iostate = kstate +
  uart_buf :: "u8 list"
  uart_w :: u64
  uart_r :: u64
  uart_out :: "u8 list"
  panicked :: bool
  cons_buf :: "u8 list"
  cons_r :: u32
  cons_w :: u32
  cons_e :: u32

abbreviation UART_TX_BUF_SIZE :: nat where "UART_TX_BUF_SIZE \<equiv> 32"
abbreviation INPUT_BUF_SIZE :: nat where "INPUT_BUF_SIZE \<equiv> 128"

text \<open>An operation that ends, or that sleeps; what it needs to go on is in the first component.\<close>

datatype ('b, 'a) io = Done int 'a | Sleep 'b 'a

section \<open>uart.c\<close>

text \<open>The register writes of \<open>uartinit\<close>, in order.\<close>

definition uartinit :: "(nat \<times> u8) list" where
  "uartinit = [(1, 0x00), (3, 0x80), (0, 0x03), (1, 0x00), (3, 0x03), (2, 0x01 OR 0x06), (1, 0x02 OR 0x01)]"

text \<open>\<open>uartstart\<close> when the transmitter reads idle \<open>k\<close> times and busy after that.\<close>

fun uartstart :: "nat option \<Rightarrow> nat \<Rightarrow> 'a iostate_scheme \<Rightarrow> 'a iostate_scheme" where
  "uartstart me 0 s = s"
| "uartstart me (Suc k) s =
     (if uart_w s = uart_r s then s
      else let c = ring_at UART_TX_BUF_SIZE (uart_buf s) (uart_r s);
               s1 = wakeup me ChanUart (s\<lparr>uart_r := uart_r s + 1\<rparr>)
           in uartstart me k (s1\<lparr>uart_out := uart_out s1 @ [c]\<rparr>))"

definition uartputc :: "nat \<Rightarrow> nat \<Rightarrow> u8 \<Rightarrow> 'a iostate_scheme \<Rightarrow> (unit, 'a iostate_scheme) io res" where
  "uartputc me k c s =
     (if panicked s then Stuck
      else if uart_w s = uart_r s + word_of_nat UART_TX_BUF_SIZE then Ok (Sleep () (sleep_enter me ChanUart s))
      else Ok (Done 0 (uartstart (Some me) k
             (s\<lparr>uart_buf := ring_put UART_TX_BUF_SIZE (uart_buf s) (uart_w s) c, uart_w := uart_w s + 1\<rparr>))))"

definition uartputc_sync :: "u8 \<Rightarrow> 'a iostate_scheme \<Rightarrow> 'a iostate_scheme res" where
  "uartputc_sync c s = (if panicked s then Stuck else Ok (s\<lparr>uart_out := uart_out s @ [c]\<rparr>))"

text \<open>The receiver: the next character, or -1.\<close>

fun uartgetc :: "u8 list \<Rightarrow> int \<times> u8 list" where
  "uartgetc [] = (-1, [])"
| "uartgetc (c # cs) = (uint c, cs)"

section \<open>console.c: output\<close>

definition BACKSPACE :: int where "BACKSPACE = 0x100"

definition consputc :: "int \<Rightarrow> 'a iostate_scheme \<Rightarrow> 'a iostate_scheme res" where
  "consputc c s =
     (if c = BACKSPACE
      then rbind (uartputc_sync 8 s) (\<lambda>s1. rbind (uartputc_sync 32 s1) (\<lambda>s2. uartputc_sync 8 s2))
      else uartputc_sync (word_of_int c) s)"

fun consputs :: "u8 list \<Rightarrow> 'a iostate_scheme \<Rightarrow> 'a iostate_scheme res" where
  "consputs [] s = Ok s"
| "consputs (b # bs) s = rbind (consputc (uint b) s) (\<lambda>s1. consputs bs s1)"

text \<open>
  \<open>consolewrite\<close> from byte \<open>i\<close> on with \<open>n\<close> bytes left; \<open>idle i\<close> is the idle count of the call of
  \<open>uartputc\<close> for byte \<open>i\<close>.  Asleep, it goes on at the byte it could not store.
\<close>

fun consolewrite ::
  "nat \<Rightarrow> (nat \<Rightarrow> nat) \<Rightarrow> bool \<Rightarrow> u64 \<Rightarrow> nat \<Rightarrow> nat \<Rightarrow> 'a iostate_scheme \<Rightarrow> (nat, 'a iostate_scheme) io res" where
  "consolewrite me idle user src i 0 s = Ok (Done (int i) s)"
| "consolewrite me idle user src i (Suc n) s =
     (let (r, bs) = either_copyin me user (src + word_of_nat i) 1 s in
      if r = -1 then Ok (Done (int i) s)
      else rbind (uartputc me (idle i) (bs ! 0) s) (\<lambda>out. case out of
             Sleep _ s1 \<Rightarrow> Ok (Sleep i s1)
           | Done _ s1 \<Rightarrow> consolewrite me idle user src (Suc i) n s1))"

section \<open>console.c: input\<close>

text \<open>
  \<open>consoleread\<close> with \<open>n\<close> bytes left of \<open>target\<close>; asleep, it goes on with the destination and
  count reached.
\<close>

fun consoleread ::
  "nat \<Rightarrow> bool \<Rightarrow> nat \<Rightarrow> u64 \<Rightarrow> nat \<Rightarrow> 'a iostate_scheme \<Rightarrow> (u64 \<times> nat, 'a iostate_scheme) io" where
  "consoleread me user target dst 0 s = Done (int target) s"
| "consoleread me user target dst (Suc n) s =
     (if cons_r s = cons_w s
      then if killed me s \<noteq> 0 then Done (-1) s else Sleep (dst, Suc n) (sleep_enter me ChanCons s)
      else let c = ring_at INPUT_BUF_SIZE (cons_buf s) (cons_r s); s1 = s\<lparr>cons_r := cons_r s + 1\<rparr>
           in if c = 4
              then Done (int (target - Suc n)) (if Suc n < target then s1\<lparr>cons_r := cons_r s1 - 1\<rparr> else s1)
              else let (r, s2) = either_copyout me user dst [c] s1
                   in if r = -1 then Done (int (target - Suc n)) s2
                      else if c = 10 then Done (int (target - n)) s2
                      else consoleread me user target (dst + 1) n s2)"

section \<open>printf.c\<close>

definition digit :: "nat \<Rightarrow> u8" where
  "digit d = (if d < 10 then 48 + word_of_nat d else 87 + word_of_nat d)"

text \<open>The digits, last one first.  The callers' base is 10 or 16; a base below 2 would not end.\<close>

function digits_of :: "nat \<Rightarrow> nat \<Rightarrow> u8 list" where
  "digits_of base x = digit (x mod base) # (if x div base = 0 \<or> base < 2 then [] else digits_of base (x div base))"
  by pat_completeness auto
termination
proof (relation "measure snd")
  fix base x :: nat assume "\<not> (x div base = 0 \<or> base < 2)"
  then have "x div base < x" by (cases "x = 0") (auto intro!: div_less_dividend)
  then show "((base, x div base), base, x) \<in> measure snd" by simp
qed simp

declare digits_of.simps [simp del]

text \<open>What \<open>printint\<close> has in \<open>buf\<close> when it starts to print: the \<open>uint\<close> of the (negated) argument.\<close>

definition printint_buf :: "int \<Rightarrow> nat \<Rightarrow> bool \<Rightarrow> u8 list" where
  "printint_buf xx base sign =
     (let neg = sign \<and> xx < 0; x = word_of_int (if neg then - xx else xx) :: u32
      in digits_of base (unat x) @ (if neg then [45] else []))"

definition printint :: "int \<Rightarrow> nat \<Rightarrow> bool \<Rightarrow> u8 list" where
  "printint xx base sign = rev (printint_buf xx base sign)"

definition printptr :: "u64 \<Rightarrow> u8 list" where
  "printptr x = [48, 120] @ map (\<lambda>i. digit (unat (drop_bit 60 (push_bit (4 * i) x)))) [0..<16]"

text \<open>
  The arguments after the format; one that is missing or of another kind than the format asks
  for is undefined.
\<close>

datatype fmtarg = ArgInt int | ArgPtr u64 | ArgStr "u8 list option"

fun emit :: "u8 list \<Rightarrow> u8 list res \<Rightarrow> u8 list res" where
  "emit bs r = rbind r (\<lambda>cs. Ok (bs @ cs))"

definition null_text :: "u8 list" where
  "null_text = [40, 110, 117, 108, 108, 41]"

text \<open>The bytes \<open>printf\<close> prints for the characters of a format (its terminator not included).\<close>

fun format :: "u8 list \<Rightarrow> fmtarg list \<Rightarrow> u8 list res" where
  "format [] args = Ok []"
| "format [c] args = (if c \<noteq> 37 then Ok [c] else Ok [])"
| "format (c # d # fmt) args =
     (if c \<noteq> 37 then emit [c] (format (d # fmt) args)
      else if d = 100 then (case args of ArgInt n # as \<Rightarrow> emit (printint n 10 True) (format fmt as) | _ \<Rightarrow> Stuck)
      else if d = 120 then (case args of ArgInt n # as \<Rightarrow> emit (printint n 16 True) (format fmt as) | _ \<Rightarrow> Stuck)
      else if d = 112 then (case args of ArgPtr x # as \<Rightarrow> emit (printptr x) (format fmt as) | _ \<Rightarrow> Stuck)
      else if d = 115 then (case args of
           ArgStr None # as \<Rightarrow> emit null_text (format fmt as)
         | ArgStr (Some t) # as \<Rightarrow> emit (takeWhile (\<lambda>b. b \<noteq> 0) t) (format fmt as)
         | _ \<Rightarrow> Stuck)
      else if d = 37 then emit [37] (format fmt args)
      else emit [37, d] (format fmt args))"

definition printf :: "u8 list \<Rightarrow> fmtarg list \<Rightarrow> 'a iostate_scheme \<Rightarrow> 'a iostate_scheme res" where
  "printf fmt args s = rbind (format fmt args) (\<lambda>bs. consputs bs s)"

text \<open>\<open>panic\<close> up to its endless loop; the message is used as a format.\<close>

definition bytes_of :: "string \<Rightarrow> u8 list" where
  "bytes_of t = map of_char t"

definition panic :: "string \<Rightarrow> 'a iostate_scheme \<Rightarrow> 'a iostate_scheme res" where
  "panic msg s =
     rbind (printf (bytes_of ''panic: '') [] s) (\<lambda>s1.
     rbind (printf (bytes_of msg) [] s1) (\<lambda>s2.
     rbind (printf [10] [] s2) (\<lambda>s3. Ok (s3\<lparr>panicked := True\<rparr>))))"

text \<open>\<open>procdump\<close> of \<open>proc.c\<close>, printed: \<open>"%d %s %s %d"\<close> and a newline for each process.\<close>

fun dump_lines :: "(int \<times> string \<times> u8 list \<times> int) list \<Rightarrow> 'a iostate_scheme \<Rightarrow> 'a iostate_scheme res" where
  "dump_lines [] s = Ok s"
| "dump_lines ((n, st, nm, t) # ls) s =
     rbind (printf (bytes_of ''%d %s %s %d'') [ArgInt n, ArgStr (Some (bytes_of st)), ArgStr (Some nm), ArgInt t] s) (\<lambda>s1.
     rbind (printf [10] [] s1) (\<lambda>s2. dump_lines ls s2))"

definition print_procs :: "'a iostate_scheme \<Rightarrow> 'a iostate_scheme res" where
  "print_procs s = rbind (printf [10] [] s) (\<lambda>s1. dump_lines (procdump s1) s1)"

section \<open>console.c: the interrupt handler\<close>

lemma uartputc_sync_Ok: "uartputc_sync c s = Ok s' \<longleftrightarrow> \<not> panicked s \<and> s' = s\<lparr>uart_out := uart_out s @ [c]\<rparr>"
  by (auto simp: uartputc_sync_def)

lemma consputc_Ok: "consputc c s = Ok s' \<longleftrightarrow> \<not> panicked s \<and>
    s' = s\<lparr>uart_out := uart_out s @ (if c = BACKSPACE then [8, 32, 8] else [word_of_int c])\<rparr>"
  by (auto simp: consputc_def uartputc_sync_Ok)

lemma unat_dec_less: "(x :: 'a::len word) \<noteq> 0 \<Longrightarrow> unat (x - 1) < unat x"
  by (simp add: unat_minus_one unat_gt_0)

text \<open>The control-U loop.\<close>

function kill_line :: "'a iostate_scheme \<Rightarrow> 'a iostate_scheme res" where
  "kill_line s =
     (if cons_e s \<noteq> cons_w s \<and> ring_at INPUT_BUF_SIZE (cons_buf s) (cons_e s - 1) \<noteq> 10
      then rbind (consputc BACKSPACE (s\<lparr>cons_e := cons_e s - 1\<rparr>)) (\<lambda>s1. kill_line s1)
      else Ok s)"
  by pat_completeness auto
termination
proof (relation "measure (\<lambda>s. unat (cons_e s - cons_w s))")
  fix s s1 :: "'a iostate_scheme"
  assume a: "cons_e s \<noteq> cons_w s \<and> ring_at INPUT_BUF_SIZE (cons_buf s) (cons_e s - 1) \<noteq> 10"
    and o: "consputc BACKSPACE (s\<lparr>cons_e := cons_e s - 1\<rparr>) = Ok s1"
  have "cons_e s1 - cons_w s1 = cons_e s - cons_w s - 1" using o by (auto simp: consputc_Ok)
  then show "(s1, s) \<in> measure (\<lambda>s. unat (cons_e s - cons_w s))"
    using a unat_dec_less[of "cons_e s - cons_w s"] by simp
qed simp

declare kill_line.simps [simp del]

definition consoleintr :: "nat option \<Rightarrow> int \<Rightarrow> 'a iostate_scheme \<Rightarrow> 'a iostate_scheme res" where
  "consoleintr me c s =
     (if c = 16 then print_procs s
      else if c = 21 then kill_line s
      else if c = 8 \<or> c = 127
      then if cons_e s \<noteq> cons_w s then consputc BACKSPACE (s\<lparr>cons_e := cons_e s - 1\<rparr>) else Ok s
      else if c \<noteq> 0 \<and> cons_e s - cons_r s < word_of_nat INPUT_BUF_SIZE
      then let c1 = (if c = 13 then 10 else c)
           in rbind (consputc c1 s) (\<lambda>s1.
                let s2 = s1\<lparr>cons_buf := ring_put INPUT_BUF_SIZE (cons_buf s1) (cons_e s1) (word_of_int c1),
                            cons_e := cons_e s1 + 1\<rparr>
                in if c1 = 10 \<or> c1 = 4 \<or> cons_e s2 - cons_r s2 = word_of_nat INPUT_BUF_SIZE
                   then Ok (wakeup me ChanCons (s2\<lparr>cons_w := cons_e s2\<rparr>))
                   else Ok s2)
      else Ok s)"

text \<open>\<open>uartintr\<close>: the characters the receiver holds, then the transmitter.\<close>

function uart_receive :: "nat option \<Rightarrow> u8 list \<Rightarrow> 'a iostate_scheme \<Rightarrow> 'a iostate_scheme res" where
  "uart_receive me rx s =
     (let (c, rx1) = uartgetc rx in
      if c = -1 then Ok s else rbind (consoleintr me c s) (\<lambda>s1. uart_receive me rx1 s1))"
  by pat_completeness auto
termination
proof (relation "measure (\<lambda>(me, rx, s). length rx)")
  fix me rx and s s1 :: "'a iostate_scheme" and p c rx1
  assume "p = uartgetc rx" "(c, rx1) = p" "c \<noteq> -1"
  then show "((me, rx1, s1), me, rx, s) \<in> measure (\<lambda>(me, rx, s). length rx)" by (cases rx) auto
qed simp

definition uartintr :: "nat option \<Rightarrow> u8 list \<Rightarrow> nat \<Rightarrow> 'a iostate_scheme \<Rightarrow> 'a iostate_scheme res" where
  "uartintr me rx idle s = rbind (uart_receive me rx s) (\<lambda>s1. Ok (uartstart me idle s1))"

section \<open>Lemmas\<close>

interpretation tx: ring_buffer 32 "0 :: u64"
  by unfold_locales simp_all

interpretation ci: ring_buffer 128 "0 :: u32"
  by unfold_locales simp_all

lemma upd_proc_more [simp]: "kstate.more (upd_proc i f s) = kstate.more s"
  by (simp add: upd_proc_def)

lemma sleep_enter_more [simp]: "kstate.more (sleep_enter me ch s) = kstate.more s"
  by (simp add: sleep_enter_def)

lemma wakeup_more [simp]: "kstate.more (wakeup me ch s) = kstate.more s"
proof -
  have one: "kstate.more (wakeup_one ch i s) = kstate.more s" for i s
    by (simp add: wakeup_one_def tick_sys_time_def Let_def)
  have "kstate.more (wakeup_loop is me ch s) = kstate.more s" for "is"
    by (induction "is" arbitrary: s) (simp_all add: one)
  then show ?thesis by (simp add: wakeup_def)
qed

lemma io_fields:
  assumes "kstate.more s' = kstate.more s"
  shows "uart_buf s' = uart_buf s" "uart_w s' = uart_w s" "uart_r s' = uart_r s" "uart_out s' = uart_out s"
    "panicked s' = panicked s" "cons_buf s' = cons_buf s" "cons_r s' = cons_r s" "cons_w s' = cons_w s" "cons_e s' = cons_e s"
  using assms by (cases s; cases s'; simp)+

lemmas wakeup_io [simp] = io_fields[OF wakeup_more]
lemmas sleep_enter_io [simp] = io_fields[OF sleep_enter_more]

subsection \<open>The transmitter\<close>

text \<open>The bytes waiting in the transmit buffer.\<close>

definition tx_pending :: "'a iostate_scheme \<Rightarrow> u8 list" where
  "tx_pending s = ring_list 32 (uart_buf s) (uart_r s) (uart_w s)"

definition tx_ok :: "'a iostate_scheme \<Rightarrow> bool" where
  "tx_ok s \<longleftrightarrow> length (uart_buf s) = 32 \<and> length (tx_pending s) \<le> 32"

lemma tx_pending_length: "length (tx_pending s) = unat (uart_w s - uart_r s)"
  by (simp add: tx_pending_def)

lemma uartstart_fifo: "uart_out (uartstart me k s) @ tx_pending (uartstart me k s) = uart_out s @ tx_pending s
    \<and> (tx_ok s \<longrightarrow> tx_ok (uartstart me k s)) \<and> panicked (uartstart me k s) = panicked s
    \<and> length (tx_pending (uartstart me k s)) = length (tx_pending s) - k"
proof (induction k arbitrary: s)
  case (Suc k)
  show ?case
  proof (cases "uart_w s = uart_r s")
    case True
    then show ?thesis by (simp add: tx_pending_def)
  next
    case False
    define c where "c = ring_at 32 (uart_buf s) (uart_r s)"
    define s1 where "s1 = wakeup me ChanUart (s\<lparr>uart_r := uart_r s + 1\<rparr>)"
    define s2 where "s2 = s1\<lparr>uart_out := uart_out s1 @ [c]\<rparr>"
    have p: "tx_pending s = c # tx_pending s2"
      using tx.ring_list_take[OF False, of "uart_buf s"] by (simp add: tx_pending_def s2_def s1_def c_def)
    have o: "uart_out s2 = uart_out s @ [c]" by (simp add: s2_def s1_def)
    have k: "tx_ok s \<longrightarrow> tx_ok s2" using p by (simp add: tx_ok_def) (simp add: s2_def s1_def)
    have pan: "panicked s2 = panicked s" by (simp add: s2_def s1_def)
    have "uartstart me (Suc k) s = uartstart me k s2"
      using False by (simp add: Let_def s2_def s1_def c_def)
    then show ?thesis using Suc.IH[of s2] p o k pan by simp
  qed
qed (simp add: tx_pending_def)

lemma uartputc_fifo:
  assumes "tx_ok s" "\<not> panicked s"
  shows "case uartputc me k c s of
      Ok (Sleep _ s') \<Rightarrow> length (tx_pending s) = 32 \<and> kstate.more s' = kstate.more s
    | Ok (Done _ s') \<Rightarrow> length (tx_pending s) < 32 \<and> tx_ok s' \<and> \<not> panicked s'
        \<and> uart_out s' @ tx_pending s' = uart_out s @ tx_pending s @ [c]
    | _ \<Rightarrow> False"
proof (cases "uart_w s = uart_r s + word_of_nat UART_TX_BUF_SIZE")
  case True
  then have "uart_w s = uart_r s + word_of_nat 32" by simp
  then have "length (tx_pending s) = 32"
    using tx.ring_full_iff[of "uart_w s" "uart_r s"] assms(1) by (simp add: tx_ok_def tx_pending_length)
  then show ?thesis using True assms(2) by (simp add: uartputc_def)
next
  case False
  then have "\<not> uart_w s = uart_r s + word_of_nat 32" by simp
  then have l: "unat (uart_w s - uart_r s) < 32"
    using tx.ring_full_iff[of "uart_w s" "uart_r s"] assms(1) by (simp add: tx_ok_def tx_pending_length)
  define s1 where "s1 = s\<lparr>uart_buf := ring_put 32 (uart_buf s) (uart_w s) c, uart_w := uart_w s + 1\<rparr>"
  have p: "tx_pending s1 = tx_pending s @ [c]"
    using tx.ring_list_put[OF _ l, of "uart_buf s" c] assms(1) by (simp add: tx_pending_def s1_def tx_ok_def)
  have "tx_ok s1" using p assms(1) l by (simp add: tx_ok_def tx_pending_length) (simp add: s1_def)
  moreover have "uart_out s1 = uart_out s" "panicked s1 = panicked s" by (simp_all add: s1_def)
  moreover have "uartputc me k c s = Ok (Done 0 (uartstart (Some me) k s1))"
    using False assms(2) by (simp add: uartputc_def s1_def)
  ultimately show ?thesis using p l assms(2) uartstart_fifo[of "Some me" k s1] by (simp add: tx_pending_length)
qed

subsection \<open>The line editor\<close>

text \<open>
  The editor's view of the input buffer: the bytes \<open>read\<close> may take, and the line being edited.
\<close>

definition con_ready :: "'a iostate_scheme \<Rightarrow> u8 list" where
  "con_ready s = ring_list 128 (cons_buf s) (cons_r s) (cons_w s)"

definition con_edit :: "'a iostate_scheme \<Rightarrow> u8 list" where
  "con_edit s = ring_list 128 (cons_buf s) (cons_w s) (cons_e s)"

definition con_line :: "'a iostate_scheme \<Rightarrow> u8 list \<times> u8 list" where
  "con_line s = (con_ready s, con_edit s)"

text \<open>The unfinished line has no newline, and the buffer is not overrun.\<close>

definition con_ok :: "'a iostate_scheme \<Rightarrow> bool" where
  "con_ok s \<longleftrightarrow> length (cons_buf s) = 128 \<and> unat (cons_w s - cons_r s) \<le> unat (cons_e s - cons_r s) \<and>
     unat (cons_e s - cons_r s) \<le> 128 \<and> 10 \<notin> set (con_edit s)"

text \<open>What a key does to that view.\<close>

definition edit_key :: "int \<Rightarrow> u8 list \<times> u8 list \<Rightarrow> u8 list \<times> u8 list" where
  "edit_key c l =
     (case l of (ready, edit) \<Rightarrow>
       if c = 16 then l
       else if c = 21 then (ready, [])
       else if c = 8 \<or> c = 127 then (ready, butlast edit)
       else if c = 0 \<or> length ready + length edit = 128 then l
       else let c1 = (if c = 13 then 10 else c); edit1 = edit @ [word_of_int c1]
            in if c1 = 10 \<or> c1 = 4 \<or> length ready + length edit1 = 128 then (ready @ edit1, []) else (ready, edit1))"

lemma con_counts:
  assumes "con_ok s"
  shows "length (con_ready s) = unat (cons_w s - cons_r s)" "length (con_edit s) = unat (cons_e s - cons_w s)"
    "unat (cons_e s - cons_r s) = length (con_ready s) + length (con_edit s)"
  using assms ci.ring_between[of "cons_w s" "cons_r s" "cons_e s"]
  by (simp_all add: con_ok_def con_ready_def con_edit_def)

lemma con_more: "kstate.more s' = kstate.more s \<Longrightarrow> con_line s' = con_line s \<and> con_ok s' = con_ok s"
  by (simp add: con_line_def con_ok_def con_ready_def con_edit_def io_fields[of s' s])

lemma con_cong:
  assumes "cons_buf s' = cons_buf s" "cons_r s' = cons_r s" "cons_w s' = cons_w s" "cons_e s' = cons_e s"
  shows "con_line s' = con_line s" "con_ok s' = con_ok s"
  using assms by (simp_all add: con_line_def con_ok_def con_ready_def con_edit_def)

text \<open>Erasing the last character of the line.\<close>

lemma con_erase:
  assumes "con_ok s" "cons_e s \<noteq> cons_w s" "s' = s\<lparr>cons_e := cons_e s - 1, uart_out := out\<rparr>"
  shows "con_ok s' \<and> con_line s' = (con_ready s, butlast (con_edit s)) \<and>
    con_edit s = butlast (con_edit s) @ [ring_at 128 (cons_buf s) (cons_e s - 1)]"
proof -
  have l: "con_edit s = ring_list 128 (cons_buf s) (cons_w s) (cons_e s - 1) @ [ring_at 128 (cons_buf s) (cons_e s - 1)]"
    using ci.ring_list_last[OF assms(2)] by (simp add: con_edit_def)
  have e': "con_edit s' = butlast (con_edit s)" using l assms(3) by (simp add: con_edit_def)
  have r': "con_ready s' = con_ready s" using assms(3) by (simp add: con_ready_def)
  have "con_edit s \<noteq> []" using l by simp
  then have pos: "0 < length (con_edit s)" by simp
  have "cons_e s - cons_r s \<noteq> 0" using con_counts[OF assms(1)] pos by (auto simp: unat_gt_0[symmetric])
  then have "unat (cons_e s - cons_r s - 1) = unat (cons_e s - cons_r s) - 1" by (rule unat_minus_one)
  moreover have "cons_e s - cons_r s - 1 = cons_e s - 1 - cons_r s" by simp
  ultimately have u: "unat (cons_e s - 1 - cons_r s) = unat (cons_e s - cons_r s) - 1" by metis
  have "10 \<notin> set (con_edit s)" using assms(1) by (simp add: con_ok_def)
  then have nn: "10 \<notin> set (con_edit s')" using e' by (auto dest: in_set_butlastD)
  have "unat (cons_e s - 1 - cons_r s) = length (con_ready s) + (length (con_edit s) - 1)"
    using u con_counts(3)[OF assms(1)] pos by linarith
  moreover have "length (con_ready s) + length (con_edit s) \<le> 128"
    using assms(1) con_counts(3)[OF assms(1)] by (simp add: con_ok_def)
  ultimately have "unat (cons_w s - cons_r s) \<le> unat (cons_e s - 1 - cons_r s) \<and> unat (cons_e s - 1 - cons_r s) \<le> 128"
    using con_counts(1)[OF assms(1)] by linarith
  moreover have "length (cons_buf s) = 128" using assms(1) by (simp add: con_ok_def)
  ultimately have "con_ok s'" using nn unfolding con_ok_def by (simp add: assms(3))
  then show ?thesis using e' r' l by (simp add: con_line_def)
qed

lemma kill_line_edit:
  "con_ok s \<Longrightarrow> kill_line s = Ok s' \<Longrightarrow> con_ok s' \<and> con_line s' = (con_ready s, [])"
proof (induction s rule: kill_line.induct)
  case (1 s)
  show ?case
  proof (cases "cons_e s = cons_w s")
    case True
    then have "s' = s" using "1.prems" by (simp add: kill_line.simps)
    then show ?thesis using True "1.prems" by (simp add: con_line_def con_edit_def)
  next
    case False
    define t where "t = s\<lparr>cons_e := cons_e s - 1, uart_out := uart_out s @ [8, 32, 8]\<rparr>"
    have e: "con_ok t \<and> con_line t = (con_ready s, butlast (con_edit s)) \<and>
      con_edit s = butlast (con_edit s) @ [ring_at 128 (cons_buf s) (cons_e s - 1)]"
      using con_erase[OF "1.prems"(1) False t_def] .
    then have "ring_at 128 (cons_buf s) (cons_e s - 1) \<in> set (con_edit s)" by (metis in_set_conv_decomp)
    then have nl: "ring_at 128 (cons_buf s) (cons_e s - 1) \<noteq> 10" using "1.prems"(1) by (auto simp: con_ok_def)
    obtain s1 where s1: "consputc BACKSPACE (s\<lparr>cons_e := cons_e s - 1\<rparr>) = Ok s1" "kill_line s1 = Ok s'"
      using "1.prems"(2) False nl by (subst (asm) kill_line.simps) auto
    then have "s1 = t" by (simp add: consputc_Ok t_def)
    then show ?thesis using "1.IH"[OF _ s1(1)] False nl e s1(2) by (simp add: con_line_def)
  qed
qed


text \<open>Printing leaves the editor alone.\<close>

definition same_editor :: "'a iostate_scheme \<Rightarrow> 'a iostate_scheme \<Rightarrow> bool" where
  "same_editor s s' \<longleftrightarrow> con_line s' = con_line s \<and> con_ok s' = con_ok s"

lemma same_editor_trans: "same_editor s s1 \<Longrightarrow> same_editor s1 s2 \<Longrightarrow> same_editor s s2"
  by (simp add: same_editor_def)

lemma same_editor_out: "same_editor s (s\<lparr>uart_out := out\<rparr>)"
  using con_cong[of "s\<lparr>uart_out := out\<rparr>" s] by (simp add: same_editor_def)

lemma consputs_editor: "consputs bs s = Ok s' \<Longrightarrow> same_editor s s'"
  by (induction bs arbitrary: s) (auto simp: consputc_Ok same_editor_def[of s' s'] intro: same_editor_out same_editor_trans)

lemma printf_editor: "printf fmt args s = Ok s' \<Longrightarrow> same_editor s s'"
  by (auto simp: printf_def dest: consputs_editor)

lemma dump_lines_editor: "dump_lines ls s = Ok s' \<Longrightarrow> same_editor s s'"
proof (induction ls s rule: dump_lines.induct)
  case (1 s)
  then show ?case by (simp add: same_editor_def)
next
  case (2 n st nm t ls s)
  obtain s1 s2 where a: "printf (bytes_of ''%d %s %s %d'') [ArgInt n, ArgStr (Some (bytes_of st)), ArgStr (Some nm), ArgInt t] s = Ok s1"
      "printf [10] [] s1 = Ok s2" "dump_lines ls s2 = Ok s'"
    using "2.prems" by auto
  show ?case using printf_editor[OF a(1)] printf_editor[OF a(2)] "2.IH"[OF a] by (blast intro: same_editor_trans)
qed

lemma print_procs_editor: "print_procs s = Ok s' \<Longrightarrow> same_editor s s'"
  by (auto simp: print_procs_def dest!: printf_editor dump_lines_editor intro: same_editor_trans)

text \<open>A character is stored.\<close>

lemma con_store:
  assumes "con_ok s" "length (con_ready s) + length (con_edit s) < 128"
    and s': "s' = s\<lparr>uart_out := out, cons_buf := ring_put 128 (cons_buf s) (cons_e s) b, cons_e := cons_e s + 1\<rparr>"
  shows "con_ready s' = con_ready s" "con_edit s' = con_edit s @ [b]"
    "unat (cons_e s' - cons_r s') = Suc (length (con_ready s) + length (con_edit s))"
    "length (cons_buf s') = 128"
proof -
  have len: "length (cons_buf s) = 128" and le: "unat (cons_w s - cons_r s) \<le> unat (cons_e s - cons_r s)"
    using assms(1) by (simp_all add: con_ok_def)
  have lt: "unat (cons_e s - cons_r s) < 128" "unat (cons_e s - cons_w s) < 128"
    using con_counts[OF assms(1)] assms(2) by simp_all
  show "con_ready s' = con_ready s"
    using ci.ring_put_keep[OF len le lt(1)] by (simp add: con_ready_def s')
  show "con_edit s' = con_edit s @ [b]"
    using ci.ring_list_put[OF len lt(2)] by (simp add: con_edit_def s')
  show "unat (cons_e s' - cons_r s') = Suc (length (con_ready s) + length (con_edit s))"
    using ci.ring_put_count[OF lt(1)] con_counts(3)[OF assms(1)] by (simp add: s')
  show "length (cons_buf s') = 128" using len by (simp add: s')
qed

lemma con_commit:
  assumes "length (cons_buf s) = 128" "unat (cons_e s - cons_r s) \<le> 128"
    "unat (cons_w s - cons_r s) \<le> unat (cons_e s - cons_r s)" "s' = s\<lparr>cons_w := cons_e s\<rparr>"
  shows "con_ok s' \<and> con_line s' = (con_ready s @ con_edit s, [])"
  using assms ci.ring_list_append[OF assms(3), of "cons_buf s"]
  by (simp add: con_ok_def con_line_def con_ready_def con_edit_def)


lemma consoleintr_key:
  assumes "con_ok s" "0 \<le> c" "c < 256" "consoleintr me c s = Ok s'"
  shows "con_ok s' \<and> con_line s' = edit_key c (con_line s)"
proof -
  let ?n = "length (con_ready s) + length (con_edit s)"
  have n128: "?n \<le> 128" using assms(1) con_counts(3)[OF assms(1)] by (simp add: con_ok_def)
  consider "c = 16" | "c = 21" | "c = 8 \<or> c = 127" | "c = 0" | "c \<noteq> 16" "c \<noteq> 21" "c \<noteq> 8" "c \<noteq> 127" "c \<noteq> 0" by blast
  then show ?thesis
  proof cases
    case 1
    then show ?thesis using assms print_procs_editor[of s s'] by (simp add: consoleintr_def edit_key_def same_editor_def con_line_def)
  next
    case 2
    then show ?thesis using assms kill_line_edit[of s s'] by (simp add: consoleintr_def edit_key_def con_line_def)
  next
    case 3
    show ?thesis
    proof (cases "cons_e s = cons_w s")
      case True
      then have "s' = s" using 3 assms(4) by (auto simp: consoleintr_def)
      moreover have "con_edit s = []" using True by (simp add: con_edit_def)
      ultimately show ?thesis using 3 assms(1) by (auto simp: edit_key_def con_line_def)
    next
      case False
      have "s' = s\<lparr>cons_e := cons_e s - 1, uart_out := uart_out s @ [8, 32, 8]\<rparr>"
        using 3 assms(4) False by (auto simp: consoleintr_def consputc_Ok)
      from con_erase[OF assms(1) False this] show ?thesis using 3 by (auto simp: edit_key_def con_line_def)
    qed
  next
    case 4
    then show ?thesis using assms by (simp add: consoleintr_def edit_key_def con_line_def)
  next
    case 5
    have full: "cons_e s - cons_r s < word_of_nat INPUT_BUF_SIZE \<longleftrightarrow> ?n < 128"
      using con_counts(3)[OF assms(1)] by (simp add: word_less_nat_alt)
    show ?thesis
    proof (cases "?n < 128")
      case False
      then show ?thesis using 5 assms full n128 by (simp add: consoleintr_def edit_key_def con_line_def)
    next
      case True
      define c1 where "c1 = (if c = 13 then 10 else c)"
      define t where "t = s\<lparr>uart_out := uart_out s @ [word_of_int c1],
          cons_buf := ring_put 128 (cons_buf s) (cons_e s) (word_of_int c1), cons_e := cons_e s + 1\<rparr>"
      have c1: "c1 \<noteq> BACKSPACE" using assms(3) by (simp add: c1_def BACKSPACE_def)
      note st = con_store[OF assms(1) True t_def]
      have fullt: "cons_e t - cons_r t = word_of_nat INPUT_BUF_SIZE \<longleftrightarrow> Suc ?n = 128"
        using st(3) by (simp add: word_unat_eq_iff)
      have run: "s' = (if c1 = 10 \<or> c1 = 4 \<or> Suc ?n = 128 then wakeup me ChanCons (t\<lparr>cons_w := cons_e t\<rparr>) else t)"
        using assms(4) 5 full True c1 fullt
        by (auto simp: consoleintr_def consputc_Ok c1_def[symmetric] t_def Let_def split: if_splits)
      have le: "unat (cons_w t - cons_r t) \<le> unat (cons_e t - cons_r t)" "unat (cons_e t - cons_r t) \<le> 128"
        using st(3) con_counts(1)[OF assms(1)] True by (simp_all add: t_def)
      have key: "edit_key c (con_line s) = (if c1 = 10 \<or> c1 = 4 \<or> Suc ?n = 128
          then (con_ready s @ con_edit s @ [word_of_int c1], []) else (con_ready s, con_edit s @ [word_of_int c1]))"
        using 5 True by (simp add: edit_key_def con_line_def c1_def Let_def)
      show ?thesis
      proof (cases "c1 = 10 \<or> c1 = 4 \<or> Suc ?n = 128")
        case yes: True
        have "con_ok (t\<lparr>cons_w := cons_e t\<rparr>) \<and> con_line (t\<lparr>cons_w := cons_e t\<rparr>) = (con_ready t @ con_edit t, [])"
          by (rule con_commit[OF st(4) le(2) le(1) refl])
        then show ?thesis using yes key st(1,2) run con_more[OF wakeup_more, of me ChanCons "t\<lparr>cons_w := cons_e t\<rparr>"] by simp
      next
        case no: False
        have "0 \<le> c1" "c1 < 256" using assms(2,3) by (auto simp: c1_def)
        then have "(word_of_int c1 :: u8) \<noteq> 10" using no by (simp add: word_uint_eq_iff uint_word_of_int)
        then have "con_ok t" using st le assms(1) by (simp add: con_ok_def)
        then show ?thesis using no key st(1,2) run by (simp add: con_line_def)
      qed
    qed
  qed
qed

subsection \<open>Numbers\<close>

text \<open>Reading digits back, last digit first.\<close>

definition digit_val :: "u8 \<Rightarrow> nat" where
  "digit_val b = (if b < 58 then unat b - 48 else unat b - 87)"

fun digits_val :: "nat \<Rightarrow> u8 list \<Rightarrow> nat" where
  "digits_val base [] = 0"
| "digits_val base (b # bs) = digit_val b + base * digits_val base bs"

lemma unat_digit: "d < 16 \<Longrightarrow> unat (digit d) = (if d < 10 then 48 + d else 87 + d)"
  by (auto simp: digit_def unat_word_ariths unat_of_nat)

lemma digit_val_digit: "d < 16 \<Longrightarrow> digit_val (digit d) = d"
  using unat_digit[of d] by (simp add: digit_val_def word_less_nat_alt split: if_splits)

lemma digits_of_val: "2 \<le> base \<Longrightarrow> base \<le> 16 \<Longrightarrow> digits_val base (digits_of base x) = x"
proof (induction base x rule: digits_of.induct)
  case (1 base x)
  have d: "digit_val (digit (x mod base)) = x mod base"
    using "1.prems" by (intro digit_val_digit) (metis mod_less_divisor less_le_trans zero_less_numeral)
  show ?case
  proof (cases "x div base = 0")
    case True
    then show ?thesis using d "1.prems" by (simp add: digits_of.simps[of base x]) (metis mod_div_mult_eq mult_0 add_0_right)
  next
    case False
    then show ?thesis using d "1.prems" "1.IH" by (simp add: digits_of.simps[of base x])
  qed
qed

lemma digits_of_length: "2 \<le> base \<Longrightarrow> x < base ^ Suc n \<Longrightarrow> length (digits_of base x) \<le> Suc n"
proof (induction n arbitrary: x)
  case 0
  then show ?case by (simp add: digits_of.simps[of base x])
next
  case (Suc n)
  then have "x div base < base ^ Suc n" by (simp add: less_mult_imp_div_less mult.commute)
  then show ?case using Suc by (simp add: digits_of.simps[of base x])
qed

lemma digits_of_text: "2 \<le> base \<Longrightarrow> base \<le> 16 \<Longrightarrow> b \<in> set (digits_of base x) \<Longrightarrow> b \<noteq> 45"
proof (induction base x rule: digits_of.induct)
  case (1 base x)
  have "x mod base < 16" using "1.prems" by (metis mod_less_divisor less_le_trans zero_less_numeral)
  then have "unat (digit (x mod base)) \<noteq> unat (45 :: u8)" using unat_digit by simp
  then have "digit (x mod base) \<noteq> 45" by metis
  moreover have "b = digit (x mod base) \<or> (x div base \<noteq> 0 \<and> b \<in> set (digits_of base (x div base)))"
    using "1.prems"(3) unfolding digits_of.simps[of base x] by (auto split: if_splits)
  ultimately show ?case using "1.prems"(1,2) "1.IH" by auto
qed

text \<open>The number a string of digits with an optional minus sign stands for.\<close>

definition number_of_text :: "nat \<Rightarrow> u8 list \<Rightarrow> int" where
  "number_of_text base t = (case t of [] \<Rightarrow> 0
     | b # bs \<Rightarrow> if b = 45 then - int (digits_val base (rev bs)) else int (digits_val base (rev t)))"

lemma unat_of_int_u32: "0 \<le> x \<Longrightarrow> x < 2 ^ 32 \<Longrightarrow> unat (word_of_int x :: u32) = nat x"
  by (simp add: unat_eq_nat_uint uint_word_of_int)

lemma printint_value:
  assumes "in_i32 x" "2 \<le> base" "base \<le> 16"
  shows "number_of_text base (printint x base True) = x"
proof -
  have r: "- (2 ^ 31) \<le> x" "x < 2 ^ 31" using assms(1) by (simp_all add: in_i32_def)
  show ?thesis
  proof (cases "x < 0")
    case True
    then have "unat (word_of_int (- x) :: u32) = nat (- x)" using r by (intro unat_of_int_u32) simp_all
    then show ?thesis using True digits_of_val[OF assms(2,3)]
      by (simp add: printint_def printint_buf_def number_of_text_def Let_def)
  next
    case False
    then have u: "unat (word_of_int x :: u32) = nat x" using r by (intro unat_of_int_u32) simp_all
    define ds where "ds = rev (digits_of base (nat x))"
    have "ds \<noteq> []" by (simp add: ds_def digits_of.simps)
    then obtain b bs where ds: "ds = b # bs" by (cases ds) auto
    then have "b \<in> set (digits_of base (nat x))" by (metis ds_def list.set_intros(1) set_rev)
    then have "b \<noteq> 45" by (rule digits_of_text[OF assms(2,3)])
    moreover have "printint x base True = ds" using u False by (simp add: printint_def printint_buf_def ds_def Let_def)
    moreover have "rev ds = digits_of base (nat x)" by (simp add: ds_def)
    ultimately show ?thesis using ds digits_of_val[OF assms(2,3)] False
      by (simp add: number_of_text_def)
  qed
qed

lemma printint_fits: "10 \<le> base \<Longrightarrow> length (printint_buf x base sign) \<le> 11"
proof -
  assume b: "10 \<le> base"
  have "unat (w :: u32) < base ^ Suc 9" for w
  proof -
    have "unat w < 2 ^ 32" by (rule unat_u32_less)
    also have "(2::nat) ^ 32 < 10 ^ Suc 9" by simp
    also have "(10::nat) ^ Suc 9 \<le> base ^ Suc 9" using b by (rule power_mono) simp
    finally show ?thesis .
  qed
  then have "length (digits_of base (unat w)) \<le> Suc 9" for w :: u32
    using b by (intro digits_of_length) simp_all
  then have "length (digits_of base (unat w)) \<le> 10" for w :: u32 by simp
  from this[of "word_of_int x"] this[of "word_of_int (- x)"] show ?thesis
    by (simp add: printint_buf_def Let_def)
qed

section \<open>Properties\<close>

text \<open>What the transmitter does over time: \<open>Inl (c, k)\<close> is a write of \<open>c\<close>, \<open>Inr k\<close> a transmit
  interrupt; the result has the bytes of the writes that did not sleep.\<close>

fun tx_run :: "nat \<Rightarrow> (u8 \<times> nat + nat) list \<Rightarrow> 'a iostate_scheme \<Rightarrow> (u8 list \<times> 'a iostate_scheme) res" where
  "tx_run me [] s = Ok ([], s)"
| "tx_run me (Inr k # ops) s = tx_run me ops (uartstart None k s)"
| "tx_run me (Inl (c, k) # ops) s =
     rbind (uartputc me k c s) (\<lambda>out. case out of
       Sleep _ s1 \<Rightarrow> tx_run me ops s1
     | Done _ s1 \<Rightarrow> rbind (tx_run me ops s1) (\<lambda>(cs, s2). Ok (c # cs, s2)))"

lemma tx_run_fifo:
  "tx_ok s \<Longrightarrow> \<not> panicked s \<Longrightarrow> \<exists>cs s'. tx_run me ops s = Ok (cs, s') \<and> tx_ok s' \<and>
     uart_out s' @ tx_pending s' = uart_out s @ tx_pending s @ cs"
proof (induction ops arbitrary: s)
  case (Cons op ops)
  show ?case
  proof (cases op)
    case (Inr k)
    let ?t = "uartstart None k s"
    have f: "uart_out ?t @ tx_pending ?t = uart_out s @ tx_pending s" "tx_ok ?t" "\<not> panicked ?t"
      using uartstart_fifo[of None k s] Cons.prems by simp_all
    then obtain cs s' where r: "tx_run me ops ?t = Ok (cs, s')" "tx_ok s'"
        "uart_out s' @ tx_pending s' = (uart_out ?t @ tx_pending ?t) @ cs"
      using Cons.IH[of ?t] by auto
    then show ?thesis using Inr f(1) by simp
  next
    case (Inl ck)
    obtain c k where ck: "op = Inl (c, k)" using Inl by (cases ck) auto
    note put = uartputc_fifo[OF Cons.prems, where me = me and k = k and c = c]
    show ?thesis
    proof (cases "uartputc me k c s")
      case (Ok out)
      show ?thesis
      proof (cases out)
        case (Done r s1)
        have "tx_ok s1" "\<not> panicked s1" "uart_out s1 @ tx_pending s1 = uart_out s @ tx_pending s @ [c]"
          using put Ok Done by auto
        then show ?thesis using Cons.IH[of s1] Ok Done ck by auto
      next
        case (Sleep u s1)
        then have m: "kstate.more s1 = kstate.more s" using put Ok by auto
        then have "tx_ok s1" "\<not> panicked s1" "uart_out s1 = uart_out s" "tx_pending s1 = tx_pending s"
          using io_fields[OF m] Cons.prems by (simp_all add: tx_ok_def tx_pending_def)
        then show ?thesis using Cons.IH[of s1] Ok Sleep ck by auto
      qed
    qed (use put in auto)
  qed
qed auto

text \<open>C23. The transmit buffer is a FIFO that loses nothing: over any sequence of writes and transmit
  interrupts, the bytes on the wire followed by the bytes waiting are the old ones followed by
  exactly the bytes of the writes that did not sleep, in order, and at most 32 bytes wait.  The
  counters may wrap around.\<close>

theorem uart_transmits_in_order:
  assumes "tx_ok s" "\<not> panicked s"
  shows "\<exists>cs s'. tx_run me ops s = Ok (cs, s') \<and> length (tx_pending s') \<le> 32 \<and>
     uart_out s' @ tx_pending s' = uart_out s @ tx_pending s @ cs"
  using tx_run_fifo[OF assms, of me ops] by (auto simp: tx_ok_def)

text \<open>C12. The console's input interrupt refines a line editor on two lists, the bytes ready for
  \<open>read\<close> and the line being edited: backspace drops the last character, control-U the line,
  a newline or control-D (or a full buffer) makes the line ready, and a key that finds 128
  bytes stored is dropped.  The indices are free-running and may wrap around.\<close>

theorem consoleintr_refines_editor:
  assumes "con_ok s" "0 \<le> c" "c < 256" "consoleintr me c s = Ok s'"
  shows "con_ok s' \<and> con_line s' = edit_key c (con_line s)"
  by (rule consoleintr_key[OF assms])

text \<open>C34. \<open>printint\<close> prints the number: for any \<open>int\<close> in base 10 to 16 the text read back is the
  number, the smallest one included, and it fits its 16-byte buffer.\<close>

theorem printint_correct:
  assumes "in_i32 x" "10 \<le> base" "base \<le> 16"
  shows "number_of_text base (printint x base True) = x \<and> length (printint_buf x base True) \<le> 16"
  using printint_value[OF assms(1) _ assms(3)] printint_fits[OF assms(2), of x True] assms(2) by simp

section \<open>Witnesses\<close>

text \<open>A console whose counters are about to wrap around.\<close>

definition sample_io :: iostate where
  "sample_io = \<lparr>mem = \<lambda>_. 0, freelist = 0, kend = 0x80001234, config = RR, trampoline_pa = 0x80000000,
     forkret_pc = 0x80000100, procs = [], initproc = None, nextpid = 1, sys_time = 0, kticks = 0,
     uart_buf = replicate 32 0, uart_w = - 1, uart_r = - 1, uart_out = [], panicked = False,
     cons_buf = replicate 128 0, cons_r = - 1, cons_w = - 1, cons_e = - 1\<rparr>"

lemma sample_io_ok: "tx_ok sample_io" "\<not> panicked sample_io" "con_ok sample_io" "tx_pending sample_io = []"
  "uart_out sample_io = []" "con_line sample_io = ([], [])"
  by (simp_all add: sample_io_def tx_ok_def tx_pending_def con_ok_def con_ready_def con_edit_def con_line_def)

theorem uart_transmits_in_order_witness:
  "\<exists>cs s'. tx_run 0 [Inl (65, 0), Inl (66, 0), Inr 1] sample_io = Ok (cs, s') \<and>
     uart_out s' @ tx_pending s' = cs"
  using uart_transmits_in_order[OF sample_io_ok(1,2), of 0 "[Inl (65, 0), Inl (66, 0), Inr 1]"]
  by (auto simp: sample_io_ok)

theorem consoleintr_refines_editor_witness:
  "\<exists>s'. consoleintr None 97 sample_io = Ok s' \<and> con_line s' = ([], [97])"
proof -
  obtain s' where s': "consoleintr None 97 sample_io = Ok s'"
    by (simp add: consoleintr_def consputc_def uartputc_sync_def BACKSPACE_def sample_io_def)
  have "con_line s' = edit_key 97 (con_line sample_io)"
    by (rule conjunct2[OF consoleintr_refines_editor[OF sample_io_ok(3) _ _ s']]) simp_all
  then show ?thesis using s' by (simp add: sample_io_ok edit_key_def)
qed

theorem printint_correct_witness: "number_of_text 10 (printint (- 2147483648) 10 True) = - 2147483648"
  by (rule conjunct1[OF printint_correct]) (simp_all add: in_i32_def)

end
