(* ===== verification/Bio.thy ===== *)
theory Bio
  imports Console
begin

text \<open>
  \<open>kernel/sleeplock.c\<close> and \<open>kernel/bio.c\<close>: sleep locks and the buffer cache.  A \<open>struct buf*\<close> is
  an index into \<open>bufs\<close>; the doubly linked list is the list \<open>lru\<close> of indices, most recently used
  first.  The disk is a map from block numbers to blocks and the trace of the writes it has done.
  The operations run in process \<open>me\<close>; finding a sleep lock taken is \<open>Stuck\<close>, since nothing else
  runs within one operation.
\<close>

section \<open>Sleep locks\<close>

record sleeplock =
  slocked :: bool
  spid :: int

definition initsleeplock :: sleeplock where
  "initsleeplock = \<lparr>slocked = False, spid = 0\<rparr>"

text \<open>\<open>acquiresleep\<close> by a process with this pid: the lock taken, or \<open>None\<close> for going to sleep.\<close>

definition acquiresleep :: "int \<Rightarrow> sleeplock \<Rightarrow> sleeplock option" where
  "acquiresleep p lk = (if slocked lk then None else Some \<lparr>slocked = True, spid = p\<rparr>)"

definition releasesleep :: "nat \<Rightarrow> chan \<Rightarrow> sleeplock \<Rightarrow> 'a kstate_scheme \<Rightarrow> sleeplock \<times> 'a kstate_scheme" where
  "releasesleep me ch lk s = (\<lparr>slocked = False, spid = 0\<rparr>, wakeup (Some me) ch s)"

definition holdingsleep :: "int \<Rightarrow> sleeplock \<Rightarrow> bool" where
  "holdingsleep p lk \<longleftrightarrow> slocked lk \<and> spid lk = p"

section \<open>State\<close>

abbreviation BSIZE :: nat where "BSIZE \<equiv> 1024"
abbreviation MAXOPBLOCKS :: nat where "MAXOPBLOCKS \<equiv> 10"
abbreviation NBUF :: nat where "NBUF \<equiv> 30"

record buf =
  bvalid :: bool
  bdev :: u32
  blockno :: u32
  block :: sleeplock
  refcnt :: u32
  bdata :: "u8 list"

record bstate = iostate +
  bufs :: "buf list"
  lru :: "nat list"
  disk :: "u32 \<Rightarrow> u8 list"
  disk_trace :: "(u32 \<times> u8 list) list"

definition upd_buf :: "nat \<Rightarrow> (buf \<Rightarrow> buf) \<Rightarrow> 'a bstate_scheme \<Rightarrow> 'a bstate_scheme" where
  "upd_buf i f s = s\<lparr>bufs := (bufs s)[i := f (bufs s ! i)]\<rparr>"

definition mypid :: "nat \<Rightarrow> 'a kstate_scheme \<Rightarrow> int" where
  "mypid me s = pid (proc_at s me)"

text \<open>What a completed request of \<open>virtio_disk_rw\<close> has done; it takes no notice of \<open>dev\<close>.\<close>

definition disk_rw :: "nat \<Rightarrow> bool \<Rightarrow> 'a bstate_scheme \<Rightarrow> 'a bstate_scheme" where
  "disk_rw i write s =
     (let b = bufs s ! i in
      if write then s\<lparr>disk := (disk s)(blockno b := bdata b), disk_trace := disk_trace s @ [(blockno b, bdata b)]\<rparr>
      else upd_buf i (\<lambda>b. b\<lparr>bdata := disk s (blockno b)\<rparr>) s)"

section \<open>Buffer cache\<close>

text \<open>Each buffer goes to the front of the list as it is initialised.\<close>

definition binit :: "'a bstate_scheme \<Rightarrow> 'a bstate_scheme" where
  "binit s = s\<lparr>lru := rev [0..<length (bufs s)], bufs := map (\<lambda>b. b\<lparr>block := initsleeplock\<rparr>) (bufs s)\<rparr>"

definition buf_chan :: "nat \<Rightarrow> chan" where
  "buf_chan i = ChanSleeplock (2 * i)"

definition lock_buf :: "nat \<Rightarrow> nat \<Rightarrow> 'a bstate_scheme \<Rightarrow> (nat \<times> 'a bstate_scheme) res" where
  "lock_buf me i s =
     (case acquiresleep (mypid me s) (block (bufs s ! i)) of
        None \<Rightarrow> Stuck
      | Some lk \<Rightarrow> Ok (i, upd_buf i (\<lambda>b. b\<lparr>block := lk\<rparr>) s))"

definition bget :: "nat \<Rightarrow> u32 \<Rightarrow> u32 \<Rightarrow> 'a bstate_scheme \<Rightarrow> (nat \<times> 'a bstate_scheme) res" where
  "bget me dev bno s =
     (case List.find (\<lambda>i. bdev (bufs s ! i) = dev \<and> blockno (bufs s ! i) = bno) (lru s) of
        Some i \<Rightarrow> lock_buf me i (upd_buf i (\<lambda>b. b\<lparr>refcnt := refcnt b + 1\<rparr>) s)
      | None \<Rightarrow>
          (case List.find (\<lambda>i. refcnt (bufs s ! i) = 0) (rev (lru s)) of
             Some i \<Rightarrow> lock_buf me i (upd_buf i (\<lambda>b. b\<lparr>bdev := dev, blockno := bno, bvalid := False, refcnt := 1\<rparr>) s)
           | None \<Rightarrow> Panic ''bget: no buffers''))"

definition bread :: "nat \<Rightarrow> u32 \<Rightarrow> u32 \<Rightarrow> 'a bstate_scheme \<Rightarrow> (nat \<times> 'a bstate_scheme) res" where
  "bread me dev bno s =
     rbind (bget me dev bno s) (\<lambda>(i, s1).
       if \<not> bvalid (bufs s1 ! i) then Ok (i, upd_buf i (\<lambda>b. b\<lparr>bvalid := True\<rparr>) (disk_rw i False s1))
       else Ok (i, s1))"

definition bwrite :: "nat \<Rightarrow> nat \<Rightarrow> 'a bstate_scheme \<Rightarrow> 'a bstate_scheme res" where
  "bwrite me i s =
     (if \<not> holdingsleep (mypid me s) (block (bufs s ! i)) then Panic ''bwrite'' else Ok (disk_rw i True s))"

definition brelse :: "nat \<Rightarrow> nat \<Rightarrow> 'a bstate_scheme \<Rightarrow> 'a bstate_scheme res" where
  "brelse me i s =
     (if \<not> holdingsleep (mypid me s) (block (bufs s ! i)) then Panic ''brelse''
      else let (lk, s1) = releasesleep me (buf_chan i) (block (bufs s ! i)) s;
               s2 = upd_buf i (\<lambda>b. b\<lparr>block := lk, refcnt := refcnt b - 1\<rparr>) s1
           in Ok (if refcnt (bufs s2 ! i) = 0 then s2\<lparr>lru := i # remove1 i (lru s2)\<rparr> else s2))"

definition bpin :: "nat \<Rightarrow> 'a bstate_scheme \<Rightarrow> 'a bstate_scheme" where
  "bpin i s = upd_buf i (\<lambda>b. b\<lparr>refcnt := refcnt b + 1\<rparr>) s"

definition bunpin :: "nat \<Rightarrow> 'a bstate_scheme \<Rightarrow> 'a bstate_scheme" where
  "bunpin i s = upd_buf i (\<lambda>b. b\<lparr>refcnt := refcnt b - 1\<rparr>) s"

text \<open>The caller's change of the data of a buffer it holds.\<close>

definition set_data :: "nat \<Rightarrow> u8 list \<Rightarrow> 'a bstate_scheme \<Rightarrow> 'a bstate_scheme" where
  "set_data i d s = upd_buf i (\<lambda>b. b\<lparr>bdata := d\<rparr>) s"

abbreviation data_of :: "nat \<Rightarrow> 'a bstate_scheme \<Rightarrow> u8 list" where
  "data_of i s \<equiv> bdata (bufs s ! i)"

section \<open>Words in a block\<close>

definition get16 :: "u8 list \<Rightarrow> nat \<Rightarrow> u16" where
  "get16 d o1 = ucast (d ! o1) OR push_bit 8 (ucast (d ! (o1 + 1)))"

definition get32 :: "u8 list \<Rightarrow> nat \<Rightarrow> u32" where
  "get32 d o1 = le32 (d ! o1) (d ! (o1 + 1)) (d ! (o1 + 2)) (d ! (o1 + 3))"

text \<open>Overwriting part of a block.\<close>

definition patch :: "u8 list \<Rightarrow> nat \<Rightarrow> u8 list \<Rightarrow> u8 list" where
  "patch d o1 bs = take o1 d @ bs @ drop (o1 + length bs) d"

definition bytes16 :: "u16 \<Rightarrow> u8 list" where
  "bytes16 w = [byte_of 0 w, byte_of 1 w]"

definition bytes32 :: "u32 \<Rightarrow> u8 list" where
  "bytes32 w = [byte_of 0 w, byte_of 1 w, byte_of 2 w, byte_of 3 w]"

definition put32 :: "u8 list \<Rightarrow> nat \<Rightarrow> u32 \<Rightarrow> u8 list" where
  "put32 d o1 w = patch d o1 (bytes32 w)"

section \<open>Frames\<close>

text \<open>No operation of the cache touches what later components add to the state.\<close>

lemma bstate_more_kstate: "kstate.more s' = kstate.more s \<Longrightarrow> bstate.more s' = bstate.more s"
  by (cases s; cases s'; simp)

lemma upd_buf_more [simp]: "bstate.more (upd_buf i f s) = bstate.more s"
  by (simp add: upd_buf_def)

lemma disk_rw_more [simp]: "bstate.more (disk_rw i w s) = bstate.more s"
  by (simp add: disk_rw_def Let_def)

lemma set_data_more [simp]: "bstate.more (set_data i d s) = bstate.more s"
  by (simp add: set_data_def)

lemma lock_buf_more: "lock_buf me i s = Ok (j, s') \<Longrightarrow> bstate.more s' = bstate.more s"
  by (auto simp: lock_buf_def split: option.splits)

lemma bget_more: "bget me dev b s = Ok (i, s') \<Longrightarrow> bstate.more s' = bstate.more s"
  by (auto simp: bget_def split: option.splits dest!: lock_buf_more)

lemma bread_more [kframe]: "bread me dev b s = Ok (i, s') \<Longrightarrow> bstate.more s' = bstate.more s"
  by (auto simp: bread_def split: if_splits dest!: bget_more)

lemma bwrite_more [kframe]: "bwrite me i s = Ok s' \<Longrightarrow> bstate.more s' = bstate.more s"
  by (auto simp: bwrite_def split: if_splits)

lemmas wakeup_bstate [simp] = bstate_more_kstate[OF wakeup_more]

lemma lru_more [simp]: "bstate.more (s\<lparr>lru := l\<rparr>) = bstate.more s"
  by simp

lemma brelse_more [kframe]: "brelse me i s = Ok s' \<Longrightarrow> bstate.more s' = bstate.more s"
  by (auto simp: brelse_def releasesleep_def Let_def split: if_splits)

section \<open>The cache as a map of blocks\<close>

text \<open>Buffer \<open>i\<close> is the one for block \<open>b\<close> of the device.\<close>

definition holds_block :: "u32 \<Rightarrow> 'a bstate_scheme \<Rightarrow> nat \<Rightarrow> u32 \<Rightarrow> bool" where
  "holds_block dev s i b \<longleftrightarrow> i < length (bufs s) \<and> bdev (bufs s ! i) = dev \<and> blockno (bufs s ! i) = b"

text \<open>
  The invariant: the list is an ordering of the buffers, no block has two buffers, a buffer in
  use is valid, one not in use is unlocked and, if valid, agrees with the disk.
\<close>

definition buf_ok :: "u32 \<Rightarrow> (u32 \<Rightarrow> u8 list) \<Rightarrow> buf \<Rightarrow> bool" where
  "buf_ok dev dk x \<longleftrightarrow>
     (refcnt x = 0 \<longrightarrow> \<not> slocked (block x) \<and> (bvalid x \<and> bdev x = dev \<longrightarrow> bdata x = dk (blockno x))) \<and>
     (refcnt x \<noteq> 0 \<longrightarrow> bvalid x \<and> bdev x = dev) \<and> (bvalid x \<longrightarrow> length (bdata x) = BSIZE)"

definition cache_ok :: "u32 \<Rightarrow> 'a bstate_scheme \<Rightarrow> bool" where
  "cache_ok dev s \<longleftrightarrow>
     distinct (lru s) \<and> set (lru s) = {..<length (bufs s)} \<and>
     (\<forall>i j b. holds_block dev s i b \<and> holds_block dev s j b \<longrightarrow> i = j) \<and>
     (\<forall>i<length (bufs s). buf_ok dev (disk s) (bufs s ! i)) \<and> (\<forall>b. length (disk s b) = BSIZE)"

text \<open>What a reader of a block gets, its reference count and the holder of its lock.\<close>

definition buf_of :: "u32 \<Rightarrow> 'a bstate_scheme \<Rightarrow> u32 \<Rightarrow> nat option" where
  "buf_of dev s b = List.find (\<lambda>i. bdev (bufs s ! i) = dev \<and> blockno (bufs s ! i) = b) (lru s)"

definition blk :: "u32 \<Rightarrow> 'a bstate_scheme \<Rightarrow> u32 \<Rightarrow> u8 list" where
  "blk dev s b = (case buf_of dev s b of None \<Rightarrow> disk s b
     | Some i \<Rightarrow> if bvalid (bufs s ! i) then bdata (bufs s ! i) else disk s b)"

definition rc :: "u32 \<Rightarrow> 'a bstate_scheme \<Rightarrow> u32 \<Rightarrow> nat" where
  "rc dev s b = (case buf_of dev s b of None \<Rightarrow> 0 | Some i \<Rightarrow> unat (refcnt (bufs s ! i)))"

definition holder :: "u32 \<Rightarrow> 'a bstate_scheme \<Rightarrow> u32 \<Rightarrow> int option" where
  "holder dev s b = (case buf_of dev s b of None \<Rightarrow> None
     | Some i \<Rightarrow> if slocked (block (bufs s ! i)) then Some (spid (block (bufs s ! i))) else None)"

definition free_bufs :: "'a bstate_scheme \<Rightarrow> nat set" where
  "free_bufs s = {i. i < length (bufs s) \<and> refcnt (bufs s ! i) = 0}"

text \<open>Buffer \<open>i\<close> is in use for block \<open>b\<close>.\<close>

definition owns :: "u32 \<Rightarrow> 'a bstate_scheme \<Rightarrow> nat \<Rightarrow> u32 \<Rightarrow> bool" where
  "owns dev s i b \<longleftrightarrow> holds_block dev s i b \<and> refcnt (bufs s ! i) \<noteq> 0"

lemma find_unique:
  assumes "\<And>m n. m \<in> set xs \<Longrightarrow> P m \<Longrightarrow> n \<in> set xs \<Longrightarrow> P n \<Longrightarrow> m = n"
  shows "List.find P xs = Some i \<longleftrightarrow> i \<in> set xs \<and> P i"
proof
  assume "List.find P xs = Some i"
  then show "i \<in> set xs \<and> P i" by (auto simp: find_Some_iff)
next
  assume a: "i \<in> set xs \<and> P i"
  then have "List.find P xs \<noteq> None" by (auto simp: find_None_iff)
  then obtain j where j: "List.find P xs = Some j" by auto
  then have "j \<in> set xs \<and> P j" by (auto simp: find_Some_iff)
  then show "List.find P xs = Some i" using a j assms by metis
qed

lemma buf_of_iff: "cache_ok dev s \<Longrightarrow> buf_of dev s b = Some i \<longleftrightarrow> holds_block dev s i b"
  unfolding buf_of_def
  by (subst find_unique) (auto simp: cache_ok_def holds_block_def)

lemma buf_of_None: "cache_ok dev s \<Longrightarrow> buf_of dev s b = None \<longleftrightarrow> (\<forall>i. \<not> holds_block dev s i b)"
  using buf_of_iff[of dev s b] by (metis not_None_eq)

lemma held_view:
  assumes "cache_ok dev s" "holds_block dev s i b"
  shows "blk dev s b = (if bvalid (bufs s ! i) then bdata (bufs s ! i) else disk s b)"
    "rc dev s b = unat (refcnt (bufs s ! i))"
    "holder dev s b = (if slocked (block (bufs s ! i)) then Some (spid (block (bufs s ! i))) else None)"
  using buf_of_iff[OF assms(1), of b i] assms(2) by (simp_all add: blk_def rc_def holder_def)

lemma none_view:
  assumes "cache_ok dev s" "\<forall>i. \<not> holds_block dev s i b"
  shows "blk dev s b = disk s b" "rc dev s b = 0" "holder dev s b = None"
  using buf_of_None[OF assms(1), of b] assms(2) by (simp_all add: blk_def rc_def holder_def)

lemma cache_ok_buf: "cache_ok dev s \<Longrightarrow> i < length (bufs s) \<Longrightarrow> buf_ok dev (disk s) (bufs s ! i)"
  by (simp add: cache_ok_def)

lemma cache_unique: "cache_ok dev s \<Longrightarrow> holds_block dev s i b \<Longrightarrow> holds_block dev s j b \<Longrightarrow> i = j"
  by (auto simp: cache_ok_def)

text \<open>A block nobody uses reads as it is on the disk.\<close>

lemma unused_blk: "cache_ok dev s \<Longrightarrow> rc dev s b = 0 \<Longrightarrow> blk dev s b = disk s b \<and> holder dev s b = None"
proof (cases "\<exists>i. holds_block dev s i b")
  case True
  assume a: "cache_ok dev s" "rc dev s b = 0"
  obtain i where i: "holds_block dev s i b" using True by auto
  have "refcnt (bufs s ! i) = 0" using a(2) held_view(2)[OF a(1) i] by (simp add: unat_eq_0)
  moreover have "buf_ok dev (disk s) (bufs s ! i)" using cache_ok_buf[OF a(1)] i by (auto simp: holds_block_def)
  ultimately show ?thesis using held_view[OF a(1) i] i by (auto simp: buf_ok_def holds_block_def)
qed (use none_view in auto)

lemma cached_length: "cache_ok dev s \<Longrightarrow> length (blk dev s b) = BSIZE"
proof (cases "\<exists>i. holds_block dev s i b")
  case True
  assume a: "cache_ok dev s"
  obtain i where i: "holds_block dev s i b" using True by auto
  have "buf_ok dev (disk s) (bufs s ! i)" using cache_ok_buf[OF a] i by (auto simp: holds_block_def)
  then show ?thesis using held_view(1)[OF a i] a by (simp add: buf_ok_def cache_ok_def)
next
  case False
  assume a: "cache_ok dev s"
  have "blk dev s b = disk s b" using none_view(1)[OF a] False by blast
  then show ?thesis using a by (simp add: cache_ok_def)
qed

lemma owns_view:
  assumes "cache_ok dev s" "owns dev s i b"
  shows "blk dev s b = data_of i s" "rc dev s b = unat (refcnt (bufs s ! i))"
    "holder dev s b = (if slocked (block (bufs s ! i)) then Some (spid (block (bufs s ! i))) else None)"
    "0 < rc dev s b"
proof -
  have h: "holds_block dev s i b" and r: "refcnt (bufs s ! i) \<noteq> 0" using assms(2) by (simp_all add: owns_def)
  have v: "bvalid (bufs s ! i)" using cache_ok_buf[OF assms(1), of i] h r by (auto simp: buf_ok_def holds_block_def)
  show "blk dev s b = data_of i s" "rc dev s b = unat (refcnt (bufs s ! i))"
    "holder dev s b = (if slocked (block (bufs s ! i)) then Some (spid (block (bufs s ! i))) else None)"
    "0 < rc dev s b"
    using held_view[OF assms(1) h] v r by (simp_all add: unat_gt_0)
qed

lemma owns_exists: "cache_ok dev s \<Longrightarrow> 0 < rc dev s b \<Longrightarrow> \<exists>i. owns dev s i b"
  by (cases "\<exists>i. holds_block dev s i b") (auto simp: owns_def held_view none_view)

text \<open>Changing the record of one buffer that keeps its block.\<close>

lemma upd_keep_block:
  assumes ok: "cache_ok dev s" and h: "holds_block dev s i b"
    and s': "bufs s' = (bufs s)[i := x]" "set (lru s') = set (lru s)" "distinct (lru s')"
    and x: "bdev x = dev" "blockno x = b" "buf_ok dev (disk s') x"
    and d: "\<And>b'. b' \<noteq> b \<Longrightarrow> disk s' b' = disk s b'" "length (disk s' b) = BSIZE"
  shows "cache_ok dev s'"
    "blk dev s' = (blk dev s)(b := if bvalid x then bdata x else disk s' b)"
    "rc dev s' = (rc dev s)(b := unat (refcnt x))"
    "holder dev s' = (holder dev s)(b := if slocked (block x) then Some (spid (block x)) else None)"
    "\<And>j b'. holds_block dev s' j b' \<longleftrightarrow> holds_block dev s j b'"
proof -
  have i: "i < length (bufs s)" "bdev (bufs s ! i) = dev" "blockno (bufs s ! i) = b" using h by (simp_all add: holds_block_def)
  show hb: "holds_block dev s' j b' \<longleftrightarrow> holds_block dev s j b'" for j b'
    using i x by (auto simp: holds_block_def s'(1) nth_list_update)
  have bo: "buf_ok dev (disk s') (bufs s' ! j)" if j: "j < length (bufs s')" for j
  proof (cases "j = i")
    case True
    then show ?thesis using x(3) i by (simp add: s'(1))
  next
    case False
    then have e: "bufs s' ! j = bufs s ! j" by (simp add: s'(1))
    have "buf_ok dev (disk s) (bufs s ! j)" using cache_ok_buf[OF ok] j by (simp add: s'(1))
    moreover have "blockno (bufs s ! j) \<noteq> b" if "bdev (bufs s ! j) = dev"
      using cache_unique[OF ok h, of j] that False j by (auto simp: holds_block_def s'(1))
    ultimately show ?thesis using d(1) by (auto simp: e buf_ok_def)
  qed
  have "length (disk s' b') = BSIZE" for b' using d ok by (cases "b' = b") (auto simp: cache_ok_def)
  then show ok': "cache_ok dev s'"
    using ok bo hb s' by (auto simp: cache_ok_def)
  have other: "blk dev s' b' = blk dev s b' \<and> rc dev s' b' = rc dev s b' \<and> holder dev s' b' = holder dev s b'" if b': "b' \<noteq> b" for b'
  proof (cases "\<exists>j. holds_block dev s j b'")
    case True
    then obtain j where j: "holds_block dev s j b'" by auto
    then have "j \<noteq> i" using i b' by (auto simp: holds_block_def)
    then have "bufs s' ! j = bufs s ! j" by (simp add: s'(1))
    then show ?thesis using held_view[OF ok j] held_view[OF ok', of j b'] j hb d(1)[OF b'] by simp
  next
    case False
    then show ?thesis using none_view[OF ok, of b'] none_view[OF ok', of b'] hb d(1)[OF b'] by simp
  qed
  have xi: "bufs s' ! i = x" using i by (simp add: s'(1))
  have "holds_block dev s' i b" using h hb by simp
  note v = held_view[OF ok' this, unfolded xi]
  show "blk dev s' = (blk dev s)(b := if bvalid x then bdata x else disk s' b)"
    "rc dev s' = (rc dev s)(b := unat (refcnt x))"
    "holder dev s' = (holder dev s)(b := if slocked (block x) then Some (spid (block x)) else None)"
    using other v by (auto simp: fun_eq_iff)
qed


text \<open>Giving a free buffer to another block.\<close>

lemma recycle:
  assumes ok: "cache_ok dev s" and i: "i < length (bufs s)" "refcnt (bufs s ! i) = 0"
    and none: "\<forall>j. \<not> holds_block dev s j b"
    and s': "bufs s' = (bufs s)[i := x]" "lru s' = lru s" "disk s' = disk s"
    and x: "bdev x = dev" "blockno x = b" "bvalid x" "bdata x = disk s b" "refcnt x \<noteq> 0"
  shows "cache_ok dev s'" "blk dev s' = blk dev s" "rc dev s' = (rc dev s)(b := unat (refcnt x))"
    "holder dev s' = (holder dev s)(b := if slocked (block x) then Some (spid (block x)) else None)"
    "holds_block dev s' i b" "\<And>j b'. owns dev s j b' \<Longrightarrow> owns dev s' j b'"
proof -
  have hb: "holds_block dev s' j b' \<longleftrightarrow> (if j = i then b' = b else holds_block dev s j b')" for j b'
    using i x by (auto simp: holds_block_def s'(1) nth_list_update)
  have len: "length (disk s b') = BSIZE" for b' using ok by (simp add: cache_ok_def)
  have bo: "buf_ok dev (disk s') (bufs s' ! j)" if j: "j < length (bufs s')" for j
    using that x len cache_ok_buf[OF ok, of j] i by (cases "j = i") (auto simp: s' buf_ok_def)
  have un: "j = k" if "holds_block dev s' j b'" "holds_block dev s' k b'" for j k b'
    using that none cache_unique[OF ok] by (auto simp: hb split: if_splits)
  show ok': "cache_ok dev s'" using ok bo un len by (simp add: cache_ok_def s') blast
  have xi: "bufs s' ! i = x" using i by (simp add: s'(1))
  show hi: "holds_block dev s' i b" by (simp add: hb)
  note v = held_view[OF ok' hi, unfolded xi]
  have vb: "blk dev s b = disk s b" using none_view(1)[OF ok none] .
  have other: "blk dev s' b' = blk dev s b' \<and> rc dev s' b' = rc dev s b' \<and> holder dev s' b' = holder dev s b'" if b': "b' \<noteq> b" for b'
  proof -
    show ?thesis
    proof (cases "\<exists>j. holds_block dev s j b'")
      case True
      then obtain j where j: "holds_block dev s j b'" by auto
      show ?thesis
      proof (cases "j = i")
        case False
        then have "bufs s' ! j = bufs s ! j" by (simp add: s'(1))
        moreover have j': "holds_block dev s' j b'" using False j hb[of j b'] by simp
        ultimately show ?thesis using held_view[OF ok j] held_view[OF ok' j'] s'(3) by simp
      next
        case True
        have r0: "rc dev s b' = 0" using held_view(2)[OF ok j] i True by simp
        then have u: "blk dev s b' = disk s b' \<and> holder dev s b' = None" by (rule unused_blk[OF ok])
        have nk: "\<not> holds_block dev s' k b'" for k
        proof
          assume h: "holds_block dev s' k b'"
          then have "k \<noteq> i" "holds_block dev s k b'" using b' hb[of k b'] by (auto split: if_splits)
          then show False using cache_unique[OF ok j, of k] True by simp
        qed
        then have "\<forall>k. \<not> holds_block dev s' k b'" by blast
        note none_view[OF ok' this]
        then show ?thesis using u r0 s'(3) by simp
      qed
    next
      case False
      then have n: "\<forall>k. \<not> holds_block dev s k b'" by blast
      then have "\<not> holds_block dev s' k b'" for k using b' hb[of k b'] by simp
      then have n': "\<forall>k. \<not> holds_block dev s' k b'" by blast
      show ?thesis using none_view[OF ok' n'] none_view[OF ok n] s'(3) by simp
    qed
  qed
  show "blk dev s' = blk dev s" "rc dev s' = (rc dev s)(b := unat (refcnt x))"
    "holder dev s' = (holder dev s)(b := if slocked (block x) then Some (spid (block x)) else None)"
  proof -
    have "blk dev s' b' = blk dev s b' \<and> rc dev s' b' = ((rc dev s)(b := unat (refcnt x))) b' \<and>
       holder dev s' b' = ((holder dev s)(b := if slocked (block x) then Some (spid (block x)) else None)) b'" for b'
      by (cases "b' = b") (use other[of b'] v vb x in simp_all)
    then show "blk dev s' = blk dev s" "rc dev s' = (rc dev s)(b := unat (refcnt x))"
      "holder dev s' = (holder dev s)(b := if slocked (block x) then Some (spid (block x)) else None)"
      by (simp_all add: fun_eq_iff)
  qed
  show "owns dev s' j b'" if "owns dev s j b'" for j b'
  proof -
    have "j \<noteq> i" using that i by (auto simp: owns_def)
    then show ?thesis using that by (simp add: owns_def hb s'(1))
  qed
qed

section \<open>The operations on blocks\<close>

lemma upd_buf_simps [simp]:
  "bufs (upd_buf i f s) = (bufs s)[i := f (bufs s ! i)]" "lru (upd_buf i f s) = lru s"
  "disk (upd_buf i f s) = disk s" "disk_trace (upd_buf i f s) = disk_trace s"
  "procs (upd_buf i f s) = procs s" "bstate.more (upd_buf i f s) = bstate.more s"
  by (simp_all add: upd_buf_def)

lemma mypid_procs: "procs s' = procs s \<Longrightarrow> mypid me s' = mypid me s"
  by (simp add: mypid_def)

text \<open>
  \<open>bread\<close> of a block nobody has locked, when it is in use or some buffer is free: the data is the
  block's, its count goes up and the process has its lock; nothing else changes.
\<close>

definition got_block :: "u32 \<Rightarrow> nat \<Rightarrow> 'a bstate_scheme \<Rightarrow> u32 \<Rightarrow> nat \<Rightarrow> 'a bstate_scheme \<Rightarrow> bool" where
  "got_block dev me s b i s' \<longleftrightarrow>
     cache_ok dev s' \<and> owns dev s' i b \<and> blk dev s' = blk dev s \<and> disk s' = disk s \<and> disk_trace s' = disk_trace s \<and>
     rc dev s' = (rc dev s)(b := Suc (rc dev s b)) \<and> holder dev s' = (holder dev s)(b := Some (mypid me s)) \<and>
     (\<forall>j b'. owns dev s j b' \<longrightarrow> owns dev s' j b') \<and> procs s' = procs s \<and>
     (if rc dev s b = 0 then card (free_bufs s) = Suc (card (free_bufs s')) else free_bufs s' = free_bufs s)"

lemma lock_buf_free: "\<not> slocked (block (bufs s ! i)) \<Longrightarrow>
    lock_buf me i s = Ok (i, upd_buf i (\<lambda>b. b\<lparr>block := \<lparr>slocked = True, spid = mypid me s\<rparr>\<rparr>) s)"
  by (simp add: lock_buf_def acquiresleep_def)

lemma unat_plus_one: "Suc (unat (x :: u32)) < 2 ^ 32 \<Longrightarrow> unat (x + 1) = Suc (unat x)"
  using unat_Suc_small[of x "2 ^ 32 - 1"] by simp

lemma free_card: "finite (free_bufs s)"
  by (simp add: free_bufs_def)

lemma bread_got:
  assumes ok: "cache_ok dev s" and lk: "holder dev s b = None" and room: "Suc (rc dev s b) < 2 ^ 32"
    and av: "0 < rc dev s b \<or> free_bufs s \<noteq> {}"
  shows "\<exists>i s'. bread me dev b s = Ok (i, s') \<and> got_block dev me s b i s'"
proof (cases "\<exists>i. holds_block dev s i b")
  case True
  then obtain i where h: "holds_block dev s i b" by auto
  define x where "x = bufs s ! i"
  have i: "i < length (bufs s)" "bdev x = dev" "blockno x = b" using h by (simp_all add: holds_block_def x_def)
  have bo: "buf_ok dev (disk s) x" using cache_ok_buf[OF ok i(1)] by (simp add: x_def)
  have un: "\<not> slocked (block x)" using held_view(3)[OF ok h] lk by (auto simp: x_def split: if_splits)
  have r: "rc dev s b = unat (refcnt x)" using held_view(2)[OF ok h] by (simp add: x_def)
  have u1: "unat (refcnt x + 1) = Suc (unat (refcnt x))" using room r unat_plus_one by simp
  define d where "d = (if bvalid x then bdata x else disk s b)"
  define y where "y = x\<lparr>refcnt := refcnt x + 1, block := \<lparr>slocked = True, spid = mypid me s\<rparr>, bdata := d, bvalid := True\<rparr>"
  define s' where "s' = upd_buf i (\<lambda>_. y) s"
  have dlen: "length d = BSIZE" using bo ok by (simp add: d_def buf_ok_def cache_ok_def)
  have f: "List.find (\<lambda>i. bdev (bufs s ! i) = dev \<and> blockno (bufs s ! i) = b) (lru s) = Some i"
    using buf_of_iff[OF ok, of b i] h by (simp add: buf_of_def)
  have yv: "bvalid x \<Longrightarrow> y = x\<lparr>refcnt := refcnt x + 1, block := \<lparr>slocked = True, spid = mypid me s\<rparr>\<rparr>"
    by (cases x) (simp add: y_def d_def)
  have run: "bread me dev b s = Ok (i, s')"
  proof (cases "bvalid x")
    case True
    have b1: "bget me dev b s = Ok (i, s')"
      using i un by (simp add: bget_def f lock_buf_def acquiresleep_def x_def[symmetric] s'_def yv[OF True] upd_buf_def mypid_def)
    have "bvalid (bufs s' ! i)" using i by (simp add: s'_def upd_buf_def y_def)
    then show ?thesis using b1 by (simp add: bread_def)
  next
    case False
    then show ?thesis using i un by (simp add: bread_def bget_def f lock_buf_def acquiresleep_def x_def[symmetric] disk_rw_def
        s'_def y_def d_def upd_buf_def mypid_def Let_def)
  qed
  have nz: "refcnt y \<noteq> 0" using u1 by (auto simp: y_def unat_eq_0[symmetric])
  have yo: "buf_ok dev (disk s') y" using nz dlen i by (simp add: buf_ok_def y_def s'_def)
  have p: "bufs s' = (bufs s)[i := y]" "set (lru s') = set (lru s)" "distinct (lru s')" "disk s' = disk s"
    using ok by (simp_all add: s'_def cache_ok_def)
  have q: "bdev y = dev" "blockno y = b" "bvalid y" "bdata y = d" "block y = \<lparr>slocked = True, spid = mypid me s\<rparr>"
    "unat (refcnt y) = Suc (rc dev s b)" using i u1 r by (simp_all add: y_def)
  have dl: "length (disk s' b) = BSIZE" "\<And>b'. b' \<noteq> b \<Longrightarrow> disk s' b' = disk s b'" using ok p(4) by (simp_all add: cache_ok_def)
  note k = upd_keep_block[OF ok h p(1-3) q(1,2) yo dl(2) dl(1)]
  have k': "cache_ok dev s'" "blk dev s' = (blk dev s)(b := d)" "rc dev s' = (rc dev s)(b := Suc (rc dev s b))"
     "holder dev s' = (holder dev s)(b := Some (mypid me s))"
    using k(1-4) by (simp_all only: q sleeplock.simps if_True simp_thms)
  have "blk dev s b = d" using held_view(1)[OF ok h] by (simp add: d_def x_def)
  then have vb: "blk dev s' = blk dev s" using k'(2) by auto
  have ow: "owns dev s j b' \<Longrightarrow> owns dev s' j b'" for j b'
    using k(5)[of j b'] nz i by (auto simp: owns_def s'_def nth_list_update)
  have o': "owns dev s' i b" using k(5)[of i b] h nz i by (simp add: owns_def s'_def)
  have fr: "free_bufs s' = free_bufs s - {i}" using nz i(1) by (auto simp: free_bufs_def s'_def nth_list_update split: if_splits)
  have "if rc dev s b = 0 then card (free_bufs s) = Suc (card (free_bufs s')) else free_bufs s' = free_bufs s"
  proof (cases "rc dev s b = 0")
    case True
    then have "i \<in> free_bufs s" using r i(1) by (simp add: free_bufs_def x_def unat_eq_0)
    then show ?thesis using True fr card_Suc_Diff1[OF free_card, of i s] by simp
  next
    case False
    then have "i \<notin> free_bufs s" using r by (auto simp: free_bufs_def x_def)
    then show ?thesis using False fr by simp
  qed
  moreover have "disk s' = disk s" "disk_trace s' = disk_trace s" "procs s' = procs s" by (simp_all add: s'_def)
  ultimately have "got_block dev me s b i s'" using k'(1,3,4) vb ow o' by (simp add: got_block_def)
  then show ?thesis using run by blast
next
  case none: False
  then have r0: "rc dev s b = 0" using none_view(2)[OF ok] by blast
  have f1: "List.find (\<lambda>i. bdev (bufs s ! i) = dev \<and> blockno (bufs s ! i) = b) (lru s) = None"
    using buf_of_None[OF ok, of b] none by (simp add: buf_of_def)
  have "List.find (\<lambda>i. refcnt (bufs s ! i) = 0) (rev (lru s)) \<noteq> None"
    using av r0 ok by (auto simp: find_None_iff free_bufs_def cache_ok_def)
  then obtain i where f2: "List.find (\<lambda>i. refcnt (bufs s ! i) = 0) (rev (lru s)) = Some i" by auto
  then obtain k where "k < length (rev (lru s))" "refcnt (bufs s ! (rev (lru s) ! k)) = 0" "i = rev (lru s) ! k"
    by (auto simp: find_Some_iff)
  then have "i \<in> set (rev (lru s)) \<and> refcnt (bufs s ! i) = 0" using nth_mem by metis
  then have i: "i < length (bufs s)" "refcnt (bufs s ! i) = 0" using ok by (auto simp: cache_ok_def)
  define x where "x = bufs s ! i"
  have un: "\<not> slocked (block x)" using cache_ok_buf[OF ok i(1)] i(2) by (simp add: buf_ok_def x_def)
  define y where "y = x\<lparr>bdev := dev, blockno := b, refcnt := 1, block := \<lparr>slocked = True, spid = mypid me s\<rparr>, bdata := disk s b, bvalid := True\<rparr>"
  define s' where "s' = upd_buf i (\<lambda>_. y) s"
  have run: "bread me dev b s = Ok (i, s')"
    using i un by (simp add: bread_def bget_def f1 f2 lock_buf_def acquiresleep_def x_def[symmetric] disk_rw_def
        s'_def y_def upd_buf_def mypid_def Let_def)
  have n: "\<forall>j. \<not> holds_block dev s j b" using none by blast
  note k = recycle[OF ok i n, of s' y]
  have k': "cache_ok dev s'" "blk dev s' = blk dev s" "rc dev s' = (rc dev s)(b := Suc 0)"
     "holder dev s' = (holder dev s)(b := Some (mypid me s))" "holds_block dev s' i b"
     "owns dev s j b' \<Longrightarrow> owns dev s' j b'" for j b'
    using k by (simp_all add: s'_def y_def)
  have fr: "free_bufs s' = free_bufs s - {i}" using i(1) by (auto simp: free_bufs_def s'_def nth_list_update y_def split: if_splits)
  have "i \<in> free_bufs s" using i by (simp add: free_bufs_def)
  then have "card (free_bufs s) = Suc (card (free_bufs s'))" using fr card_Suc_Diff1[OF free_card, of i s] by simp
  moreover have "owns dev s' i b" using k'(5) i by (simp add: owns_def s'_def y_def)
  moreover have "disk s' = disk s" "disk_trace s' = disk_trace s" "procs s' = procs s" by (simp_all add: s'_def)
  ultimately have "got_block dev me s b i s'" using k'(1-4,6) r0 by (simp add: got_block_def)
  then show ?thesis using run by blast
qed

lemma wakeup_pids: "map pid (procs (wakeup me ch s)) = map pid (procs s)"
proof -
  have one: "map pid (procs (wakeup_one ch i s)) = map pid (procs s)" for i s
    by (cases "i < length (procs s)")
       (auto simp: wakeup_one_def tick_sys_time_def Let_def map_update list_update_beyond intro!: list_update_same_conv[THEN iffD2])
  have "map pid (procs (wakeup_loop is me ch s)) = map pid (procs s)" for "is"
    by (induction "is" arbitrary: s) (simp_all add: one)
  then show ?thesis by (simp add: wakeup_def)
qed

lemma mypid_wakeup: "me < length (procs s) \<Longrightarrow> mypid me (wakeup w ch s) = mypid me s"
  using wakeup_pids[of w ch s] by (metis mypid_def nth_map wakeup_length)

lemma bstate_fields:
  assumes "iostate.more s' = iostate.more s"
  shows "bufs s' = bufs s" "lru s' = lru s" "disk s' = disk s" "disk_trace s' = disk_trace s"
  using assms by (cases s; cases s'; simp)+

lemma iostate_more_kstate: "kstate.more s' = kstate.more s \<Longrightarrow> iostate.more s' = iostate.more s"
  by (cases s; cases s'; simp)

lemmas wakeup_bufs [simp] = bstate_fields[OF iostate_more_kstate[OF wakeup_more]]

text \<open>What the other operations do, for a block in use by \<open>me\<close>.\<close>

definition mine :: "u32 \<Rightarrow> nat \<Rightarrow> 'a bstate_scheme \<Rightarrow> nat \<Rightarrow> u32 \<Rightarrow> bool" where
  "mine dev me s i b \<longleftrightarrow> owns dev s i b \<and> holder dev s b = Some (mypid me s)"

lemma mine_facts:
  assumes "cache_ok dev s" "mine dev me s i b"
  shows "holds_block dev s i b" "i < length (bufs s)" "blockno (bufs s ! i) = b" "bdev (bufs s ! i) = dev"
    "holdingsleep (mypid me s) (block (bufs s ! i))" "bvalid (bufs s ! i)" "refcnt (bufs s ! i) \<noteq> 0"
    "blk dev s b = data_of i s" "rc dev s b = unat (refcnt (bufs s ! i))"
proof -
  have o: "owns dev s i b" "holder dev s b = Some (mypid me s)" using assms(2) by (simp_all add: mine_def)
  show h: "holds_block dev s i b" "refcnt (bufs s ! i) \<noteq> 0" using o(1) by (simp_all add: owns_def)
  then show l: "i < length (bufs s)" "blockno (bufs s ! i) = b" "bdev (bufs s ! i) = dev" by (simp_all add: holds_block_def)
  show "holdingsleep (mypid me s) (block (bufs s ! i))"
    using owns_view(3)[OF assms(1) o(1)] o(2) by (auto simp: holdingsleep_def split: if_splits)
  show "bvalid (bufs s ! i)" using cache_ok_buf[OF assms(1) l(1)] h(2) by (simp add: buf_ok_def)
  show "blk dev s b = data_of i s" "rc dev s b = unat (refcnt (bufs s ! i))"
    using owns_view(1,2)[OF assms(1) o(1)] by simp_all
qed

lemma set_data_view:
  assumes ok: "cache_ok dev s" and m: "mine dev me s i b" and d: "length d = BSIZE"
  shows "cache_ok dev (set_data i d s)" "blk dev (set_data i d s) = (blk dev s)(b := d)"
    "rc dev (set_data i d s) = rc dev s" "holder dev (set_data i d s) = holder dev s"
    "\<And>j b'. owns dev s j b' \<Longrightarrow> owns dev (set_data i d s) j b'" "free_bufs (set_data i d s) = free_bufs s"
    "mine dev me (set_data i d s) i b"
proof -
  note f = mine_facts[OF ok m]
  define x where "x = (bufs s ! i)\<lparr>bdata := d\<rparr>"
  let ?s = "set_data i d s"
  have p: "bufs ?s = (bufs s)[i := x]" "set (lru ?s) = set (lru s)" "distinct (lru ?s)" "disk ?s = disk s"
    using ok by (simp_all add: set_data_def x_def cache_ok_def)
  have q: "bdev x = dev" "blockno x = b" "refcnt x = refcnt (bufs s ! i)" "block x = block (bufs s ! i)" "bvalid x" "bdata x = d"
    using f by (simp_all add: x_def)
  have xo: "buf_ok dev (disk ?s) x" using f d q by (simp add: buf_ok_def)
  have dl: "length (disk ?s b) = BSIZE" "\<And>b'. b' \<noteq> b \<Longrightarrow> disk ?s b' = disk s b'" using ok p(4) by (simp_all add: cache_ok_def)
  note k = upd_keep_block[OF ok f(1) p(1-3) q(1,2) xo dl(2) dl(1)]
  have h: "holder dev s b = (if slocked (block (bufs s ! i)) then Some (spid (block (bufs s ! i))) else None)"
    using held_view(3)[OF ok f(1)] .
  show "cache_ok dev ?s" using k(1) by simp
  show "blk dev ?s = (blk dev s)(b := d)" using k(2) q by simp
  show "rc dev ?s = rc dev s" using k(3) q f(9) by auto
  show hh: "holder dev ?s = holder dev s" using k(4) q h by auto
  show ow: "owns dev s j b' \<Longrightarrow> owns dev ?s j b'" for j b'
    using k(5)[of j b'] f(2,7) q(3) p(1) by (auto simp: owns_def nth_list_update)
  show "free_bufs ?s = free_bufs s" using f(2,7) q(3) p(1) by (auto simp: free_bufs_def nth_list_update split: if_splits)
  have "mypid me ?s = mypid me s" by (simp add: mypid_def set_data_def)
  then show "mine dev me ?s i b" using m ow hh by (simp add: mine_def)
qed

lemma bwrite_view:
  assumes ok: "cache_ok dev s" and m: "mine dev me s i b"
  shows "\<exists>s'. bwrite me i s = Ok s' \<and> cache_ok dev s' \<and> blk dev s' = blk dev s \<and> disk s' = (disk s)(b := blk dev s b) \<and>
     disk_trace s' = disk_trace s @ [(b, blk dev s b)] \<and> rc dev s' = rc dev s \<and> holder dev s' = holder dev s \<and>
     (\<forall>j b'. owns dev s j b' \<longrightarrow> owns dev s' j b') \<and> free_bufs s' = free_bufs s \<and> procs s' = procs s \<and> mine dev me s' i b"
proof -
  note f = mine_facts[OF ok m]
  define s' where "s' = s\<lparr>disk := (disk s)(b := data_of i s), disk_trace := disk_trace s @ [(b, data_of i s)]\<rparr>"
  have run: "bwrite me i s = Ok s'" using f by (simp add: bwrite_def disk_rw_def s'_def Let_def)
  define x where "x = bufs s ! i"
  have p: "bufs s' = (bufs s)[i := x]" "set (lru s') = set (lru s)" "distinct (lru s')"
    using ok by (simp_all add: s'_def x_def cache_ok_def)
  have q: "bdev x = dev" "blockno x = b" "bvalid x" "bdata x = blk dev s b" "unat (refcnt x) = rc dev s b" using f by (simp_all add: x_def)
  have l: "length (blk dev s b) = BSIZE" by (rule cached_length[OF ok])
  have xo: "buf_ok dev (disk s') x" using f l by (simp add: buf_ok_def x_def)
  have dl: "\<And>b'. b' \<noteq> b \<Longrightarrow> disk s' b' = disk s b'" "length (disk s' b) = BSIZE" using l f(8) by (simp_all add: s'_def)
  note k = upd_keep_block[OF ok f(1) p q(1,2) xo dl]
  have h: "holder dev s b = (if slocked (block x) then Some (spid (block x)) else None)"
    using held_view(3)[OF ok f(1)] by (simp add: x_def)
  have hh: "holder dev s' = holder dev s" using k(4) h by auto
  have ow: "owns dev s j b' \<longrightarrow> owns dev s' j b'" for j b' using k(5)[of j b'] by (simp add: owns_def s'_def)
  have "mypid me s' = mypid me s" by (simp add: mypid_def s'_def)
  then have "mine dev me s' i b" using m ow hh by (simp add: mine_def)
  moreover have "blk dev s' = blk dev s" "rc dev s' = rc dev s" using k(2,3) q by auto
  moreover have "cache_ok dev s'" using k(1) by simp
  moreover have "disk s' = (disk s)(b := blk dev s b)" "disk_trace s' = disk_trace s @ [(b, blk dev s b)]"
    "free_bufs s' = free_bufs s" "procs s' = procs s" using f(8) by (simp_all add: s'_def free_bufs_def)
  ultimately show ?thesis using run hh ow by blast
qed


text \<open>The count of a block in use goes down by one, for a block that is clean if nobody keeps it.\<close>

lemma drop_ref:
  assumes ok: "cache_ok dev s" and h: "holds_block dev s i b" and r: "refcnt (bufs s ! i) \<noteq> 0"
    and s': "bufs s' = (bufs s)[i := (bufs s ! i)\<lparr>block := lk, refcnt := refcnt (bufs s ! i) - 1\<rparr>]"
      "set (lru s') = set (lru s)" "distinct (lru s')" "disk s' = disk s"
    and clean: "rc dev s b = 1 \<Longrightarrow> blk dev s b = disk s b \<and> \<not> slocked lk"
  shows "cache_ok dev s'" "blk dev s' = blk dev s" "rc dev s' = (rc dev s)(b := rc dev s b - 1)"
    "holder dev s' = (holder dev s)(b := if slocked lk then Some (spid lk) else None)"
    "\<And>j b'. owns dev s j b' \<Longrightarrow> b' \<noteq> b \<or> rc dev s b > 1 \<Longrightarrow> owns dev s' j b'"
    "if rc dev s b = 1 then card (free_bufs s') = Suc (card (free_bufs s)) else free_bufs s' = free_bufs s"
proof -
  define x where "x = (bufs s ! i)\<lparr>block := lk, refcnt := refcnt (bufs s ! i) - 1\<rparr>"
  have i: "i < length (bufs s)" "bdev (bufs s ! i) = dev" "blockno (bufs s ! i) = b" using h by (simp_all add: holds_block_def)
  have o: "owns dev s i b" using h r by (simp add: owns_def)
  note v = owns_view[OF ok o]
  have vl: "bvalid (bufs s ! i)" "length (data_of i s) = BSIZE" using cache_ok_buf[OF ok i(1)] r by (simp_all add: buf_ok_def)
  have u: "unat (refcnt (bufs s ! i) - 1) = rc dev s b - 1" using r v(2) by (simp add: unat_minus_one)
  have q: "bdev x = dev" "blockno x = b" "bvalid x" "bdata x = blk dev s b" "unat (refcnt x) = rc dev s b - 1" "block x = lk"
    using i v vl u by (simp_all add: x_def)
  have z: "refcnt x = 0 \<longleftrightarrow> rc dev s b = 1" using q(5) v(4) by (auto simp: unat_eq_0[symmetric])
  have xo: "buf_ok dev (disk s') x" using q z clean vl v(1) s'(4) by (auto simp: buf_ok_def)
  have p: "bufs s' = (bufs s)[i := x]" using s'(1) by (simp add: x_def)
  have dl: "\<And>b'. b' \<noteq> b \<Longrightarrow> disk s' b' = disk s b'" "length (disk s' b) = BSIZE" using ok s'(4) by (simp_all add: cache_ok_def)
  note k = upd_keep_block[OF ok h p s'(2,3) q(1,2) xo dl]
  show "cache_ok dev s'" using k(1) by simp
  show "blk dev s' = blk dev s" using k(2) q by auto
  show "rc dev s' = (rc dev s)(b := rc dev s b - 1)" using k(3) q(5) by simp
  show "holder dev s' = (holder dev s)(b := if slocked lk then Some (spid lk) else None)" using k(4) q by simp
  show "owns dev s' j b'" if "owns dev s j b'" "b' \<noteq> b \<or> rc dev s b > 1" for j b'
  proof (cases "j = i")
    case True
    then have "b' = b" using that(1) i by (simp add: owns_def holds_block_def)
    then have "refcnt x \<noteq> 0" using that(2) z by auto
    then show ?thesis using k(5)[of j b'] that(1) True p i by (simp add: owns_def)
  next
    case False
    then show ?thesis using k(5)[of j b'] that(1) p by (simp add: owns_def)
  qed
  show "if rc dev s b = 1 then card (free_bufs s') = Suc (card (free_bufs s)) else free_bufs s' = free_bufs s"
  proof (cases "rc dev s b = 1")
    case True
    then have "free_bufs s' = insert i (free_bufs s)" "i \<notin> free_bufs s"
      using p i r z by (auto simp: free_bufs_def nth_list_update split: if_splits)
    then show ?thesis using True free_card[of s] by simp
  next
    case False
    then have "free_bufs s' = free_bufs s" using p i r z by (auto simp: free_bufs_def nth_list_update split: if_splits)
    then show ?thesis using False by simp
  qed
qed

text \<open>What \<open>brelse\<close> does to a block whose lock \<open>me\<close> has.\<close>

definition put_block :: "u32 \<Rightarrow> nat \<Rightarrow> 'a bstate_scheme \<Rightarrow> u32 \<Rightarrow> 'a bstate_scheme \<Rightarrow> bool" where
  "put_block dev me s b s' \<longleftrightarrow>
     cache_ok dev s' \<and> blk dev s' = blk dev s \<and> disk s' = disk s \<and> disk_trace s' = disk_trace s \<and>
     rc dev s' = (rc dev s)(b := rc dev s b - 1) \<and> holder dev s' = (holder dev s)(b := None) \<and>
     (\<forall>j b'. owns dev s j b' \<and> (b' \<noteq> b \<or> rc dev s b > 1) \<longrightarrow> owns dev s' j b') \<and>
     map pid (procs s') = map pid (procs s) \<and>
     (if rc dev s b = 1 then card (free_bufs s') = Suc (card (free_bufs s)) else free_bufs s' = free_bufs s)"

lemma brelse_put:
  assumes ok: "cache_ok dev s" and m: "mine dev me s i b" and clean: "rc dev s b = 1 \<Longrightarrow> blk dev s b = disk s b"
  shows "\<exists>s'. brelse me i s = Ok s' \<and> put_block dev me s b s'"
proof -
  note f = mine_facts[OF ok m]
  define lk where "lk = \<lparr>slocked = False, spid = 0 :: int\<rparr>"
  define w where "w = wakeup (Some me) (buf_chan i) s"
  define y where "y = (bufs s ! i)\<lparr>block := lk, refcnt := refcnt (bufs s ! i) - 1\<rparr>"
  define s2 where "s2 = upd_buf i (\<lambda>_. y) w"
  define s' where "s' = (if refcnt y = 0 then s2\<lparr>lru := i # remove1 i (lru s2)\<rparr> else s2)"
  have run: "brelse me i s = Ok s'"
    using f(2,5) by (simp add: brelse_def releasesleep_def Let_def w_def s2_def s'_def y_def lk_def upd_buf_def)
  have il: "i \<in> set (lru s)" and dl: "distinct (lru s)" using ok f(2) by (auto simp: cache_ok_def)
  have p: "bufs s' = (bufs s)[i := (bufs s ! i)\<lparr>block := lk, refcnt := refcnt (bufs s ! i) - 1\<rparr>]"
    by (simp add: s'_def s2_def w_def y_def)
  have l: "set (lru s') = set (lru s)" "distinct (lru s')" "disk s' = disk s" "disk_trace s' = disk_trace s"
    using il dl by (auto simp: s'_def s2_def w_def)
  note k = drop_ref[OF ok f(1,7) p l(1-3)]
  have "map pid (procs s') = map pid (procs s)" by (simp add: s'_def s2_def w_def wakeup_pids)
  then have "put_block dev me s b s'"
    using k clean l by (simp add: put_block_def lk_def)
  then show ?thesis using run by blast
qed

lemma bunpin_view:
  assumes ok: "cache_ok dev s" and m: "mine dev me s i b" and r: "rc dev s b > 1"
  shows "cache_ok dev (bunpin i s)" "blk dev (bunpin i s) = blk dev s" "rc dev (bunpin i s) = (rc dev s)(b := rc dev s b - 1)"
    "holder dev (bunpin i s) = holder dev s" "\<And>j b'. owns dev s j b' \<Longrightarrow> owns dev (bunpin i s) j b'"
    "free_bufs (bunpin i s) = free_bufs s" "mine dev me (bunpin i s) i b"
proof -
  note f = mine_facts[OF ok m]
  let ?s = "bunpin i s"
  have p: "bufs ?s = (bufs s)[i := (bufs s ! i)\<lparr>block := block (bufs s ! i), refcnt := refcnt (bufs s ! i) - 1\<rparr>]"
    "set (lru ?s) = set (lru s)" "distinct (lru ?s)" "disk ?s = disk s"
    using ok by (simp_all add: bunpin_def cache_ok_def)
  have c: "rc dev s b = 1 \<Longrightarrow> blk dev s b = disk s b \<and> \<not> slocked (block (bufs s ! i))" using r by simp
  note k = drop_ref[OF ok f(1,7) p c]
  show "cache_ok dev ?s" "blk dev ?s = blk dev s" "rc dev ?s = (rc dev s)(b := rc dev s b - 1)" using k(1-3) by simp_all
  show hh: "holder dev ?s = holder dev s" using k(4) held_view(3)[OF ok f(1)] by auto
  show ow: "owns dev s j b' \<Longrightarrow> owns dev ?s j b'" for j b' using k(5) r by simp
  show "free_bufs ?s = free_bufs s" using k(6) r by simp
  have "mypid me ?s = mypid me s" by (simp add: mypid_def bunpin_def)
  then show "mine dev me ?s i b" using m ow hh by (simp add: mine_def)
qed

lemma bunpin_frame [simp]: "disk (bunpin i s) = disk s" "disk_trace (bunpin i s) = disk_trace s" "procs (bunpin i s) = procs s"
  "bstate.more (bunpin i s) = bstate.more s"
  by (simp_all add: bunpin_def)

lemma set_data_frame [simp]: "disk (set_data i d s) = disk s" "disk_trace (set_data i d s) = disk_trace s"
  "procs (set_data i d s) = procs s"
  by (simp_all add: set_data_def)

lemma got_mine: "got_block dev me s b i s' \<Longrightarrow> mine dev me s' i b"
  using mypid_procs[of s' s me] by (simp add: got_block_def mine_def)

lemma mypid_pids: "map pid (procs s') = map pid (procs s) \<Longrightarrow> me < length (procs s) \<Longrightarrow> mypid me s' = mypid me s"
  by (metis mypid_def nth_map length_map)

section \<open>Words in a block: lemmas\<close>

lemma length_patch [simp]: "k + length bs \<le> length d \<Longrightarrow> length (patch d k bs) = length d"
  by (simp add: patch_def)

lemma nth_patch: "k + length bs \<le> length d \<Longrightarrow> j < length d \<Longrightarrow>
    patch d k bs ! j = (if k \<le> j \<and> j < k + length bs then bs ! (j - k) else d ! j)"
  by (auto simp: patch_def nth_append min_def)

lemma length_put32 [simp]: "k + 4 \<le> length d \<Longrightarrow> length (put32 d k w) = length d"
  by (simp add: put32_def bytes32_def)

lemma get32_put32: "k + 4 \<le> length d \<Longrightarrow> get32 (put32 d k w) k = w"
  by (simp add: get32_def put32_def bytes32_def nth_patch le32_byte_of[unfolded One_nat_def])

lemma get32_put32_other: "k + 4 \<le> length d \<Longrightarrow> j + 4 \<le> length d \<Longrightarrow> j + 4 \<le> k \<or> k + 4 \<le> j \<Longrightarrow>
    get32 (put32 d k w) j = get32 d j"
  by (auto simp: get32_def put32_def bytes32_def nth_patch)

end
