(* ===== verification/Log.thy ===== *)
theory Log
  imports Bio
begin

text \<open>
  \<open>kernel/log.c\<close>: the write-ahead log.  The in-memory header is \<open>lh_n\<close> and \<open>lh_block\<close>.  A header
  with more than \<open>LOGSIZE\<close> blocks would be read past its array: \<open>Stuck\<close>.
\<close>

abbreviation LOGSIZE :: nat where "LOGSIZE \<equiv> 30"

record lstate = bstate +
  log_start :: int
  log_size :: int
  outstanding :: int
  committing :: bool
  log_dev :: u32
  lh_n :: int
  lh_block :: "u32 list"

section \<open>Copying between the log and home\<close>

text \<open>The log block of position \<open>tail\<close>.\<close>

definition log_at :: "'a lstate_scheme \<Rightarrow> nat \<Rightarrow> u32" where
  "log_at s tail = word_of_int (log_start s + int tail + 1)"

fun install_loop :: "nat list \<Rightarrow> nat \<Rightarrow> bool \<Rightarrow> 'a lstate_scheme \<Rightarrow> 'a lstate_scheme res" where
  "install_loop [] me recovering s = Ok s"
| "install_loop (tail # ts) me recovering s =
     rbind (bread me (log_dev s) (log_at s tail) s) (\<lambda>(lbuf, s1).
     rbind (bread me (log_dev s1) (lh_block s1 ! tail) s1) (\<lambda>(dbuf, s2).
     rbind (bwrite me dbuf (set_data dbuf (data_of lbuf s2) s2)) (\<lambda>s3.
     let s4 = (if \<not> recovering then bunpin dbuf s3 else s3) in
     rbind (brelse me lbuf s4) (\<lambda>s5.
     rbind (brelse me dbuf s5) (\<lambda>s6. install_loop ts me recovering s6)))))"

definition install_trans :: "nat \<Rightarrow> bool \<Rightarrow> 'a lstate_scheme \<Rightarrow> 'a lstate_scheme res" where
  "install_trans me recovering s = install_loop [0..<nat (lh_n s)] me recovering s"

fun write_log_loop :: "nat list \<Rightarrow> nat \<Rightarrow> 'a lstate_scheme \<Rightarrow> 'a lstate_scheme res" where
  "write_log_loop [] me s = Ok s"
| "write_log_loop (tail # ts) me s =
     rbind (bread me (log_dev s) (log_at s tail) s) (\<lambda>(to, s1).
     rbind (bread me (log_dev s1) (lh_block s1 ! tail) s1) (\<lambda>(from, s2).
     rbind (bwrite me to (set_data to (data_of from s2) s2)) (\<lambda>s3.
     rbind (brelse me from s3) (\<lambda>s4.
     rbind (brelse me to s4) (\<lambda>s5. write_log_loop ts me s5)))))"

definition write_log :: "nat \<Rightarrow> 'a lstate_scheme \<Rightarrow> 'a lstate_scheme res" where
  "write_log me s = write_log_loop [0..<nat (lh_n s)] me s"

section \<open>The header\<close>

definition head_n :: "u8 list \<Rightarrow> int" where
  "head_n d = sint (get32 d 0)"

fun read_blocks :: "nat list \<Rightarrow> u8 list \<Rightarrow> u32 list \<Rightarrow> u32 list" where
  "read_blocks [] d bs = bs"
| "read_blocks (i # is) d bs = read_blocks is d (bs[i := get32 d (4 + 4 * i)])"

fun write_blocks :: "nat list \<Rightarrow> u32 list \<Rightarrow> u8 list \<Rightarrow> u8 list" where
  "write_blocks [] bs d = d"
| "write_blocks (i # is) bs d = write_blocks is bs (put32 d (4 + 4 * i) (bs ! i))"

definition read_head :: "nat \<Rightarrow> 'a lstate_scheme \<Rightarrow> 'a lstate_scheme res" where
  "read_head me s =
     rbind (bread me (log_dev s) (word_of_int (log_start s)) s) (\<lambda>(b, s1).
       let n = head_n (data_of b s1) in
       if n > int LOGSIZE then Stuck
       else brelse me b (s1\<lparr>lh_n := n, lh_block := read_blocks [0..<nat n] (data_of b s1) (lh_block s1)\<rparr>))"

definition head_bytes :: "int \<Rightarrow> u32 list \<Rightarrow> u8 list \<Rightarrow> u8 list" where
  "head_bytes n bs d = write_blocks [0..<nat n] bs (put32 d 0 (word_of_int n))"

definition write_head :: "nat \<Rightarrow> 'a lstate_scheme \<Rightarrow> 'a lstate_scheme res" where
  "write_head me s =
     rbind (bread me (log_dev s) (word_of_int (log_start s)) s) (\<lambda>(b, s1).
     rbind (bwrite me b (set_data b (head_bytes (lh_n s1) (lh_block s1) (data_of b s1)) s1)) (\<lambda>s2. brelse me b s2))"

section \<open>Recovery and commit\<close>

definition recover_from_log :: "nat \<Rightarrow> 'a lstate_scheme \<Rightarrow> 'a lstate_scheme res" where
  "recover_from_log me s =
     rbind (read_head me s) (\<lambda>s1. rbind (install_trans me True s1) (\<lambda>s2. write_head me (s2\<lparr>lh_n := 0\<rparr>)))"

definition initlog :: "nat \<Rightarrow> u32 \<Rightarrow> u32 \<Rightarrow> u32 \<Rightarrow> 'a lstate_scheme \<Rightarrow> 'a lstate_scheme res" where
  "initlog me dev logstart nlog s =
     recover_from_log me (s\<lparr>log_start := sint logstart, log_size := sint nlog, log_dev := dev\<rparr>)"

definition commit :: "nat \<Rightarrow> 'a lstate_scheme \<Rightarrow> 'a lstate_scheme res" where
  "commit me s =
     (if lh_n s > 0
      then rbind (write_log me s) (\<lambda>s1. rbind (write_head me s1) (\<lambda>s2. rbind (install_trans me False s2) (\<lambda>s3.
             write_head me (s3\<lparr>lh_n := 0\<rparr>))))
      else Ok s)"

section \<open>Operations\<close>

definition begin_op :: "nat \<Rightarrow> 'a lstate_scheme \<Rightarrow> (unit, 'a lstate_scheme) io" where
  "begin_op me s =
     (if committing s then Sleep () (sleep_enter me ChanLog s)
      else if lh_n s + (outstanding s + 1) * int MAXOPBLOCKS > int LOGSIZE then Sleep () (sleep_enter me ChanLog s)
      else Done 0 (s\<lparr>outstanding := outstanding s + 1\<rparr>))"

text \<open>In a run of one process nobody wakes a sleeper.\<close>

fun awake :: "('b, 'a) io \<Rightarrow> 'a res" where
  "awake (Done r s) = Ok s"
| "awake (Sleep b s) = Stuck"

definition end_op :: "nat \<Rightarrow> 'a lstate_scheme \<Rightarrow> 'a lstate_scheme res" where
  "end_op me s =
     (let s1 = s\<lparr>outstanding := outstanding s - 1\<rparr> in
      if committing s1 then Panic ''log.committing''
      else if outstanding s1 = 0
      then rbind (commit me (s1\<lparr>committing := True\<rparr>)) (\<lambda>s2. Ok (wakeup (Some me) ChanLog (s2\<lparr>committing := False\<rparr>)))
      else Ok (wakeup (Some me) ChanLog s1))"

text \<open>The position of a block in the header, or the end.\<close>

fun log_slot :: "nat list \<Rightarrow> u32 list \<Rightarrow> u32 \<Rightarrow> nat option" where
  "log_slot [] bs b = None"
| "log_slot (i # is) bs b = (if bs ! i = b then Some i else log_slot is bs b)"

definition log_write :: "nat \<Rightarrow> 'a lstate_scheme \<Rightarrow> 'a lstate_scheme res" where
  "log_write b s =
     (if lh_n s \<ge> int LOGSIZE \<or> lh_n s \<ge> log_size s - 1 then Panic ''too big a transaction''
      else if outstanding s < 1 then Panic ''log_write outside of trans''
      else (case log_slot [0..<nat (lh_n s)] (lh_block s) (blockno (bufs s ! b)) of
          Some i \<Rightarrow> Ok (s\<lparr>lh_block := (lh_block s)[i := blockno (bufs s ! b)]\<rparr>)
        | None \<Rightarrow> Ok (bpin b (s\<lparr>lh_block := (lh_block s)[nat (lh_n s) := blockno (bufs s ! b)], lh_n := lh_n s + 1\<rparr>))))"

section \<open>The log over the cache\<close>

text \<open>Between operations: no buffer is locked, and the blocks of \<open>P\<close> are pinned, once each.\<close>

definition quiet :: "u32 \<Rightarrow> nat \<Rightarrow> u32 set \<Rightarrow> 'a bstate_scheme \<Rightarrow> bool" where
  "quiet dev me P s \<longleftrightarrow> cache_ok dev s \<and> holder dev s = (\<lambda>_. None) \<and> rc dev s = (\<lambda>b. if b \<in> P then 1 else 0) \<and>
     me < length (procs s)"

text \<open>A disk after a sequence of writes.\<close>

fun replay :: "(u32 \<Rightarrow> u8 list) \<Rightarrow> (u32 \<times> u8 list) list \<Rightarrow> (u32 \<Rightarrow> u8 list)" where
  "replay D [] = D"
| "replay D ((b, d) # ws) = replay (D(b := d)) ws"

lemma replay_append [simp]: "replay D (ws @ vs) = replay (replay D ws) vs"
  by (induction ws arbitrary: D) auto

text \<open>What a step of the log leaves: the view of the blocks, the disk and its writes.\<close>

definition stepped ::
  "u32 \<Rightarrow> nat \<Rightarrow> u32 set \<Rightarrow> 'a bstate_scheme \<Rightarrow> (u32 \<times> u8 list) list \<Rightarrow> 'a bstate_scheme \<Rightarrow> bool" where
  "stepped dev me P s ws s' \<longleftrightarrow> quiet dev me P s' \<and> card (free_bufs s) \<le> card (free_bufs s') \<and>
     blk dev s' = replay (blk dev s) ws \<and>
     disk s' = replay (disk s) ws \<and> disk_trace s' = disk_trace s @ ws"

lemma stepped_trans: "stepped dev me P s ws s1 \<Longrightarrow> stepped dev me Q s1 ws' s2 \<Longrightarrow> stepped dev me Q s (ws @ ws') s2"
  by (simp add: stepped_def)

lemma quiet_unpinned: "quiet dev me P s \<Longrightarrow> b \<notin> P \<Longrightarrow> blk dev s b = disk s b"
  using unused_blk[of dev s b] by (simp add: quiet_def)

lemma free_nonempty: "0 < card (free_bufs s) \<Longrightarrow> free_bufs s \<noteq> {}"
  by auto

text \<open>One block of \<open>write_log\<close>: \<open>src\<close> is pinned, \<open>tgt\<close> is not.\<close>

lemma copy_block:
  assumes i: "quiet dev me P s" and fr: "src \<in> P" and tgt: "tgt \<notin> P" and f: "0 < card (free_bufs s)"
  shows "\<exists>x s1 y s2 s3 s4 s5. bread me dev tgt s = Ok (x, s1) \<and> bread me dev src s1 = Ok (y, s2) \<and>
     bwrite me x (set_data x (data_of y s2) s2) = Ok s3 \<and> brelse me y s3 = Ok s4 \<and> brelse me x s4 = Ok s5 \<and>
     stepped dev me P s [(tgt, blk dev s src)] s5"
proof -
  have ok: "cache_ok dev s" and ho: "holder dev s = (\<lambda>_. None)" and rc: "rc dev s = (\<lambda>b. if b \<in> P then 1 else 0)"
    and me: "me < length (procs s)" using i by (simp_all add: quiet_def)
  have ne: "tgt \<noteq> src" using fr tgt by auto
  obtain x s1 where r1: "bread me dev tgt s = Ok (x, s1)" "got_block dev me s tgt x s1"
    using bread_got[OF ok, of tgt me] ho rc tgt f free_nonempty by auto
  have g1: "cache_ok dev s1" "owns dev s1 x tgt" "blk dev s1 = blk dev s" "disk s1 = disk s" "disk_trace s1 = disk_trace s"
    "rc dev s1 = (rc dev s)(tgt := 1)" "holder dev s1 = (\<lambda>_. None)(tgt := Some (mypid me s))" "procs s1 = procs s"
    "card (free_bufs s) = Suc (card (free_bufs s1))"
    using r1(2) rc ho tgt by (simp_all add: got_block_def numeral_2_eq_2)
  have m1: "mypid me s1 = mypid me s" using mypid_procs[OF g1(8)] .
  obtain y s2 where r2: "bread me dev src s1 = Ok (y, s2)" "got_block dev me s1 src y s2"
    using bread_got[OF g1(1), of src me] g1(6,7) rc fr ne by auto
  have g2: "cache_ok dev s2" "owns dev s2 y src" "blk dev s2 = blk dev s" "disk s2 = disk s" "disk_trace s2 = disk_trace s"
    "rc dev s2 = (rc dev s)(tgt := 1, src := 2)" "holder dev s2 = (\<lambda>_. None)(tgt := Some (mypid me s), src := Some (mypid me s))"
    "procs s2 = procs s" "free_bufs s2 = free_bufs s1" "owns dev s2 x tgt"
    using r2(2) g1 rc fr ne m1 by (simp_all add: got_block_def numeral_2_eq_2)
  have m2: "mypid me s2 = mypid me s" using mypid_procs[OF g2(8)] .
  have mx: "mine dev me s2 x tgt" and my: "mine dev me s2 y src" using g2 m2 ne by (simp_all add: mine_def)
  define d where "d = blk dev s src"
  have dd: "data_of y s2 = d" using owns_view(1)[OF g2(1,2)] g2(3) by (simp add: d_def)
  have dl: "length d = BSIZE" unfolding d_def by (rule cached_length[OF ok])
  note sd = set_data_view[OF g2(1) mx dl]
  obtain s3 where w: "bwrite me x (set_data x d s2) = Ok s3" "cache_ok dev s3" "blk dev s3 = (blk dev s)(tgt := d)"
    "disk s3 = (disk s)(tgt := d)" "disk_trace s3 = disk_trace s @ [(tgt, d)]" "rc dev s3 = rc dev s2" "holder dev s3 = holder dev s2"
    "owns dev s3 y src" "owns dev s3 x tgt" "free_bufs s3 = free_bufs s2" "procs s3 = procs s"
    using bwrite_view[OF sd(1) sd(7)] sd g2 by auto
  have m3: "mypid me s3 = mypid me s" using mypid_procs[OF w(11)] .
  have my3: "mine dev me s3 y src" using w g2 m3 by (simp add: mine_def)
  obtain s4 where b1: "brelse me y s3 = Ok s4" "put_block dev me s3 src s4"
    using brelse_put[OF w(2) my3] w(6) g2(6) by auto
  have g4: "cache_ok dev s4" "blk dev s4 = (blk dev s)(tgt := d)" "disk s4 = (disk s)(tgt := d)" "disk_trace s4 = disk_trace s @ [(tgt, d)]"
    "rc dev s4 = (rc dev s)(tgt := 1)" "holder dev s4 = (\<lambda>_. None)(tgt := Some (mypid me s))" "owns dev s4 x tgt"
    "map pid (procs s4) = map pid (procs s)" "free_bufs s4 = free_bufs s1"
    using b1(2) w g2 rc fr ne by (auto simp: put_block_def fun_eq_iff)
  have m4: "mypid me s4 = mypid me s" using mypid_pids[OF g4(8) me] .
  have mx4: "mine dev me s4 x tgt" using g4 m4 by (simp add: mine_def)
  obtain s5 where b2: "brelse me x s4 = Ok s5" "put_block dev me s4 tgt s5"
    using brelse_put[OF g4(1) mx4] g4 by auto
  have g5: "cache_ok dev s5" "blk dev s5 = (blk dev s)(tgt := d)" "disk s5 = (disk s)(tgt := d)" "disk_trace s5 = disk_trace s @ [(tgt, d)]"
    "rc dev s5 = rc dev s" "holder dev s5 = (\<lambda>_. None)" "card (free_bufs s5) = card (free_bufs s)"
    using b2(2) g4 g1(9) rc tgt by (auto simp: put_block_def fun_eq_iff)
  have "length (procs s5) = length (procs s)" using b2(2) g4(8) by (metis length_map put_block_def)
  then have "stepped dev me P s [(tgt, blk dev s src)] s5"
    using g5 rc me by (simp add: stepped_def quiet_def d_def)
  then show ?thesis using r1(1) r2(1) w(1) b1(1) b2(1) dd by blast
qed

text \<open>One block of \<open>install_trans\<close>, from the log block \<open>lb\<close> to its home \<open>tgt\<close>, which commit has
  pinned and recovery has not.\<close>

lemma install_block:
  assumes i: "quiet dev me P s" and lb: "lb \<notin> P" and ne: "tgt \<noteq> lb"
    and k: "if rec then tgt \<notin> P \<and> 2 \<le> card (free_bufs s) else tgt \<in> P \<and> 1 \<le> card (free_bufs s)"
  shows "\<exists>x s1 y s2 s3 s5 s6. bread me dev lb s = Ok (x, s1) \<and> bread me dev tgt s1 = Ok (y, s2) \<and>
     bwrite me y (set_data y (data_of x s2) s2) = Ok s3 \<and> brelse me x (if \<not> rec then bunpin y s3 else s3) = Ok s5 \<and>
     brelse me y s5 = Ok s6 \<and> stepped dev me (if rec then P else P - {tgt}) s [(tgt, disk s lb)] s6"
proof -
  have ok: "cache_ok dev s" and ho: "holder dev s = (\<lambda>_. None)" and rc: "rc dev s = (\<lambda>b. if b \<in> P then 1 else 0)"
    and me: "me < length (procs s)" using i by (simp_all add: quiet_def)
  have k1: "0 < card (free_bufs s)" using k by (auto split: if_splits)
  obtain x s1 where r1: "bread me dev lb s = Ok (x, s1)" "got_block dev me s lb x s1"
    using bread_got[OF ok, of lb me] ho rc lb k1 free_nonempty by auto
  have g1: "cache_ok dev s1" "owns dev s1 x lb" "blk dev s1 = blk dev s" "disk s1 = disk s" "disk_trace s1 = disk_trace s"
    "rc dev s1 = (rc dev s)(lb := 1)" "holder dev s1 = (\<lambda>_. None)(lb := Some (mypid me s))" "procs s1 = procs s"
    "card (free_bufs s) = Suc (card (free_bufs s1))"
    using r1(2) rc ho lb by (simp_all add: got_block_def)
  have m1: "mypid me s1 = mypid me s" using mypid_procs[OF g1(8)] .
  define c where "c = (if rec then 1 else 2 :: nat)"
  have av: "0 < rc dev s1 tgt \<or> free_bufs s1 \<noteq> {}"
  proof (cases rec)
    case True
    then show ?thesis using k g1(9) free_nonempty[of s1] by auto
  next
    case False
    then show ?thesis using k g1(6) rc ne by simp
  qed
  have c1: "Suc (rc dev s1 tgt) = c" using k g1(6) rc ne by (auto simp: c_def split: if_splits)
  have room: "Suc (rc dev s1 tgt) < 2 ^ 32" using c1 by (simp add: c_def)
  have hn: "holder dev s1 tgt = None" using g1(7) ne by simp
  obtain y s2 where r2: "bread me dev tgt s1 = Ok (y, s2)" "got_block dev me s1 tgt y s2"
    using bread_got[OF g1(1) hn room av, of me] by auto
  have g2: "cache_ok dev s2" "owns dev s2 y tgt" "blk dev s2 = blk dev s" "disk s2 = disk s" "disk_trace s2 = disk_trace s"
    "rc dev s2 = (rc dev s)(lb := 1, tgt := c)" "holder dev s2 = (\<lambda>_. None)(lb := Some (mypid me s), tgt := Some (mypid me s))"
    "procs s2 = procs s" "owns dev s2 x lb"
    using r2(2) g1 c1 m1 by (simp_all add: got_block_def)
  have fr2: "if rec then card (free_bufs s1) = Suc (card (free_bufs s2)) else free_bufs s2 = free_bufs s1"
    using r2(2) c1 by (auto simp: got_block_def c_def split: if_splits)
  have m2: "mypid me s2 = mypid me s" using mypid_procs[OF g2(8)] .
  have mx: "mine dev me s2 x lb" and my: "mine dev me s2 y tgt" using g2 m2 ne by (simp_all add: mine_def)
  define d where "d = blk dev s lb"
  have dd: "data_of x s2 = d" using owns_view(1)[OF g2(1,9)] g2(3) by (simp add: d_def)
  have dk: "d = disk s lb" using quiet_unpinned[OF i lb] by (simp add: d_def)
  have dl: "length d = BSIZE" unfolding d_def by (rule cached_length[OF ok])
  note sd = set_data_view[OF g2(1) my dl]
  obtain s3 where w: "bwrite me y (set_data y d s2) = Ok s3" "cache_ok dev s3" "blk dev s3 = (blk dev s)(tgt := d)"
    "disk s3 = (disk s)(tgt := d)" "disk_trace s3 = disk_trace s @ [(tgt, d)]" "rc dev s3 = rc dev s2" "holder dev s3 = holder dev s2"
    "owns dev s3 x lb" "owns dev s3 y tgt" "free_bufs s3 = free_bufs s2" "procs s3 = procs s"
    using bwrite_view[OF sd(1) sd(7)] sd g2 by auto
  have m3: "mypid me s3 = mypid me s" using mypid_procs[OF w(11)] .
  have my3: "mine dev me s3 y tgt" using w g2 m3 by (simp add: mine_def)
  define u where "u = (if \<not> rec then bunpin y s3 else s3)"
  have g4: "cache_ok dev u" "blk dev u = (blk dev s)(tgt := d)" "disk u = (disk s)(tgt := d)" "disk_trace u = disk_trace s @ [(tgt, d)]"
    "rc dev u = (rc dev s)(lb := 1, tgt := 1)" "holder dev u = (\<lambda>_. None)(lb := Some (mypid me s), tgt := Some (mypid me s))"
    "owns dev u x lb" "owns dev u y tgt" "free_bufs u = free_bufs s2" "procs u = procs s"
    using w g2 bunpin_view[OF w(2) my3] by (auto simp: u_def c_def fun_eq_iff)
  have m4: "mypid me u = mypid me s" using mypid_procs[OF g4(10)] .
  have mx4: "mine dev me u x lb" using g4 m4 ne by (simp add: mine_def)
  have cl: "rc dev u lb = 1 \<Longrightarrow> blk dev u lb = disk u lb" using g4 ne dk d_def by simp
  obtain s5 where b1: "brelse me x u = Ok s5" "put_block dev me u lb s5"
    using brelse_put[OF g4(1) mx4 cl] by auto
  have g5: "cache_ok dev s5" "blk dev s5 = (blk dev s)(tgt := d)" "disk s5 = (disk s)(tgt := d)" "disk_trace s5 = disk_trace s @ [(tgt, d)]"
    "rc dev s5 = (rc dev s)(tgt := 1)" "holder dev s5 = (\<lambda>_. None)(tgt := Some (mypid me s))" "owns dev s5 y tgt"
    "map pid (procs s5) = map pid (procs s)" "card (free_bufs s5) = Suc (card (free_bufs s2))"
    using b1(2) g4 rc lb ne by (auto simp: put_block_def fun_eq_iff)
  have m5: "mypid me s5 = mypid me s" using mypid_pids[OF g5(8) me] .
  have my5: "mine dev me s5 y tgt" using g5 m5 by (simp add: mine_def)
  obtain s6 where b2: "brelse me y s5 = Ok s6" "put_block dev me s5 tgt s6"
    using brelse_put[OF g5(1) my5] g5 by auto
  have g6: "cache_ok dev s6" "blk dev s6 = (blk dev s)(tgt := d)" "disk s6 = (disk s)(tgt := d)" "disk_trace s6 = disk_trace s @ [(tgt, d)]"
    "rc dev s6 = (rc dev s)(tgt := 0)" "holder dev s6 = (\<lambda>_. None)" "card (free_bufs s6) = Suc (card (free_bufs s5))"
    using b2(2) g5 by (auto simp: put_block_def fun_eq_iff)
  have "length (procs s6) = length (procs s)" using b2(2) g5(8) by (metis length_map put_block_def)
  moreover have "rc dev s6 = (\<lambda>b. if b \<in> (if rec then P else P - {tgt}) then 1 else 0)"
    using g6(5) rc k by (auto simp: fun_eq_iff split: if_splits)
  moreover have "card (free_bufs s) \<le> card (free_bufs s6)" using g6(7) g5(9) g1(9) fr2 by (auto split: if_splits)
  ultimately have "stepped dev me (if rec then P else P - {tgt}) s [(tgt, disk s lb)] s6"
    using g6 me dk by (simp add: stepped_def quiet_def)
  then show ?thesis using r1(1) r2(1) w(1) b1(1) b2(1) dd unfolding u_def by blast
qed

text \<open>Writing a block in place: the header.\<close>

lemma rewrite_block:
  assumes i: "quiet dev me P s" and b: "b \<notin> P" and f: "0 < card (free_bufs s)" and g: "length (g (disk s b)) = BSIZE"
  shows "\<exists>x s1 s2 s3. bread me dev b s = Ok (x, s1) \<and> data_of x s1 = disk s b \<and>
     bwrite me x (set_data x (g (data_of x s1)) s1) = Ok s2 \<and>
     brelse me x s2 = Ok s3 \<and> stepped dev me P s [(b, g (disk s b))] s3"
proof -
  have ok: "cache_ok dev s" and ho: "holder dev s = (\<lambda>_. None)" and rc: "rc dev s = (\<lambda>b. if b \<in> P then 1 else 0)"
    and me: "me < length (procs s)" using i by (simp_all add: quiet_def)
  obtain x s1 where r1: "bread me dev b s = Ok (x, s1)" "got_block dev me s b x s1"
    using bread_got[OF ok, of b me] ho rc b f free_nonempty by auto
  have g1: "cache_ok dev s1" "owns dev s1 x b" "blk dev s1 = blk dev s" "disk s1 = disk s" "disk_trace s1 = disk_trace s"
    "rc dev s1 = (rc dev s)(b := 1)" "holder dev s1 = (\<lambda>_. None)(b := Some (mypid me s))" "procs s1 = procs s"
    "card (free_bufs s) = Suc (card (free_bufs s1))"
    using r1(2) rc ho b by (simp_all add: got_block_def)
  have m1: "mypid me s1 = mypid me s" using mypid_procs[OF g1(8)] .
  have mx: "mine dev me s1 x b" using g1 m1 by (simp add: mine_def)
  have dd: "data_of x s1 = disk s b" using owns_view(1)[OF g1(1,2)] g1(3) quiet_unpinned[OF i b] by simp
  define d where "d = g (disk s b)"
  have dl: "length d = BSIZE" using g by (simp add: d_def)
  note sd = set_data_view[OF g1(1) mx dl]
  obtain s2 where w: "bwrite me x (set_data x d s1) = Ok s2" "cache_ok dev s2" "blk dev s2 = (blk dev s)(b := d)"
    "disk s2 = (disk s)(b := d)" "disk_trace s2 = disk_trace s @ [(b, d)]" "rc dev s2 = rc dev s1" "holder dev s2 = holder dev s1"
    "owns dev s2 x b" "free_bufs s2 = free_bufs s1" "procs s2 = procs s"
    using bwrite_view[OF sd(1) sd(7)] sd g1 by auto
  have m2: "mypid me s2 = mypid me s" using mypid_procs[OF w(10)] .
  have mx2: "mine dev me s2 x b" using w g1 m2 by (simp add: mine_def)
  obtain s3 where b2: "brelse me x s2 = Ok s3" "put_block dev me s2 b s3"
    using brelse_put[OF w(2) mx2] w by auto
  have g3: "cache_ok dev s3" "blk dev s3 = (blk dev s)(b := d)" "disk s3 = (disk s)(b := d)" "disk_trace s3 = disk_trace s @ [(b, d)]"
    "rc dev s3 = rc dev s" "holder dev s3 = (\<lambda>_. None)" "card (free_bufs s3) = card (free_bufs s)"
    using b2(2) w g1 rc b by (auto simp: put_block_def fun_eq_iff)
  have "length (procs s3) = length (procs s)" using b2(2) w(10) by (metis length_map put_block_def)
  then have "stepped dev me P s [(b, g (disk s b))] s3"
    using g3 rc me by (simp add: stepped_def quiet_def d_def)
  then show ?thesis using r1(1) w(1) b2(1) dd unfolding d_def by auto
qed

lemma replay_other: "b \<notin> fst ` set ws \<Longrightarrow> replay D ws b = D b"
  by (induction ws arbitrary: D) auto

lemma replay_at: "distinct (map fst ws) \<Longrightarrow> (b, d) \<in> set ws \<Longrightarrow> replay D ws b = d"
proof (induction ws arbitrary: D)
  case (Cons w ws)
  obtain c e where w: "w = (c, e)" by (cases w)
  show ?case
  proof (cases "(b, d) \<in> set ws")
    case True
    then show ?thesis using Cons w by simp
  next
    case False
    then have "b = c" "d = e" "b \<notin> fst ` set ws" using Cons.prems w by auto
    then show ?thesis by (simp add: w replay_other)
  qed
qed simp

text \<open>Writing \<open>g t\<close> to block \<open>f t\<close> for each \<open>t\<close>.\<close>

lemma replay_map:
  assumes "distinct (map f ts)"
  shows "t \<in> set ts \<Longrightarrow> replay D (map (\<lambda>t. (f t, g t)) ts) (f t) = g t"
    "b \<notin> f ` set ts \<Longrightarrow> replay D (map (\<lambda>t. (f t, g t)) ts) b = D b"
proof -
  have "map fst (map (\<lambda>t. (f t, g t)) ts) = map f ts" by simp
  then show "t \<in> set ts \<Longrightarrow> replay D (map (\<lambda>t. (f t, g t)) ts) (f t) = g t" using assms by (intro replay_at) (auto simp: comp_def)
  show "b \<notin> f ` set ts \<Longrightarrow> replay D (map (\<lambda>t. (f t, g t)) ts) b = D b" by (rule replay_other) force
qed

section \<open>The loops\<close>

lemma log_fields:
  assumes "bstate.more s' = bstate.more s"
  shows "log_start s' = log_start s" "log_size s' = log_size s" "outstanding s' = outstanding s" "committing s' = committing s"
    "log_dev s' = log_dev s" "lh_n s' = lh_n s" "lh_block s' = lh_block s" "log_at s' t = log_at s t"
proof -
  show "log_start s' = log_start s" "log_size s' = log_size s" "outstanding s' = outstanding s" "committing s' = committing s"
    "log_dev s' = log_dev s" "lh_n s' = lh_n s" "lh_block s' = lh_block s"
    using assms by (cases s; cases s'; simp)+
  then show "log_at s' t = log_at s t" by (simp add: log_at_def)
qed

lemma bunpin_more_if: "bstate.more (if c then bunpin y s else s) = bstate.more s"
  by simp

lemma write_log_steps:
  "quiet dev me P s \<Longrightarrow> log_dev s = dev \<Longrightarrow> 0 < card (free_bufs s) \<Longrightarrow>
   \<forall>t\<in>set ts. lh_block s ! t \<in> P \<and> log_at s t \<notin> P \<Longrightarrow>
   \<exists>s'. write_log_loop ts me s = Ok s' \<and> bstate.more s' = bstate.more s \<and>
     stepped dev me P s (map (\<lambda>t. (log_at s t, blk dev s (lh_block s ! t))) ts) s'"
proof (induction ts arbitrary: s)
  case Nil
  then show ?case by (simp add: stepped_def)
next
  case (Cons t ts)
  let ?h = "lh_block s ! t"
  have P: "?h \<in> P" "log_at s t \<notin> P" using Cons.prems(4) by auto
  obtain x s1 y s2 s3 s4 s5 where a: "bread me dev (log_at s t) s = Ok (x, s1)" "bread me dev ?h s1 = Ok (y, s2)"
     "bwrite me x (set_data x (data_of y s2) s2) = Ok s3" "brelse me y s3 = Ok s4" "brelse me x s4 = Ok s5"
     "stepped dev me P s [(log_at s t, blk dev s ?h)] s5"
    using copy_block[OF Cons.prems(1) P Cons.prems(3)] by blast
  have m: "bstate.more s1 = bstate.more s" "bstate.more s5 = bstate.more s"
    using bread_more[OF a(1)] bread_more[OF a(2)] bwrite_more[OF a(3)] brelse_more[OF a(4)] brelse_more[OF a(5)] by simp_all
  note f1 = log_fields[OF m(1)] and f5 = log_fields[OF m(2)]
  have e: "write_log_loop (t # ts) me s = write_log_loop ts me s5"
    using a(1-5) Cons.prems(2) f1 by simp
  have v: "blk dev s5 (lh_block s ! u) = blk dev s (lh_block s ! u)" if "u \<in> set ts" for u
    using a(6) P(2) Cons.prems(4) that by (auto simp: stepped_def)
  have i5: "quiet dev me P s5" "0 < card (free_bufs s5)" using a(6) Cons.prems(3) by (simp_all add: stepped_def)
  obtain s' where s': "write_log_loop ts me s5 = Ok s'" "bstate.more s' = bstate.more s5"
     "stepped dev me P s5 (map (\<lambda>t. (log_at s5 t, blk dev s5 (lh_block s5 ! t))) ts) s'"
    using Cons.IH[OF i5(1) _ i5(2)] f5 Cons.prems(2,4) by auto
  have w: "map (\<lambda>t. (log_at s5 t, blk dev s5 (lh_block s5 ! t))) ts = map (\<lambda>t. (log_at s t, blk dev s (lh_block s ! t))) ts"
    using v f5 by simp
  then have "stepped dev me P s (map (\<lambda>t. (log_at s t, blk dev s (lh_block s ! t))) (t # ts)) s'"
    using stepped_trans[OF a(6) s'(3)] unfolding w by simp
  moreover have "bstate.more s' = bstate.more s" using s'(2) m(2) by simp
  ultimately show ?case using e s'(1) by (metis (no_types, lifting))
qed

lemma install_steps:
  "quiet dev me P s \<Longrightarrow> log_dev s = dev \<Longrightarrow> distinct (map (\<lambda>t. lh_block s ! t) ts) \<Longrightarrow>
   \<forall>t\<in>set ts. log_at s t \<notin> P \<and> (\<forall>u\<in>set ts. lh_block s ! u \<noteq> log_at s t) \<Longrightarrow>
   if rec then 2 \<le> card (free_bufs s) \<and> (\<forall>t\<in>set ts. lh_block s ! t \<notin> P)
   else 1 \<le> card (free_bufs s) \<and> (\<forall>t\<in>set ts. lh_block s ! t \<in> P) \<Longrightarrow>
   \<exists>s'. install_loop ts me rec s = Ok s' \<and> bstate.more s' = bstate.more s \<and>
     stepped dev me (if rec then P else P - (\<lambda>t. lh_block s ! t) ` set ts) s
       (map (\<lambda>t. (lh_block s ! t, disk s (log_at s t))) ts) s'"
proof (induction ts arbitrary: s P)
  case Nil
  then show ?case by (cases rec) (simp_all add: stepped_def)
next
  case (Cons t ts)
  let ?h = "lh_block s ! t"
  have lb: "log_at s t \<notin> P" "?h \<noteq> log_at s t" using Cons.prems(4) by auto
  have k: "if rec then ?h \<notin> P \<and> 2 \<le> card (free_bufs s) else ?h \<in> P \<and> 1 \<le> card (free_bufs s)"
    using Cons.prems(5) by auto
  let ?P = "if rec then P else P - {?h}"
  obtain x s1 y s2 s3 s5 s6 where a: "bread me dev (log_at s t) s = Ok (x, s1)" "bread me dev ?h s1 = Ok (y, s2)"
     "bwrite me y (set_data y (data_of x s2) s2) = Ok s3" "brelse me x (if \<not> rec then bunpin y s3 else s3) = Ok s5"
     "brelse me y s5 = Ok s6" "stepped dev me ?P s [(?h, disk s (log_at s t))] s6"
    using install_block[OF Cons.prems(1) lb k] by blast
  have m: "bstate.more s1 = bstate.more s" "bstate.more s6 = bstate.more s"
    using bread_more[OF a(1)] bread_more[OF a(2)] bwrite_more[OF a(3)] brelse_more[OF a(4)] brelse_more[OF a(5)]
    by (simp_all add: bunpin_more_if)
  note f1 = log_fields[OF m(1)] and f6 = log_fields[OF m(2)]
  have e: "install_loop (t # ts) me rec s = install_loop ts me rec s6"
    using a(1-5) Cons.prems(2) f1 by (simp add: Let_def)
  have i6: "quiet dev me ?P s6" and c6: "card (free_bufs s) \<le> card (free_bufs s6)"
    and d6: "disk s6 = (disk s)(?h := disk s (log_at s t))" using a(6) by (simp_all add: stepped_def)
  have dist: "?h \<notin> (\<lambda>t. lh_block s ! t) ` set ts" "distinct (map (\<lambda>t. lh_block s6 ! t) ts)"
    using Cons.prems(3) f6 by auto
  have nh: "\<forall>u\<in>set ts. lh_block s ! u \<noteq> ?h" using dist(1) by (metis imageI)
  have q4: "\<forall>t\<in>set ts. log_at s6 t \<notin> ?P \<and> (\<forall>u\<in>set ts. lh_block s6 ! u \<noteq> log_at s6 t)"
    using Cons.prems(4) f6 by auto
  have q5: "if rec then 2 \<le> card (free_bufs s6) \<and> (\<forall>t\<in>set ts. lh_block s6 ! t \<notin> ?P)
     else 1 \<le> card (free_bufs s6) \<and> (\<forall>t\<in>set ts. lh_block s6 ! t \<in> ?P)"
    using Cons.prems(5) c6 f6 nh by (auto split: if_splits)
  have ld: "log_dev s6 = dev" using Cons.prems(2) f6 by simp
  obtain s' where s': "install_loop ts me rec s6 = Ok s'" "bstate.more s' = bstate.more s6"
     "stepped dev me (if rec then ?P else ?P - (\<lambda>t. lh_block s6 ! t) ` set ts) s6
       (map (\<lambda>t. (lh_block s6 ! t, disk s6 (log_at s6 t))) ts) s'"
    using Cons.IH[OF i6 ld dist(2) q4 q5] by blast
  have w: "map (\<lambda>t. (lh_block s6 ! t, disk s6 (log_at s6 t))) ts = map (\<lambda>t. (lh_block s ! t, disk s (log_at s t))) ts"
    using Cons.prems(4) d6 f6 by auto
  have p: "(if rec then ?P else ?P - (\<lambda>t. lh_block s6 ! t) ` set ts) = (if rec then P else P - (\<lambda>t. lh_block s ! t) ` set (t # ts))"
    using f6 by auto
  have "stepped dev me (if rec then P else P - (\<lambda>t. lh_block s ! t) ` set (t # ts)) s
     (map (\<lambda>t. (lh_block s ! t, disk s (log_at s t))) (t # ts)) s'"
    using stepped_trans[OF a(6) s'(3)] unfolding w p by simp
  moreover have "bstate.more s' = bstate.more s" using s'(2) m(2) by simp
  ultimately show ?case using e s'(1) by (metis (no_types, lifting))
qed

section \<open>The header block\<close>

lemma length_head_bytes [simp]: "length d = BSIZE \<Longrightarrow> nat n \<le> LOGSIZE \<Longrightarrow> length (head_bytes n bs d) = BSIZE"
proof -
  have "\<forall>i\<in>set is. i < 255 \<Longrightarrow> length d = BSIZE \<Longrightarrow> length (write_blocks is bs d) = BSIZE" for "is" d
    by (induction "is" arbitrary: d) auto
  then show "length d = BSIZE \<Longrightarrow> nat n \<le> LOGSIZE \<Longrightarrow> length (head_bytes n bs d) = BSIZE"
    by (simp add: head_bytes_def)
qed

lemma write_blocks_get:
  "distinct is \<Longrightarrow> \<forall>i\<in>set is. i < 255 \<Longrightarrow> length d = BSIZE \<Longrightarrow> j < 255 \<Longrightarrow>
   get32 (write_blocks is bs d) (4 + 4 * j) = (if j \<in> set is then bs ! j else get32 d (4 + 4 * j)) \<and>
   get32 (write_blocks is bs d) 0 = get32 d 0"
proof (induction "is" arbitrary: d)
  case (Cons i "is")
  let ?d = "put32 d (4 + 4 * i) (bs ! i)"
  have i: "i < 255" "i \<notin> set is" "length ?d = BSIZE" using Cons.prems by simp_all
  have z: "get32 ?d 0 = get32 d 0" using i Cons.prems(3) by (intro get32_put32_other) simp_all
  have j: "get32 ?d (4 + 4 * j) = (if j = i then bs ! i else get32 d (4 + 4 * j))"
  proof (cases "j = i")
    case True
    then show ?thesis using i Cons.prems(3) get32_put32[of "4 + 4 * i" d "bs ! i"] by simp
  next
    case False
    then show ?thesis using i Cons.prems(3,4) get32_put32_other[of "4 + 4 * i" d "4 + 4 * j" "bs ! i"] by (cases "j < i") simp_all
  qed
  then show ?case using Cons.IH[of ?d] Cons.prems i z by auto
qed simp

lemma sint_small_u32: "0 \<le> n \<Longrightarrow> n \<le> 30 \<Longrightarrow> sint (word_of_int n :: u32) = n"
  by (simp add: sint_sbintrunc' signed_take_bit_int_eq_self)

lemma head_decode:
  assumes "length d = BSIZE" "0 \<le> n" "n \<le> int LOGSIZE"
  shows "head_n (head_bytes n bs d) = n" "j < nat n \<Longrightarrow> get32 (head_bytes n bs d) (4 + 4 * j) = bs ! j"
proof -
  have l: "length (put32 d 0 (word_of_int n)) = BSIZE" using assms(1) by simp
  have z: "get32 (put32 d 0 (word_of_int n)) 0 = word_of_int n" using assms(1) by (intro get32_put32) simp
  have ub: "\<forall>i\<in>set [0..<nat n]. i < 255" using assms by auto
  note w = write_blocks_get[of "[0..<nat n]" "put32 d 0 (word_of_int n)" _ bs]
  have "get32 (head_bytes n bs d) 0 = word_of_int n"
    using w[of 0] l z ub by (simp add: head_bytes_def)
  then show "head_n (head_bytes n bs d) = n" using assms sint_small_u32[of n] by (simp add: head_n_def)
  show "j < nat n \<Longrightarrow> get32 (head_bytes n bs d) (4 + 4 * j) = bs ! j"
    using w[of j] l ub assms by (simp add: head_bytes_def)
qed

lemma read_blocks_nth:
  "distinct is \<Longrightarrow> \<forall>i\<in>set is. i < length bs \<Longrightarrow> length (read_blocks is d bs) = length bs \<and>
   (\<forall>j. read_blocks is d bs ! j = (if j \<in> set is then get32 d (4 + 4 * j) else bs ! j))"
proof (induction "is" arbitrary: bs)
  case (Cons i "is")
  then show ?case using Cons.IH[of "bs[i := get32 d (4 + 4 * i)]"] by (auto simp: nth_list_update)
qed simp

section \<open>Reading and writing the header\<close>

definition head_at :: "'a lstate_scheme \<Rightarrow> u32" where
  "head_at s = word_of_int (log_start s)"

lemma view_cong:
  assumes "bufs s' = bufs s" "lru s' = lru s" "disk s' = disk s"
  shows "cache_ok dev s' = cache_ok dev s" "owns dev s' = owns dev s" "blk dev s' = blk dev s" "rc dev s' = rc dev s"
    "holder dev s' = holder dev s" "free_bufs s' = free_bufs s"
proof -
  have h: "holds_block dev s' = holds_block dev s" by (intro ext) (simp only: holds_block_def assms)
  show "cache_ok dev s' = cache_ok dev s" by (simp only: cache_ok_def h assms)
  show "owns dev s' = owns dev s" by (intro ext) (simp only: owns_def h assms)
  show "blk dev s' = blk dev s" by (intro ext) (simp only: blk_def buf_of_def assms)
  show "rc dev s' = rc dev s" by (intro ext) (simp only: rc_def buf_of_def assms)
  show "holder dev s' = holder dev s" by (intro ext) (simp only: holder_def buf_of_def assms)
  show "free_bufs s' = free_bufs s" by (simp only: free_bufs_def assms)
qed

lemma lstate_upd_quiet [simp]:
  "quiet dev me P (s\<lparr>lh_n := n\<rparr>) = quiet dev me P s" "free_bufs (s\<lparr>lh_n := n\<rparr>) = free_bufs s" "blk dev (s\<lparr>lh_n := n\<rparr>) = blk dev s"
  using view_cong[of "s\<lparr>lh_n := n\<rparr>" s] by (simp_all add: quiet_def)

lemma write_head_step:
  assumes i: "quiet dev me P s" and d: "log_dev s = dev" and h: "head_at s \<notin> P" and f: "0 < card (free_bufs s)"
    and n: "nat (lh_n s) \<le> LOGSIZE"
  shows "\<exists>s'. write_head me s = Ok s' \<and> bstate.more s' = bstate.more s \<and>
    stepped dev me P s [(head_at s, head_bytes (lh_n s) (lh_block s) (disk s (head_at s)))] s'"
proof -
  have l: "length (disk s (head_at s)) = BSIZE" using i by (simp add: quiet_def cache_ok_def)
  let ?g = "head_bytes (lh_n s) (lh_block s)"
  obtain x s1 s2 s3 where a: "bread me dev (head_at s) s = Ok (x, s1)" "bwrite me x (set_data x (?g (data_of x s1)) s1) = Ok s2"
     "brelse me x s2 = Ok s3" "stepped dev me P s [(head_at s, ?g (disk s (head_at s)))] s3"
    using rewrite_block[OF i h f, of ?g] l n by auto
  have m: "bstate.more s1 = bstate.more s" "bstate.more s3 = bstate.more s"
    using bread_more[OF a(1)] bwrite_more[OF a(2)] brelse_more[OF a(3)] by simp_all
  have "write_head me s = Ok s3" using a d log_fields(6,7)[OF m(1)] by (simp add: write_head_def head_at_def)
  then show ?thesis using m a(4) by blast
qed

lemma read_head_step:
  assumes i: "quiet dev me {} s" and d: "log_dev s = dev" and f: "0 < card (free_bufs s)" and n: "head_n (disk s (head_at s)) \<le> int LOGSIZE"
  defines "m \<equiv> head_n (disk s (head_at s))"
  shows "\<exists>s'. read_head me s = Ok s' \<and> stepped dev me {} s [] s' \<and> log_dev s' = dev \<and> log_start s' = log_start s \<and>
    lh_n s' = m \<and> lh_block s' = read_blocks [0..<nat m] (disk s (head_at s)) (lh_block s)"
proof -
  have ok: "cache_ok dev s" and ho: "holder dev s = (\<lambda>_. None)" and rc: "rc dev s = (\<lambda>b. 0)"
    and me: "me < length (procs s)" using i by (simp_all add: quiet_def)
  let ?b = "head_at s"
  obtain x s1 where r1: "bread me dev ?b s = Ok (x, s1)" "got_block dev me s ?b x s1"
    using bread_got[OF ok, of ?b me] ho rc f free_nonempty by auto
  have g1: "cache_ok dev s1" "owns dev s1 x ?b" "blk dev s1 = blk dev s" "disk s1 = disk s" "disk_trace s1 = disk_trace s"
    "rc dev s1 = (rc dev s)(?b := 1)" "holder dev s1 = (\<lambda>_. None)(?b := Some (mypid me s))" "procs s1 = procs s"
    "card (free_bufs s) = Suc (card (free_bufs s1))"
    using r1(2) rc ho by (simp_all add: got_block_def)
  have dd: "data_of x s1 = disk s ?b" using owns_view(1)[OF g1(1,2)] g1(3) quiet_unpinned[OF i, of ?b] by simp
  define t where "t = s1\<lparr>lh_n := m, lh_block := read_blocks [0..<nat m] (disk s ?b) (lh_block s1)\<rparr>"
  have t: "cache_ok dev t" "owns dev t x ?b" "blk dev t = blk dev s" "disk t = disk s" "disk_trace t = disk_trace s"
    "rc dev t = rc dev s1" "holder dev t = holder dev s1" "procs t = procs s" "free_bufs t = free_bufs s1"
  proof -
    have "bufs t = bufs s1" "lru t = lru s1" "disk t = disk s1" by (simp_all add: t_def)
    note v = view_cong[OF this]
    show "cache_ok dev t" "owns dev t x ?b" "blk dev t = blk dev s" "disk t = disk s" "disk_trace t = disk_trace s"
      "rc dev t = rc dev s1" "holder dev t = holder dev s1" "procs t = procs s" "free_bufs t = free_bufs s1"
      using v g1 by (simp_all add: t_def)
  qed
  have mt: "mypid me t = mypid me s" using mypid_procs[OF t(8)] .
  have mx: "mine dev me t x ?b" using t g1 mt by (simp add: mine_def)
  have cl: "blk dev t ?b = disk t ?b" using t quiet_unpinned[OF i, of ?b] by simp
  obtain s2 where b2: "brelse me x t = Ok s2" "put_block dev me t ?b s2" using brelse_put[OF t(1) mx] cl by auto
  have g2: "cache_ok dev s2" "blk dev s2 = blk dev s" "disk s2 = disk s" "disk_trace s2 = disk_trace s"
    "rc dev s2 = (\<lambda>_. 0)" "holder dev s2 = (\<lambda>_. None)" "card (free_bufs s2) = card (free_bufs s)"
    using b2(2) t g1 rc by (auto simp: put_block_def fun_eq_iff)
  have lp: "length (procs s2) = length (procs s)" using b2(2) t(8) by (metis length_map put_block_def)
  have "bstate.more s1 = bstate.more s" using bread_more[OF r1(1)] .
  note f1 = log_fields[OF this]
  have "bstate.more s2 = bstate.more t" using brelse_more[OF b2(1)] .
  note f2 = log_fields[OF this]
  have "read_head me s = Ok s2"
    using r1(1) b2(1) d dd n by (simp add: read_head_def head_at_def m_def t_def Let_def)
  moreover have "stepped dev me {} s [] s2" using g2 lp me by (simp add: stepped_def quiet_def)
  ultimately show ?thesis using f1 f2 d by (auto simp: t_def)
qed

section \<open>Commit and recovery\<close>

text \<open>The log's blocks are apart from each other and from the blocks of the transaction.\<close>

definition log_layout :: "nat \<Rightarrow> (nat \<Rightarrow> u32) \<Rightarrow> 'a lstate_scheme \<Rightarrow> bool" where
  "log_layout n h s \<longleftrightarrow> distinct (map h [0..<n]) \<and> distinct (map (log_at s) [0..<n]) \<and>
     (\<forall>t<n. h t \<noteq> head_at s \<and> log_at s t \<noteq> head_at s \<and> (\<forall>u<n. h u \<noteq> log_at s t))"

text \<open>The writes of a commit: the log, the header with the count, the blocks at home, the header
  with no count.\<close>

definition commit_writes :: "u32 \<Rightarrow> 'a lstate_scheme \<Rightarrow> (u32 \<times> u8 list) list" where
  "commit_writes dev s =
     (let n = nat (lh_n s); h = (\<lambda>t. lh_block s ! t); hd1 = head_bytes (lh_n s) (lh_block s) (disk s (head_at s))
      in map (\<lambda>t. (log_at s t, blk dev s (h t))) [0..<n] @ [(head_at s, hd1)] @
         map (\<lambda>t. (h t, blk dev s (h t))) [0..<n] @ [(head_at s, head_bytes 0 (lh_block s) hd1)])"

lemma commit_steps:
  assumes i: "quiet dev me P s" and d: "log_dev s = dev" and n: "0 < lh_n s" "lh_n s \<le> int LOGSIZE"
    and f: "0 < card (free_bufs s)" and lay: "log_layout (nat (lh_n s)) (\<lambda>t. lh_block s ! t) s"
    and P: "P = (\<lambda>t. lh_block s ! t) ` {..<nat (lh_n s)}"
  shows "\<exists>s'. commit me s = Ok s' \<and> stepped dev me {} s (commit_writes dev s) s'"
proof -
  let ?n = "nat (lh_n s)"
  let ?h = "\<lambda>t. lh_block s ! t"
  define W where "W = map (\<lambda>t. (log_at s t, blk dev s (?h t))) [0..<?n]"
  define hd1 where "hd1 = head_bytes (lh_n s) (lh_block s) (disk s (head_at s))"
  have hP: "head_at s \<notin> P" "\<forall>t<?n. log_at s t \<notin> P \<and> log_at s t \<noteq> head_at s \<and> ?h t \<noteq> head_at s"
    using lay P by (auto simp: log_layout_def) metis
  obtain s1 where s1: "write_log me s = Ok s1" "bstate.more s1 = bstate.more s" "stepped dev me P s W s1"
    using write_log_steps[OF i d f, of "[0..<?n]"] hP P by (auto simp: write_log_def W_def)
  note f1 = log_fields[OF s1(2)]
  have i1: "quiet dev me P s1" "0 < card (free_bufs s1)" "disk s1 = replay (disk s) W" using s1(3) f by (simp_all add: stepped_def)
  have hd: "head_at s1 = head_at s" using f1 by (simp add: head_at_def)
  have d1: "disk s1 (head_at s) = disk s (head_at s)"
    unfolding i1(3) by (rule replay_other) (use hP in \<open>auto simp: W_def\<close>)
  obtain s2 where s2: "write_head me s1 = Ok s2" "bstate.more s2 = bstate.more s" "stepped dev me P s1 [(head_at s, hd1)] s2"
  proof -
    have pre: "log_dev s1 = dev" "head_at s1 \<notin> P" "nat (lh_n s1) \<le> LOGSIZE" using f1 d hP hd n by simp_all
    show ?thesis using that write_head_step[OF i1(1) pre(1,2) i1(2) pre(3)] f1 hd s1(2) d1 hd1_def by metis
  qed
  note f2 = log_fields[OF s2(2)]
  have i2: "quiet dev me P s2" "0 < card (free_bufs s2)" "disk s2 = (replay (disk s) W)(head_at s := hd1)"
    using s2(3) i1 by (simp_all add: stepped_def)
  have lg: "disk s2 (log_at s t) = blk dev s (?h t)" if "t < ?n" for t
  proof -
    have "distinct (map (log_at s) [0..<?n])" using lay by (simp add: log_layout_def)
    then have "replay (disk s) W (log_at s t) = blk dev s (?h t)" unfolding W_def by (rule replay_map(1)) (use that in simp)
    then show ?thesis using i2(3) hP(2) that by simp
  qed
  define I where "I = map (\<lambda>t. (?h t, blk dev s (?h t))) [0..<?n]"
  have Ieq: "map (\<lambda>t. (lh_block s2 ! t, disk s2 (log_at s2 t))) [0..<?n] = I" using lg f2 by (simp add: I_def)
  obtain s3 where s3: "install_trans me False s2 = Ok s3" "bstate.more s3 = bstate.more s" "stepped dev me {} s2 I s3"
  proof -
    have dist: "distinct (map (\<lambda>t. lh_block s2 ! t) [0..<?n])" using lay f2 by (simp add: log_layout_def)
    have lb: "\<forall>t\<in>set [0..<?n]. log_at s2 t \<notin> P \<and> (\<forall>u\<in>set [0..<?n]. lh_block s2 ! u \<noteq> log_at s2 t)"
      using lay hP f2 by (auto simp: log_layout_def)
    have c: "if False then 2 \<le> card (free_bufs s2) \<and> (\<forall>t\<in>set [0..<?n]. lh_block s2 ! t \<notin> P)
       else 1 \<le> card (free_bufs s2) \<and> (\<forall>t\<in>set [0..<?n]. lh_block s2 ! t \<in> P)"
      using i2(2) P f2 by auto
    have dv: "log_dev s2 = dev" using f2 d by simp
    have pe: "P - (\<lambda>t. lh_block s2 ! t) ` set [0..<?n] = {}" using P f2 by auto
    obtain s3 where "install_loop [0..<?n] me False s2 = Ok s3" "bstate.more s3 = bstate.more s2"
       "stepped dev me {} s2 I s3"
      using install_steps[OF i2(1) dv dist lb c, unfolded pe Ieq if_False] by (elim exE conjE) (rule that)
    moreover have "install_trans me False s2 = install_loop [0..<?n] me False s2" using f2(6) by (simp add: install_trans_def)
    ultimately show ?thesis using that s2(2) by simp
  qed
  have i3: "quiet dev me {} s3" "0 < card (free_bufs s3)" "disk s3 = replay (disk s2) I" using s3(3) i2 by (auto simp: stepped_def)
  define s4 where "s4 = s3\<lparr>lh_n := 0\<rparr>"
  note f3 = log_fields[OF s3(2)]
  have f4: "log_dev s4 = dev" "head_at s4 = head_at s" "lh_n s4 = 0" "lh_block s4 = lh_block s" "disk s4 = disk s3"
    using f3 d by (simp_all add: s4_def head_at_def log_at_def)
  have i4: "quiet dev me {} s4" "free_bufs s4 = free_bufs s3" "blk dev s4 = blk dev s3" "disk_trace s4 = disk_trace s3"
    using i3 by (simp_all add: s4_def)
  have d3: "disk s4 (head_at s) = hd1"
  proof -
    have "replay (disk s2) I (head_at s) = disk s2 (head_at s)" by (rule replay_other) (use hP in \<open>auto simp: I_def\<close>)
    then show ?thesis using i2(3) i3(3) f4 by simp
  qed
  obtain s5 where s5: "write_head me s4 = Ok s5" "stepped dev me {} s4 [(head_at s, head_bytes 0 (lh_block s) hd1)] s5"
    using write_head_step[OF i4(1) f4(1)] i4(2) i3(2) f4 d3 by auto
  have "stepped dev me {} s3 [(head_at s, head_bytes 0 (lh_block s) hd1)] s5"
    using s5(2) i4 f4 by (simp add: stepped_def)
  then have "stepped dev me {} s (W @ [(head_at s, hd1)] @ I @ [(head_at s, head_bytes 0 (lh_block s) hd1)]) s5"
    using stepped_trans[OF stepped_trans[OF stepped_trans[OF s1(3) s2(3)] s3(3)]] by simp
  moreover have "commit me s = Ok s5" using n s1(1) s2(1) s3(1) s5(1) by (simp add: commit_def s4_def)
  ultimately show ?thesis by (auto simp: commit_writes_def W_def I_def hd1_def Let_def)
qed

text \<open>Recovery copies the committed blocks home and clears the header.\<close>

lemma recover_steps:
  assumes i: "quiet dev me {} s" and d: "log_dev s = dev" and f: "2 \<le> card (free_bufs s)"
    and n: "head_n (disk s (head_at s)) = int n" "n \<le> LOGSIZE" and l: "length (lh_block s) = LOGSIZE"
    and h: "\<And>t. t < n \<Longrightarrow> get32 (disk s (head_at s)) (4 + 4 * t) = h t" and lay: "log_layout n h s"
  shows "\<exists>s' hd0. recover_from_log me s = Ok s' \<and>
     disk s' = (replay (disk s) (map (\<lambda>t. (h t, disk s (log_at s t))) [0..<n]))(head_at s := hd0) \<and> head_n hd0 = 0"
proof -
  obtain s1 where s1: "read_head me s = Ok s1" "stepped dev me {} s [] s1" "log_dev s1 = dev" "log_start s1 = log_start s"
     "lh_n s1 = int n" "lh_block s1 = read_blocks [0..<n] (disk s (head_at s)) (lh_block s)"
    using read_head_step[OF i d] f n by auto
  have hd: "head_at s1 = head_at s" "\<And>t. log_at s1 t = log_at s t" using s1(4) by (simp_all add: head_at_def log_at_def)
  have i1: "quiet dev me {} s1" "2 \<le> card (free_bufs s1)" "disk s1 = disk s" using s1(2) f by (simp_all add: stepped_def)
  have b: "lh_block s1 ! t = h t" if "t < n" for t
    using read_blocks_nth[of "[0..<n]" "lh_block s" "disk s (head_at s)"] that h n(2) l s1(6) by simp
  define I where "I = map (\<lambda>t. (h t, disk s (log_at s t))) [0..<n]"
  have Ieq: "map (\<lambda>t. (lh_block s1 ! t, disk s1 (log_at s1 t))) [0..<n] = I" using b hd i1(3) by (simp add: I_def)
  obtain s2 where s2: "install_trans me True s1 = Ok s2" "bstate.more s2 = bstate.more s1" "stepped dev me {} s1 I s2"
  proof -
    have "map (\<lambda>t. lh_block s1 ! t) [0..<n] = map h [0..<n]" by (rule map_cong) (simp_all add: b)
    then have dist: "distinct (map (\<lambda>t. lh_block s1 ! t) [0..<n])"
      using lay by (simp only: log_layout_def)
    have lb: "\<forall>t\<in>set [0..<n]. log_at s1 t \<notin> {} \<and> (\<forall>u\<in>set [0..<n]. lh_block s1 ! u \<noteq> log_at s1 t)"
      using lay b hd by (simp add: log_layout_def)
    have c: "if True then 2 \<le> card (free_bufs s1) \<and> (\<forall>t\<in>set [0..<n]. lh_block s1 ! t \<notin> {})
       else 1 \<le> card (free_bufs s1) \<and> (\<forall>t\<in>set [0..<n]. lh_block s1 ! t \<in> {})"
      using i1(2) by simp
    obtain s2 where "install_loop [0..<n] me True s1 = Ok s2" "bstate.more s2 = bstate.more s1" "stepped dev me {} s1 I s2"
      using install_steps[OF i1(1) s1(3) dist lb c] Ieq by auto
    then show ?thesis using that[of s2] s1(5) by (simp add: install_trans_def)
  qed
  note f2 = log_fields[OF s2(2)]
  define s3 where "s3 = s2\<lparr>lh_n := 0\<rparr>"
  have i2: "quiet dev me {} s2" "0 < card (free_bufs s2)" "disk s2 = replay (disk s) I" using s2(3) i1 by (auto simp: stepped_def)
  have i3: "quiet dev me {} s3" "0 < card (free_bufs s3)" "disk s3 = replay (disk s) I" "log_dev s3 = dev" "head_at s3 = head_at s" "lh_n s3 = 0"
    using i2 f2 s1(3) hd by (simp_all add: s3_def head_at_def)
  let ?hd0 = "head_bytes 0 (lh_block s3) (disk s3 (head_at s))"
  obtain s4 where s4: "write_head me s3 = Ok s4" "stepped dev me {} s3 [(head_at s, ?hd0)] s4"
    using write_head_step[OF i3(1,4) _ i3(2)] i3(5,6) by auto
  have "length (disk s3 (head_at s)) = BSIZE" using i3(1) by (simp add: quiet_def cache_ok_def)
  then have "head_n ?hd0 = 0" by (intro head_decode(1)) simp_all
  moreover have "recover_from_log me s = Ok s4" using s1(1) s2(1) s4(1) by (simp add: recover_from_log_def s3_def)
  moreover have "disk s4 = (replay (disk s) I)(head_at s := ?hd0)" using s4(2) i3(3) by (simp add: stepped_def)
  ultimately show ?thesis unfolding I_def by blast
qed

section \<open>Crash atomicity\<close>

text \<open>A machine booted on the disk \<open>D\<close> with the log of \<open>s\<close>: nothing cached is in use.\<close>

definition rebooted :: "u32 \<Rightarrow> nat \<Rightarrow> (u32 \<Rightarrow> u8 list) \<Rightarrow> 'a lstate_scheme \<Rightarrow> 'a lstate_scheme \<Rightarrow> bool" where
  "rebooted dev me D s t \<longleftrightarrow> quiet dev me {} t \<and> 2 \<le> card (free_bufs t) \<and> disk t = D \<and> log_dev t = dev \<and>
     log_start t = log_start s \<and> length (lh_block t) = LOGSIZE"

text \<open>The transaction that \<open>commit\<close> writes: its blocks are the pinned ones, and lie outside the log.\<close>

definition transaction :: "u32 \<Rightarrow> nat \<Rightarrow> 'a lstate_scheme \<Rightarrow> bool" where
  "transaction dev me s \<longleftrightarrow>
     quiet dev me ((\<lambda>t. lh_block s ! t) ` {..<nat (lh_n s)}) s \<and> log_dev s = dev \<and> 0 < lh_n s \<and> lh_n s \<le> int LOGSIZE \<and>
     0 < card (free_bufs s) \<and> log_layout (nat (lh_n s)) (\<lambda>t. lh_block s ! t) s \<and> head_n (disk s (head_at s)) = 0"

definition log_area :: "nat \<Rightarrow> 'a lstate_scheme \<Rightarrow> u32 set" where
  "log_area n s = insert (head_at s) (log_at s ` {..<n})"

text \<open>The blocks outside the log after the transaction.\<close>

definition committed :: "u32 \<Rightarrow> 'a lstate_scheme \<Rightarrow> u32 \<Rightarrow> u8 list" where
  "committed dev s b = (if b \<in> (\<lambda>t. lh_block s ! t) ` {..<nat (lh_n s)} then blk dev s b else disk s b)"

lemma recover_clean:
  assumes r: "rebooted dev me D s t" and h: "head_n (D (head_at s)) = 0"
  shows "\<exists>t'. recover_from_log me t = Ok t' \<and> (\<forall>b. b \<noteq> head_at s \<longrightarrow> disk t' b = D b)"
proof -
  have hd: "head_at t = head_at s" using r by (simp add: rebooted_def head_at_def)
  have "\<exists>t' hd0. recover_from_log me t = Ok t' \<and>
     disk t' = (replay (disk t) (map (\<lambda>u. (0, disk t (log_at t u))) [0..<0]))(head_at t := hd0) \<and> head_n hd0 = 0"
    by (rule recover_steps[where dev = dev and h = "\<lambda>_. 0"])
      (use r h hd in \<open>simp_all add: rebooted_def log_layout_def\<close>)
  then show ?thesis using r hd by (auto simp: rebooted_def)
qed

lemma recover_committed:
  assumes r: "rebooted dev me D s t" and h: "head_n (D (head_at s)) = int n" "n \<le> LOGSIZE"
    and g: "\<And>u. u < n \<Longrightarrow> get32 (D (head_at s)) (4 + 4 * u) = h u" and lay: "log_layout n h s"
  shows "\<exists>t'. recover_from_log me t = Ok t' \<and>
     (\<forall>b. b \<noteq> head_at s \<longrightarrow> disk t' b = replay D (map (\<lambda>u. (h u, D (log_at s u))) [0..<n]) b)"
proof -
  have hd: "head_at t = head_at s" "log_at t = log_at s"
    using r by (simp_all add: rebooted_def head_at_def log_at_def fun_eq_iff)
  have "\<exists>t' hd0. recover_from_log me t = Ok t' \<and>
     disk t' = (replay (disk t) (map (\<lambda>u. (h u, disk t (log_at t u))) [0..<n]))(head_at t := hd0) \<and> head_n hd0 = 0"
    by (rule recover_steps[where dev = dev and h = h])
      (use r h g hd lay in \<open>simp_all add: rebooted_def log_layout_def\<close>)
  then show ?thesis using r hd by (auto simp: rebooted_def)
qed

text \<open>What the disk holds when the machine stops after \<open>k\<close> of the writes.\<close>

lemma crash_disk:
  assumes T: "transaction dev me s" and k: "k \<le> length (commit_writes dev s)"
  defines "n \<equiv> nat (lh_n s)"
  defines "h \<equiv> \<lambda>t. lh_block s ! t"
  defines "D \<equiv> replay (disk s) (take k (commit_writes dev s))"
  shows "k \<le> n \<Longrightarrow> head_n (D (head_at s)) = 0 \<and> (\<forall>b. b \<notin> log_area n s \<longrightarrow> D b = disk s b)"
    and "n < k \<Longrightarrow> k \<le> 2 * n + 1 \<Longrightarrow> head_n (D (head_at s)) = int n \<and>
       (\<forall>u<n. get32 (D (head_at s)) (4 + 4 * u) = h u \<and> D (log_at s u) = blk dev s (h u)) \<and>
       (\<forall>b. b \<notin> log_area n s \<longrightarrow> b \<notin> h ` {..<n} \<longrightarrow> D b = disk s b)"
    and "2 * n + 1 < k \<Longrightarrow> head_n (D (head_at s)) = 0 \<and> (\<forall>b. b \<notin> log_area n s \<longrightarrow> D b = committed dev s b)"
proof -
  have T': "log_layout n h s" "head_n (disk s (head_at s)) = 0" "0 < lh_n s" "lh_n s \<le> int LOGSIZE"
    "length (disk s (head_at s)) = BSIZE"
    using T by (simp_all add: transaction_def n_def h_def quiet_def cache_ok_def)
  define W where "W = map (\<lambda>t. (log_at s t, blk dev s (h t))) [0..<n]"
  define I where "I = map (\<lambda>t. (h t, blk dev s (h t))) [0..<n]"
  define hd1 where "hd1 = head_bytes (lh_n s) (lh_block s) (disk s (head_at s))"
  define hd0 where "hd0 = head_bytes 0 (lh_block s) hd1"
  have ws: "commit_writes dev s = W @ [(head_at s, hd1)] @ I @ [(head_at s, hd0)]"
    by (simp add: commit_writes_def W_def I_def hd1_def hd0_def h_def n_def Let_def)
  have len: "length W = n" "length I = n" by (simp_all add: W_def I_def)
  have d: "distinct (map h [0..<n])" "distinct (map (log_at s) [0..<n])"
    and ap: "\<And>t. t < n \<Longrightarrow> h t \<noteq> head_at s \<and> log_at s t \<noteq> head_at s \<and> (\<forall>u<n. h u \<noteq> log_at s t)"
    using T'(1) unfolding log_layout_def by blast+
  have hd1: "head_n hd1 = int n" "\<And>u. u < n \<Longrightarrow> get32 hd1 (4 + 4 * u) = h u" "length hd1 = BSIZE"
    using head_decode[OF T'(5), of "lh_n s"] T' by (simp_all add: hd1_def n_def h_def)
  have hd0: "head_n hd0 = 0" using head_decode(1)[OF hd1(3), of 0] by (simp add: hd0_def)
  have fw: "fst ` set (take j W) \<subseteq> log_at s ` {..<n}" for j by (auto simp: W_def dest!: in_set_takeD)
  have fi: "fst ` set (take j I) \<subseteq> h ` {..<n}" for j by (auto simp: I_def dest!: in_set_takeD)
  have nh: "head_at s \<notin> log_at s ` {..<n}" "head_at s \<notin> h ` {..<n}" "\<And>t. t < n \<Longrightarrow> log_at s t \<notin> h ` {..<n}" using ap by force+
  note ro = replay_other
  let ?E = "(replay (disk s) W)(head_at s := hd1)"
  have Wl: "replay (disk s) W (log_at s u) = blk dev s (h u)" if "u < n" for u
    unfolding W_def by (rule replay_map(1)[OF d(2)]) (use that in simp)
  have Wo: "replay (disk s) (take j W) b = disk s b" if "b \<notin> log_at s ` {..<n}" for j b
    by (rule ro) (use fw[of j] that in blast)
  have Io: "replay ?E (take j I) b = ?E b" if "b \<notin> h ` {..<n}" for j b
    by (rule ro) (use fi[of j] that in blast)
  show "head_n (D (head_at s)) = 0 \<and> (\<forall>b. b \<notin> log_area n s \<longrightarrow> D b = disk s b)" if "k \<le> n"
  proof -
    have "D = replay (disk s) (take k W)" using that len by (simp add: D_def ws)
    then show ?thesis using Wo[of _ k] nh(1) T'(2) by (simp add: log_area_def)
  qed
  show "head_n (D (head_at s)) = int n \<and>
       (\<forall>u<n. get32 (D (head_at s)) (4 + 4 * u) = h u \<and> D (log_at s u) = blk dev s (h u)) \<and>
       (\<forall>b. b \<notin> log_area n s \<longrightarrow> b \<notin> h ` {..<n} \<longrightarrow> D b = disk s b)" if "n < k" "k \<le> 2 * n + 1"
  proof -
    define j where "j = k - Suc n"
    have j: "k = Suc n + j" "j \<le> n" using that by (simp_all add: j_def)
    have D: "D = replay ?E (take j I)" using j len by (simp add: D_def ws)
    have "D b = ?E b" if "b \<notin> h ` {..<n}" for b unfolding D using Io that by blast
    then show ?thesis using nh hd1 Wl ap Wo[of _ n] len(1) by (simp add: log_area_def)
  qed
  show "head_n (D (head_at s)) = 0 \<and> (\<forall>b. b \<notin> log_area n s \<longrightarrow> D b = committed dev s b)" if "2 * n + 1 < k"
  proof -
    have "k = length (commit_writes dev s)" using k that by (simp add: ws len)
    then have D: "D = (replay ?E I)(head_at s := hd0)" by (simp add: D_def ws)
    have "replay ?E I b = (if b \<in> h ` {..<n} then blk dev s b else ?E b)" for b
      by (cases "b \<in> h ` {..<n}") (use replay_map[OF d(1), where g = "\<lambda>t. blk dev s (h t)" and D = ?E] in \<open>auto simp: I_def atLeast0LessThan\<close>)
    then show ?thesis unfolding D committed_def using hd0 Wo[of _ n] len(1)
      by (simp add: log_area_def h_def n_def)
  qed
qed

lemma crash_recovery:
  assumes T: "transaction dev me s" and k: "k \<le> length (commit_writes dev s)"
    and r: "rebooted dev me (replay (disk s) (take k (commit_writes dev s))) s t"
  shows "\<exists>t'. recover_from_log me t = Ok t' \<and> (\<forall>b. b \<notin> log_area (nat (lh_n s)) s \<longrightarrow>
     disk t' b = (if k \<le> nat (lh_n s) then disk s b else committed dev s b))"
proof -
  let ?D = "replay (disk s) (take k (commit_writes dev s))"
  let ?n = "nat (lh_n s)"
  let ?h = "\<lambda>t. lh_block s ! t"
  have lay: "log_layout ?n ?h s" "?n \<le> LOGSIZE" using T unfolding transaction_def by (blast, linarith)
  note c = crash_disk[OF T k]
  consider "k \<le> ?n" | "?n < k" "k \<le> 2 * ?n + 1" | "2 * ?n + 1 < k" by linarith
  then show ?thesis
  proof cases
    case 1 then show ?thesis using recover_clean[OF r] c(1) by (auto simp: log_area_def)
  next
    case 2
    have g: "\<And>u. u < ?n \<Longrightarrow> ?D (log_at s u) = blk dev s (?h u)" using c(2)[OF 2] by blast
    have I: "map (\<lambda>u. (?h u, ?D (log_at s u))) [0..<?n] = map (\<lambda>u. (?h u, blk dev s (?h u))) [0..<?n]"
      by (rule map_cong) (simp_all add: g)
    have d: "distinct (map ?h [0..<?n])" using lay by (simp only: log_layout_def)
    have R: "replay ?D (map (\<lambda>u. (?h u, blk dev s (?h u))) [0..<?n]) b = committed dev s b" if "b \<notin> log_area ?n s" for b
      using replay_map[OF d, where g = "\<lambda>u. blk dev s (?h u)" and D = ?D] c(2)[OF 2] that
      by (cases "b \<in> ?h ` {..<?n}") (auto simp: committed_def atLeast0LessThan)
    obtain t' where t': "recover_from_log me t = Ok t'"
      "\<forall>b. b \<noteq> head_at s \<longrightarrow> disk t' b = replay ?D (map (\<lambda>u. (?h u, blk dev s (?h u))) [0..<?n]) b"
      using recover_committed[OF r _ lay(2) _ lay(1)] c(2)[OF 2] unfolding I by blast
    then show ?thesis using R 2 by (auto simp: log_area_def)
  next
    case 3 then show ?thesis using recover_clean[OF r] c(3) by (auto simp: log_area_def)
  qed
qed

text \<open>C2. Crash atomicity of the log: \<open>commit\<close> succeeds and issues exactly the writes of
  \<open>commit_writes\<close>; if the machine stops after any number \<open>k\<close> of these writes reached the disk, then on the
  next boot \<open>recover_from_log\<close> succeeds, and every block outside the log holds what it held before the
  transaction when \<open>k\<close> does not reach the header, and what the transaction wrote from then on.\<close>

theorem log_crash_atomic:
  assumes "transaction dev me s" and "k \<le> length (commit_writes dev s)"
    and "rebooted dev me (replay (disk s) (take k (commit_writes dev s))) s t"
  shows "\<exists>s' t'. commit me s = Ok s' \<and> disk_trace s' = disk_trace s @ commit_writes dev s \<and>
     recover_from_log me t = Ok t' \<and> (\<forall>b. b \<notin> log_area (nat (lh_n s)) s \<longrightarrow>
       disk t' b = (if k \<le> nat (lh_n s) then disk s b else committed dev s b))"
proof -
  obtain s' where "commit me s = Ok s'" "stepped dev me {} s (commit_writes dev s) s'"
    using commit_steps[of dev me _ s] assms(1) by (auto simp: transaction_def)
  then show ?thesis using crash_recovery[OF assms] by (auto simp: stepped_def)
qed

section \<open>A small log\<close>

definition fill :: "u8 \<Rightarrow> u8 list" where
  "fill x = replicate BSIZE x"

lemma length_fill [simp]: "length (fill x) = 1024"
  unfolding fill_def by (rule length_replicate)

lemma head_n_fill: "head_n (fill 0) = 0"
  by code_simp

definition free_buf :: buf where
  "free_buf = \<lparr>bvalid = False, bdev = 0, blockno = 0, block = initsleeplock, refcnt = 0, bdata = []\<rparr>"

definition sample_lstate :: "(u32 \<Rightarrow> u8 list) \<Rightarrow> buf \<Rightarrow> int \<Rightarrow> lstate" where
  "sample_lstate D x n = \<lparr>mem = \<lambda>_. 0, freelist = 0, kend = 0x80001234, config = RR, trampoline_pa = 0x80000000,
     forkret_pc = 0x80000100, procs = [blank_proc], initproc = None, nextpid = 1, sys_time = 0, kticks = 0,
     uart_buf = replicate 32 0, uart_w = 0, uart_r = 0, uart_out = [], panicked = False,
     cons_buf = replicate 128 0, cons_r = 0, cons_w = 0, cons_e = 0,
     bufs = [x, free_buf, free_buf], lru = [0, 1, 2], disk = D, disk_trace = [],
     log_start = 2, log_size = 30, outstanding = 0, committing = True, log_dev = 1, lh_n = n,
     lh_block = 45 # replicate 29 0\<rparr>"

definition zero_disk :: "u32 \<Rightarrow> u8 list" where
  "zero_disk b = fill 0"

definition dirty_buf :: buf where
  "dirty_buf = \<lparr>bvalid = True, bdev = 1, blockno = 45, block = initsleeplock, refcnt = 1, bdata = fill 7\<rparr>"

lemma sample_fields:
  "disk (sample_lstate D x n) = D" "log_dev (sample_lstate D x n) = 1" "log_start (sample_lstate D x n) = 2"
  "length (lh_block (sample_lstate D x n)) = LOGSIZE"
  by (simp_all add: sample_lstate_def)

lemma lt3: "(i::nat) < 3 \<longleftrightarrow> i = 0 \<or> i = 1 \<or> i = 2" by auto

lemma sample_cache_ok:
  assumes "\<forall>b. length (D b) = BSIZE" and "x = free_buf \<or> x = dirty_buf"
  shows "cache_ok 1 (sample_lstate D x n)"
  using assms by (auto simp: cache_ok_def holds_block_def sample_lstate_def buf_ok_def free_buf_def dirty_buf_def
      initsleeplock_def lt3 all_less_two numeral_3_eq_3 less_Suc_eq)

lemma sample_free: "card (free_bufs (sample_lstate D x n)) = (if refcnt x = 0 then 3 else 2)"
proof -
  have "free_bufs (sample_lstate D x n) = (if refcnt x = 0 then {0, 1, 2} else {1, 2})"
    by (auto simp: free_bufs_def sample_lstate_def free_buf_def less_Suc_eq numeral_3_eq_3)
  then show ?thesis by simp
qed

lemma sample_quiet:
  assumes "\<forall>b. length (D b) = BSIZE"
  shows "quiet 1 0 {45} (sample_lstate D dirty_buf n)" "quiet 1 0 {} (sample_lstate D free_buf n)"
    "blk 1 (sample_lstate D dirty_buf n) 45 = fill 7"
  using sample_cache_ok[OF assms]
  by (auto simp: quiet_def holder_def rc_def blk_def buf_of_def sample_lstate_def free_buf_def dirty_buf_def initsleeplock_def
      fun_eq_iff split: option.split)

lemma sample_transaction: "transaction 1 0 (sample_lstate zero_disk dirty_buf 1)"
proof -
  note h = head_n_fill
  have "quiet 1 0 {45} (sample_lstate zero_disk dirty_buf 1)" by (rule sample_quiet) (simp add: zero_disk_def)
  moreover have "log_layout 1 (\<lambda>t. lh_block (sample_lstate zero_disk dirty_buf 1) ! t) (sample_lstate zero_disk dirty_buf 1)"
    by (simp add: log_layout_def sample_lstate_def log_at_def head_at_def)
  ultimately show ?thesis using sample_free[of zero_disk dirty_buf 1] h
    by (simp add: transaction_def sample_lstate_def dirty_buf_def zero_disk_def lessThan_Suc)
qed

text \<open>A crash right after the header reached the disk: recovery brings block 45 home.\<close>

theorem log_crash_atomic_witness:
  "\<exists>t'. recover_from_log 0 (sample_lstate (replay zero_disk (take 2 (commit_writes 1 (sample_lstate zero_disk dirty_buf 1))))
     free_buf 0) = Ok t' \<and> disk t' 45 = fill 7 \<and> disk t' 46 = fill 0"
proof -
  let ?s = "sample_lstate zero_disk dirty_buf 1"
  let ?D = "replay zero_disk (take 2 (commit_writes 1 ?s))"
  have f: "disk ?s = zero_disk" "lh_n ?s = 1" "lh_block ?s ! 0 = 45" "log_area 1 ?s = {2, 3}" "log_at ?s 0 = 3" "head_at ?s = 2"
    by (auto simp: sample_lstate_def log_area_def log_at_def head_at_def)
  have b: "blk 1 ?s 45 = fill 7" by (rule sample_quiet(3)) (simp add: zero_disk_def)
  have l: "length (commit_writes 1 ?s) = 4" by (simp add: commit_writes_def f Let_def)
  have "take 2 (commit_writes 1 ?s) = [(3, blk 1 ?s 45), (2, head_bytes 1 (lh_block ?s) (fill 0))]"
    by (simp add: commit_writes_def f Let_def zero_disk_def)
  then have D: "\<forall>b. length (?D b) = BSIZE" using b by (simp add: zero_disk_def)
  have r: "rebooted 1 0 (replay (disk ?s) (take 2 (commit_writes 1 ?s))) ?s (sample_lstate ?D free_buf 0)"
    using sample_quiet(2)[OF D, of 0] sample_free[of ?D free_buf 0]
    unfolding rebooted_def f(1) by (simp add: sample_fields free_buf_def)
  have "\<exists>s' t'. commit 0 ?s = Ok s' \<and> disk_trace s' = disk_trace ?s @ commit_writes 1 ?s \<and>
     recover_from_log 0 (sample_lstate ?D free_buf 0) = Ok t' \<and> (\<forall>b. b \<notin> log_area (nat (lh_n ?s)) ?s \<longrightarrow>
       disk t' b = (if 2 \<le> nat (lh_n ?s) then disk ?s b else committed 1 ?s b))"
    by (rule log_crash_atomic[OF sample_transaction _ r]) (unfold l, simp)
  then obtain t' where t': "recover_from_log 0 (sample_lstate ?D free_buf 0) = Ok t'"
      "\<And>b. b \<notin> {2, 3} \<Longrightarrow> disk t' b = committed 1 ?s b" unfolding f(2) by (auto simp: f f(4)[unfolded One_nat_def])
  have "committed 1 ?s 45 = fill 7" "committed 1 ?s 46 = fill 0" unfolding committed_def f(1,2)
    by (simp_all add: f b zero_disk_def lessThan_Suc)
  then show ?thesis using t' by (intro exI[of _ t']) simp
qed

end
