(* ===== verification/Fs.thy ===== *)
theory Fs
  imports Log
begin

text \<open>
  \<open>kernel/fs.c\<close>: blocks, inodes, directories and path names over the log.  A \<open>struct inode*\<close> is an
  index into \<open>itable\<close>; the \<open>short\<close> fields of an inode are integers; a path or name is its
  characters without the terminator.  \<open>balloc\<close> and \<open>ialloc\<close> print with \<open>printf\<close>.
\<close>

section \<open>State\<close>

abbreviation BPB :: nat where "BPB \<equiv> 8192"
abbreviation IPB :: nat where "IPB \<equiv> 16"
abbreviation NDIRECT :: nat where "NDIRECT \<equiv> 12"
abbreviation NINDIRECT :: nat where "NINDIRECT \<equiv> 256"
abbreviation MAXFILE :: nat where "MAXFILE \<equiv> 268"
abbreviation DIRSIZ :: nat where "DIRSIZ \<equiv> 14"
abbreviation T_DIR :: int where "T_DIR \<equiv> 1"
abbreviation T_FILE :: int where "T_FILE \<equiv> 2"
abbreviation T_DEVICE :: int where "T_DEVICE \<equiv> 3"
abbreviation ROOTDEV :: u32 where "ROOTDEV \<equiv> 1"
abbreviation ROOTINO :: u32 where "ROOTINO \<equiv> 1"

record superblock =
  magic :: u32
  fssize :: u32
  nblocks :: u32
  ninodes :: u32
  nlog :: u32
  logstart :: u32
  inodestart :: u32
  bmapstart :: u32

record inode =
  idev :: u32
  inum :: u32
  iref :: int
  ilk :: sleeplock
  ivalid :: bool
  itype :: int
  imajor :: int
  iminor :: int
  inlink :: int
  isize :: u32
  addrs :: "u32 list"

record fstate = lstate +
  sb :: superblock
  itable :: "inode list"

definition upd_inode :: "nat \<Rightarrow> (inode \<Rightarrow> inode) \<Rightarrow> 'a fstate_scheme \<Rightarrow> 'a fstate_scheme" where
  "upd_inode i f s = s\<lparr>itable := (itable s)[i := f (itable s ! i)]\<rparr>"

abbreviation inode_at :: "'a fstate_scheme \<Rightarrow> nat \<Rightarrow> inode" where
  "inode_at s i \<equiv> itable s ! i"

definition IBLOCK :: "u32 \<Rightarrow> superblock \<Rightarrow> u32" where
  "IBLOCK i b = i div 16 + inodestart b"

definition BBLOCK :: "u32 \<Rightarrow> superblock \<Rightarrow> u32" where
  "BBLOCK i b = i div 8192 + bmapstart b"

section \<open>Super block\<close>

definition superblock_of :: "u8 list \<Rightarrow> superblock" where
  "superblock_of d = \<lparr>magic = get32 d 0, fssize = get32 d 4, nblocks = get32 d 8, ninodes = get32 d 12,
     nlog = get32 d 16, logstart = get32 d 20, inodestart = get32 d 24, bmapstart = get32 d 28\<rparr>"

definition readsb :: "nat \<Rightarrow> u32 \<Rightarrow> 'a fstate_scheme \<Rightarrow> 'a fstate_scheme res" where
  "readsb me dev s =
     rbind (bread me dev 1 s) (\<lambda>(bp, s1). brelse me bp (s1\<lparr>sb := superblock_of (data_of bp s1)\<rparr>))"

definition FSMAGIC :: u32 where "FSMAGIC = 0x10203040"

definition fsinit :: "nat \<Rightarrow> u32 \<Rightarrow> 'a fstate_scheme \<Rightarrow> 'a fstate_scheme res" where
  "fsinit me dev s =
     rbind (readsb me dev s) (\<lambda>s1.
       if magic (sb s1) \<noteq> FSMAGIC then Panic ''invalid file system''
       else initlog me dev (logstart (sb s1)) (nlog (sb s1)) s1)"

section \<open>Blocks\<close>

definition bzero :: "nat \<Rightarrow> u32 \<Rightarrow> u32 \<Rightarrow> 'a fstate_scheme \<Rightarrow> 'a fstate_scheme res" where
  "bzero me dev bno s =
     rbind (bread me dev bno s) (\<lambda>(bp, s1).
     rbind (log_write bp (set_data bp (replicate BSIZE 0) s1)) (\<lambda>s2. brelse me bp s2))"

text \<open>Bit \<open>bi\<close> of a block of the free map.\<close>

definition bit_used :: "u8 list \<Rightarrow> nat \<Rightarrow> bool" where
  "bit_used d bi \<longleftrightarrow> (d ! (bi div 8)) AND push_bit (bi mod 8) 1 \<noteq> 0"

definition mark_used :: "u8 list \<Rightarrow> nat \<Rightarrow> u8 list" where
  "mark_used d bi = d[bi div 8 := (d ! (bi div 8)) OR push_bit (bi mod 8) 1]"

definition mark_free :: "u8 list \<Rightarrow> nat \<Rightarrow> u8 list" where
  "mark_free d bi = d[bi div 8 := (d ! (bi div 8)) AND NOT (push_bit (bi mod 8) 1)]"

text \<open>The inner loop of \<open>balloc\<close> over the \<open>n\<close> bits from \<open>bi\<close>, for the map block that starts at \<open>b\<close>.\<close>

fun scan_bits :: "nat \<Rightarrow> nat \<Rightarrow> nat \<Rightarrow> nat \<Rightarrow> u8 list \<Rightarrow> nat option" where
  "scan_bits 0 bi b lim d = None"
| "scan_bits (Suc n) bi b lim d =
     (if b + bi < lim then if \<not> bit_used d bi then Some bi else scan_bits n (Suc bi) b lim d else None)"

lemma sb_frame: "bstate.more s' = bstate.more s \<Longrightarrow> sb s' = sb s"
  by (cases s; cases s'; simp)

function balloc_loop :: "nat \<Rightarrow> nat \<Rightarrow> u32 \<Rightarrow> 'a fstate_scheme \<Rightarrow> (u32 \<times> 'a fstate_scheme) res" where
  "balloc_loop me b dev s =
     (if b < unat (fssize (sb s))
      then rbind (bread me dev (BBLOCK (word_of_nat b) (sb s)) s) (\<lambda>(bp, s1).
             case scan_bits BPB 0 b (unat (fssize (sb s))) (data_of bp s1) of
               Some bi \<Rightarrow>
                 rbind (log_write bp (set_data bp (mark_used (data_of bp s1) bi) s1)) (\<lambda>s2.
                 rbind (brelse me bp s2) (\<lambda>s3.
                 rbind (bzero me dev (word_of_nat (b + bi)) s3) (\<lambda>s4. Ok (word_of_nat (b + bi), s4))))
             | None \<Rightarrow> rbind (brelse me bp s1) (\<lambda>s2. balloc_loop me (b + BPB) dev s2))
      else rbind (printf (bytes_of ''balloc: out of blocks'' @ [10]) [] s) (\<lambda>s1. Ok (0, s1)))"
  by pat_completeness auto
termination
  by (relation "measure (\<lambda>(me, b, dev, s). unat (fssize (sb s)) - b)")
     (auto dest!: bread_more brelse_more sb_frame)

declare balloc_loop.simps [simp del]

definition balloc :: "nat \<Rightarrow> u32 \<Rightarrow> 'a fstate_scheme \<Rightarrow> (u32 \<times> 'a fstate_scheme) res" where
  "balloc me dev s = balloc_loop me 0 dev s"

definition bfree :: "nat \<Rightarrow> u32 \<Rightarrow> u32 \<Rightarrow> 'a fstate_scheme \<Rightarrow> 'a fstate_scheme res" where
  "bfree me dev b s =
     rbind (bread me dev (BBLOCK b (sb s)) s) (\<lambda>(bp, s1).
       let bi = unat b mod BPB in
       if \<not> bit_used (data_of bp s1) bi then Panic ''freeing free block''
       else rbind (log_write bp (set_data bp (mark_free (data_of bp s1) bi) s1)) (\<lambda>s2. brelse me bp s2))"

section \<open>Frames\<close>

lemma lstate_more_bstate: "bstate.more s' = bstate.more s \<Longrightarrow> lstate.more s' = lstate.more s"
  by (cases s; cases s'; simp)

lemma fs_fields:
  assumes "lstate.more s' = lstate.more s"
  shows "sb s' = sb s" "itable s' = itable s"
  using assms by (cases s; cases s'; simp)+

lemma log_write_more: "log_write b s = Ok s' \<Longrightarrow> lstate.more s' = lstate.more s"
  by (auto simp: log_write_def bpin_def lstate_more_bstate[OF upd_buf_more] split: if_splits option.splits)

lemma set_data_lmore [simp]: "lstate.more (set_data b d s) = lstate.more s"
  by (rule lstate_more_bstate) simp

lemmas bread_lmore = bread_more[THEN lstate_more_bstate]
lemmas brelse_lmore = brelse_more[THEN lstate_more_bstate]

lemma iostate_printf: "printf fmt args s = Ok s' \<Longrightarrow> iostate.more s' = iostate.more s"
proof -
  have "consputs bs s = Ok s' \<Longrightarrow> iostate.more s' = iostate.more s" for bs s s'
    by (induction bs arbitrary: s) (auto simp: consputc_Ok)
  then show "printf fmt args s = Ok s' \<Longrightarrow> iostate.more s' = iostate.more s" by (auto simp: printf_def)
qed

lemma lstate_more_iostate: "iostate.more s' = iostate.more s \<Longrightarrow> lstate.more s' = lstate.more s"
  by (cases s; cases s'; simp)

lemmas printf_lmore = iostate_printf[THEN lstate_more_iostate]

lemmas block_more = bread_lmore brelse_lmore log_write_more printf_lmore

lemma bzero_more: "bzero me dev b s = Ok s' \<Longrightarrow> lstate.more s' = lstate.more s"
  by (auto simp: bzero_def dest!: block_more)

lemma balloc_more: "balloc_loop me b dev s = Ok (r, s') \<Longrightarrow> lstate.more s' = lstate.more s"
proof (induction me b dev s arbitrary: r s' rule: balloc_loop.induct)
  case (1 me b dev s)
  show ?case
  proof (cases "b < unat (fssize (sb s))")
    case False
    then show ?thesis using "1.prems" by (subst (asm) balloc_loop.simps) (auto dest!: printf_lmore)
  next
    case True
    then obtain bp s1 where r: "bread me dev (BBLOCK (word_of_nat b) (sb s)) s = Ok (bp, s1)"
      and k: "(case scan_bits BPB 0 b (unat (fssize (sb s))) (data_of bp s1) of
               Some bi \<Rightarrow>
                 rbind (log_write bp (set_data bp (mark_used (data_of bp s1) bi) s1)) (\<lambda>s2.
                 rbind (brelse me bp s2) (\<lambda>s3.
                 rbind (bzero me dev (word_of_nat (b + bi)) s3) (\<lambda>s4. Ok (word_of_nat (b + bi), s4))))
             | None \<Rightarrow> rbind (brelse me bp s1) (\<lambda>s2. balloc_loop me (b + BPB) dev s2)) = Ok (r, s')"
      using "1.prems" by (subst (asm) balloc_loop.simps) auto
    show ?thesis
    proof (cases "scan_bits BPB 0 b (unat (fssize (sb s))) (data_of bp s1)")
      case None
      then obtain s2 where s2: "brelse me bp s1 = Ok s2" "balloc_loop me (b + BPB) dev s2 = Ok (r, s')" using k by auto
      have "lstate.more s' = lstate.more s2" using "1.IH"[OF True r refl None s2(1) s2(2)] .
      then show ?thesis using r s2(1) by (auto dest!: block_more)
    next
      case (Some bi)
      then show ?thesis using k r by (auto dest!: block_more bzero_more)
    qed
  qed
qed

lemma bfree_more: "bfree me dev b s = Ok s' \<Longrightarrow> lstate.more s' = lstate.more s"
  by (auto simp: bfree_def Let_def split: if_splits dest!: block_more)

section \<open>Inodes\<close>

abbreviation NINODE :: nat where "NINODE \<equiv> 50"

definition iinit :: "'a fstate_scheme \<Rightarrow> 'a fstate_scheme" where
  "iinit s = s\<lparr>itable := map (\<lambda>ip. ip\<lparr>ilk := initsleeplock\<rparr>) (itable s)\<rparr>"

text \<open>The 64 bytes of an inode on disk, in block \<open>IBLOCK\<close>.\<close>

definition dinode_at :: "u32 \<Rightarrow> nat" where
  "dinode_at n = 64 * (unat n mod IPB)"

definition short_at :: "u8 list \<Rightarrow> nat \<Rightarrow> int" where
  "short_at d k = sint (get16 d k)"

definition put_short :: "int \<Rightarrow> u8 list" where
  "put_short x = bytes16 (word_of_int x)"

definition load_dinode :: "u8 list \<Rightarrow> nat \<Rightarrow> inode \<Rightarrow> inode" where
  "load_dinode d k ip = ip\<lparr>itype := short_at d k, imajor := short_at d (k + 2), iminor := short_at d (k + 4),
     inlink := short_at d (k + 6), isize := get32 d (k + 8),
     addrs := map (\<lambda>j. get32 d (k + 12 + 4 * j)) [0..<NDIRECT + 1]\<rparr>"

definition store_dinode :: "inode \<Rightarrow> nat \<Rightarrow> u8 list \<Rightarrow> u8 list" where
  "store_dinode ip k d = patch d k (put_short (itype ip) @ put_short (imajor ip) @ put_short (iminor ip) @
     put_short (inlink ip) @ bytes32 (isize ip) @ concat (map bytes32 (addrs ip)))"

text \<open>The table entry for \<open>(dev, inum)\<close>, or else the first free one.\<close>

fun iget_scan :: "inode list \<Rightarrow> nat \<Rightarrow> u32 \<Rightarrow> u32 \<Rightarrow> nat option \<Rightarrow> nat + nat option" where
  "iget_scan [] i dev n em = Inr em"
| "iget_scan (ip # ips) i dev n em =
     (if iref ip > 0 \<and> idev ip = dev \<and> inum ip = n then Inl i
      else iget_scan ips (Suc i) dev n (if em = None \<and> iref ip = 0 then Some i else em))"

definition iget :: "u32 \<Rightarrow> u32 \<Rightarrow> 'a fstate_scheme \<Rightarrow> (nat \<times> 'a fstate_scheme) res" where
  "iget dev n s =
     (case iget_scan (itable s) 0 dev n None of
        Inl i \<Rightarrow> Ok (i, upd_inode i (\<lambda>ip. ip\<lparr>iref := iref ip + 1\<rparr>) s)
      | Inr None \<Rightarrow> Panic ''iget: no inodes''
      | Inr (Some i) \<Rightarrow> Ok (i, upd_inode i (\<lambda>ip. ip\<lparr>idev := dev, inum := n, iref := 1, ivalid := False\<rparr>) s))"

function ialloc_loop :: "nat \<Rightarrow> nat \<Rightarrow> u32 \<Rightarrow> int \<Rightarrow> 'a fstate_scheme \<Rightarrow> (nat option \<times> 'a fstate_scheme) res" where
  "ialloc_loop me n dev ty s =
     (if n < unat (ninodes (sb s))
      then rbind (bread me dev (IBLOCK (word_of_nat n) (sb s)) s) (\<lambda>(bp, s1).
             let k = dinode_at (word_of_nat n) in
             if short_at (data_of bp s1) k = 0
             then rbind (log_write bp (set_data bp (patch (data_of bp s1) k (put_short ty @ replicate 62 0)) s1)) (\<lambda>s2.
                  rbind (brelse me bp s2) (\<lambda>s3.
                  rbind (iget dev (word_of_nat n) s3) (\<lambda>(ip, s4). Ok (Some ip, s4))))
             else rbind (brelse me bp s1) (\<lambda>s2. ialloc_loop me (Suc n) dev ty s2))
      else rbind (printf (bytes_of ''ialloc: no inodes'' @ [10]) [] s) (\<lambda>s1. Ok (None, s1)))"
  by pat_completeness auto
termination
  by (relation "measure (\<lambda>(me, n, dev, ty, s). unat (ninodes (sb s)) - n)")
     (auto dest!: bread_more brelse_more sb_frame)

declare ialloc_loop.simps [simp del]

definition ialloc :: "nat \<Rightarrow> u32 \<Rightarrow> int \<Rightarrow> 'a fstate_scheme \<Rightarrow> (nat option \<times> 'a fstate_scheme) res" where
  "ialloc me dev ty s = ialloc_loop me 1 dev ty s"

definition iupdate :: "nat \<Rightarrow> nat \<Rightarrow> 'a fstate_scheme \<Rightarrow> 'a fstate_scheme res" where
  "iupdate me i s =
     (let ip = inode_at s i in
      rbind (bread me (idev ip) (IBLOCK (inum ip) (sb s)) s) (\<lambda>(bp, s1).
      rbind (log_write bp (set_data bp (store_dinode ip (dinode_at (inum ip)) (data_of bp s1)) s1)) (\<lambda>s2.
        brelse me bp s2)))"

definition idup :: "nat \<Rightarrow> 'a fstate_scheme \<Rightarrow> 'a fstate_scheme res" where
  "idup i s = Ok (upd_inode i (\<lambda>ip. ip\<lparr>iref := iref ip + 1\<rparr>) s)"

definition inode_chan :: "nat \<Rightarrow> chan" where
  "inode_chan i = ChanSleeplock (2 * i + 1)"

definition lock_inode :: "nat \<Rightarrow> nat \<Rightarrow> 'a fstate_scheme \<Rightarrow> 'a fstate_scheme res" where
  "lock_inode me i s =
     (case acquiresleep (mypid me s) (ilk (inode_at s i)) of
        None \<Rightarrow> Stuck | Some lk \<Rightarrow> Ok (upd_inode i (\<lambda>ip. ip\<lparr>ilk := lk\<rparr>) s))"

definition unlock_inode :: "nat \<Rightarrow> nat \<Rightarrow> 'a fstate_scheme \<Rightarrow> 'a fstate_scheme" where
  "unlock_inode me i s =
     (let (lk, s1) = releasesleep me (inode_chan i) (ilk (inode_at s i)) s in upd_inode i (\<lambda>ip. ip\<lparr>ilk := lk\<rparr>) s1)"

text \<open>A null inode pointer is \<open>None\<close>.\<close>

definition ilock :: "nat \<Rightarrow> nat option \<Rightarrow> 'a fstate_scheme \<Rightarrow> 'a fstate_scheme res" where
  "ilock me ipo s =
     (case ipo of None \<Rightarrow> Panic ''ilock''
      | Some i \<Rightarrow>
          if iref (inode_at s i) < 1 then Panic ''ilock''
          else rbind (lock_inode me i s) (\<lambda>s1.
            if \<not> ivalid (inode_at s1 i)
            then rbind (bread me (idev (inode_at s1 i)) (IBLOCK (inum (inode_at s1 i)) (sb s1)) s1) (\<lambda>(bp, s2).
                 rbind (brelse me bp (upd_inode i (load_dinode (data_of bp s2) (dinode_at (inum (inode_at s2 i)))) s2)) (\<lambda>s3.
                   let s4 = upd_inode i (\<lambda>ip. ip\<lparr>ivalid := True\<rparr>) s3 in
                   if itype (inode_at s4 i) = 0 then Panic ''ilock: no type'' else Ok s4))
            else Ok s1))"

definition iunlock :: "nat \<Rightarrow> nat option \<Rightarrow> 'a fstate_scheme \<Rightarrow> 'a fstate_scheme res" where
  "iunlock me ipo s =
     (case ipo of None \<Rightarrow> Panic ''iunlock''
      | Some i \<Rightarrow>
          if \<not> holdingsleep (mypid me s) (ilk (inode_at s i)) \<or> iref (inode_at s i) < 1 then Panic ''iunlock''
          else Ok (unlock_inode me i s))"

section \<open>The blocks of an inode\<close>

definition set_addr :: "nat \<Rightarrow> nat \<Rightarrow> u32 \<Rightarrow> 'a fstate_scheme \<Rightarrow> 'a fstate_scheme" where
  "set_addr i k a s = upd_inode i (\<lambda>ip. ip\<lparr>addrs := (addrs ip)[k := a]\<rparr>) s"

text \<open>The block in \<open>addrs[k]\<close>, allocated if there is none (0 when the disk is full).\<close>

definition direct_block :: "nat \<Rightarrow> nat \<Rightarrow> nat \<Rightarrow> 'a fstate_scheme \<Rightarrow> (u32 \<times> 'a fstate_scheme) res" where
  "direct_block me i k s =
     (if addrs (inode_at s i) ! k = 0
      then rbind (balloc me (idev (inode_at s i)) s) (\<lambda>(a, s1).
             if a = 0 then Ok (0, s1) else Ok (a, set_addr i k a s1))
      else Ok (addrs (inode_at s i) ! k, s))"

definition bmap :: "nat \<Rightarrow> nat \<Rightarrow> nat \<Rightarrow> 'a fstate_scheme \<Rightarrow> (u32 \<times> 'a fstate_scheme) res" where
  "bmap me i bn s =
     (if bn < NDIRECT then direct_block me i bn s
      else if bn - NDIRECT < NINDIRECT
      then rbind (direct_block me i NDIRECT s) (\<lambda>(ind, s1).
             if ind = 0 then Ok (0, s1)
             else rbind (bread me (idev (inode_at s1 i)) ind s1) (\<lambda>(bp, s2).
                    let k = 4 * (bn - NDIRECT); a = get32 (data_of bp s2) k in
                    if a = 0
                    then rbind (balloc me (idev (inode_at s2 i)) s2) (\<lambda>(a1, s3).
                           rbind (if a1 \<noteq> 0 then log_write bp (set_data bp (put32 (data_of bp s3) k a1) s3) else Ok s3) (\<lambda>s4.
                           rbind (brelse me bp s4) (\<lambda>s5. Ok (a1, s5))))
                    else rbind (brelse me bp s2) (\<lambda>s3. Ok (a, s3))))
      else Panic ''bmap: out of range'')"

fun trunc_direct :: "nat list \<Rightarrow> nat \<Rightarrow> nat \<Rightarrow> 'a fstate_scheme \<Rightarrow> 'a fstate_scheme res" where
  "trunc_direct [] me i s = Ok s"
| "trunc_direct (k # ks) me i s =
     (if addrs (inode_at s i) ! k \<noteq> 0
      then rbind (bfree me (idev (inode_at s i)) (addrs (inode_at s i) ! k) s) (\<lambda>s1.
             trunc_direct ks me i (set_addr i k 0 s1))
      else trunc_direct ks me i s)"

fun trunc_indirect :: "nat list \<Rightarrow> nat \<Rightarrow> nat \<Rightarrow> nat \<Rightarrow> 'a fstate_scheme \<Rightarrow> 'a fstate_scheme res" where
  "trunc_indirect [] me i bp s = Ok s"
| "trunc_indirect (j # js) me i bp s =
     (if get32 (data_of bp s) (4 * j) \<noteq> 0
      then rbind (bfree me (idev (inode_at s i)) (get32 (data_of bp s) (4 * j)) s) (\<lambda>s1. trunc_indirect js me i bp s1)
      else trunc_indirect js me i bp s)"

definition itrunc :: "nat \<Rightarrow> nat \<Rightarrow> 'a fstate_scheme \<Rightarrow> 'a fstate_scheme res" where
  "itrunc me i s =
     rbind (trunc_direct [0..<NDIRECT] me i s) (\<lambda>s1.
     rbind (let a = addrs (inode_at s1 i) ! NDIRECT in
            if a \<noteq> 0
            then rbind (bread me (idev (inode_at s1 i)) a s1) (\<lambda>(bp, s2).
                 rbind (trunc_indirect [0..<NINDIRECT] me i bp s2) (\<lambda>s3.
                 rbind (brelse me bp s3) (\<lambda>s4.
                 rbind (bfree me (idev (inode_at s4 i)) (addrs (inode_at s4 i) ! NDIRECT) s4) (\<lambda>s5.
                   Ok (set_addr i NDIRECT 0 s5)))))
            else Ok s1) (\<lambda>s6.
     iupdate me i (upd_inode i (\<lambda>ip. ip\<lparr>isize := 0\<rparr>) s6)))"

definition iput :: "nat \<Rightarrow> nat \<Rightarrow> 'a fstate_scheme \<Rightarrow> 'a fstate_scheme res" where
  "iput me i s =
     rbind (if iref (inode_at s i) = 1 \<and> ivalid (inode_at s i) \<and> inlink (inode_at s i) = 0
            then rbind (lock_inode me i s) (\<lambda>s1.
                 rbind (itrunc me i s1) (\<lambda>s2.
                 rbind (iupdate me i (upd_inode i (\<lambda>ip. ip\<lparr>itype := 0\<rparr>) s2)) (\<lambda>s3.
                   Ok (unlock_inode me i (upd_inode i (\<lambda>ip. ip\<lparr>ivalid := False\<rparr>) s3)))))
            else Ok s)
       (\<lambda>s4. Ok (upd_inode i (\<lambda>ip. ip\<lparr>iref := iref ip - 1\<rparr>) s4))"

definition iunlockput :: "nat \<Rightarrow> nat \<Rightarrow> 'a fstate_scheme \<Rightarrow> 'a fstate_scheme res" where
  "iunlockput me i s = rbind (iunlock me (Some i) s) (\<lambda>s1. iput me i s1)"

section \<open>Reading and writing\<close>

text \<open>
  Where \<open>readi\<close> puts bytes and \<open>writei\<close> takes them: user memory, kernel memory, or a local
  variable of the caller, which is the list of its bytes.
\<close>

datatype place = UserMem u64 | KernMem u64 | Local "u8 list"

definition put_place :: "nat \<Rightarrow> place \<Rightarrow> u8 list \<Rightarrow> 'a kstate_scheme \<Rightarrow> int \<times> place \<times> 'a kstate_scheme" where
  "put_place me dst bs s =
     (case dst of
        UserMem a \<Rightarrow> (let (r, s1) = either_copyout me True a bs s in (r, UserMem (a + word_of_nat (length bs)), s1))
      | KernMem a \<Rightarrow> (let (r, s1) = either_copyout me False a bs s in (r, KernMem (a + word_of_nat (length bs)), s1))
      | Local ds \<Rightarrow> (0, Local (ds @ bs), s))"

definition get_place :: "nat \<Rightarrow> place \<Rightarrow> nat \<Rightarrow> 'a kstate_scheme \<Rightarrow> int \<times> u8 list \<times> place" where
  "get_place me src m s =
     (case src of
        UserMem a \<Rightarrow> (let (r, bs) = either_copyin me True a m s in (r, bs, UserMem (a + word_of_nat m)))
      | KernMem a \<Rightarrow> (let (r, bs) = either_copyin me False a m s in (r, bs, KernMem (a + word_of_nat m)))
      | Local ds \<Rightarrow> (0, take m ds, Local (drop m ds)))"

text \<open>The bytes of \<open>struct stat\<close>; \<open>pad\<close> are the four the compiler leaves before \<open>size\<close>.\<close>

definition stati :: "inode \<Rightarrow> u8 list \<Rightarrow> u8 list" where
  "stati ip pad = bytes32 (idev ip) @ bytes32 (inum ip) @ put_short (itype ip) @ put_short (inlink ip) @ pad @
     bytes32 (isize ip) @ bytes32 0"

text \<open>The loops of \<open>readi\<close> and \<open>writei\<close>, with \<open>left\<close> bytes to go at offset \<open>off\<close>.\<close>

function readi_loop :: "nat \<Rightarrow> nat \<Rightarrow> place \<Rightarrow> nat \<Rightarrow> nat \<Rightarrow> nat \<Rightarrow> 'a fstate_scheme \<Rightarrow> (int \<times> place \<times> 'a fstate_scheme) res" where
  "readi_loop me i dst off tot left s =
     (if left = 0 then Ok (int tot, dst, s)
      else rbind (bmap me i (off div BSIZE) s) (\<lambda>(a, s1).
        if a = 0 then Ok (int tot, dst, s1)
        else rbind (bread me (idev (inode_at s1 i)) a s1) (\<lambda>(bp, s2).
          let m = min left (BSIZE - off mod BSIZE);
              (r, dst1, s3) = put_place me dst (take m (drop (off mod BSIZE) (data_of bp s2))) s2
          in rbind (brelse me bp s3) (\<lambda>s4.
               if r = -1 then Ok (-1, dst1, s4)
               else readi_loop me i dst1 (off + m) (tot + m) (left - m) s4))))"
  by pat_completeness auto
termination
  by (relation "measure (\<lambda>(me, i, dst, off, tot, left, s). left)") (auto simp: min_def)

declare readi_loop.simps [simp del]

definition readi :: "nat \<Rightarrow> nat \<Rightarrow> place \<Rightarrow> u32 \<Rightarrow> u32 \<Rightarrow> 'a fstate_scheme \<Rightarrow> (int \<times> place \<times> 'a fstate_scheme) res" where
  "readi me i dst off n s =
     (let sz = isize (inode_at s i) in
      if off > sz \<or> off + n < off then Ok (0, dst, s)
      else readi_loop me i dst (unat off) 0 (unat (if off + n > sz then sz - off else n)) s)"

text \<open>A failed copy leaves what it had copied in the buffer, without a \<open>log_write\<close>.\<close>

function writei_loop :: "nat \<Rightarrow> nat \<Rightarrow> place \<Rightarrow> nat \<Rightarrow> nat \<Rightarrow> nat \<Rightarrow> 'a fstate_scheme \<Rightarrow> (nat \<times> nat \<times> 'a fstate_scheme) res" where
  "writei_loop me i src off tot left s =
     (if left = 0 then Ok (tot, off, s)
      else rbind (bmap me i (off div BSIZE) s) (\<lambda>(a, s1).
        if a = 0 then Ok (tot, off, s1)
        else rbind (bread me (idev (inode_at s1 i)) a s1) (\<lambda>(bp, s2).
          let m = min left (BSIZE - off mod BSIZE);
              (r, bs, src1) = get_place me src m s2;
              s3 = set_data bp (patch (data_of bp s2) (off mod BSIZE) bs) s2
          in if r = -1 then rbind (brelse me bp s3) (\<lambda>s4. Ok (tot, off, s4))
             else rbind (log_write bp s3) (\<lambda>s4. rbind (brelse me bp s4) (\<lambda>s5.
                    writei_loop me i src1 (off + m) (tot + m) (left - m) s5)))))"
  by pat_completeness auto
termination
  by (relation "measure (\<lambda>(me, i, src, off, tot, left, s). left)") (auto simp: min_def)

declare writei_loop.simps [simp del]

definition writei :: "nat \<Rightarrow> nat \<Rightarrow> place \<Rightarrow> u32 \<Rightarrow> u32 \<Rightarrow> 'a fstate_scheme \<Rightarrow> (int \<times> 'a fstate_scheme) res" where
  "writei me i src off n s =
     (if off > isize (inode_at s i) \<or> off + n < off then Ok (-1, s)
      else if unat (off + n) > MAXFILE * BSIZE then Ok (-1, s)
      else rbind (writei_loop me i src (unat off) 0 (unat n) s) (\<lambda>(tot, off1, s1).
        let s2 = (if off1 > unat (isize (inode_at s1 i)) then upd_inode i (\<lambda>ip. ip\<lparr>isize := word_of_nat off1\<rparr>) s1 else s1)
        in rbind (iupdate me i s2) (\<lambda>s3. Ok (int tot, s3))))"

section \<open>Frames of the inode layer\<close>

text \<open>What stays of the entry of an inode while its content is read: everything but its addresses.\<close>

definition entry :: "inode \<Rightarrow> u32 \<times> u32 \<times> int \<times> bool \<times> int \<times> int \<times> u32" where
  "entry ip = (idev ip, inum ip, iref ip, ivalid ip, itype ip, inlink ip, isize ip)"

definition entries :: "'a fstate_scheme \<Rightarrow> superblock \<times> (u32 \<times> u32 \<times> int \<times> bool \<times> int \<times> int \<times> u32) list" where
  "entries s = (sb s, map entry (itable s))"

lemma entries_more: "lstate.more s' = lstate.more s \<Longrightarrow> entries s' = entries s"
  by (simp add: entries_def fs_fields[of s' s])

lemma entries_set_addr [simp]: "entries (set_addr i k a s) = entries s"
proof -
  have "map entry ((itable s)[i := (itable s ! i)\<lparr>addrs := bs\<rparr>]) = map entry (itable s)" for bs
  proof (cases "i < length (itable s)")
    case True
    then have "(map entry (itable s))[i := entry (itable s ! i)] = map entry (itable s)"
      by (subst list_update_same_conv) simp_all
    then show ?thesis by (simp add: map_update entry_def)
  qed (simp add: list_update_beyond)
  then show ?thesis by (simp add: entries_def set_addr_def upd_inode_def)
qed

lemma entries_at:
  assumes "entries s' = entries s" "i < length (itable s)"
  shows "entry (inode_at s' i) = entry (inode_at s i)"
proof -
  have m: "map entry (itable s') = map entry (itable s)" using assms(1) by (simp add: entries_def)
  then have "length (itable s') = length (itable s)" by (metis length_map)
  then show ?thesis using m assms(2) by (metis nth_map)
qed

lemma direct_block_entries: "direct_block me i k s = Ok (a, s') \<Longrightarrow> entries s' = entries s"
  by (auto simp: direct_block_def balloc_def split: if_splits dest!: balloc_more entries_more)

lemma kstate_more_lstate: "kstate.more s' = kstate.more s \<Longrightarrow> lstate.more s' = lstate.more s"
  by (cases s; cases s'; simp)


lemma entries_set_data [simp]: "entries (set_data b d s) = entries s"
  by (rule entries_more) simp

lemma rest_more: "rest s' = rest (s :: 'a kstate_scheme) \<Longrightarrow> kstate.more s' = kstate.more s"
  by (cases s; cases s'; simp add: rest_def)

lemma bmap_entries: "bmap me i bn s = Ok (a, s') \<Longrightarrow> entries s' = entries s"
  by (auto simp: bmap_def balloc_def Let_def split: if_splits
      dest!: direct_block_entries block_more[THEN entries_more] balloc_more[THEN entries_more])

lemma put_place_entries: "put_place me dst bs (s :: 'a fstate_scheme) = (r, dst', s') \<Longrightarrow> entries s' = entries s"
proof (cases dst)
  case (UserMem a)
  assume "put_place me dst bs s = (r, dst', s')"
  then have "copyout (pagetable (proc_at s me)) a bs s = (r, s')"
    using UserMem by (auto simp: put_place_def either_copyout_def split: prod.splits)
  then have "rest s' = rest s" by (rule copyout_rest)
  then have "kstate.more s' = kstate.more s" by (rule rest_more)
  then show ?thesis by (rule kstate_more_lstate[THEN entries_more])
next
  case (KernMem a)
  assume "put_place me dst bs s = (r, dst', s')"
  then have "kstate.more s' = kstate.more s" using KernMem by (auto simp: put_place_def either_copyout_def)
  then show ?thesis by (rule kstate_more_lstate[THEN entries_more])
qed (auto simp: put_place_def)


lemma readi_loop_entries: "readi_loop me i dst off tot left s = Ok (r, dst', s') \<Longrightarrow> entries s' = entries s"
proof (induction me i dst off tot left s arbitrary: r dst' s' rule: readi_loop.induct)
  case (1 me i dst off tot left s)
  show ?case
  proof (cases "left = 0")
    case True
    then show ?thesis using "1.prems" by (simp add: readi_loop.simps)
  next
    case False
    obtain a s1 where b: "bmap me i (off div BSIZE) s = Ok (a, s1)"
      using "1.prems" False by (subst (asm) readi_loop.simps) auto
    note e1 = bmap_entries[OF b]
    show ?thesis
    proof (cases "a = 0")
      case True
      then show ?thesis using "1.prems" False b e1 by (subst (asm) readi_loop.simps) auto
    next
      case a: False
      define m where "m = min left (BSIZE - off mod BSIZE)"
      obtain bp s2 where br: "bread me (idev (inode_at s1 i)) a s1 = Ok (bp, s2)"
        using "1.prems" False b a by (subst (asm) readi_loop.simps) auto
      obtain q dst1 s3 where p: "put_place me dst (take m (drop (off mod BSIZE) (data_of bp s2))) s2 = (q, dst1, s3)"
        by (metis prod_cases3)
      obtain s4 where s4: "brelse me bp s3 = Ok s4"
        "(if q = -1 then Ok (-1, dst1, s4) else readi_loop me i dst1 (off + m) (tot + m) (left - m) s4) = Ok (r, dst', s')"
        using "1.prems" False b a br p by (subst (asm) readi_loop.simps) (auto simp: m_def[symmetric] Let_def)
      have e4: "entries s4 = entries s"
        using e1 bread_lmore[OF br, THEN entries_more] put_place_entries[OF p] brelse_lmore[OF s4(1), THEN entries_more] by simp
      show ?thesis
      proof (cases "q = -1")
        case True
        then show ?thesis using s4(2) e4 by simp
      next
        case q: False
        have "entries s' = entries s4"
          by (rule "1.IH"[OF False b refl a br refl m_def refl p[symmetric] refl s4(1) q]) (use s4(2) q in simp)
        then show ?thesis using e4 by simp
      qed
    qed
  qed
qed

lemma readi_entries: "readi me i dst off n s = Ok (r, dst', s') \<Longrightarrow> entries s' = entries s"
  by (auto simp: readi_def Let_def split: if_splits dest!: readi_loop_entries)

section \<open>Directories\<close>

text \<open>\<open>strncmp(s, t, DIRSIZ)\<close> of two names, missing characters being the terminator.\<close>

fun cmp_name :: "nat \<Rightarrow> u8 list \<Rightarrow> u8 list \<Rightarrow> int" where
  "cmp_name 0 p q = 0"
| "cmp_name (Suc n) [] q = (case q of [] \<Rightarrow> 0 | b # q1 \<Rightarrow> - uint b)"
| "cmp_name (Suc n) (a # p) q =
     (case q of [] \<Rightarrow> uint a
      | b # q1 \<Rightarrow> if a = b \<and> a \<noteq> 0 then cmp_name n p q1 else uint a - uint b)"

definition namecmp :: "u8 list \<Rightarrow> u8 list \<Rightarrow> int" where
  "namecmp p q = cmp_name DIRSIZ p q"

text \<open>A directory entry is two bytes of inode number and 14 of name.\<close>

definition de_inum :: "u8 list \<Rightarrow> u16" where
  "de_inum d = get16 d 0"

definition de_name :: "u8 list \<Rightarrow> u8 list" where
  "de_name d = take DIRSIZ (drop 2 d)"

definition read_dirent :: "string \<Rightarrow> nat \<Rightarrow> nat \<Rightarrow> nat \<Rightarrow> 'a fstate_scheme \<Rightarrow> (u8 list \<times> 'a fstate_scheme) res" where
  "read_dirent msg me dp off s =
     rbind (readi me dp (Local []) (word_of_nat off) 16 s) (\<lambda>(r, dst, s1).
       if r \<noteq> 16 then Panic msg
       else (case dst of Local d \<Rightarrow> Ok (d, s1) | _ \<Rightarrow> Stuck))"

text \<open>The search of \<open>dirlookup\<close> for offsets from \<open>off\<close> to the size \<open>len\<close>, which reading leaves alone
  (\<open>readi_entries\<close>).\<close>

function dir_find :: "nat \<Rightarrow> nat \<Rightarrow> u8 list \<Rightarrow> nat \<Rightarrow> nat \<Rightarrow> 'a fstate_scheme \<Rightarrow> ((u16 \<times> nat) option \<times> 'a fstate_scheme) res" where
  "dir_find me dp name off len s =
     (if off < len
      then rbind (read_dirent ''dirlookup read'' me dp off s) (\<lambda>(d, s1).
             if de_inum d \<noteq> 0 \<and> namecmp name (de_name d) = 0 then Ok (Some (de_inum d, off), s1)
             else dir_find me dp name (off + 16) len s1)
      else Ok (None, s))"
  by pat_completeness auto
termination
  by (relation "measure (\<lambda>(me, dp, name, off, len, s). len - off)") auto

declare dir_find.simps [simp del]

text \<open>The inode and the offset of the entry.\<close>

definition dirlookup :: "nat \<Rightarrow> nat \<Rightarrow> u8 list \<Rightarrow> 'a fstate_scheme \<Rightarrow> ((nat \<times> nat) option \<times> 'a fstate_scheme) res" where
  "dirlookup me dp name s =
     (if itype (inode_at s dp) \<noteq> T_DIR then Panic ''dirlookup not DIR''
      else rbind (dir_find me dp name 0 (unat (isize (inode_at s dp))) s) (\<lambda>(r, s1). case r of
             None \<Rightarrow> Ok (None, s1)
           | Some (n, off) \<Rightarrow> rbind (iget (idev (inode_at s1 dp)) (ucast n) s1) (\<lambda>(ip, s2). Ok (Some (ip, off), s2))))"

function dir_free :: "nat \<Rightarrow> nat \<Rightarrow> nat \<Rightarrow> nat \<Rightarrow> 'a fstate_scheme \<Rightarrow> (nat \<times> 'a fstate_scheme) res" where
  "dir_free me dp off len s =
     (if off < len
      then rbind (read_dirent ''dirlink read'' me dp off s) (\<lambda>(d, s1).
             if de_inum d = 0 then Ok (off, s1) else dir_free me dp (off + 16) len s1)
      else Ok (off, s))"
  by pat_completeness auto
termination
  by (relation "measure (\<lambda>(me, dp, off, len, s). len - off)") auto

declare dir_free.simps [simp del]

text \<open>\<open>strncpy\<close> into the name field.\<close>

definition dirent_bytes :: "u16 \<Rightarrow> u8 list \<Rightarrow> u8 list" where
  "dirent_bytes n name = bytes16 n @ take DIRSIZ name @ replicate (DIRSIZ - length name) 0"

definition dirlink :: "nat \<Rightarrow> nat \<Rightarrow> u8 list \<Rightarrow> u32 \<Rightarrow> 'a fstate_scheme \<Rightarrow> (int \<times> 'a fstate_scheme) res" where
  "dirlink me dp name n s =
     rbind (dirlookup me dp name s) (\<lambda>(r, s1). case r of
       Some (ip, off) \<Rightarrow> rbind (iput me ip s1) (\<lambda>s2. Ok (-1, s2))
     | None \<Rightarrow>
         rbind (dir_free me dp 0 (unat (isize (inode_at s1 dp))) s1) (\<lambda>(off, s2).
         rbind (writei me dp (Local (dirent_bytes (ucast n) name)) (word_of_nat off) 16 s2) (\<lambda>(w, s3).
           Ok (if w \<noteq> 16 then -1 else 0, s3))))"

section \<open>Paths\<close>

text \<open>The next element of a path and what follows it; 47 is the slash.\<close>

definition skipelem :: "u8 list \<Rightarrow> (u8 list \<times> u8 list) option" where
  "skipelem path =
     (let p = dropWhile (\<lambda>b. b = 47) path in
      if p = [] then None
      else Some (take DIRSIZ (takeWhile (\<lambda>b. b \<noteq> 47) p), dropWhile (\<lambda>b. b = 47) (dropWhile (\<lambda>b. b \<noteq> 47) p)))"

lemma skipelem_shorter: "skipelem path = Some (name, p) \<Longrightarrow> length p < length path"
proof -
  assume a: "skipelem path = Some (name, p)"
  define q where "q = dropWhile (\<lambda>b. b = 47) path"
  have q: "q \<noteq> []" "p = dropWhile (\<lambda>b. b = 47) (dropWhile (\<lambda>b. b \<noteq> 47) q)"
    using a by (auto simp: skipelem_def q_def[symmetric] Let_def split: if_splits)
  then have "hd q \<noteq> 47" by (metis (mono_tags, lifting) hd_dropWhile q_def)
  then have "length (dropWhile (\<lambda>b. b \<noteq> 47) q) < length q"
    using q(1) by (cases q) (auto simp: le_imp_less_Suc length_dropWhile_le)
  moreover have "length p \<le> length (dropWhile (\<lambda>b. b \<noteq> 47) q)" "length q \<le> length path"
    by (simp_all add: q(2) q_def length_dropWhile_le)
  ultimately show ?thesis by linarith
qed

function namex_loop :: "nat \<Rightarrow> nat \<Rightarrow> u8 list \<Rightarrow> bool \<Rightarrow> u8 list \<Rightarrow> 'a fstate_scheme \<Rightarrow> (nat option \<times> u8 list \<times> 'a fstate_scheme) res" where
  "namex_loop me ip path par nm s =
     (case skipelem path of
        None \<Rightarrow> if par then rbind (iput me ip s) (\<lambda>s1. Ok (None, nm, s1)) else Ok (Some ip, nm, s)
      | Some (name, path1) \<Rightarrow>
          rbind (ilock me (Some ip) s) (\<lambda>s1.
            if itype (inode_at s1 ip) \<noteq> T_DIR then rbind (iunlockput me ip s1) (\<lambda>s2. Ok (None, name, s2))
            else if par \<and> path1 = [] then rbind (iunlock me (Some ip) s1) (\<lambda>s2. Ok (Some ip, name, s2))
            else rbind (dirlookup me ip name s1) (\<lambda>(r, s2). case r of
                   None \<Rightarrow> rbind (iunlockput me ip s2) (\<lambda>s3. Ok (None, name, s3))
                 | Some (nxt, off) \<Rightarrow> rbind (iunlockput me ip s2) (\<lambda>s3. namex_loop me nxt path1 par name s3))))"
  by pat_completeness auto
termination
  by (relation "measure (\<lambda>(me, ip, path, par, nm, s). length path)") (auto dest: skipelem_shorter)

declare namex_loop.simps [simp del]

definition namex :: "nat \<Rightarrow> u8 list \<Rightarrow> bool \<Rightarrow> 'a fstate_scheme \<Rightarrow> (nat option \<times> u8 list \<times> 'a fstate_scheme) res" where
  "namex me path par s =
     (if path \<noteq> [] \<and> hd path = 47
      then rbind (iget ROOTDEV ROOTINO s) (\<lambda>(ip, s1). namex_loop me ip path par [] s1)
      else (case cwd (proc_at s me) of
          None \<Rightarrow> Stuck
        | Some d \<Rightarrow> rbind (idup d s) (\<lambda>s1. namex_loop me d path par [] s1)))"

definition namei :: "nat \<Rightarrow> u8 list \<Rightarrow> 'a fstate_scheme \<Rightarrow> (nat option \<times> 'a fstate_scheme) res" where
  "namei me path s = rbind (namex me path False s) (\<lambda>(ip, nm, s1). Ok (ip, s1))"

definition nameiparent :: "nat \<Rightarrow> u8 list \<Rightarrow> 'a fstate_scheme \<Rightarrow> (nat option \<times> u8 list \<times> 'a fstate_scheme) res" where
  "nameiparent me path s = namex me path True s"

end
