(* ===== verification/File.thy ===== *)
theory File
  imports Fs
begin

text \<open>
  \<open>kernel/pipe.c\<close> and \<open>kernel/file.c\<close>: pipes and the table of open files.  A \<open>struct file*\<close> is an
  index into \<open>ftable\<close>; a pipe is known by the address of the page it lives in.  Only the console
  has entries in \<open>devsw\<close>.
\<close>

section \<open>State\<close>

abbreviation PIPESIZE :: nat where "PIPESIZE \<equiv> 512"
abbreviation NFILE :: nat where "NFILE \<equiv> 100"
abbreviation NDEV :: int where "NDEV \<equiv> 10"
abbreviation CONSOLE :: int where "CONSOLE \<equiv> 1"

record pipe =
  pdata :: "u8 list"
  nread :: u32
  nwrite :: u32
  readopen :: bool
  writeopen :: bool

datatype ftype = FD_NONE | FD_PIPE | FD_INODE | FD_DEVICE

record kfile =
  file_type :: ftype
  fref :: int
  readable :: bool
  writable :: bool
  fpipe :: u64
  fip :: "nat option"
  foff :: u32
  fmajor :: int

record ostate = fstate +
  ftable :: "kfile list"
  pipes :: "u64 \<Rightarrow> pipe"

definition upd_file :: "nat \<Rightarrow> (kfile \<Rightarrow> kfile) \<Rightarrow> 'a ostate_scheme \<Rightarrow> 'a ostate_scheme" where
  "upd_file f g s = s\<lparr>ftable := (ftable s)[f := g (ftable s ! f)]\<rparr>"

definition upd_pipe :: "u64 \<Rightarrow> (pipe \<Rightarrow> pipe) \<Rightarrow> 'a ostate_scheme \<Rightarrow> 'a ostate_scheme" where
  "upd_pipe pi g s = s\<lparr>pipes := (pipes s)(pi := g (pipes s pi))\<rparr>"

section \<open>File table\<close>

fun free_file :: "kfile list \<Rightarrow> nat \<Rightarrow> nat option" where
  "free_file [] i = None"
| "free_file (f # fs) i = (if fref f = 0 then Some i else free_file fs (Suc i))"

definition filealloc :: "'a ostate_scheme \<Rightarrow> nat option \<times> 'a ostate_scheme" where
  "filealloc s =
     (case free_file (ftable s) 0 of
        None \<Rightarrow> (None, s)
      | Some f \<Rightarrow> (Some f, upd_file f (\<lambda>x. x\<lparr>fref := 1\<rparr>) s))"

definition filedup :: "nat \<Rightarrow> 'a ostate_scheme \<Rightarrow> 'a ostate_scheme res" where
  "filedup f s =
     (if fref (ftable s ! f) < 1 then Panic ''filedup'' else Ok (upd_file f (\<lambda>x. x\<lparr>fref := fref x + 1\<rparr>) s))"

section \<open>Pipes\<close>

definition pipeclose :: "nat \<Rightarrow> u64 \<Rightarrow> bool \<Rightarrow> 'a ostate_scheme \<Rightarrow> 'a ostate_scheme res" where
  "pipeclose me pi w s =
     (let s1 = (if w then wakeup (Some me) (ChanNread pi) (upd_pipe pi (\<lambda>p. p\<lparr>writeopen := False\<rparr>) s)
                else wakeup (Some me) (ChanNwrite pi) (upd_pipe pi (\<lambda>p. p\<lparr>readopen := False\<rparr>) s))
      in if \<not> readopen (pipes s1 pi) \<and> \<not> writeopen (pipes s1 pi) then kfree pi s1 else Ok s1)"

text \<open>
  \<open>pipewrite\<close> from byte \<open>i\<close> on with \<open>n\<close> bytes left; asleep, it goes on at the byte it could not
  store.
\<close>

fun pipewrite :: "nat \<Rightarrow> u64 \<Rightarrow> u64 \<Rightarrow> nat \<Rightarrow> nat \<Rightarrow> 'a ostate_scheme \<Rightarrow> (nat, 'a ostate_scheme) io" where
  "pipewrite me pi addr i 0 s = Done (int i) (wakeup (Some me) (ChanNread pi) s)"
| "pipewrite me pi addr i (Suc n) s =
     (if \<not> readopen (pipes s pi) \<or> killed me s \<noteq> 0 then Done (-1) s
      else if nwrite (pipes s pi) = nread (pipes s pi) + word_of_nat PIPESIZE
      then Sleep i (sleep_enter me (ChanNwrite pi) (wakeup (Some me) (ChanNread pi) s))
      else let (r, bs) = copyin (pagetable (proc_at s me)) (addr + word_of_nat i) 1 s in
           if r = -1 then Done (int i) (wakeup (Some me) (ChanNread pi) s)
           else pipewrite me pi addr (Suc i) n
                  (upd_pipe pi (\<lambda>p. p\<lparr>pdata := ring_put PIPESIZE (pdata p) (nwrite p) (bs ! 0), nwrite := nwrite p + 1\<rparr>) s))"

text \<open>The copying loop of \<open>piperead\<close>: the byte is taken before the copy that may fail.\<close>

fun pipe_take :: "nat \<Rightarrow> u64 \<Rightarrow> u64 \<Rightarrow> nat \<Rightarrow> nat \<Rightarrow> 'a ostate_scheme \<Rightarrow> nat \<times> 'a ostate_scheme" where
  "pipe_take me pi addr i 0 s = (i, s)"
| "pipe_take me pi addr i (Suc n) s =
     (if nread (pipes s pi) = nwrite (pipes s pi) then (i, s)
      else let ch = ring_at PIPESIZE (pdata (pipes s pi)) (nread (pipes s pi));
               s1 = upd_pipe pi (\<lambda>p. p\<lparr>nread := nread p + 1\<rparr>) s;
               (r, s2) = copyout (pagetable (proc_at s1 me)) (addr + word_of_nat i) [ch] s1
           in if r = -1 then (i, s2) else pipe_take me pi addr (Suc i) n s2)"

definition piperead :: "nat \<Rightarrow> u64 \<Rightarrow> u64 \<Rightarrow> nat \<Rightarrow> 'a ostate_scheme \<Rightarrow> (unit, 'a ostate_scheme) io" where
  "piperead me pi addr n s =
     (if nread (pipes s pi) = nwrite (pipes s pi) \<and> writeopen (pipes s pi)
      then if killed me s \<noteq> 0 then Done (-1) s else Sleep () (sleep_enter me (ChanNread pi) s)
      else let (i, s1) = pipe_take me pi addr 0 n s in Done (int i) (wakeup (Some me) (ChanNwrite pi) s1))"

section \<open>Closing\<close>

definition put_ip :: "nat \<Rightarrow> nat option \<Rightarrow> 'a ostate_scheme \<Rightarrow> 'a ostate_scheme res" where
  "put_ip me ipo s = (case ipo of None \<Rightarrow> Stuck | Some ip \<Rightarrow> iput me ip s)"

definition fileclose :: "nat \<Rightarrow> nat \<Rightarrow> 'a ostate_scheme \<Rightarrow> 'a ostate_scheme res" where
  "fileclose me f s =
     (if fref (ftable s ! f) < 1 then Panic ''fileclose''
      else let s1 = upd_file f (\<lambda>x. x\<lparr>fref := fref x - 1\<rparr>) s in
        if fref (ftable s1 ! f) > 0 then Ok s1
        else let ff = ftable s1 ! f; s2 = upd_file f (\<lambda>x. x\<lparr>fref := 0, file_type := FD_NONE\<rparr>) s1 in
          if file_type ff = FD_PIPE then pipeclose me (fpipe ff) (writable ff) s2
          else if file_type ff = FD_INODE \<or> file_type ff = FD_DEVICE
          then rbind (awake (begin_op me s2)) (\<lambda>s3. rbind (put_ip me (fip ff) s3) (\<lambda>s4. end_op me s4))
          else Ok s2)"

definition close_opt :: "nat \<Rightarrow> nat option \<Rightarrow> 'a ostate_scheme \<Rightarrow> 'a ostate_scheme res" where
  "close_opt me fo s = (case fo of None \<Rightarrow> Ok s | Some f \<Rightarrow> fileclose me f s)"

text \<open>The page of a new pipe holds what \<open>kalloc\<close> left there; only the counters and flags are set.\<close>

definition pipealloc :: "nat \<Rightarrow> 'a ostate_scheme \<Rightarrow> ((nat \<times> nat) option \<times> 'a ostate_scheme) res" where
  "pipealloc me s =
     (let (f0, s1) = filealloc s; (f1, s2) = (if f0 = None then (None, s1) else filealloc s1);
          (pi, s3) = (if f1 = None then (0, s2) else kalloc s2)
      in case (f0, f1) of
           (Some r, Some w) \<Rightarrow>
             if pi = 0 then rbind (close_opt me f0 s3) (\<lambda>s4. rbind (close_opt me f1 s4) (\<lambda>s5. Ok (None, s5)))
             else let s4 = upd_pipe pi (\<lambda>p. p\<lparr>readopen := True, writeopen := True, nwrite := 0, nread := 0\<rparr>) s3;
                      s5 = upd_file r (\<lambda>f. f\<lparr>file_type := FD_PIPE, readable := True, writable := False, fpipe := pi\<rparr>) s4
                  in Ok (Some (r, w), upd_file w (\<lambda>f. f\<lparr>file_type := FD_PIPE, readable := False, writable := True, fpipe := pi\<rparr>) s5)
         | _ \<Rightarrow> rbind (close_opt me f0 s3) (\<lambda>s4. rbind (close_opt me f1 s4) (\<lambda>s5. Ok (None, s5))))"

section \<open>Reading, writing, metadata\<close>

definition filestat :: "nat \<Rightarrow> u8 list \<Rightarrow> nat \<Rightarrow> u64 \<Rightarrow> 'a ostate_scheme \<Rightarrow> (int \<times> 'a ostate_scheme) res" where
  "filestat me pad f addr s =
     (let x = ftable s ! f in
      if file_type x = FD_INODE \<or> file_type x = FD_DEVICE
      then rbind (ilock me (fip x) s) (\<lambda>s1.
             let st = stati (inode_at s1 (the (fip x))) pad in
             rbind (iunlock me (fip x) s1) (\<lambda>s2.
               let (r, s3) = copyout (pagetable (proc_at s2 me)) addr st s2 in
               if r < 0 then Ok (-1, s3) else Ok (0, s3)))
      else Ok (-1, s))"

text \<open>What a sleeping read or write goes on with: the address and count of a console read, the
  position of a write.\<close>

datatype resume = Again | ReadAt u64 nat | WriteAt nat

fun map_io :: "('b \<Rightarrow> 'c) \<Rightarrow> ('b, 'a) io \<Rightarrow> ('c, 'a) io" where
  "map_io g (Done r s) = Done r s"
| "map_io g (Sleep b s) = Sleep (g b) s"

definition inode_read :: "nat \<Rightarrow> nat \<Rightarrow> u64 \<Rightarrow> int \<Rightarrow> 'a ostate_scheme \<Rightarrow> (int \<times> 'a ostate_scheme) res" where
  "inode_read me f addr n s =
     (let ipo = fip (ftable s ! f) in
      rbind (ilock me ipo s) (\<lambda>s1.
      rbind (readi me (the ipo) (UserMem addr) (foff (ftable s1 ! f)) (word_of_int n) s1) (\<lambda>(r, _, s2).
        let s3 = (if r > 0 then upd_file f (\<lambda>x. x\<lparr>foff := foff x + word_of_int r\<rparr>) s2 else s2)
        in rbind (iunlock me ipo s3) (\<lambda>s4. Ok (r, s4)))))"

definition fileread :: "nat \<Rightarrow> nat \<Rightarrow> u64 \<Rightarrow> int \<Rightarrow> 'a ostate_scheme \<Rightarrow> (resume, 'a ostate_scheme) io res" where
  "fileread me f addr n s =
     (let x = ftable s ! f in
      if \<not> readable x then Ok (Done (-1) s)
      else case file_type x of
        FD_PIPE \<Rightarrow> Ok (map_io (\<lambda>_. Again) (piperead me (fpipe x) addr (nat n) s))
      | FD_DEVICE \<Rightarrow>
          if fmajor x < 0 \<or> fmajor x \<ge> NDEV \<or> fmajor x \<noteq> CONSOLE then Ok (Done (-1) s)
          else Ok (map_io (\<lambda>(a, k). ReadAt a k) (consoleread me True (nat n) addr (nat n) s))
      | FD_INODE \<Rightarrow> rbind (inode_read me f addr n s) (\<lambda>(r, s1). Ok (Done r s1))
      | FD_NONE \<Rightarrow> Panic ''fileread'')"

text \<open>The loop of \<open>filewrite\<close> on an inode, at most 3072 bytes in a transaction: the bytes written.\<close>

definition write_max :: nat where
  "write_max = ((MAXOPBLOCKS - 1 - 1 - 2) div 2) * BSIZE"

definition write_chunk :: "nat \<Rightarrow> nat \<Rightarrow> u64 \<Rightarrow> nat \<Rightarrow> 'a ostate_scheme \<Rightarrow> (int \<times> 'a ostate_scheme) res" where
  "write_chunk me f addr n1 s =
     (let ipo = fip (ftable s ! f) in
      rbind (awake (begin_op me s)) (\<lambda>s1.
      rbind (ilock me ipo s1) (\<lambda>s2.
      rbind (writei me (the ipo) (UserMem addr) (foff (ftable s2 ! f)) (word_of_nat n1) s2) (\<lambda>(r, s3).
        let s4 = (if r > 0 then upd_file f (\<lambda>x. x\<lparr>foff := foff x + word_of_int r\<rparr>) s3 else s3)
        in rbind (iunlock me ipo s4) (\<lambda>s5. rbind (end_op me s5) (\<lambda>s6. Ok (r, s6)))))))"

function inode_write :: "nat \<Rightarrow> nat \<Rightarrow> u64 \<Rightarrow> nat \<Rightarrow> nat \<Rightarrow> 'a ostate_scheme \<Rightarrow> (nat \<times> 'a ostate_scheme) res" where
  "inode_write me f addr i left s =
     (if left = 0 then Ok (i, s)
      else let n1 = min left write_max in
        rbind (write_chunk me f (addr + word_of_nat i) n1 s) (\<lambda>(r, s1).
          if r \<noteq> int n1 then Ok (i, s1) else inode_write me f addr (i + n1) (left - n1) s1))"
  by pat_completeness auto
termination
  by (relation "measure (\<lambda>(me, f, addr, i, left, s). left)") (auto simp: write_max_def)

declare inode_write.simps [simp del]

definition filewrite :: "nat \<Rightarrow> (nat \<Rightarrow> nat) \<Rightarrow> nat \<Rightarrow> u64 \<Rightarrow> int \<Rightarrow> 'a ostate_scheme \<Rightarrow> (resume, 'a ostate_scheme) io res" where
  "filewrite me idle f addr n s =
     (let x = ftable s ! f in
      if \<not> writable x then Ok (Done (-1) s)
      else case file_type x of
        FD_PIPE \<Rightarrow> Ok (map_io WriteAt (pipewrite me (fpipe x) addr 0 (nat n) s))
      | FD_DEVICE \<Rightarrow>
          if fmajor x < 0 \<or> fmajor x \<ge> NDEV \<or> fmajor x \<noteq> CONSOLE then Ok (Done (-1) s)
          else rbind (consolewrite me idle True addr 0 (nat n) s) (\<lambda>out. Ok (map_io WriteAt out))
      | FD_INODE \<Rightarrow> rbind (inode_write me f addr 0 (nat n) s) (\<lambda>(i, s1). Ok (Done (if int i = n then n else -1) s1))
      | FD_NONE \<Rightarrow> Panic ''filewrite'')"

end
