(* ===== verification/Sysfile.thy ===== *)
theory Sysfile
  imports File
begin

text \<open>
  \<open>kernel/sysfile.c\<close>: the system calls on files and directories.  The \<open>goto bad\<close> and \<open>goto fail\<close>
  tails are definitions of their own.
\<close>

abbreviation MAXPATH :: nat where "MAXPATH \<equiv> 128"

section \<open>Descriptors\<close>

text \<open>The descriptor and the file of argument \<open>n\<close>.\<close>

definition argfd :: "nat \<Rightarrow> nat \<Rightarrow> 'a ostate_scheme \<Rightarrow> (nat \<times> nat) option res" where
  "argfd me n s =
     rbind (argint me n s) (\<lambda>fd.
       if fd < 0 \<or> fd \<ge> int NOFILE then Ok None
       else (case ofile (proc_at s me) ! nat fd of None \<Rightarrow> Ok None | Some f \<Rightarrow> Ok (Some (nat fd, f))))"

fun free_fd :: "nat option list \<Rightarrow> nat \<Rightarrow> nat option" where
  "free_fd [] i = None"
| "free_fd (x # xs) i = (if x = None then Some i else free_fd xs (Suc i))"

definition fdalloc :: "nat \<Rightarrow> nat \<Rightarrow> 'a ostate_scheme \<Rightarrow> nat option \<times> 'a ostate_scheme" where
  "fdalloc me f s =
     (case free_fd (ofile (proc_at s me)) 0 of
        None \<Rightarrow> (None, s)
      | Some fd \<Rightarrow> (Some fd, upd_proc me (\<lambda>p. p\<lparr>ofile := (ofile p)[fd := Some f]\<rparr>) s))"

definition clear_fd :: "nat \<Rightarrow> nat \<Rightarrow> 'a ostate_scheme \<Rightarrow> 'a ostate_scheme" where
  "clear_fd me fd s = upd_proc me (\<lambda>p. p\<lparr>ofile := (ofile p)[fd := None]\<rparr>) s"

abbreviation fail :: "'a \<Rightarrow> 'a sysout res" where
  "fail s \<equiv> Ok (SRet (- 1) s)"

definition sys_dup :: "'a ostate_scheme handler" where
  "sys_dup me s =
     rbind (argfd me 0 s) (\<lambda>r. case r of None \<Rightarrow> fail s
      | Some (fd0, f) \<Rightarrow> (case fdalloc me f s of
            (None, s1) \<Rightarrow> fail s1
          | (Some fd, s1) \<Rightarrow> rbind (filedup f s1) (\<lambda>s2. Ok (SRet (word_of_nat fd) s2))))"

fun io_out :: "('b, 'a) io \<Rightarrow> 'a sysout" where
  "io_out (Done r s) = SRet (int_reg r) s"
| "io_out (Sleep b s) = SBlock s"

definition sys_read :: "'a ostate_scheme handler" where
  "sys_read me s =
     rbind (argaddr me 1 s) (\<lambda>p. rbind (argint me 2 s) (\<lambda>n. rbind (argfd me 0 s) (\<lambda>r. case r of
       None \<Rightarrow> fail s | Some (fd, f) \<Rightarrow> rbind (fileread me f p n s) (\<lambda>out. Ok (io_out out)))))"

definition sys_write :: "(nat \<Rightarrow> nat) \<Rightarrow> 'a ostate_scheme handler" where
  "sys_write idle me s =
     rbind (argaddr me 1 s) (\<lambda>p. rbind (argint me 2 s) (\<lambda>n. rbind (argfd me 0 s) (\<lambda>r. case r of
       None \<Rightarrow> fail s | Some (fd, f) \<Rightarrow> rbind (filewrite me idle f p n s) (\<lambda>out. Ok (io_out out)))))"

definition sys_close :: "'a ostate_scheme handler" where
  "sys_close me s =
     rbind (argfd me 0 s) (\<lambda>r. case r of None \<Rightarrow> fail s
      | Some (fd, f) \<Rightarrow> rbind (fileclose me f (clear_fd me fd s)) (\<lambda>s1. Ok (SRet 0 s1)))"

definition sys_fstat :: "u8 list \<Rightarrow> 'a ostate_scheme handler" where
  "sys_fstat pad me s =
     rbind (argaddr me 1 s) (\<lambda>st. rbind (argfd me 0 s) (\<lambda>r. case r of None \<Rightarrow> fail s
      | Some (fd, f) \<Rightarrow> rbind (filestat me pad f st s) (\<lambda>(n, s1). Ok (SRet (int_reg n) s1))))"

text \<open>\<open>end_op\<close> and a return value.\<close>

definition finish :: "nat \<Rightarrow> u64 \<Rightarrow> 'a lstate_scheme \<Rightarrow> 'a lstate_scheme sysout res" where
  "finish me v s = rbind (end_op me s) (\<lambda>s1. Ok (SRet v s1))"

definition put_finish :: "nat \<Rightarrow> nat \<Rightarrow> u64 \<Rightarrow> 'a fstate_scheme \<Rightarrow> 'a fstate_scheme sysout res" where
  "put_finish me ip v s = rbind (iunlockput me ip s) (\<lambda>s1. finish me v s1)"

section \<open>link\<close>

definition add_nlink :: "nat \<Rightarrow> nat \<Rightarrow> int \<Rightarrow> 'a fstate_scheme \<Rightarrow> 'a fstate_scheme res" where
  "add_nlink me ip d s = iupdate me ip (upd_inode ip (\<lambda>x. x\<lparr>inlink := sint (word_of_int (inlink x + d) :: u16)\<rparr>) s)"

definition link_bad :: "nat \<Rightarrow> nat \<Rightarrow> 'a ostate_scheme \<Rightarrow> 'a ostate_scheme sysout res" where
  "link_bad me ip s =
     rbind (ilock me (Some ip) s) (\<lambda>s1. rbind (add_nlink me ip (-1) s1) (\<lambda>s2. put_finish me ip (-1) s2))"

definition sys_link :: "'a ostate_scheme handler" where
  "sys_link me s =
     rbind (argstr me 0 MAXPATH s) (\<lambda>(r0, old). rbind (argstr me 1 MAXPATH s) (\<lambda>(r1, new).
     if r0 < 0 \<or> r1 < 0 then fail s
     else rbind (awake (begin_op me s)) (\<lambda>s1. rbind (namei me old s1) (\<lambda>(ipo, s2). case ipo of
       None \<Rightarrow> finish me (-1) s2
     | Some ip \<Rightarrow> rbind (ilock me (Some ip) s2) (\<lambda>s3.
         if itype (inode_at s3 ip) = T_DIR then put_finish me ip (-1) s3
         else rbind (add_nlink me ip 1 s3) (\<lambda>s4. rbind (iunlock me (Some ip) s4) (\<lambda>s5.
              rbind (nameiparent me new s5) (\<lambda>(dpo, name, s6). case dpo of
                None \<Rightarrow> link_bad me ip s6
              | Some dp \<Rightarrow> rbind (ilock me (Some dp) s6) (\<lambda>s7.
                  rbind (if idev (inode_at s7 dp) \<noteq> idev (inode_at s7 ip) then Ok (-1, s7)
                         else dirlink me dp name (inum (inode_at s7 ip)) s7) (\<lambda>(r, s8).
                  rbind (iunlockput me dp s8) (\<lambda>s9.
                    if r < 0 then link_bad me ip s9
                    else rbind (iput me ip s9) (\<lambda>s10. finish me 0 s10))))))))))))"

section \<open>unlink\<close>

text \<open>Offsets from 32, past \<open>"."\<close> and \<open>".."\<close>.\<close>

function isdirempty_loop :: "nat \<Rightarrow> nat \<Rightarrow> nat \<Rightarrow> nat \<Rightarrow> 'a fstate_scheme \<Rightarrow> (bool \<times> 'a fstate_scheme) res" where
  "isdirempty_loop me dp off len s =
     (if off < len
      then rbind (read_dirent ''isdirempty: readi'' me dp off s) (\<lambda>(d, s1).
             if de_inum d \<noteq> 0 then Ok (False, s1) else isdirempty_loop me dp (off + 16) len s1)
      else Ok (True, s))"
  by pat_completeness auto
termination
  by (relation "measure (\<lambda>(me, dp, off, len, s). len - off)") auto

declare isdirempty_loop.simps [simp del]

definition isdirempty :: "nat \<Rightarrow> nat \<Rightarrow> 'a fstate_scheme \<Rightarrow> (bool \<times> 'a fstate_scheme) res" where
  "isdirempty me dp s = isdirempty_loop me dp 32 (unat (isize (inode_at s dp))) s"

definition unlink_found :: "nat \<Rightarrow> nat \<Rightarrow> nat \<Rightarrow> nat \<Rightarrow> 'a ostate_scheme \<Rightarrow> 'a ostate_scheme sysout res" where
  "unlink_found me dp ip off s =
     rbind (ilock me (Some ip) s) (\<lambda>s1.
       if inlink (inode_at s1 ip) < 1 then Panic ''unlink: nlink < 1''
       else rbind (if itype (inode_at s1 ip) = T_DIR then isdirempty me ip s1 else Ok (True, s1)) (\<lambda>(em, s2).
         if \<not> em then rbind (iunlockput me ip s2) (\<lambda>s3. put_finish me dp (-1) s3)
         else rbind (writei me dp (Local (replicate 16 0)) (word_of_nat off) 16 s2) (\<lambda>(w, s3).
           if w \<noteq> 16 then Panic ''unlink: writei''
           else rbind (if itype (inode_at s3 ip) = T_DIR then add_nlink me dp (-1) s3 else Ok s3) (\<lambda>s4.
             rbind (iunlockput me dp s4) (\<lambda>s5.
             rbind (add_nlink me ip (-1) s5) (\<lambda>s6. put_finish me ip 0 s6))))))"

definition sys_unlink :: "'a ostate_scheme handler" where
  "sys_unlink me s =
     rbind (argstr me 0 MAXPATH s) (\<lambda>(r, path).
     if r < 0 then fail s
     else rbind (awake (begin_op me s)) (\<lambda>s1. rbind (nameiparent me path s1) (\<lambda>(dpo, name, s2). case dpo of
       None \<Rightarrow> finish me (-1) s2
     | Some dp \<Rightarrow> rbind (ilock me (Some dp) s2) (\<lambda>s3.
         if namecmp name [46] = 0 \<or> namecmp name [46, 46] = 0 then put_finish me dp (-1) s3
         else rbind (dirlookup me dp name s3) (\<lambda>(e, s4). case e of
                None \<Rightarrow> put_finish me dp (-1) s4
              | Some (ip, off) \<Rightarrow> unlink_found me dp ip off s4)))))"

section \<open>create and open\<close>

definition create_fail :: "nat \<Rightarrow> nat \<Rightarrow> nat \<Rightarrow> 'a fstate_scheme \<Rightarrow> (nat option \<times> 'a fstate_scheme) res" where
  "create_fail me ip dp s =
     rbind (iupdate me ip (upd_inode ip (\<lambda>x. x\<lparr>inlink := 0\<rparr>) s)) (\<lambda>s1.
     rbind (iunlockput me ip s1) (\<lambda>s2. rbind (iunlockput me dp s2) (\<lambda>s3. Ok (None, s3))))"

text \<open>The \<open>"."\<close> and \<open>".."\<close> entries of a new directory; the second is not tried when the first fails.\<close>

definition create_dots :: "nat \<Rightarrow> nat \<Rightarrow> nat \<Rightarrow> 'a fstate_scheme \<Rightarrow> (int \<times> 'a fstate_scheme) res" where
  "create_dots me ip dp s =
     rbind (dirlink me ip [46] (inum (inode_at s ip)) s) (\<lambda>(r, s1).
       if r < 0 then Ok (r, s1) else dirlink me ip [46, 46] (inum (inode_at s1 dp)) s1)"

definition create :: "nat \<Rightarrow> u8 list \<Rightarrow> int \<Rightarrow> int \<Rightarrow> int \<Rightarrow> 'a fstate_scheme \<Rightarrow> (nat option \<times> 'a fstate_scheme) res" where
  "create me path ty mjr mnr s =
     rbind (nameiparent me path s) (\<lambda>(dpo, name, s1). case dpo of
       None \<Rightarrow> Ok (None, s1)
     | Some dp \<Rightarrow> rbind (ilock me (Some dp) s1) (\<lambda>s2. rbind (dirlookup me dp name s2) (\<lambda>(e, s3). case e of
         Some (ip, off) \<Rightarrow>
           rbind (iunlockput me dp s3) (\<lambda>s4. rbind (ilock me (Some ip) s4) (\<lambda>s5.
             if ty = T_FILE \<and> (itype (inode_at s5 ip) = T_FILE \<or> itype (inode_at s5 ip) = T_DEVICE)
             then Ok (Some ip, s5) else rbind (iunlockput me ip s5) (\<lambda>s6. Ok (None, s6))))
       | None \<Rightarrow> rbind (ialloc me (idev (inode_at s3 dp)) ty s3) (\<lambda>(ipo, s4). case ipo of
           None \<Rightarrow> rbind (iunlockput me dp s4) (\<lambda>s5. Ok (None, s5))
         | Some ip \<Rightarrow> rbind (ilock me (Some ip) s4) (\<lambda>s5.
             rbind (iupdate me ip (upd_inode ip (\<lambda>x. x\<lparr>imajor := mjr, iminor := mnr, inlink := 1\<rparr>) s5)) (\<lambda>s6.
             rbind (if ty = T_DIR then create_dots me ip dp s6 else Ok (0, s6)) (\<lambda>(r, s7).
               if r < 0 then create_fail me ip dp s7
               else rbind (dirlink me dp name (inum (inode_at s7 ip)) s7) (\<lambda>(r, s8).
                 if r < 0 then create_fail me ip dp s8
                 else rbind (if ty = T_DIR then add_nlink me dp 1 s8 else Ok s8) (\<lambda>s9.
                      rbind (iunlockput me dp s9) (\<lambda>s10. Ok (Some ip, s10)))))))))))"

definition flag :: "int \<Rightarrow> int \<Rightarrow> bool" where
  "flag omode bits \<longleftrightarrow> omode AND bits \<noteq> 0"

text \<open>\<open>sys_open\<close> once it holds the locked inode: a file and a descriptor.\<close>

definition open_inode :: "nat \<Rightarrow> nat \<Rightarrow> int \<Rightarrow> 'a ostate_scheme \<Rightarrow> 'a ostate_scheme sysout res" where
  "open_inode me ip omode s =
     (if itype (inode_at s ip) = T_DEVICE \<and> (imajor (inode_at s ip) < 0 \<or> imajor (inode_at s ip) \<ge> NDEV)
      then put_finish me ip (-1) s
      else (case filealloc s of
          (None, s1) \<Rightarrow> put_finish me ip (-1) s1
        | (Some f, s1) \<Rightarrow> (case fdalloc me f s1 of
              (None, s2) \<Rightarrow> rbind (fileclose me f s2) (\<lambda>s3. put_finish me ip (-1) s3)
            | (Some fd, s2) \<Rightarrow>
                let s3 = (if itype (inode_at s2 ip) = T_DEVICE
                          then upd_file f (\<lambda>x. x\<lparr>file_type := FD_DEVICE, fmajor := imajor (inode_at s2 ip)\<rparr>) s2
                          else upd_file f (\<lambda>x. x\<lparr>file_type := FD_INODE, foff := 0\<rparr>) s2);
                    s4 = upd_file f (\<lambda>x. x\<lparr>fip := Some ip, readable := \<not> flag omode 1,
                           writable := flag omode 1 \<or> flag omode 2\<rparr>) s3
                in rbind (if flag omode 0x400 \<and> itype (inode_at s4 ip) = T_FILE then itrunc me ip s4 else Ok s4) (\<lambda>s5.
                   rbind (iunlock me (Some ip) s5) (\<lambda>s6. finish me (word_of_nat fd) s6)))))"

definition sys_open :: "'a ostate_scheme handler" where
  "sys_open me s =
     rbind (argint me 1 s) (\<lambda>omode. rbind (argstr me 0 MAXPATH s) (\<lambda>(n, path).
     if n < 0 then fail s
     else rbind (awake (begin_op me s)) (\<lambda>s1.
       if flag omode 0x200
       then rbind (create me path T_FILE 0 0 s1) (\<lambda>(ipo, s2). case ipo of
              None \<Rightarrow> finish me (-1) s2 | Some ip \<Rightarrow> open_inode me ip omode s2)
       else rbind (namei me path s1) (\<lambda>(ipo, s2). case ipo of
              None \<Rightarrow> finish me (-1) s2
            | Some ip \<Rightarrow> rbind (ilock me (Some ip) s2) (\<lambda>s3.
                if itype (inode_at s3 ip) = T_DIR \<and> omode \<noteq> 0 then put_finish me ip (-1) s3
                else open_inode me ip omode s3)))))"

section \<open>mkdir, mknod, chdir\<close>

definition short :: "int \<Rightarrow> int" where
  "short x = sint (word_of_int x :: u16)"

definition make_node :: "nat \<Rightarrow> int \<Rightarrow> int \<Rightarrow> int \<Rightarrow> int \<Rightarrow> u8 list \<Rightarrow> 'a ostate_scheme \<Rightarrow> 'a ostate_scheme sysout res" where
  "make_node me r ty mjr mnr path s =
     (if r < 0 then finish me (-1) s
      else rbind (create me path ty mjr mnr s) (\<lambda>(ipo, s1). case ipo of
             None \<Rightarrow> finish me (-1) s1 | Some ip \<Rightarrow> put_finish me ip 0 s1))"

definition sys_mkdir :: "'a ostate_scheme handler" where
  "sys_mkdir me s =
     rbind (awake (begin_op me s)) (\<lambda>s1. rbind (argstr me 0 MAXPATH s1) (\<lambda>(r, path). make_node me r T_DIR 0 0 path s1))"

definition sys_mknod :: "'a ostate_scheme handler" where
  "sys_mknod me s =
     rbind (awake (begin_op me s)) (\<lambda>s1. rbind (argint me 1 s1) (\<lambda>mjr. rbind (argint me 2 s1) (\<lambda>mnr.
     rbind (argstr me 0 MAXPATH s1) (\<lambda>(r, path). make_node me r T_DEVICE (short mjr) (short mnr) path s1))))"

definition sys_chdir :: "'a ostate_scheme handler" where
  "sys_chdir me s =
     rbind (awake (begin_op me s)) (\<lambda>s1. rbind (argstr me 0 MAXPATH s1) (\<lambda>(r, path).
     if r < 0 then finish me (-1) s1
     else rbind (namei me path s1) (\<lambda>(ipo, s2). case ipo of
       None \<Rightarrow> finish me (-1) s2
     | Some ip \<Rightarrow> rbind (ilock me (Some ip) s2) (\<lambda>s3.
         if itype (inode_at s3 ip) \<noteq> T_DIR then put_finish me ip (-1) s3
         else rbind (iunlock me (Some ip) s3) (\<lambda>s4.
              rbind (put_ip me (cwd (proc_at s4 me)) s4) (\<lambda>s5.
              rbind (end_op me s5) (\<lambda>s6. Ok (SRet 0 (upd_proc me (\<lambda>p. p\<lparr>cwd := Some ip\<rparr>) s6)))))))))"

section \<open>pipe\<close>

definition pipe_undo :: "nat \<Rightarrow> nat list \<Rightarrow> nat \<Rightarrow> nat \<Rightarrow> 'a ostate_scheme \<Rightarrow> 'a ostate_scheme sysout res" where
  "pipe_undo me fds rfl wfl s =
     rbind (fileclose me rfl (foldl (\<lambda>t fd. clear_fd me fd t) s fds)) (\<lambda>s1.
     rbind (fileclose me wfl s1) (\<lambda>s2. fail s2))"

definition sys_pipe :: "'a ostate_scheme handler" where
  "sys_pipe me s =
     rbind (argaddr me 0 s) (\<lambda>fdarray. rbind (pipealloc me s) (\<lambda>(p, s1). case p of
       None \<Rightarrow> fail s1
     | Some (rfl, wfl) \<Rightarrow> (case fdalloc me rfl s1 of
         (None, s2) \<Rightarrow> pipe_undo me [] rfl wfl s2
       | (Some fd0, s2) \<Rightarrow> (case fdalloc me wfl s2 of
           (None, s3) \<Rightarrow> pipe_undo me [fd0] rfl wfl s3
         | (Some fd1, s3) \<Rightarrow>
             let pt = pagetable (proc_at s3 me); (r0, s4) = copyout pt fdarray (int_bytes (int fd0)) s3 in
             if r0 < 0 then pipe_undo me [fd0, fd1] rfl wfl s4
             else let (r1, s5) = copyout pt (fdarray + 4) (int_bytes (int fd1)) s4 in
                  if r1 < 0 then pipe_undo me [fd0, fd1] rfl wfl s5 else Ok (SRet 0 s5)))))"

end
