(* ===== verification/Trap.thy ===== *)
theory Trap
  imports Syscall
begin

text \<open>
  \<open>kernel/trap.c\<close>: traps from user space and from the kernel, device interrupts, the clock, the
  alarm and the MLFQ accounting.  The CSRs a trap reads and writes are the record \<open>csrs\<close>; the
  PLIC's answer, the UART and the disk handlers are arguments of \<open>devintr\<close>.
\<close>

section \<open>Control registers\<close>

record csrs =
  sst_spp :: bool
  sst_spie :: bool
  scause :: u64
  sepc :: u64
  stvec :: u64
  ssip :: bool

text \<open>Addresses of trap code (linker symbols and the fixed trampoline).\<close>

record trap_syms =
  kernelvec :: u64
  uservec_off :: u64
  usertrap_pc :: u64
  kernel_satp :: u64

definition MAKE_SATP :: "u64 \<Rightarrow> u64" where
  "MAKE_SATP pt = push_bit 60 8 OR drop_bit 12 pt"

section \<open>Clock and devices\<close>

definition clockintr :: "nat option \<Rightarrow> 'a kstate_scheme \<Rightarrow> 'a kstate_scheme" where
  "clockintr me s = wakeup me ChanTicks (update_time (s\<lparr>kticks := kticks s + 1\<rparr>))"

text \<open>\<open>UART0_IRQ\<close> is 10, \<open>VIRTIO0_IRQ\<close> 1; \<open>irq\<close> is what \<open>plic_claim\<close> returns.  The result is the
  code of \<open>devintr\<close> and whether \<open>plic_complete\<close> is called.\<close>

definition devintr ::
  "('a kstate_scheme \<Rightarrow> 'a kstate_scheme res) \<Rightarrow> ('a kstate_scheme \<Rightarrow> 'a kstate_scheme res) \<Rightarrow>
   nat \<Rightarrow> nat option \<Rightarrow> int \<Rightarrow> csrs \<Rightarrow> 'a kstate_scheme \<Rightarrow> (int \<times> bool \<times> csrs \<times> 'a kstate_scheme) res" where
  "devintr uartintr diskintr hart me irq c s =
     (if scause c AND 0x8000000000000000 \<noteq> 0 \<and> scause c AND 0xff = 9
      then rbind (if irq = 10 then uartintr s else if irq = 1 then diskintr s else Ok s)
             (\<lambda>s1. Ok (1, irq \<noteq> 0, c, s1))
      else if scause c = 0x8000000000000001
      then Ok (2, False, c\<lparr>ssip := False\<rparr>, if hart = 0 then clockintr me s else s)
      else Ok (0, False, c, s))"

section \<open>Alarm\<close>

text \<open>A timer interrupt of process \<open>me\<close> while no alarm handler is running.\<close>

definition alarm_tick :: "nat \<Rightarrow> 'a kstate_scheme \<Rightarrow> 'a kstate_scheme" where
  "alarm_tick me s =
     (if alarm_state (proc_at s me) = 0
      then let s1 = upd_proc me (\<lambda>p. p\<lparr>pticks := i32 (pticks p + 1)\<rparr>) s; p = proc_at s1 me
           in if pticks p = total_ticks p
              then let s2 = s1\<lparr>mem := memmove (mem s1) (backup p) (trapframe p) 288\<rparr>;
                       s3 = upd_proc me (\<lambda>p. p\<lparr>alarm_state := 1, pticks := 0\<rparr>) s2
                   in tf_set me tf_epc (handler p) s3
              else s1
      else s)"

section \<open>MLFQ accounting\<close>

fun boost_loop :: "nat list \<Rightarrow> 'a kstate_scheme \<Rightarrow> 'a kstate_scheme" where
  "boost_loop [] s = s"
| "boost_loop (i # is) s =
     boost_loop is (if pstate (proc_at s i) = RUNNABLE \<or> pstate (proc_at s i) = RUNNING
       then let (t, s1) = tick_sys_time s
            in upd_proc i (\<lambda>p. p\<lparr>arrival_time_queue := t, ticks_in_queue := 0, queue_num := 0\<rparr>) s1
       else s)"

text \<open>Whether the boost ran, and the state after it.\<close>

definition mlfq_boost :: "'a kstate_scheme \<Rightarrow> bool \<times> 'a kstate_scheme" where
  "mlfq_boost s = (if kticks s mod 48 = 0 then (True, boost_loop [0..<length (procs s)] s) else (False, s))"

text \<open>Leaving a queue: back of the next one, runnable.\<close>

definition mlfq_demote :: "nat \<Rightarrow> int \<Rightarrow> 'a kstate_scheme \<Rightarrow> 'a kstate_scheme" where
  "mlfq_demote me q s =
     (let (t, s1) = tick_sys_time s
      in upd_proc me (\<lambda>p. p\<lparr>ticks_in_queue := 0, arrival_time_queue := t, pstate := RUNNABLE, queue_num := q\<rparr>) s1)"

definition mlfq_age :: "nat \<Rightarrow> 'a kstate_scheme \<Rightarrow> 'a kstate_scheme" where
  "mlfq_age me s =
     (let s1 = upd_proc me (\<lambda>p. p\<lparr>ticks_in_queue := i32 (ticks_in_queue p + 1)\<rparr>) s; p = proc_at s1 me
      in if queue_num p = 0
         then (if ticks_in_queue p = 1 then mlfq_demote me (i32 (queue_num p + 1)) s1 else s1)
         else if ticks_in_queue p = 2 ^ nat (queue_num p + 1)
         then mlfq_demote me (if queue_num p < 3 then i32 (queue_num p + 1) else queue_num p) s1
         else s1)"

text \<open>
  The part of \<open>usertrap\<close> between the second \<open>killed\<close> test and \<open>yield\<close>.  The boost loop reuses the
  variable \<open>p\<close>, so after it a device interrupt (\<open>which_dev == 1\<close>) writes through \<open>&proc[NPROC]\<close>,
  past the table: undefined.
\<close>

definition mlfq_account :: "nat \<Rightarrow> int \<Rightarrow> 'a kstate_scheme \<Rightarrow> 'a kstate_scheme res" where
  "mlfq_account me which_dev s =
     (let (boosted, s1) = mlfq_boost s
      in if which_dev = 2 then Ok (if boosted then s1 else mlfq_age me s1)
         else if which_dev = 1
         then if boosted then Stuck
              else let (t, s2) = tick_sys_time s1
                   in Ok (upd_proc me (\<lambda>p. p\<lparr>arrival_time_queue := t, ticks_in_queue := 0\<rparr>) s2)
         else Ok s1)"

section \<open>usertrap\<close>

text \<open>How a trap from user space leaves the process: gone, asleep in a system call, switched
  away by \<open>yield\<close>, or on its way back through \<open>usertrapret\<close>.\<close>

datatype 'a trapout = TGone 'a | TBlock 'a | TYield 'a | TReturn 'a

text \<open>\<open>usertrap\<close> after the cause is handled, with the code of the device.\<close>

definition usertrap_tail ::
  "(nat \<Rightarrow> int \<Rightarrow> 'a kstate_scheme \<Rightarrow> 'a kstate_scheme res) \<Rightarrow> nat \<Rightarrow> int \<Rightarrow> 'a kstate_scheme \<Rightarrow>
   'a kstate_scheme trapout res" where
  "usertrap_tail exit me which_dev s =
     (if killed me s \<noteq> 0 then rbind (exit me (-1) s) (\<lambda>s1. Ok (TGone s1))
      else rbind (if config s = MLFQ then mlfq_account me which_dev s else Ok s) (\<lambda>s1.
        if which_dev = 2 \<or> which_dev = 1 then Ok (TYield (yield_state me s1)) else Ok (TReturn s1)))"

definition usertrap ::
  "(nat \<Rightarrow> 'a kstate_scheme handler) \<Rightarrow> (nat \<Rightarrow> int \<Rightarrow> 'a kstate_scheme \<Rightarrow> 'a kstate_scheme res) \<Rightarrow>
   ('a kstate_scheme \<Rightarrow> 'a kstate_scheme res) \<Rightarrow> ('a kstate_scheme \<Rightarrow> 'a kstate_scheme res) \<Rightarrow>
   trap_syms \<Rightarrow> nat \<Rightarrow> nat \<Rightarrow> int \<Rightarrow> csrs \<Rightarrow> 'a kstate_scheme \<Rightarrow> (csrs \<times> 'a kstate_scheme trapout) res" where
  "usertrap calls exit uartintr diskintr syms hart me irq c s =
     (if sst_spp c then Panic ''usertrap: not from user mode''
      else let c1 = c\<lparr>stvec := kernelvec syms\<rparr>; s1 = tf_set me tf_epc (sepc c1) s in
        if scause c1 = 8
        then if killed me s1 \<noteq> 0 then rbind (exit me (-1) s1) (\<lambda>s2. Ok (c1, TGone s2))
             else rbind (syscall calls me (tf_set me tf_epc (tf_get me tf_epc s1 + 4) s1)) (\<lambda>r. case r of
                    SRet v s2 \<Rightarrow> rbind (usertrap_tail exit me 0 s2) (\<lambda>t. Ok (c1, t))
                  | SBlock s2 \<Rightarrow> Ok (c1, TBlock s2)
                  | SGone s2 \<Rightarrow> Ok (c1, TGone s2)
                  | SUser s2 \<Rightarrow> Ok (c1, TReturn s2))
        else rbind (devintr uartintr diskintr hart (Some me) irq c1 s1) (\<lambda>(dev, _, c2, s2).
               if dev \<noteq> 0
               then rbind (usertrap_tail exit me dev (if dev = 2 then alarm_tick me s2 else s2)) (\<lambda>t. Ok (c2, t))
               else rbind (usertrap_tail exit me 0 (setkilled me s2)) (\<lambda>t. Ok (c2, t))))"

text \<open>\<open>usertrapret\<close>; the result is the page table it hands to \<open>userret\<close>.\<close>

definition usertrapret :: "trap_syms \<Rightarrow> nat \<Rightarrow> nat \<Rightarrow> csrs \<Rightarrow> 'a kstate_scheme \<Rightarrow> u64 \<times> csrs \<times> 'a kstate_scheme" where
  "usertrapret syms hart me c s =
     (let c1 = c\<lparr>stvec := TRAMPOLINE + uservec_off syms\<rparr>;
          s1 = tf_set me tf_kernel_satp (kernel_satp syms) s;
          s2 = tf_set me tf_kernel_sp (kstack (proc_at s1 me) + PGSIZE) s1;
          s3 = tf_set me tf_kernel_trap (usertrap_pc syms) s2;
          s4 = tf_set me tf_kernel_hartid (word_of_nat hart) s3;
          c2 = c1\<lparr>sst_spp := False, sst_spie := True, sepc := tf_get me tf_epc s4\<rparr>
      in (MAKE_SATP (pagetable (proc_at s4 me)), c2, s4))"

section \<open>kerneltrap\<close>

text \<open>
  Up to the possible switch; \<open>intr_on\<close> is \<open>intr_get()\<close>.  The trap's own \<open>sepc\<close> and \<open>sstatus\<close> are
  the values written back at the end.
\<close>

definition kerneltrap ::
  "('a kstate_scheme \<Rightarrow> 'a kstate_scheme res) \<Rightarrow> ('a kstate_scheme \<Rightarrow> 'a kstate_scheme res) \<Rightarrow>
   nat \<Rightarrow> nat option \<Rightarrow> bool \<Rightarrow> int \<Rightarrow> csrs \<Rightarrow> 'a kstate_scheme \<Rightarrow> (bool \<times> csrs \<times> 'a kstate_scheme) res" where
  "kerneltrap uartintr diskintr hart me intr_on irq c s =
     (if \<not> sst_spp c then Panic ''kerneltrap: not from supervisor mode''
      else if intr_on then Panic ''kerneltrap: interrupts enabled''
      else rbind (devintr uartintr diskintr hart me irq c s) (\<lambda>(dev, _, c1, s1).
        if dev = 0 then Panic ''kerneltrap''
        else (case me of
            Some i \<Rightarrow> if dev = 2 \<and> pstate (proc_at s1 i) = RUNNING then Ok (True, c1, yield_state i s1) else Ok (False, c1, s1)
          | None \<Rightarrow> Ok (False, c1, s1))))"

text \<open>Back from \<open>yield\<close>, which may have let other traps overwrite the registers.\<close>

definition kerneltrap_end :: "csrs \<Rightarrow> csrs \<Rightarrow> csrs" where
  "kerneltrap_end saved c = c\<lparr>sepc := sepc saved, sst_spp := sst_spp saved, sst_spie := sst_spie saved\<rparr>"

section \<open>Lemmas\<close>

lemma within_trapframe: "unat p + 288 < 2 ^ 64 \<Longrightarrow> i < 8 \<Longrightarrow> unat off \<le> 280 \<Longrightarrow> within p 288 (p + off + i)"
  for p off i :: u64
proof -
  assume a: "unat p + 288 < 2 ^ 64" "i < 8" "unat off \<le> 280"
  have i: "unat i < 8" using a(2) by (simp add: word_less_nat_alt)
  have "unat (p + off) = unat p + unat off" using a by (intro unat_add_no_wrap) simp
  moreover from this have "unat (p + off + i) = unat p + unat off + unat i"
    using a i by (subst unat_add_no_wrap) auto
  ultimately show ?thesis using a i by (simp add: within_def)
qed

lemma tf_set_outside:
  assumes "unat (trapframe (proc_at s me)) + 288 < 2 ^ 64" "unat off \<le> 280"
    and "\<not> within (trapframe (proc_at s me)) 288 x"
  shows "mem (tf_set me off v s) x = mem s x"
proof -
  have "\<not> x - (trapframe (proc_at s me) + off) < 8"
  proof
    assume "x - (trapframe (proc_at s me) + off) < 8"
    from within_trapframe[OF assms(1) this assms(2)] show False using assms(3) by simp
  qed
  then show ?thesis by (simp add: tf_set_def st64_apply)
qed

lemma tf_set_procs [simp]: "procs (tf_set me off v s) = procs s"
  by (simp add: tf_set_def)

text \<open>Two ranges of \<open>n\<close> bytes.\<close>

definition apart :: "u64 \<Rightarrow> u64 \<Rightarrow> nat \<Rightarrow> bool" where
  "apart a b n \<longleftrightarrow> unat a + n < 2 ^ 64 \<and> unat b + n < 2 ^ 64 \<and> (unat a + n \<le> unat b \<or> unat b + n \<le> unat a)"

lemma apart_within: "apart a b n \<Longrightarrow> within a n x \<Longrightarrow> \<not> within b n x"
  by (auto simp: apart_def within_def)

text \<open>The \<open>k\<close>-th tick of an alarm of \<open>n\<close> ticks.\<close>

lemma alarm_tick_early:
  assumes "me < length (procs s)" "alarm_state (proc_at s me) = 0"
    and "total_ticks (proc_at s me) = n" "0 \<le> pticks (proc_at s me)" "pticks (proc_at s me) + 1 < n" "n < 2 ^ 31"
  shows "alarm_tick me s = upd_proc me (\<lambda>p. p\<lparr>pticks := pticks p + 1\<rparr>) s"
proof -
  have "i32 (pticks (proc_at s me) + 1) = pticks (proc_at s me) + 1" using assms by (intro i32_small) auto
  then have u: "upd_proc me (\<lambda>p. p\<lparr>pticks := i32 (pticks p + 1)\<rparr>) s = upd_proc me (\<lambda>p. p\<lparr>pticks := pticks p + 1\<rparr>) s"
    by (simp add: upd_proc_def)
  show ?thesis unfolding alarm_tick_def u using assms by (simp add: Let_def)
qed

lemma alarm_tick_waits:
  assumes "me < length (procs s)" "alarm_state (proc_at s me) = 0" "total_ticks (proc_at s me) = int n"
    and "pticks (proc_at s me) = 0" "k < n" "int n < 2 ^ 31"
  shows "(alarm_tick me ^^ k) s = upd_proc me (\<lambda>p. p\<lparr>pticks := int k\<rparr>) s"
  using assms(5)
proof (induction k)
  case 0
  have "(proc_at s me)\<lparr>pticks := 0\<rparr> = proc_at s me" using assms(4) by (cases "proc_at s me") simp
  then have "upd_proc me (\<lambda>p. p\<lparr>pticks := 0\<rparr>) s = s" by (simp add: upd_proc_def)
  then show ?case by simp
next
  case (Suc k)
  let ?s = "upd_proc me (\<lambda>p. p\<lparr>pticks := int k\<rparr>) s"
  have "(alarm_tick me ^^ Suc k) s = alarm_tick me ?s" using Suc by simp
  also have "\<dots> = upd_proc me (\<lambda>p. p\<lparr>pticks := pticks p + 1\<rparr>) ?s"
    using assms Suc.prems by (intro alarm_tick_early[where n = "int n"]) simp_all
  finally show ?case using assms(1) by (simp add: add.commute)
qed

lemma alarm_tick_fires:
  assumes "me < length (procs s)" "alarm_state (proc_at s me) = 0"
    and "pticks (proc_at s me) + 1 = total_ticks (proc_at s me)" "0 < total_ticks (proc_at s me)" "total_ticks (proc_at s me) < 2 ^ 31"
  shows "alarm_tick me s = tf_set me tf_epc (handler (proc_at s me))
    (upd_proc me (\<lambda>p. p\<lparr>alarm_state := 1, pticks := 0\<rparr>)
      (s\<lparr>mem := memmove (mem s) (backup (proc_at s me)) (trapframe (proc_at s me)) 288\<rparr>))"
proof -
  have i: "i32 (pticks (proc_at s me) + 1) = total_ticks (proc_at s me)" using assms by (subst i32_small) auto
  show ?thesis using assms i by (simp add: alarm_tick_def Let_def upd_proc_def)
qed

lemma log2_loop_pow: "log2_loop (2 ^ i) k = k + i"
proof (induction i arbitrary: k)
  case (Suc i)
  have "(1 :: int) < 2 ^ Suc i" by (intro one_less_power) auto
  moreover have "(2 ^ Suc i :: int) div 2 = 2 ^ i" by simp
  ultimately show ?case using Suc by (subst log2_loop.simps) (simp del: power_Suc)
qed (simp add: log2_loop.simps)

lemma and_pred_even: "2 * m AND (2 * m - 1) = 2 * (m AND (m - 1))" for m :: int
proof -
  have "(2 * m - 1) div 2 = m - 1" by presburger
  then show ?thesis by (subst and_int_rec) simp
qed

lemma and_pred_odd: "(2 * m + 1) AND (2 * m + 1 - 1) = 2 * m" for m :: int
  by (subst and_int_rec) simp

lemma and_pred_zero: "0 < (n :: int) \<Longrightarrow> n AND (n - 1) = 0 \<Longrightarrow> \<exists>i. n = 2 ^ i"
proof (induction "nat n" arbitrary: n rule: less_induct)
  case less
  show ?case
  proof (cases "even n")
    case True
    then obtain m where m: "n = 2 * m" by blast
    then have "0 < m" "m AND (m - 1) = 0" using less.prems and_pred_even[of m] by auto
    then obtain i where "m = 2 ^ i" using less.hyps[of m] m by auto
    then show ?thesis using m by (intro exI[of _ "Suc i"]) simp
  next
    case False
    then obtain m where m: "n = 2 * m + 1" by (elim oddE)
    then have "m = 0" using less.prems(2) and_pred_odd[of m] by simp
    then show ?thesis using m by (intro exI[of _ 0]) simp
  qed
qed

lemma and_pred_pow: "(2 ^ i :: int) AND (2 ^ i - 1) = 0"
proof (induction i)
  case (Suc i)
  then show ?case using and_pred_even[of "2 ^ i"] by simp
qed simp

section \<open>MLFQ levels\<close>

text \<open>The time slice of a queue, and the accounting invariant of a slot.\<close>

definition time_slice :: "int \<Rightarrow> int" where
  "time_slice q = (if q = 0 then 1 else 2 ^ nat (q + 1))"

definition mlfq_slot :: "proc \<Rightarrow> bool" where
  "mlfq_slot p \<longleftrightarrow> queue_num p \<in> {0, 1, 2, 3} \<and> 0 \<le> ticks_in_queue p \<and> ticks_in_queue p < time_slice (queue_num p)"

lemma boost_loop_slots:
  "\<forall>p\<in>set (procs s). mlfq_slot p \<Longrightarrow> \<forall>i\<in>set is. i < length (procs s) \<Longrightarrow>
   (\<forall>p\<in>set (procs (boost_loop is s)). mlfq_slot p) \<and> length (procs (boost_loop is s)) = length (procs s)"
proof (induction "is" arbitrary: s)
  case (Cons i "is")
  let ?s = "if pstate (proc_at s i) = RUNNABLE \<or> pstate (proc_at s i) = RUNNING
       then let (t, s1) = tick_sys_time s
            in upd_proc i (\<lambda>p. p\<lparr>arrival_time_queue := t, ticks_in_queue := 0, queue_num := 0\<rparr>) s1
       else s"
  have "mlfq_slot (p\<lparr>arrival_time_queue := t, ticks_in_queue := 0, queue_num := 0\<rparr>)" for p t
    by (simp add: mlfq_slot_def time_slice_def)
  then have "\<forall>p\<in>set (procs ?s). mlfq_slot p" "length (procs ?s) = length (procs s)"
    using Cons.prems by (auto simp: tick_sys_time_def intro: all_set_update[rule_format])
  then show ?case using Cons.IH[of ?s] Cons.prems(2) by simp
qed simp

lemma mlfq_age_slot:
  assumes "mlfq_slot (proc_at s me)" "me < length (procs s)"
  shows "mlfq_slot (proc_at (mlfq_age me s) me) \<and> (\<exists>p. procs (mlfq_age me s) = (procs s)[me := p])"
proof -
  have i: "i32 (ticks_in_queue (proc_at s me) + 1) = ticks_in_queue (proc_at s me) + 1"
    using assms(1) by (intro i32_small) (auto simp: mlfq_slot_def time_slice_def)
  have q: "queue_num (proc_at s me) = 0 \<or> queue_num (proc_at s me) = 1 \<or> queue_num (proc_at s me) = 2 \<or>
      queue_num (proc_at s me) = 3" using assms(1) by (auto simp: mlfq_slot_def)
  have n: "nat 2 = 2" "nat 3 = 3" "nat 4 = 4" "i32 2 = 2" "i32 3 = 3" by (simp_all add: i32_small)
  show ?thesis
    using q assms i
    by (elim disjE; simp add: mlfq_age_def mlfq_demote_def tick_sys_time_def Let_def mlfq_slot_def time_slice_def n;
        fastforce)
qed


text \<open>The copy the firing tick leaves in \<open>backup\<close>.\<close>

lemma alarm_tick_saves:
  assumes "me < length (procs s)" "alarm_state (proc_at s me) = 0"
    and "pticks (proc_at s me) + 1 = total_ticks (proc_at s me)" "0 < total_ticks (proc_at s me)" "total_ticks (proc_at s me) < 2 ^ 31"
    and "apart (trapframe (proc_at s me)) (backup (proc_at s me)) 288" "within (backup (proc_at s me)) 288 x"
  shows "mem (alarm_tick me s) x = mem s (trapframe (proc_at s me) + (x - backup (proc_at s me)))"
proof -
  let ?t = "trapframe (proc_at s me)" and ?b = "backup (proc_at s me)"
  have nw: "unat ?t + unat (288 :: u32) < 2 ^ 64" "unat ?b + unat (288 :: u32) < 2 ^ 64"
    using assms(6) by (auto simp: apart_def)
  define s1 where "s1 = upd_proc me (\<lambda>p. p\<lparr>alarm_state := 1, pticks := 0\<rparr>) (s\<lparr>mem := memmove (mem s) ?b ?t 288\<rparr>)"
  have a: "alarm_tick me s = tf_set me tf_epc (handler (proc_at s me)) s1"
    using alarm_tick_fires[OF assms(1-5)] by (simp add: s1_def)
  have t1: "trapframe (proc_at s1 me) = ?t" using assms(1) by (simp add: s1_def)
  have "\<not> within ?t 288 x" using apart_within[of ?b ?t 288 x] assms(6,7) by (auto simp: apart_def)
  then have "mem (alarm_tick me s) x = mem s1 x"
    unfolding a using t1 nw by (intro tf_set_outside) (auto simp: tf_epc_def)
  also have "\<dots> = mem s (?t + (x - ?b))" using memmove_apply[OF nw(2,1), of "mem s" x] assms(7) by (simp add: s1_def)
  finally show ?thesis .
qed

lemma alarm_tick_frame:
  assumes "me < length (procs s)" "alarm_state (proc_at s me) = 0"
    and "pticks (proc_at s me) + 1 = total_ticks (proc_at s me)" "0 < total_ticks (proc_at s me)" "total_ticks (proc_at s me) < 2 ^ 31"
    and "apart (trapframe (proc_at s me)) (backup (proc_at s me)) 288" "\<not> within (backup (proc_at s me)) 288 x"
    and "\<not> x - (trapframe (proc_at s me) + tf_epc) < 8"
  shows "mem (alarm_tick me s) x = mem s x"
proof -
  let ?t = "trapframe (proc_at s me)" and ?b = "backup (proc_at s me)"
  have nw: "unat ?t + unat (288 :: u32) < 2 ^ 64" "unat ?b + unat (288 :: u32) < 2 ^ 64"
    using assms(6) by (auto simp: apart_def)
  show ?thesis
    using alarm_tick_fires[OF assms(1-5)] memmove_apply[OF nw(2,1), of "mem s" x] assms(1,7,8)
    by (simp add: tf_set_def st64_apply)
qed

text \<open>What one tick does to its process, and what the boost does to the others.\<close>

lemma mlfq_age_exact:
  assumes "mlfq_slot (proc_at s me)" "me < length (procs s)"
  shows "let p = proc_at s me; p' = proc_at (mlfq_age me s) me in
     if ticks_in_queue p + 1 = time_slice (queue_num p)
     then queue_num p' = min 3 (queue_num p + 1) \<and> ticks_in_queue p' = 0 \<and> pstate p' = RUNNABLE
     else queue_num p' = queue_num p \<and> ticks_in_queue p' = ticks_in_queue p + 1 \<and> pstate p' = pstate p"
proof -
  have i: "i32 (ticks_in_queue (proc_at s me) + 1) = ticks_in_queue (proc_at s me) + 1"
    using assms(1) by (intro i32_small) (auto simp: mlfq_slot_def time_slice_def)
  have q: "queue_num (proc_at s me) = 0 \<or> queue_num (proc_at s me) = 1 \<or> queue_num (proc_at s me) = 2 \<or>
      queue_num (proc_at s me) = 3" using assms(1) by (auto simp: mlfq_slot_def)
  have n: "nat 2 = 2" "nat 3 = 3" "nat 4 = 4" "i32 1 = 1" "i32 2 = 2" "i32 3 = 3" by (simp_all add: i32_small)
  show ?thesis
    using q assms i
    by (elim disjE; simp add: mlfq_age_def mlfq_demote_def tick_sys_time_def Let_def time_slice_def n)
qed

lemma boost_loop_other:
  "i \<notin> set is \<Longrightarrow> proc_at (boost_loop is s) i = proc_at s i"
  by (induction "is" arbitrary: s) (auto simp: tick_sys_time_def)

lemma boost_loop_queue:
  assumes "distinct is" "\<forall>i\<in>set is. i < length (procs s)"
  shows "\<forall>i\<in>set is. pstate (proc_at s i) \<in> {RUNNABLE, RUNNING} \<longrightarrow> queue_num (proc_at (boost_loop is s) i) = 0"
  using assms
proof (induction "is" arbitrary: s)
  case (Cons j "is")
  let ?s = "if pstate (proc_at s j) = RUNNABLE \<or> pstate (proc_at s j) = RUNNING
       then let (t, s1) = tick_sys_time s
            in upd_proc j (\<lambda>p. p\<lparr>arrival_time_queue := t, ticks_in_queue := 0, queue_num := 0\<rparr>) s1
       else s"
  have l: "\<forall>i\<in>set is. i < length (procs ?s)" using Cons.prems by (simp add: tick_sys_time_def)
  have st: "pstate (proc_at ?s i) = pstate (proc_at s i)" if "i \<in> set is" for i
  proof -
    have "j \<noteq> i" using Cons.prems(1) that by auto
    then show ?thesis by (simp add: tick_sys_time_def)
  qed
  have "pstate (proc_at s j) \<in> {RUNNABLE, RUNNING} \<Longrightarrow> queue_num (proc_at (boost_loop is ?s) j) = 0"
    using Cons.prems boost_loop_other[of j "is" ?s] by (simp add: tick_sys_time_def)
  then show ?case using Cons.IH[OF _ l] Cons.prems st by simp
qed simp

section \<open>Properties\<close>

text \<open>C25. The alarm: with \<open>n\<close> ticks set and no handler running, the first \<open>n - 1\<close> timer interrupts only
  count; the \<open>n\<close>-th saves all 288 bytes of the trapframe in \<open>backup\<close> (a page apart from it), points the saved program
  counter at the handler and changes no other byte, and the handler is not interrupted by another alarm.\<close>

theorem alarm_fires_on_time:
  assumes "me < length (procs s)" and "alarm_state (proc_at s me) = 0" and "pticks (proc_at s me) = 0"
    and "total_ticks (proc_at s me) = int n" and "0 < n" and "int n < 2 ^ 31"
    and "apart (trapframe (proc_at s me)) (backup (proc_at s me)) 288"
  shows "(\<forall>k<n. (alarm_tick me ^^ k) s = upd_proc me (\<lambda>p. p\<lparr>pticks := int k\<rparr>) s) \<and>
    (let s' = (alarm_tick me ^^ n) s in
       (\<forall>x. within (backup (proc_at s me)) 288 x \<longrightarrow>
          mem s' x = mem s (trapframe (proc_at s me) + (x - backup (proc_at s me)))) \<and>
       (\<forall>x. \<not> within (backup (proc_at s me)) 288 x \<and> \<not> x - (trapframe (proc_at s me) + tf_epc) < 8 \<longrightarrow> mem s' x = mem s x) \<and>
       alarm_state (proc_at s' me) = 1 \<and> pticks (proc_at s' me) = 0 \<and>
       tf_get me tf_epc s' = handler (proc_at s me) \<and> alarm_tick me s' = s')"
proof -
  obtain k where k: "n = Suc k" using assms(5) by (cases n) auto
  let ?s = "upd_proc me (\<lambda>p. p\<lparr>pticks := int k\<rparr>) s"
  have last: "(alarm_tick me ^^ n) s = alarm_tick me ?s"
    using alarm_tick_waits[OF assms(1,2,4,3), of k] assms(6) k by simp
  have saved: "mem (alarm_tick me ?s) x = mem s (trapframe (proc_at s me) + (x - backup (proc_at s me)))"
    if "within (backup (proc_at s me)) 288 x" for x
    using alarm_tick_saves[of me ?s x] assms k that by simp
  have kept: "mem (alarm_tick me ?s) x = mem s x"
    if "\<not> within (backup (proc_at s me)) 288 x" "\<not> x - (trapframe (proc_at s me) + tf_epc) < 8" for x
    using alarm_tick_frame[of me ?s x] assms k that by simp
  have n: "(alarm_tick me ^^ n) s = tf_set me tf_epc (handler (proc_at ?s me))
    (upd_proc me (\<lambda>p. p\<lparr>alarm_state := 1, pticks := 0\<rparr>)
      (?s\<lparr>mem := memmove (mem ?s) (backup (proc_at ?s me)) (trapframe (proc_at ?s me)) 288\<rparr>))"
    unfolding last using assms k by (intro alarm_tick_fires) auto
  have rest: "let s' = (alarm_tick me ^^ n) s in alarm_state (proc_at s' me) = 1 \<and> pticks (proc_at s' me) = 0 \<and>
       tf_get me tf_epc s' = handler (proc_at s me) \<and> alarm_tick me s' = s'"
    using assms(1) by (simp add: n Let_def alarm_tick_def tf_get_def) (simp add: tf_set_def ld64_st64)
  show ?thesis
    using alarm_tick_waits[OF assms(1,2,4,3) _ assms(6)] saved kept rest unfolding last by (simp add: Let_def)
qed

text \<open>A frame at \<open>0x1000\<close> whose register \<open>ra\<close> starts with 7, saved by the second tick at \<open>0x2000\<close>.\<close>

theorem alarm_fires_on_time_witness:
  "let s = (sample_kstate [blank_proc\<lparr>total_ticks := 2, trapframe := 0x1000, backup := 0x2000, handler := 0x40\<rparr>])
        \<lparr>mem := (\<lambda>_. 0)(0x1028 := 7)\<rparr>; s' = (alarm_tick 0 ^^ 2) s
   in alarm_state (proc_at s' 0) = 1 \<and> mem s' 0x2028 = 7 \<and> tf_get 0 tf_epc s' = 0x40"
proof -
  let ?s = "(sample_kstate [blank_proc\<lparr>total_ticks := 2, trapframe := 0x1000, backup := 0x2000, handler := 0x40\<rparr>])
        \<lparr>mem := (\<lambda>_. 0)(0x1028 := 7)\<rparr>"
  have "within 0x2000 288 0x2028" by (simp add: within_def)
  then show ?thesis using alarm_fires_on_time[of 0 ?s 2] by (simp add: Let_def blank_proc_def apart_def)
qed

text \<open>C24. \<open>sigreturn\<close> undoes the alarm: whatever the handler did to its registers and to other
  memory, the trapframe is byte for byte the one the interrupt saved.\<close>

theorem sigreturn_restores:
  assumes "me < length (procs s)" and "alarm_state (proc_at s me) = 0"
    and "pticks (proc_at s me) + 1 = total_ticks (proc_at s me)" "0 < total_ticks (proc_at s me)"
    and "total_ticks (proc_at s me) < 2 ^ 31"
    and "apart (trapframe (proc_at s me)) (backup (proc_at s me)) 288"
    and "trapframe (proc_at h me) = trapframe (proc_at s me)" and "backup (proc_at h me) = backup (proc_at s me)"
    and "\<forall>x. within (backup (proc_at s me)) 288 x \<longrightarrow> mem h x = mem (alarm_tick me s) x"
  shows "\<exists>s'. sys_sigreturn me h = Ok (SUser s') \<and>
    (\<forall>x. within (trapframe (proc_at s me)) 288 x \<longrightarrow> mem s' x = mem s x)"
proof -
  let ?t = "trapframe (proc_at s me)" and ?b = "backup (proc_at s me)"
  have nw: "unat ?t + unat (288 :: u32) < 2 ^ 64" "unat ?b + unat (288 :: u32) < 2 ^ 64"
    using assms(6) by (auto simp: apart_def)
  have saved: "mem h x = mem s (?t + (x - ?b))" if x: "within ?b 288 x" for x
    using alarm_tick_saves[OF assms(1-6) x] assms(9) x by simp
  have "memmove (mem h) ?t ?b 288 x = mem s x" if x: "within ?t 288 x" for x
  proof -
    have "within ?b 288 (?b + (x - ?t))"
    proof -
      have d: "unat (x - ?t) = unat x - unat ?t" using x by (intro unat_sub) (simp add: within_def word_le_nat_alt)
      then have "unat (?b + (x - ?t)) = unat ?b + (unat x - unat ?t)"
        using x nw(2) by (subst unat_add_no_wrap) (auto simp: within_def)
      then show ?thesis using x unfolding within_def by linarith
    qed
    then have "mem h (?b + (x - ?t)) = mem s x" using saved by simp
    then show ?thesis using memmove_apply[OF nw, of "mem h" x] x by simp
  qed
  then show ?thesis using assms(7,8) by (simp add: sys_sigreturn_def Let_def)
qed

theorem sigreturn_restores_witness:
  "\<exists>s'. sys_sigreturn 0 (alarm_tick 0 (sample_kstate [blank_proc\<lparr>total_ticks := 1, trapframe := 0x1000, backup := 0x2000\<rparr>])) =
    Ok (SUser s') \<and> mem s' 0x1018 = 0"
proof -
  let ?s = "sample_kstate [blank_proc\<lparr>total_ticks := 1, trapframe := 0x1000, backup := 0x2000\<rparr>]"
  have "procs (alarm_tick 0 ?s) = [blank_proc\<lparr>total_ticks := 1, trapframe := 0x1000, backup := 0x2000, alarm_state := 1, pticks := 0\<rparr>]"
    by (simp add: alarm_tick_fires blank_proc_def)
  then have "\<exists>s'. sys_sigreturn 0 (alarm_tick 0 ?s) = Ok (SUser s') \<and>
      (\<forall>x. within 0x1000 288 x \<longrightarrow> mem s' x = mem ?s x)"
    using sigreturn_restores[of 0 ?s "alarm_tick 0 ?s"] by (simp add: apart_def blank_proc_def)
  then show ?thesis by (auto simp: within_def sample_kstate_def)
qed


text \<open>\<open>getSysCount\<close>: a mask with exactly bit \<open>i\<close> set, \<open>i < 31\<close>, reads counter \<open>i\<close>; any other
  positive mask, and 0, are rejected.\<close>

theorem getSysCount_spec:
  assumes "0 \<le> m" and "m < 2 ^ 31"
  shows "(\<exists>i<31. m = 2 ^ i \<and> getSysCount m cnt = cnt ! i) \<or> ((\<forall>i. m \<noteq> 2 ^ i) \<and> getSysCount m cnt = -1)"
proof (cases "m = 0")
  case True
  then show ?thesis by (simp add: getSysCount_def)
next
  case False
  then have pos: "0 < m" using assms(1) by simp
  have p: "i32 (m - 1) = m - 1" using pos assms by (intro i32_small) linarith+
  show ?thesis
  proof (cases "m AND (m - 1) = 0")
    case True
    then obtain i where i: "m = 2 ^ i" using and_pred_zero[OF pos] by blast
    have "i < 31" using assms(2) i by (metis power_strict_increasing_iff one_less_numeral_iff semiring_norm(76))
    then show ?thesis using i True p pos by (auto simp: getSysCount_def log2_loop_pow Let_def)
  next
    case False
    then have "\<forall>i. m \<noteq> 2 ^ i" using and_pred_pow by metis
    then show ?thesis using False p by (simp add: getSysCount_def)
  qed
qed

theorem getSysCount_spec_witness: "getSysCount 32 [0, 1, 2, 3, 4, 99] = 99 \<or> (\<forall>i. (32 :: int) \<noteq> 2 ^ i)"
proof -
  have "(\<exists>i<31. (32 :: int) = 2 ^ i \<and> getSysCount 32 [0, 1, 2, 3, 4, 99] = [0, 1, 2, 3, 4, 99] ! i) \<or> (\<forall>i. (32 :: int) \<noteq> 2 ^ i)"
    using getSysCount_spec[of 32 "[0, 1, 2, 3, 4, 99]"] by auto
  then show ?thesis
  proof
    assume "\<exists>i<31. (32 :: int) = 2 ^ i \<and> getSysCount 32 [0, 1, 2, 3, 4, 99] = [0, 1, 2, 3, 4, 99] ! i"
    then obtain i where i: "(2 :: int) ^ i = 2 ^ 5" "getSysCount 32 [0, 1, 2, 3, 4, 99] = [0, 1, 2, 3, 4, 99] ! i" by auto
    then have "i = 5" by (metis power_inject_exp one_less_numeral_iff semiring_norm(76))
    then show ?thesis using i(2) by simp
  qed blast
qed

text \<open>C29. MLFQ accounting keeps every process in queues 0 to 3 and below the time slice of its
  queue (1, 4, 8, 16 ticks), whatever the interrupt, except exactly the device interrupt that arrives when the boost is
  due: that one never returns a state, since the code then writes past the process table.\<close>

theorem mlfq_account_slots:
  assumes "\<forall>p\<in>set (procs s). mlfq_slot p" and "me < length (procs s)"
  shows "if dev = 1 \<and> kticks s mod 48 = 0 then mlfq_account me dev s = Stuck
    else \<exists>s'. mlfq_account me dev s = Ok s' \<and> (\<forall>p\<in>set (procs s'). mlfq_slot p) \<and> length (procs s') = length (procs s) \<and>
      (dev = 2 \<and> kticks s mod 48 \<noteq> 0 \<longrightarrow>
         (let p = proc_at s me; p' = proc_at s' me in
          if ticks_in_queue p + 1 = time_slice (queue_num p)
          then queue_num p' = min 3 (queue_num p + 1) \<and> ticks_in_queue p' = 0 \<and> pstate p' = RUNNABLE
          else queue_num p' = queue_num p \<and> ticks_in_queue p' = ticks_in_queue p + 1 \<and> pstate p' = pstate p)) \<and>
      (kticks s mod 48 = 0 \<longrightarrow> (\<forall>i<length (procs s). pstate (proc_at s i) \<in> {RUNNABLE, RUNNING} \<longrightarrow> queue_num (proc_at s' i) = 0))"
proof -
  have B: "\<forall>p\<in>set (procs (boost_loop [0..<length (procs s)] s)). mlfq_slot p"
    "length (procs (boost_loop [0..<length (procs s)] s)) = length (procs s)"
    "\<forall>i<length (procs s). pstate (proc_at s i) \<in> {RUNNABLE, RUNNING} \<longrightarrow> queue_num (proc_at (boost_loop [0..<length (procs s)] s) i) = 0"
    using boost_loop_slots[OF assms(1), of "[0..<length (procs s)]"] boost_loop_queue[of "[0..<length (procs s)]" s] by auto
  obtain p where A: "procs (mlfq_age me s) = (procs s)[me := p]" "mlfq_slot (proc_at (mlfq_age me s) me)"
    using mlfq_age_slot[of s me] assms by auto
  then have A': "\<forall>p\<in>set (procs (mlfq_age me s)). mlfq_slot p" "length (procs (mlfq_age me s)) = length (procs s)"
    using assms by (auto intro: all_set_update[rule_format])
  have D: "\<forall>q\<in>set ((procs s)[me := proc_at s me\<lparr>arrival_time_queue := t, ticks_in_queue := 0\<rparr>]). mlfq_slot q" for t
    using assms nth_mem[OF assms(2)]
    by (intro all_set_update) (auto simp: mlfq_slot_def time_slice_def)
  show ?thesis
  proof (cases "kticks s mod 48 = 0")
    case True
    then show ?thesis using B by (auto simp: mlfq_account_def mlfq_boost_def)
  next
    case False
    consider "dev = 2" | "dev = 1" | "dev \<noteq> 1" "dev \<noteq> 2" by blast
    then show ?thesis
    proof cases
      case 1
      then show ?thesis using False A' mlfq_age_exact[of s me] assms by (simp add: mlfq_account_def mlfq_boost_def)
    qed (use False D assms(1) in \<open>auto simp: mlfq_account_def mlfq_boost_def tick_sys_time_def Let_def\<close>)
  qed
qed

text \<open>A running process of queue 1 at the end of its slice drops to queue 2; at a boost a runnable one of queue 2 returns
  to queue 0; and the device interrupt at a boost is stuck.\<close>

theorem mlfq_account_slots_witness:
  "let p = blank_proc\<lparr>pstate := RUNNING, queue_num := 1, ticks_in_queue := 3\<rparr>; q = blank_proc\<lparr>pstate := RUNNABLE, queue_num := 2\<rparr>;
       s = (sample_kstate [p, q])\<lparr>kticks := 47\<rparr>; b = (sample_kstate [p, q])\<lparr>kticks := 48\<rparr>
   in (\<exists>s'. mlfq_account 0 2 s = Ok s' \<and> queue_num (proc_at s' 0) = 2 \<and> pstate (proc_at s' 0) = RUNNABLE) \<and>
      (\<exists>s'. mlfq_account 0 2 b = Ok s' \<and> queue_num (proc_at s' 1) = 0) \<and> mlfq_account 0 1 b = Stuck"
proof -
  let ?p = "blank_proc\<lparr>pstate := RUNNING, queue_num := 1, ticks_in_queue := 3\<rparr>"
  let ?q = "blank_proc\<lparr>pstate := RUNNABLE, queue_num := 2\<rparr>"
  let ?s = "(sample_kstate [?p, ?q])\<lparr>kticks := 47\<rparr>" and ?b = "(sample_kstate [?p, ?q])\<lparr>kticks := 48\<rparr>"
  have i: "\<forall>p\<in>set (procs ?s). mlfq_slot p" "\<forall>p\<in>set (procs ?b). mlfq_slot p"
    by (simp_all add: sample_kstate_def mlfq_slot_def time_slice_def blank_proc_def)
  have l: "0 < length (procs ?s)" "0 < length (procs ?b)" "1 < length (procs ?b)" by (simp_all add: sample_kstate_def)
  have 1: "\<exists>s'. mlfq_account 0 2 ?s = Ok s' \<and> queue_num (proc_at s' 0) = 2 \<and> pstate (proc_at s' 0) = RUNNABLE"
    using mlfq_account_slots[OF i(1) l(1), of 2] by (auto simp: Let_def sample_kstate_def time_slice_def)
  have 2: "\<exists>s'. mlfq_account 0 2 ?b = Ok s' \<and> queue_num (proc_at s' 1) = 0"
    using mlfq_account_slots[OF i(2) l(2), of 2] by (auto simp: Let_def sample_kstate_def)
  have 3: "mlfq_account 0 1 ?b = Stuck" using mlfq_account_slots[OF i(2) l(2), of 1] by (simp add: sample_kstate_def)
  show ?thesis using 1 2 3 by (simp add: Let_def)
qed



end
