(* ===== verification/Exec.thy ===== *)
theory Exec
  imports Sysfile Trap
begin

text \<open>
  \<open>kernel/exec.c\<close> and \<open>sys_exec\<close>: loading an ELF file, building the argument stack, switching the
  process to the new image.  The arguments are the strings themselves; \<open>sys_exec\<close> also keeps the
  kernel pages it copied them to.
\<close>

abbreviation MAXARG :: nat where "MAXARG \<equiv> 32"

section \<open>ELF\<close>

definition ELF_MAGIC :: u32 where "ELF_MAGIC = 0x464C457F"

definition get64 :: "u8 list \<Rightarrow> nat \<Rightarrow> u64" where
  "get64 d k = le64 (get32 d k) (get32 d (k + 4))"

record elfhdr =
  elf_magic :: u32
  elf_entry :: u64
  elf_phoff :: u64
  elf_phnum :: u16

definition elfhdr_of :: "u8 list \<Rightarrow> elfhdr" where
  "elfhdr_of d = \<lparr>elf_magic = get32 d 0, elf_entry = get64 d 24, elf_phoff = get64 d 32, elf_phnum = get16 d 56\<rparr>"

record proghdr =
  ph_type :: u32
  ph_flags :: u32
  ph_off :: u64
  ph_vaddr :: u64
  ph_filesz :: u64
  ph_memsz :: u64

definition proghdr_of :: "u8 list \<Rightarrow> proghdr" where
  "proghdr_of d = \<lparr>ph_type = get32 d 0, ph_flags = get32 d 4, ph_off = get64 d 8, ph_vaddr = get64 d 16,
     ph_filesz = get64 d 32, ph_memsz = get64 d 40\<rparr>"

definition flags2perm :: "u32 \<Rightarrow> u64" where
  "flags2perm flags = (let perm = (if flags AND 1 \<noteq> 0 then PTE_X else 0) in if flags AND 2 \<noteq> 0 then perm OR PTE_W else perm)"

section \<open>Segments\<close>

text \<open>\<open>loadseg\<close> from byte \<open>i\<close> with \<open>left\<close> bytes to load.\<close>

function loadseg_loop :: "nat \<Rightarrow> u64 \<Rightarrow> u64 \<Rightarrow> nat \<Rightarrow> u32 \<Rightarrow> nat \<Rightarrow> nat \<Rightarrow> 'a fstate_scheme \<Rightarrow> (int \<times> 'a fstate_scheme) res" where
  "loadseg_loop me pt va ip off i left s =
     (if left = 0 then Ok (0, s)
      else let pa = walkaddr pt (va + word_of_nat i) s; n = min left 4096 in
        if pa = 0 then Panic ''loadseg: address should exist''
        else rbind (readi me ip (KernMem pa) (off + word_of_nat i) (word_of_nat n) s) (\<lambda>(r, _, s1).
               if r \<noteq> int n then Ok (-1, s1) else loadseg_loop me pt va ip off (i + n) (left - n) s1))"
  by pat_completeness auto
termination
  by (relation "measure (\<lambda>(me, pt, va, ip, off, i, left, s). left)") (auto simp: min_def)

declare loadseg_loop.simps [simp del]

definition loadseg :: "nat \<Rightarrow> u64 \<Rightarrow> u64 \<Rightarrow> nat \<Rightarrow> u32 \<Rightarrow> u32 \<Rightarrow> 'a fstate_scheme \<Rightarrow> (int \<times> 'a fstate_scheme) res" where
  "loadseg me pt va ip off n s = loadseg_loop me pt va ip off 0 (unat n) s"

definition read_local :: "nat \<Rightarrow> nat \<Rightarrow> u32 \<Rightarrow> u32 \<Rightarrow> 'a fstate_scheme \<Rightarrow> (u8 list option \<times> 'a fstate_scheme) res" where
  "read_local me ip off n s =
     rbind (readi me ip (Local []) off n s) (\<lambda>(r, dst, s1).
       Ok (if r = int (unat n) then (case dst of Local d \<Rightarrow> Some d | _ \<Rightarrow> None) else None, s1))"

text \<open>
  The loop over \<open>k\<close> program headers from offset \<open>off\<close>: whether it ended well and the size reached.
  \<open>ph.off\<close> and \<open>ph.filesz\<close> are cut to 32 bits by the call of \<open>loadseg\<close>.
\<close>

fun load_segments :: "nat \<Rightarrow> nat \<Rightarrow> u32 \<Rightarrow> nat \<Rightarrow> u64 \<Rightarrow> u64 \<Rightarrow> 'a fstate_scheme \<Rightarrow> (bool \<times> u64 \<times> 'a fstate_scheme) res" where
  "load_segments me 0 off ip pt asz s = Ok (True, asz, s)"
| "load_segments me (Suc k) off ip pt asz s =
     rbind (read_local me ip off 56 s) (\<lambda>(d, s1). case d of
       None \<Rightarrow> Ok (False, asz, s1)
     | Some bs \<Rightarrow>
         let ph = proghdr_of bs in
         if ph_type ph \<noteq> 1 then load_segments me k (off + 56) ip pt asz s1
         else if ph_memsz ph < ph_filesz ph \<or> ph_vaddr ph + ph_memsz ph < ph_vaddr ph \<or> ph_vaddr ph mod PGSIZE \<noteq> 0
         then Ok (False, asz, s1)
         else rbind (uvmalloc pt asz (ph_vaddr ph + ph_memsz ph) (flags2perm (ph_flags ph)) s1) (\<lambda>(sz1, s2).
           if sz1 = 0 then Ok (False, asz, s2)
           else rbind (loadseg me pt (ph_vaddr ph) ip (ucast (ph_off ph)) (ucast (ph_filesz ph)) s2) (\<lambda>(r, s3).
             if r < 0 then Ok (False, sz1, s3) else load_segments me k (off + 56) ip pt sz1 s3)))"

section \<open>Arguments\<close>

definition align16 :: "u64 \<Rightarrow> u64" where
  "align16 a = a - a mod 16"

text \<open>Pushing the strings: the stack pointers stored so far are \<open>us\<close>.\<close>

fun push_args :: "u8 list list \<Rightarrow> u64 list \<Rightarrow> u64 \<Rightarrow> u64 \<Rightarrow> u64 \<Rightarrow> 'a kmem_scheme \<Rightarrow> (u64 list \<times> u64) option \<times> 'a kmem_scheme" where
  "push_args [] us pt sp base s = (Some (us, sp), s)"
| "push_args (a # as) us pt sp base s =
     (if length us \<ge> MAXARG then (None, s)
      else let sp1 = align16 (sp - word_of_nat (length a + 1)) in
        if sp1 < base then (None, s)
        else let (r, s1) = copyout pt sp1 (a @ [0]) s in
          if r < 0 then (None, s1) else push_args as (us @ [sp1]) pt sp1 base s1)"

definition bytes64 :: "u64 \<Rightarrow> u8 list" where
  "bytes64 w = bytes32 (ucast w) @ bytes32 (ucast (drop_bit 32 w))"

text \<open>The strings and then the array of pointers with its final null: argc and the stack pointer.\<close>

definition build_stack :: "u8 list list \<Rightarrow> u64 \<Rightarrow> u64 \<Rightarrow> u64 \<Rightarrow> 'a kmem_scheme \<Rightarrow> (nat \<times> u64) option \<times> 'a kmem_scheme" where
  "build_stack argv pt sp base s =
     (case push_args argv [] pt sp base s of
        (None, s1) \<Rightarrow> (None, s1)
      | (Some (us, sp1), s1) \<Rightarrow>
          let sp2 = align16 (sp1 - word_of_nat ((length us + 1) * 8)) in
          if sp2 < base then (None, s1)
          else let (r, s2) = copyout pt sp2 (concat (map bytes64 (us @ [0]))) s1 in
            if r < 0 then (None, s2) else (Some (length us, sp2), s2))"

section \<open>exec\<close>

text \<open>The part of the path after its last slash.\<close>

definition base_name :: "u8 list \<Rightarrow> u8 list" where
  "base_name path = rev (takeWhile (\<lambda>b. b \<noteq> 47) (rev path))"

definition exec_commit :: "nat \<Rightarrow> u8 list \<Rightarrow> u64 \<Rightarrow> u64 \<Rightarrow> u64 \<Rightarrow> u64 \<Rightarrow> 'a kstate_scheme \<Rightarrow> 'a kstate_scheme res" where
  "exec_commit me path pt asz epc0 sp s =
     (let s1 = tf_set me tf_a1 sp s; old = proc_at s1 me;
          s2 = upd_proc me (\<lambda>p. p\<lparr>pname := copy_name (pname p) (base_name path @ [0]), pagetable := pt, sz := asz\<rparr>) s1;
          s3 = tf_set me tf_sp sp (tf_set me tf_epc epc0 s2)
      in proc_freepagetable (pagetable old) (sz old) s3)"

text \<open>The common tail \<open>bad\<close>; the inode is \<open>None\<close> once it has been put.\<close>

definition exec_bad :: "nat \<Rightarrow> u64 \<Rightarrow> u64 \<Rightarrow> nat option \<Rightarrow> 'a fstate_scheme \<Rightarrow> (int \<times> 'a fstate_scheme) res" where
  "exec_bad me pt asz ipo s =
     rbind (if pt \<noteq> 0 then proc_freepagetable pt asz s else Ok s) (\<lambda>s1.
       case ipo of None \<Rightarrow> Ok (-1, s1)
       | Some ip \<Rightarrow> rbind (iunlockput me ip s1) (\<lambda>s2. rbind (end_op me s2) (\<lambda>s3. Ok (-1, s3))))"

text \<open>From the loaded image on: stack, arguments, switch.\<close>

definition exec_start :: "nat \<Rightarrow> u8 list \<Rightarrow> u8 list list \<Rightarrow> u64 \<Rightarrow> u64 \<Rightarrow> u64 \<Rightarrow> 'a fstate_scheme \<Rightarrow> (int \<times> 'a fstate_scheme) res" where
  "exec_start me path argv pt asz epc0 s =
     (let a = PGROUNDUP asz in
      rbind (uvmalloc pt a (a + 2 * PGSIZE) PTE_W s) (\<lambda>(sz1, s1).
        if sz1 = 0 then exec_bad me pt a None s1
        else rbind (uvmclear pt (sz1 - 2 * PGSIZE) s1) (\<lambda>s2.
          case build_stack argv pt sz1 (sz1 - PGSIZE) s2 of
            (None, s3) \<Rightarrow> exec_bad me pt sz1 None s3
          | (Some (argc, sp), s3) \<Rightarrow> rbind (exec_commit me path pt sz1 epc0 sp s3) (\<lambda>s4. Ok (int argc, s4)))))"

definition exec :: "nat \<Rightarrow> u8 list \<Rightarrow> u8 list list \<Rightarrow> 'a fstate_scheme \<Rightarrow> (int \<times> 'a fstate_scheme) res" where
  "exec me path argv s =
     rbind (awake (begin_op me s)) (\<lambda>s1. rbind (namei me path s1) (\<lambda>(ipo, s2). case ipo of
       None \<Rightarrow> rbind (end_op me s2) (\<lambda>s3. Ok (-1, s3))
     | Some ip \<Rightarrow> rbind (ilock me (Some ip) s2) (\<lambda>s3. rbind (read_local me ip 0 64 s3) (\<lambda>(d, s4). case d of
         None \<Rightarrow> exec_bad me 0 0 (Some ip) s4
       | Some bs \<Rightarrow>
           let elf = elfhdr_of bs in
           if elf_magic elf \<noteq> ELF_MAGIC then exec_bad me 0 0 (Some ip) s4
           else rbind (proc_pagetable (proc_at s4 me) s4) (\<lambda>(pt, s5).
             if pt = 0 then exec_bad me 0 0 (Some ip) s5
             else rbind (load_segments me (unat (elf_phnum elf)) (ucast (elf_phoff elf)) ip pt 0 s5) (\<lambda>(ok, asz, s6).
               if \<not> ok then exec_bad me pt asz (Some ip) s6
               else rbind (iunlockput me ip s6) (\<lambda>s7. rbind (end_op me s7) (\<lambda>s8.
                    exec_start me path argv pt asz (elf_entry elf) s8))))))))"

section \<open>sys_exec\<close>

text \<open>
  Fetching the argument vector, \<open>k\<close> entries of it left: whether it ended at a null pointer, the
  pages allocated so far and the strings.
\<close>

fun fetch_args :: "nat \<Rightarrow> nat \<Rightarrow> u64 \<Rightarrow> u64 list \<Rightarrow> u8 list list \<Rightarrow> 'a kstate_scheme \<Rightarrow> bool \<times> u64 list \<times> u8 list list \<times> 'a kstate_scheme" where
  "fetch_args me 0 uargv pages strs s = (False, pages, strs, s)"
| "fetch_args me (Suc k) uargv pages strs s =
     (case fetchaddr me (uargv + word_of_nat (8 * length pages)) s of
        (r, None) \<Rightarrow> (False, pages, strs, s)
      | (r, Some uarg) \<Rightarrow>
          if r < 0 then (False, pages, strs, s)
          else if uarg = 0 then (True, pages, strs, s)
          else let (pg, s1) = kalloc s in
            if pg = 0 then (False, pages, strs, s1)
            else let (n, bs) = fetchstr me uarg 4096 s1; s2 = s1\<lparr>mem := store_bytes (mem s1) pg (bs @ [0])\<rparr> in
              if n < 0 then (False, pages @ [pg], strs, s1)
              else fetch_args me k uargv (pages @ [pg]) (strs @ [bs]) s2)"

fun free_pages_of :: "u64 list \<Rightarrow> 'a kmem_scheme \<Rightarrow> 'a kmem_scheme res" where
  "free_pages_of [] s = Ok s"
| "free_pages_of (p # ps) s = rbind (kfree p s) (\<lambda>s1. free_pages_of ps s1)"

definition sys_exec :: "'a ostate_scheme handler" where
  "sys_exec me s =
     rbind (argaddr me 1 s) (\<lambda>uargv. rbind (argstr me 0 MAXPATH s) (\<lambda>(r, path).
     if r < 0 then fail s
     else let (ok, pages, strs, s1) = fetch_args me MAXARG uargv [] [] s in
       if ok then rbind (exec me path strs s1) (\<lambda>(ret, s2). rbind (free_pages_of pages s2) (\<lambda>s3. Ok (SRet (int_reg ret) s3)))
       else rbind (free_pages_of pages s1) (\<lambda>s2. fail s2)))"

section \<open>The system call table\<close>

text \<open>The handlers by number, with what they read from the devices and from uninitialised memory.\<close>

definition sys_table :: "u32 \<times> u32 \<Rightarrow> u8 list \<Rightarrow> (nat \<Rightarrow> nat) \<Rightarrow> nat \<Rightarrow> 'a ostate_scheme handler" where
  "sys_table junk pad idle n =
     (let ex = (\<lambda>me. exit_proc (fileclose me) (\<lambda>s. awake (begin_op me s)) (put_ip me) (end_op me) me);
          fk = fork filedup idup
      in if n = 1 then sys_fork fk else if n = 2 then sys_exit ex else if n = 3 then sys_wait
         else if n = 4 then sys_pipe else if n = 5 then sys_read else if n = 6 then sys_kill
         else if n = 7 then sys_exec else if n = 8 then sys_fstat pad else if n = 9 then sys_chdir
         else if n = 10 then sys_dup else if n = 11 then sys_getpid else if n = 12 then sys_sbrk
         else if n = 13 then sys_sleep else if n = 14 then sys_uptime else if n = 15 then sys_open
         else if n = 16 then sys_write idle else if n = 17 then sys_mknod else if n = 18 then sys_unlink
         else if n = 19 then sys_link else if n = 20 then sys_mkdir else if n = 21 then sys_close
         else if n = 22 then sys_waitx junk else if n = 23 then sys_getSysCount else if n = 24 then sys_sigalarm
         else if n = 25 then sys_sigreturn else sys_settickets)"

section \<open>The first run of a process\<close>

text \<open>\<open>forkret\<close> of \<open>proc.c\<close>; \<open>first\<close> is its static variable: the first process of all starts the file system.\<close>

definition forkret ::
  "trap_syms \<Rightarrow> nat \<Rightarrow> nat \<Rightarrow> csrs \<Rightarrow> bool \<Rightarrow> 'a fstate_scheme \<Rightarrow> (bool \<times> u64 \<times> csrs \<times> 'a fstate_scheme) res" where
  "forkret syms hart me c first s =
     rbind (if first then fsinit me ROOTDEV s else Ok s) (\<lambda>s1. Ok (False, usertrapret syms hart me c s1))"

end
