(* ===== verification/Kernel.thy ===== *)
theory Kernel
  imports Exec
begin

text \<open>
  The process table over the whole kernel.  \<open>Proc\<close> has \<open>fork\<close> and \<open>exit\<close> with the operations of the file layer as
  arguments, as the code has it compiled against \<open>file.c\<close>, \<open>fs.c\<close> and \<open>log.c\<close>; here they are put together: each of those
  operations is shown to leave the process table alone (locale \<open>file_layer\<close> and its interpretation), and a run of the
  kernel with them keeps the table in order.
\<close>

named_theorems tview \<open>operations that leave the process table alone\<close>

section \<open>The file layer leaves the process table alone\<close>

lemma upd_table [simp]:
  "table_view (upd_buf i f b) = table_view b" "table_view (disk_rw i w b) = table_view b" "table_view (set_data i d b) = table_view b"
  "table_view (bpin i b) = table_view b" "table_view (bunpin i b) = table_view b"
  "table_view (upd_inode i g x) = table_view x" "table_view (set_addr i k a x) = table_view x"
  "table_view (b\<lparr>lru := l\<rparr>) = table_view b"
  "table_view (upd_file i h o1) = table_view o1" "table_view (upd_pipe pi q o1) = table_view o1"
  by (simp_all add: table_view_def keys_def upd_buf_def disk_rw_def set_data_def bpin_def bunpin_def upd_inode_def set_addr_def
      upd_file_def upd_pipe_def Let_def)

lemma releasesleep_table [tview]: "releasesleep me ch lk s = (lk', s') \<Longrightarrow> table_view s' = table_view s"
  by (auto simp: releasesleep_def)

lemma lock_buf_table [tview]: "lock_buf me i s = Ok (j, s') \<Longrightarrow> table_view s' = table_view s"
  by (auto simp: lock_buf_def split: option.splits)

lemma bget_table [tview]: "bget me dev b s = Ok (i, s') \<Longrightarrow> table_view s' = table_view s"
  by (auto simp: bget_def split: option.splits dest!: tview)

lemma bread_table [tview]: "bread me dev b s = Ok (i, s') \<Longrightarrow> table_view s' = table_view s"
  by (auto simp: bread_def split: if_splits dest!: tview)

lemma bwrite_table [tview]: "bwrite me i s = Ok s' \<Longrightarrow> table_view s' = table_view s"
  by (auto simp: bwrite_def split: if_splits)

lemma brelse_table [tview]: "brelse me i s = Ok s' \<Longrightarrow> table_view s' = table_view s"
  by (auto simp: brelse_def Let_def split: if_splits prod.splits dest!: tview)

lemma install_loop_table [tview]: "install_loop ts me r s = Ok s' \<Longrightarrow> table_view s' = table_view s"
proof (induction ts arbitrary: s)
  case (Cons t ts)
  then show ?case by (auto simp: Let_def split: if_splits dest!: tview Cons.IH)
qed simp

lemma write_log_loop_table [tview]: "write_log_loop ts me s = Ok s' \<Longrightarrow> table_view s' = table_view s"
proof (induction ts arbitrary: s)
  case (Cons t ts)
  then show ?case by (auto simp: Let_def dest!: tview Cons.IH)
qed simp

lemma write_head_table [tview]: "write_head me s = Ok s' \<Longrightarrow> table_view s' = table_view s"
  by (auto simp: write_head_def dest!: tview)

lemma log_table [simp]: "table_view (s\<lparr>lh_n := n\<rparr>) = table_view s" "table_view (s\<lparr>outstanding := n\<rparr>) = table_view s"
  "table_view (s\<lparr>committing := c\<rparr>) = table_view s" "table_view (s\<lparr>lh_block := b\<rparr>) = table_view s"
  by (simp_all add: table_view_def keys_def)

lemma commit_table [tview]: "commit me s = Ok s' \<Longrightarrow> table_view s' = table_view s"
  by (auto simp: commit_def write_log_def install_trans_def split: if_splits dest!: tview)

lemma begin_op_table [tview]: "awake (begin_op me s) = Ok s' \<Longrightarrow> table_view s' = table_view s"
  by (auto simp: begin_op_def split: if_splits)

lemma end_op_table [tview]: "end_op me s = Ok s' \<Longrightarrow> table_view s' = table_view s"
  by (auto simp: end_op_def Let_def split: if_splits dest!: tview)

lemma log_write_table [tview]: "log_write b s = Ok s' \<Longrightarrow> table_view s' = table_view s"
  by (auto simp: log_write_def split: if_splits option.splits)

lemma bfree_table [tview]: "bfree me dev b s = Ok s' \<Longrightarrow> table_view s' = table_view s"
  by (auto simp: bfree_def Let_def split: if_splits dest!: tview)

lemma iupdate_table [tview]: "iupdate me i s = Ok s' \<Longrightarrow> table_view s' = table_view s"
  by (auto simp: iupdate_def Let_def dest!: tview)

lemma lock_inode_table [tview]: "lock_inode me i s = Ok s' \<Longrightarrow> table_view s' = table_view s"
  by (auto simp: lock_inode_def split: option.splits)

lemma unlock_inode_table [simp]: "table_view (unlock_inode me i s) = table_view s"
  by (auto simp: unlock_inode_def split: prod.splits dest!: tview)

lemma trunc_direct_table [tview]: "trunc_direct ks me i s = Ok s' \<Longrightarrow> table_view s' = table_view s"
proof (induction ks arbitrary: s)
  case (Cons k ks)
  then show ?case by (auto split: if_splits dest!: tview Cons.IH)
qed simp

lemma trunc_indirect_table [tview]: "trunc_indirect js me i bp s = Ok s' \<Longrightarrow> table_view s' = table_view s"
proof (induction js arbitrary: s)
  case (Cons j js)
  then show ?case by (auto split: if_splits dest!: tview Cons.IH)
qed simp

lemma itrunc_table [tview]: "itrunc me i s = Ok s' \<Longrightarrow> table_view s' = table_view s"
  by (auto simp: itrunc_def Let_def simp del: upt_rec_numeral split: if_splits dest!: tview)

lemma iput_table [tview]: "iput me i s = Ok s' \<Longrightarrow> table_view s' = table_view s"
  by (auto simp: iput_def split: if_splits dest!: tview)

lemma put_ip_table [tview]: "put_ip me i s = Ok s' \<Longrightarrow> table_view s' = table_view s"
  by (auto simp: put_ip_def split: option.splits dest!: tview)

lemma pipeclose_table [tview]: "pipeclose me pi w s = Ok s' \<Longrightarrow> table_view s' = table_view s"
  by (auto simp: pipeclose_def Let_def split: if_splits dest!: kfree_rest[THEN rest_view])

lemma fileclose_table [tview]: "fileclose me f s = Ok s' \<Longrightarrow> table_view s' = table_view s"
  by (auto simp: fileclose_def Let_def split: if_splits dest!: tview)

lemma filedup_table [tview]: "filedup f s = Ok s' \<Longrightarrow> table_view s' = table_view s"
  by (auto simp: filedup_def split: if_splits)

lemma idup_table [tview]: "idup i s = Ok s' \<Longrightarrow> table_view s' = table_view s"
  by (auto simp: idup_def)


section \<open>The interface of the file layer\<close>

text \<open>What \<open>fork\<close> and \<open>exit\<close> rely on when they call the file layer: none of its operations changes which slots are
  free or zombies, a pid or a parent.\<close>

locale file_layer =
  fixes fdup :: "nat \<Rightarrow> 'a kstate_scheme \<Rightarrow> 'a kstate_scheme res" and dup_inode :: "nat \<Rightarrow> 'a kstate_scheme \<Rightarrow> 'a kstate_scheme res"
    and fclose :: "nat \<Rightarrow> 'a kstate_scheme \<Rightarrow> 'a kstate_scheme res" and bop :: "'a kstate_scheme \<Rightarrow> 'a kstate_scheme res"
    and put_inode :: "nat option \<Rightarrow> 'a kstate_scheme \<Rightarrow> 'a kstate_scheme res" and eop :: "'a kstate_scheme \<Rightarrow> 'a kstate_scheme res"
  assumes fdup_keeps: "fdup f s = Ok s' \<Longrightarrow> table_view s' = table_view s"
    and dup_inode_keeps: "dup_inode i s = Ok s' \<Longrightarrow> table_view s' = table_view s"
    and fclose_keeps: "fclose f s = Ok s' \<Longrightarrow> table_view s' = table_view s"
    and bop_keeps: "bop s = Ok s' \<Longrightarrow> table_view s' = table_view s"
    and put_inode_keeps: "put_inode p s = Ok s' \<Longrightarrow> table_view s' = table_view s"
    and eop_keeps: "eop s = Ok s' \<Longrightarrow> table_view s' = table_view s"
begin

lemma fork_keeps:
  assumes "table_inv s" "nextpid s < 2 ^ 31 - 1" "live (slot_key (proc_at s me))" "me < length (procs s)"
    and "fork fdup dup_inode me s = Ok (r, s')"
  shows "table_inv s' \<and> nextpid s' \<le> nextpid s + 1"
proof -
  have "keeps_table fdup" "keeps_table dup_inode" using fdup_keeps dup_inode_keeps by (simp_all add: keeps_table_def)
  moreover have "live (keys s ! me)" using assms(3,4) by (simp add: keys_def)
  ultimately show ?thesis using fork_inv[OF assms(1,2) _ assms(4)] assms(5) by blast
qed

lemma exit_keeps:
  assumes "table_inv s" "live (slot_key (proc_at s me))" "me < length (procs s)" "initproc s = Some j"
    and "exit_proc fclose bop put_inode eop me st s = Ok s'"
  shows "table_inv s' \<and> nextpid s' = nextpid s \<and> pstate (proc_at s' me) = ZOMBIE"
proof -
  have "keeps_table fclose" "keeps_table put_inode" "keeps_table (\<lambda>_ :: unit. bop)" "keeps_table (\<lambda>_ :: unit. eop)"
    using fclose_keeps put_inode_keeps bop_keeps eop_keeps by (simp_all add: keeps_table_def)
  moreover have "live (keys s ! me)" using assms(2,3) by (simp add: keys_def)
  ultimately show ?thesis using exit_inv[OF assms(1) _ assms(3,4)] assms(5) by blast
qed

end

interpretation fl: file_layer filedup idup "fileclose me" "\<lambda>s. awake (begin_op me s)" "put_ip me" "end_op me" for me
  by unfold_locales (rule tview; assumption)+

section \<open>Other steps\<close>

text \<open>Sleeping, yielding, being dispatched, growing, being marked killed, the clock and the alarm write slots, but
  none of the fields of the table's order.\<close>

lemma sleep_table: "live (slot_key (proc_at s i)) \<Longrightarrow> table_view (sleep_enter i ch s) = table_view s"
  by (rule sleep_enter_inv) (simp_all add: live_def)

lemma yield_table: "live (slot_key (proc_at s i)) \<Longrightarrow> table_view (yield_state i s) = table_view s"
  by (simp add: yield_state_def view_upd_same slot_key_def live_def)

lemma dispatch_table: "dispatch i s c = (b, s', c') \<Longrightarrow> table_view s' = table_view s"
  by (auto simp: dispatch_def runnable_def slot_key_def intro!: view_upd_same split: if_splits)

lemma growproc_table: "growproc me n s = Ok (r, s') \<Longrightarrow> table_view s' = table_view s"
  by (auto simp: growproc_def Let_def view_upd_same slot_key_def split: if_splits
      dest!: uvmalloc_rest[THEN rest_view] uvmdealloc_rest[THEN rest_view])

lemma setkilled_table: "table_view (setkilled i s) = table_view s"
  by (simp add: setkilled_def view_upd_same slot_key_def)

lemma update_time_table: "table_view (update_time s) = table_view s"
  by (simp add: update_time_def table_view_def keys_def slot_key_def o_def if_distrib)

lemma clockintr_table: "table_view (clockintr me s) = table_view s"
  using update_time_table[of "s\<lparr>kticks := kticks s + 1\<rparr>"] by (simp add: clockintr_def) (simp add: table_view_def keys_def)

lemma alarm_tick_table: "table_view (alarm_tick me s) = table_view s"
proof -
  have t: "table_view (tf_set me off v t) = table_view t" for off v and t :: "'a kstate_scheme"
    by (simp add: tf_set_def table_view_def keys_def)
  have m: "table_view (t\<lparr>mem := x\<rparr>) = table_view t" for x and t :: "'a kstate_scheme" by (simp add: table_view_def keys_def)
  show ?thesis by (auto simp: alarm_tick_def Let_def t m view_upd_same slot_key_def)
qed
section \<open>Runs of the kernel\<close>

text \<open>
  The steps of the kernel that matter to the process table, by a process \<open>me\<close> that is neither free nor a zombie; the first
  argument counts the pids a step may take.  \<open>fork\<close> and \<open>exit\<close> are those of the system call table, over the file layer.
  \<open>other\<close> is a step of user code, of a device or of another part of the kernel, none of which writes these fields.
\<close>

inductive kstep :: "nat \<Rightarrow> 'a ostate_scheme \<Rightarrow> 'a ostate_scheme \<Rightarrow> bool" where
  k_userinit: "initproc s = None \<Longrightarrow> userinit code root s = Ok s' \<Longrightarrow> kstep 1 s s'"
| k_fork: "me < length (procs s) \<Longrightarrow> live (slot_key (proc_at s me)) \<Longrightarrow> fork filedup idup me s = Ok (r, s') \<Longrightarrow> kstep 1 s s'"
| k_exit: "me < length (procs s) \<Longrightarrow> live (slot_key (proc_at s me)) \<Longrightarrow> initproc s = Some j \<Longrightarrow>
    exit_proc (fileclose me) (\<lambda>s. awake (begin_op me s)) (put_ip me) (end_op me) me st s = Ok s' \<Longrightarrow> kstep 0 s s'"
| k_wait: "me < length (procs s) \<Longrightarrow> live (slot_key (proc_at s me)) \<Longrightarrow> wait_proc me addr s = Ok (w, s') \<Longrightarrow> kstep 0 s s'"
| k_waitx: "me < length (procs s) \<Longrightarrow> live (slot_key (proc_at s me)) \<Longrightarrow> waitx me addr s = Ok (w, t, s') \<Longrightarrow> kstep 0 s s'"
| k_kill: "kill n s = (r, s') \<Longrightarrow> kstep 0 s s'"
| k_wakeup: "kstep 0 s (wakeup p ch s)"
| k_other: "table_view s' = table_view s \<Longrightarrow> kstep 0 s s'"

inductive kruns :: "nat \<Rightarrow> 'a ostate_scheme \<Rightarrow> 'a ostate_scheme \<Rightarrow> bool" where
  refl: "kruns 0 s s"
| step: "kruns n s0 s \<Longrightarrow> kstep k s s' \<Longrightarrow> kruns (n + k) s0 s'"

lemma kstep_inv:
  assumes "kstep k s s'" "table_inv s" "nextpid s + int k \<le> 2 ^ 31 - 1"
  shows "table_inv s' \<and> nextpid s' \<le> nextpid s + int k"
  using assms(1)
proof cases
  case (k_userinit code root)
  then show ?thesis using userinit_inv[OF assms(2)] assms(3) by simp
next
  case (k_fork me r)
  then show ?thesis using fl.fork_keeps[OF assms(2)] assms(3) by simp
next
  case (k_exit me j st)
  then show ?thesis using fl.exit_keeps[OF assms(2)] by simp
next
  case (k_wait me addr w)
  then show ?thesis using wait_proc_inv[OF assms(2)] by (simp add: keys_def)
next
  case (k_waitx me addr w t)
  then have "wait_proc me addr s = Ok (w, s')" by (simp add: waitx_wait)
  then show ?thesis using k_waitx wait_proc_inv[OF assms(2)] by (simp add: keys_def)
next
  case (k_kill n r)
  then have "table_view s' = table_view s" using kill_view[of n s] by simp
  then show ?thesis using assms(2) k_kill table_inv_view[of s' s] by (simp add: table_view_def)
next
  case (k_wakeup p ch)
  then show ?thesis using assms(2) wakeup_view[of p ch s] table_inv_view[of s' s] by (simp add: table_view_def)
next
  case k_other
  then show ?thesis using assms(2) table_inv_view[of s' s] by (simp add: table_view_def)
qed

lemma kruns_inv:
  assumes "kruns n s0 s" "table_inv s0" "nextpid s0 + int n \<le> 2 ^ 31 - 1"
  shows "table_inv s \<and> nextpid s \<le> nextpid s0 + int n"
  using assms
proof (induction rule: kruns.induct)
  case (step n s0 s k s')
  then have "table_inv s" "nextpid s \<le> nextpid s0 + int n" by auto
  then show ?case using kstep_inv[OF step.hyps(2)] step.prems(2) by auto
qed simp

section \<open>The invariant\<close>

text \<open>Free slots have pid 0 and no parent; the other slots have distinct pids from 1 up to below \<open>nextpid\<close>; a parent is
  neither free nor a zombie, and neither is init once it exists.\<close>

definition table_ok :: "'a kstate_scheme \<Rightarrow> bool" where
  "table_ok s \<longleftrightarrow> 1 \<le> nextpid s \<and>
     (\<forall>i<length (procs s). if pstate (proc_at s i) = UNUSED then pid (proc_at s i) = 0 \<and> parent (proc_at s i) = None
        else 0 < pid (proc_at s i) \<and> pid (proc_at s i) < nextpid s) \<and>
     (\<forall>i<length (procs s). \<forall>j<length (procs s).
        i \<noteq> j \<longrightarrow> pstate (proc_at s i) \<noteq> UNUSED \<longrightarrow> pid (proc_at s i) \<noteq> pid (proc_at s j)) \<and>
     (\<forall>i<length (procs s). \<forall>j. parent (proc_at s i) = Some j \<longrightarrow>
        j < length (procs s) \<and> pstate (proc_at s j) \<noteq> UNUSED \<and> pstate (proc_at s j) \<noteq> ZOMBIE) \<and>
     (\<forall>j. initproc s = Some j \<longrightarrow> j < length (procs s) \<and> pstate (proc_at s j) \<noteq> UNUSED \<and> pstate (proc_at s j) \<noteq> ZOMBIE)"

lemma table_ok_inv: "table_ok s \<longleftrightarrow> table_inv s"
proof -
  have k: "keys s ! j = slot_key (proc_at s j)" if "j < length (procs s)" for j using that by (simp add: keys_def)
  have lv: "j < length (keys s) \<and> live (keys s ! j) \<longleftrightarrow>
      j < length (procs s) \<and> pstate (proc_at s j) \<noteq> UNUSED \<and> pstate (proc_at s j) \<noteq> ZOMBIE" for j
    using k[of j] by (auto simp: keys_length live_def slot_key_def)
  have ko: "key_ok (keys s) (nextpid s) (slot_key p) \<longleftrightarrow>
      (if pstate p = UNUSED then pid p = 0 \<and> parent p = None else 0 < pid p \<and> pid p < nextpid s) \<and>
      (\<forall>j. parent p = Some j \<longrightarrow> j < length (procs s) \<and> pstate (proc_at s j) \<noteq> UNUSED \<and> pstate (proc_at s j) \<noteq> ZOMBIE)" for p
    unfolding key_ok_def lv by (simp add: slot_key_def)
  have a: "(\<forall>i<length (keys s). key_ok (keys s) (nextpid s) (keys s ! i)) \<longleftrightarrow>
      (\<forall>i<length (procs s). key_ok (keys s) (nextpid s) (slot_key (proc_at s i)))" by (simp add: keys_length k)
  have b: "(\<forall>i<length (keys s). \<forall>j<length (keys s). i \<noteq> j \<longrightarrow> \<not> k_free (keys s ! i) \<longrightarrow> k_pid (keys s ! i) \<noteq> k_pid (keys s ! j)) \<longleftrightarrow>
      (\<forall>i<length (procs s). \<forall>j<length (procs s). i \<noteq> j \<longrightarrow> pstate (proc_at s i) \<noteq> UNUSED \<longrightarrow> pid (proc_at s i) \<noteq> pid (proc_at s j))"
    by (simp add: keys_length k slot_key_def)
  show ?thesis unfolding table_ok_def table_inv_def keys_inv_def a b lv ko by blast
qed

text \<open>The table as \<open>procinit\<close> leaves it.\<close>

definition boot_table :: "'a kstate_scheme \<Rightarrow> bool" where
  "boot_table s \<longleftrightarrow> nextpid s = 1 \<and> initproc s = None \<and>
     (\<forall>p\<in>set (procs s). pstate p = UNUSED \<and> pid p = 0 \<and> parent p = None)"

lemma boot_table_ok: "boot_table s \<Longrightarrow> table_ok s"
  unfolding boot_table_def table_ok_def all_set_conv_all_nth by simp

text \<open>C7. The empty table of the boot is in order, and from a table in order every run of the kernel leads to a table in
  order, whatever processes fork, exit, wait, kill and wake, with the file layer as it is: free slots have pid 0 and no
  parent, the other slots have distinct positive pids below \<open>nextpid\<close>, and a parent is never free nor a zombie (its children
  went to init, which is alive).  The run may take as many pids as an \<open>int\<close> can count: after that \<open>allocpid\<close> wraps.\<close>

theorem process_table_invariant:
  assumes "boot_table s0 \<or> table_ok s0" and "kruns n s0 s" and "nextpid s0 + int n \<le> 2 ^ 31 - 1"
  shows "table_ok s \<and> nextpid s \<le> nextpid s0 + int n"
proof -
  have "table_ok s0" using assms(1) boot_table_ok by blast
  then show ?thesis using kruns_inv[OF assms(2) _ assms(3)] by (simp add: table_ok_inv)
qed

section \<open>Witness\<close>

text \<open>init and its only child, whose working directory is the root inode that init uses too.\<close>

definition sample_ostate :: ostate where
  "sample_ostate = \<lparr>mem = \<lambda>_. 0, freelist = 0, kend = 0x80001234, config = RR, trampoline_pa = 0x80000000,
     forkret_pc = 0x80000100,
     procs = [blank_proc\<lparr>pstate := RUNNABLE, pid := 1, cwd := Some 0\<rparr>,
              blank_proc\<lparr>pstate := RUNNING, pid := 2, parent := Some 0, cwd := Some 0\<rparr>, blank_proc],
     initproc = Some 0, nextpid = 3, sys_time = 0, kticks = 9,
     uart_buf = replicate 32 0, uart_w = 0, uart_r = 0, uart_out = [], panicked = False,
     cons_buf = replicate 128 0, cons_r = 0, cons_w = 0, cons_e = 0,
     bufs = [], lru = [], disk = \<lambda>_. [], disk_trace = [],
     log_start = 2, log_size = 30, outstanding = 0, committing = False, log_dev = 1, lh_n = 0, lh_block = replicate 30 0,
     sb = superblock_of (replicate 1024 0),
     itable = [\<lparr>idev = 1, inum = 1, iref = 2, ilk = initsleeplock, ivalid = True, itype = 1, imajor = 0, iminor = 0,
       inlink = 1, isize = 48, addrs = replicate 13 0\<rparr>],
     ftable = [], pipes = \<lambda>_. \<lparr>pdata = [], nread = 0, nwrite = 0, readopen = False, writeopen = False\<rparr>\<rparr>"

lemma close_files_none:
  "\<forall>i\<in>set is. ofile (proc_at s me) ! i = None \<Longrightarrow> close_files fclose is me s = Ok s"
  by (induction "is") auto

lemma wakeup_none:
  "\<forall>p\<in>set (procs s). pstate p \<noteq> SLEEPING \<Longrightarrow> wakeup me ch s = s"
proof -
  assume a: "\<forall>p\<in>set (procs s). pstate p \<noteq> SLEEPING"
  have "wakeup_loop is me ch s = s" if "\<forall>i\<in>set is. i < length (procs s)" for "is"
    using that a by (induction "is") (auto simp: wakeup_one_def)
  then show ?thesis by (simp add: wakeup_def)
qed

lemma sample_exit:
  "exit_proc (fileclose 1) (\<lambda>s. awake (begin_op 1 s)) (put_ip 1) (end_op 1) 1 7 sample_ostate =
    Ok (sample_ostate\<lparr>procs := [blank_proc\<lparr>pstate := RUNNABLE, pid := 1, cwd := Some 0\<rparr>,
       blank_proc\<lparr>pstate := ZOMBIE, pid := 2, parent := Some 0, xstate := 7, etime := 9\<rparr>, blank_proc],
       itable := [(itable sample_ostate ! 0)\<lparr>iref := 1\<rparr>]\<rparr>)"
proof -
  let ?i = "[(itable sample_ostate ! 0)\<lparr>iref := 1\<rparr>]"
  have 1: "close_files (fileclose 1) [0..<16] 1 sample_ostate = Ok sample_ostate"
    by (rule close_files_none) (simp add: sample_ostate_def blank_proc_def)
  have 2: "awake (begin_op 1 sample_ostate) = Ok (sample_ostate\<lparr>outstanding := 1\<rparr>)"
    by (simp add: begin_op_def sample_ostate_def)
  have 3: "put_ip 1 (cwd (proc_at (sample_ostate\<lparr>outstanding := 1\<rparr>) 1)) (sample_ostate\<lparr>outstanding := 1\<rparr>) =
      Ok (sample_ostate\<lparr>outstanding := 1, itable := ?i\<rparr>)"
    by (simp add: put_ip_def iput_def upd_inode_def sample_ostate_def)
  have ns: "\<forall>p\<in>set (procs sample_ostate). pstate p \<noteq> SLEEPING" by (simp add: sample_ostate_def)
  have 4: "end_op 1 (sample_ostate\<lparr>outstanding := 1, itable := ?i\<rparr>) = Ok (sample_ostate\<lparr>itable := ?i\<rparr>)"
  proof -
    have f: "outstanding sample_ostate = 0" "committing sample_ostate = False" "lh_n sample_ostate = 0" by (simp_all add: sample_ostate_def)
    have c: "commit me x = Ok x" if "lh_n x = 0" for me and x :: ostate using that by (simp add: commit_def)
    have "end_op 1 (sample_ostate\<lparr>outstanding := 1, itable := ?i\<rparr>) = Ok (wakeup (Some 1) ChanLog (sample_ostate\<lparr>itable := ?i\<rparr>))"
      unfolding end_op_def Let_def using f by (simp add: c) (simp add: sample_ostate_def)
    then show ?thesis using ns by (simp add: wakeup_none)
  qed
  let ?s = "upd_proc 1 (\<lambda>p. p\<lparr>cwd := None\<rparr>) (sample_ostate\<lparr>itable := ?i\<rparr>)"
  have ns2: "\<forall>p\<in>set (procs ?s). pstate p \<noteq> SLEEPING" by (simp add: sample_ostate_def)
  have r: "reparent 1 ?s = ?s" by (simp add: reparent_def sample_ostate_def upt_rec)
  have 5: "exit_tail 1 7 ?s = sample_ostate\<lparr>procs := [blank_proc\<lparr>pstate := RUNNABLE, pid := 1, cwd := Some 0\<rparr>,
       blank_proc\<lparr>pstate := ZOMBIE, pid := 2, parent := Some 0, xstate := 7, etime := 9\<rparr>, blank_proc], itable := ?i\<rparr>"
    unfolding exit_tail_def r wakeup_none[OF ns2] Let_def by (simp add: sample_ostate_def blank_proc_def upd_proc_def)
  have i: "initproc sample_ostate \<noteq> Some 1" by (simp add: sample_ostate_def)
  show ?thesis unfolding exit_proc_def using 1 2 3 4 5 i by simp
qed

text \<open>The child exits through the file layer; init then reaps it.\<close>

theorem process_table_invariant_witness:
  "\<exists>s1 s2. exit_proc (fileclose 1) (\<lambda>s. awake (begin_op 1 s)) (put_ip 1) (end_op 1) 1 7 sample_ostate = Ok s1 \<and>
     pstate (proc_at s1 1) = ZOMBIE \<and> wait_proc 0 0 s1 = Ok (Some 2, s2) \<and> table_ok s2 \<and> nextpid s2 \<le> 3"
proof -
  obtain s1 where s1: "exit_proc (fileclose 1) (\<lambda>s. awake (begin_op 1 s)) (put_ip 1) (end_op 1) 1 7 sample_ostate = Ok s1"
    "procs s1 = [blank_proc\<lparr>pstate := RUNNABLE, pid := 1, cwd := Some 0\<rparr>,
       blank_proc\<lparr>pstate := ZOMBIE, pid := 2, parent := Some 0, xstate := 7, etime := 9\<rparr>, blank_proc]"
    using sample_exit by simp
  obtain t where "freeproc 1 s1 = Ok t" by (simp add: freeproc_def s1(2) blank_proc_def Let_def)
  then have "\<exists>s2. wait_proc 0 0 s1 = Ok (Some 2, s2)"
    by (simp add: wait_proc_def put_status_def s1(2) upt_rec)
  then obtain s2 where s2: "wait_proc 0 0 s1 = Ok (Some 2, s2)" by blast
  have l: "1 < length (procs sample_ostate)" "live (slot_key (proc_at sample_ostate 1))" "initproc sample_ostate = Some 0"
    by (simp_all add: sample_ostate_def live_def slot_key_def)
  have "kstep 0 sample_ostate s1" by (rule k_exit[OF l s1(1)])
  moreover have "kstep 0 s1 s2" by (rule k_wait[OF _ _ s2]) (simp_all add: s1(2) live_def slot_key_def)
  ultimately have r: "kruns 0 sample_ostate s2"
    using kruns.step[OF kruns.step[OF kruns.refl, of 0 sample_ostate s1], of 0 s2] by simp
  have ok: "table_ok sample_ostate"
    by (simp add: table_ok_def sample_ostate_def blank_proc_def less_Suc_eq numeral_3_eq_3 all_simps)
  have "nextpid sample_ostate = 3" by (simp add: sample_ostate_def)
  then have "table_ok s2 \<and> nextpid s2 \<le> 3" using process_table_invariant[OF disjI2[OF ok] r] by simp
  then show ?thesis using s1 s2 by auto
qed

end
