(* ===== verification/Transaction.thy ===== *)
theory Transaction
  imports Fs
begin

text \<open>
  Operations of the file system inside a transaction (between \<open>begin_op\<close> and \<open>end_op\<close> of \<open>kernel/log.c\<close>): what
  \<open>bread\<close>, \<open>log_write\<close> and \<open>brelse\<close> do to the blocks as the file system sees them (\<open>blk\<close>), and \<open>balloc\<close> and \<open>bfree\<close>
  (\<open>kernel/fs.c\<close>) as operations on the set of free blocks.
\<close>

section \<open>Blocks in a transaction\<close>

text \<open>The log of \<open>mkfs\<close>: \<open>LOGSIZE\<close> blocks, the header among them.\<close>

abbreviation LOGDATA :: nat where "LOGDATA \<equiv> 29"

text \<open>The blocks of the transaction so far, which the log keeps pinned.\<close>

definition logged :: "'a lstate_scheme \<Rightarrow> u32 set" where
  "logged s = set (take (nat (lh_n s)) (lh_block s))"

text \<open>
  The state of the block layer within a transaction of process \<open>me\<close>, which has the blocks of \<open>H\<close> locked: a block is
  in use once for the log and once for its holder, every block outside the transaction is as it is on the disk,
  and \<open>N\<close> counts the buffers, free or not.
\<close>

definition tx :: "nat \<Rightarrow> u32 \<Rightarrow> nat \<Rightarrow> u32 set \<Rightarrow> 'a lstate_scheme \<Rightarrow> bool" where
  "tx N dev me H s \<longleftrightarrow> cache_ok dev s \<and> me < length (procs s) \<and> finite H \<and>
     holder dev s = (\<lambda>b. if b \<in> H then Some (mypid me s) else None) \<and>
     rc dev s = (\<lambda>b. (if b \<in> logged s then 1 else 0) + (if b \<in> H then 1 else 0)) \<and>
     (\<forall>b. b \<notin> logged s \<longrightarrow> blk dev s b = disk s b) \<and>
     card (free_bufs s) + card (logged s \<union> H) = N \<and>
     0 \<le> lh_n s \<and> lh_n s < log_size s \<and> log_size s \<le> int LOGSIZE \<and> length (lh_block s) = LOGSIZE \<and>
     distinct (take (nat (lh_n s)) (lh_block s)) \<and> logged s \<inter> log_area LOGDATA s = {}"

text \<open>What the operations of a transaction leave alone.\<close>

definition steady :: "'a lstate_scheme \<Rightarrow> 'a lstate_scheme \<Rightarrow> bool" where
  "steady s s' \<longleftrightarrow> log_size s' = log_size s \<and> outstanding s' = outstanding s \<and>
     log_dev s' = log_dev s \<and> log_start s' = log_start s \<and> committing s' = committing s \<and>
     disk s' = disk s \<and> disk_trace s' = disk_trace s \<and> map pid (procs s') = map pid (procs s)"

lemma steady_refl [simp]: "steady s s" by (simp add: steady_def)

lemma steady_trans: "steady s s1 \<Longrightarrow> steady s1 s2 \<Longrightarrow> steady s s2"
  by (simp add: steady_def)

lemma steady_log: "steady s s' \<Longrightarrow> log_area n s' = log_area n s"
  by (simp add: steady_def log_area_def head_at_def log_at_def)

lemma steady_size: "steady s s' \<Longrightarrow> log_size s' = log_size s"
  by (simp add: steady_def)

lemma tx_bound:
  assumes "tx N dev me H s"
  shows "nat (lh_n s) \<le> LOGDATA" "nat (lh_n s) \<le> LOGSIZE" "nat (lh_n s) \<le> length (lh_block s)"
proof -
  have "lh_n s < log_size s" "log_size s \<le> int LOGSIZE" "length (lh_block s) = LOGSIZE" using assms by (simp_all add: tx_def)
  then show "nat (lh_n s) \<le> LOGDATA" "nat (lh_n s) \<le> LOGSIZE" "nat (lh_n s) \<le> length (lh_block s)" by simp_all
qed

lemma card_logged: "tx N dev me H s \<Longrightarrow> card (logged s) = nat (lh_n s)"
  using tx_bound(3)[of N dev me H s] by (simp add: tx_def logged_def distinct_card)

lemma tx_card: "tx N dev me H s \<Longrightarrow> card (logged s \<union> H) \<le> nat (lh_n s) + card H"
  using card_Un_le[of "logged s" H] by (simp add: card_logged)

lemma steadyI:
  assumes "bstate.more s' = bstate.more s" "disk s' = disk s" "disk_trace s' = disk_trace s" "map pid (procs s') = map pid (procs s)"
  shows "steady s s' \<and> logged s' = logged s \<and> lh_n s' = lh_n s \<and> lh_block s' = lh_block s"
  using assms log_fields[OF assms(1)] lstate_more_bstate[OF assms(1)] by (simp add: steady_def logged_def)

lemma tx_bread:
  assumes t: "tx N dev me H s" and b: "b \<notin> H" and room: "nat (lh_n s) + card H < N"
  shows "\<exists>i s'. bread me dev b s = Ok (i, s') \<and> tx N dev me (insert b H) s' \<and> owns dev s' i b \<and> data_of i s' = blk dev s b \<and>
     blk dev s' = blk dev s \<and> logged s' = logged s \<and> lh_n s' = lh_n s \<and> steady s s' \<and> (\<forall>j b'. owns dev s j b' \<longrightarrow> owns dev s' j b')"
proof -
  have ok: "cache_ok dev s" and rc: "rc dev s = (\<lambda>b. (if b \<in> logged s then 1 else 0) + (if b \<in> H then 1 else 0))"
    and ho: "holder dev s = (\<lambda>b. if b \<in> H then Some (mypid me s) else None)" and N: "card (free_bufs s) + card (logged s \<union> H) = N"
    and fin: "finite H" using t by (simp_all add: tx_def)
  have "0 < card (free_bufs s)" using N room tx_card[OF t] by linarith
  then have f: "free_bufs s \<noteq> {}" by auto
  have h0: "holder dev s b = None" using ho b by simp
  have r0: "Suc (rc dev s b) < 2 ^ 32" using rc b by simp
  obtain i s' where r: "bread me dev b s = Ok (i, s')" and g: "got_block dev me s b i s'"
    using bread_got[OF ok h0 r0] f by blast
  have st: "steady s s'" "logged s' = logged s" "lh_n s' = lh_n s" "lh_block s' = lh_block s"
    using steadyI[OF bread_more[OF r]] g by (simp_all add: got_block_def)
  have m: "mypid me s' = mypid me s" using g by (intro mypid_procs) (simp add: got_block_def)
  have g': "cache_ok dev s'" "owns dev s' i b" "blk dev s' = blk dev s" "rc dev s' = (rc dev s)(b := Suc (rc dev s b))"
    "holder dev s' = (holder dev s)(b := Some (mypid me s))" "procs s' = procs s" "disk s' = disk s"
    "if rc dev s b = 0 then card (free_bufs s) = Suc (card (free_bufs s')) else free_bufs s' = free_bufs s"
    "\<forall>j b'. owns dev s j b' \<longrightarrow> owns dev s' j b'" using g by (simp_all add: got_block_def)
  have c: "card (free_bufs s') + card (logged s \<union> insert b H) = N"
  proof (cases "b \<in> logged s")
    case True
    then have "logged s \<union> insert b H = logged s \<union> H" by auto
    then show ?thesis using g'(8) N rc True b by simp
  next
    case False
    then have "card (insert b (logged s \<union> H)) = Suc (card (logged s \<union> H))" using b fin by (simp add: logged_def)
    then show ?thesis using g'(8) N rc False b by simp
  qed
  have "tx N dev me (insert b H) s'"
    using t c g' st m b steady_log[OF st(1), of LOGDATA] steady_size[OF st(1)] unfolding tx_def by (auto simp: fun_eq_iff rc ho)
  moreover have "data_of i s' = blk dev s b" using owns_view(1)[OF g'(1,2)] g'(3) by simp
  ultimately show ?thesis using r g'(2,3,9) st by blast
qed

lemma tx_brelse:
  assumes t: "tx N dev me (insert b H) s" and b: "b \<notin> H" and o: "owns dev s i b"
  shows "\<exists>s'. brelse me i s = Ok s' \<and> tx N dev me H s' \<and> blk dev s' = blk dev s \<and> logged s' = logged s \<and> lh_n s' = lh_n s \<and>
     steady s s' \<and> (\<forall>j b'. owns dev s j b' \<and> b' \<noteq> b \<longrightarrow> owns dev s' j b')"
proof -
  have ok: "cache_ok dev s" and rc: "rc dev s = (\<lambda>x. (if x \<in> logged s then 1 else 0) + (if x \<in> insert b H then 1 else 0))"
    and ho: "holder dev s = (\<lambda>x. if x \<in> insert b H then Some (mypid me s) else None)"
    and N: "card (free_bufs s) + card (logged s \<union> insert b H) = N" and me: "me < length (procs s)"
    and cl: "\<forall>b. b \<notin> logged s \<longrightarrow> blk dev s b = disk s b"
    and fin: "finite H" using t by (simp_all add: tx_def)
  have mi: "mine dev me s i b" using o ho by (simp add: mine_def)
  have clean: "rc dev s b = 1 \<Longrightarrow> blk dev s b = disk s b" using rc cl by (auto split: if_splits)
  obtain s' where r: "brelse me i s = Ok s'" and p: "put_block dev me s b s'" using brelse_put[OF ok mi clean] by blast
  have p': "cache_ok dev s'" "blk dev s' = blk dev s" "rc dev s' = (rc dev s)(b := rc dev s b - 1)"
    "holder dev s' = (holder dev s)(b := None)" "disk s' = disk s" "map pid (procs s') = map pid (procs s)"
    "if rc dev s b = 1 then card (free_bufs s') = Suc (card (free_bufs s)) else free_bufs s' = free_bufs s"
    "\<forall>j b'. owns dev s j b' \<and> b' \<noteq> b \<longrightarrow> owns dev s' j b'" using p by (auto simp: put_block_def)
  have st: "steady s s'" "logged s' = logged s" "lh_n s' = lh_n s" "lh_block s' = lh_block s"
    using steadyI[OF brelse_more[OF r]] p by (simp_all add: put_block_def)
  have m: "mypid me s' = mypid me s" using mypid_pids[OF p'(6) me] .
  have l: "me < length (procs s')" using p'(6) me by (metis length_map)
  have c: "card (free_bufs s') + card (logged s \<union> H) = N"
  proof (cases "b \<in> logged s")
    case True
    then have "logged s \<union> insert b H = logged s \<union> H" by auto
    then show ?thesis using p'(7) N rc True b by simp
  next
    case False
    then have "card (insert b (logged s \<union> H)) = Suc (card (logged s \<union> H))" using b fin by (simp add: logged_def)
    then show ?thesis using p'(7) N rc False b by simp
  qed
  have "tx N dev me H s'"
    using t c p' st m l b steady_log[OF st(1), of LOGDATA] steady_size[OF st(1)] unfolding tx_def by (auto simp: fun_eq_iff rc ho)
  then show ?thesis using r p'(2,8) st by blast
qed

lemma log_slot_Some: "log_slot is bs b = Some i \<Longrightarrow> i \<in> set is \<and> bs ! i = b"
  by (induction "is" bs b rule: log_slot.induct) (auto split: if_splits)

lemma log_slot_None: "log_slot is bs b = None \<Longrightarrow> \<forall>i\<in>set is. bs ! i \<noteq> b"
  by (induction "is" bs b rule: log_slot.induct) (auto split: if_splits)

lemma log_slot_logged: "nat (lh_n s) \<le> length (lh_block s) \<Longrightarrow> (log_slot [0..<nat (lh_n s)] (lh_block s) b = None) = (b \<notin> logged s)"
  using log_slot_Some[of "[0..<nat (lh_n s)]" "lh_block s" b] log_slot_None[of "[0..<nat (lh_n s)]" "lh_block s" b]
  by (cases "log_slot [0..<nat (lh_n s)] (lh_block s) b") (auto simp: logged_def in_set_conv_nth)

lemma bpin_view:
  assumes ok: "cache_ok dev s" and o: "owns dev s i b" and r: "Suc (rc dev s b) < 2 ^ 32"
  shows "cache_ok dev (bpin i s)" "blk dev (bpin i s) = blk dev s" "rc dev (bpin i s) = (rc dev s)(b := Suc (rc dev s b))"
    "holder dev (bpin i s) = holder dev s" "\<And>j b'. owns dev s j b' \<Longrightarrow> owns dev (bpin i s) j b'"
    "free_bufs (bpin i s) = free_bufs s"
proof -
  let ?s = "bpin i s"
  define x where "x = (bufs s ! i)\<lparr>refcnt := refcnt (bufs s ! i) + 1\<rparr>"
  have h: "holds_block dev s i b" and nz: "refcnt (bufs s ! i) \<noteq> 0" using o by (simp_all add: owns_def)
  have i: "i < length (bufs s)" "bdev (bufs s ! i) = dev" "blockno (bufs s ! i) = b" using h by (simp_all add: holds_block_def)
  note v = owns_view[OF ok o]
  have u: "unat (refcnt x) = Suc (rc dev s b)" using v(2) r unat_plus_one by (simp add: x_def)
  then have xz: "refcnt x \<noteq> 0" by auto
  have bo: "buf_ok dev (disk s) (bufs s ! i)" using cache_ok_buf[OF ok i(1)] .
  have q: "bdev x = dev" "blockno x = b" "block x = block (bufs s ! i)" "bvalid x" "bdata x = blk dev s b" "length (bdata x) = BSIZE"
    using i bo nz v(1) by (simp_all add: x_def buf_ok_def)
  have p: "bufs ?s = (bufs s)[i := x]" "set (lru ?s) = set (lru s)" "distinct (lru ?s)" "disk ?s = disk s"
    using ok by (simp_all add: bpin_def x_def cache_ok_def)
  have xo: "buf_ok dev (disk ?s) x" using xz q by (simp add: buf_ok_def)
  have dl: "\<And>b'. b' \<noteq> b \<Longrightarrow> disk ?s b' = disk s b'" "length (disk ?s b) = BSIZE" using ok p(4) by (simp_all add: cache_ok_def)
  note k = upd_keep_block[OF ok h p(1-3) q(1,2) xo dl]
  show "cache_ok dev ?s" by (rule k(1))
  show "blk dev ?s = blk dev s" using k(2) q by auto
  show "rc dev ?s = (rc dev s)(b := Suc (rc dev s b))" using k(3) u by simp
  show "holder dev ?s = holder dev s" using k(4) v(3) q(3) by auto
  show "owns dev ?s j b'" if "owns dev s j b'" for j b'
    using that k(5)[of j b'] p(1) xz i by (auto simp: owns_def nth_list_update)
  show "free_bufs ?s = free_bufs s" using p(1) xz nz i by (auto simp: free_bufs_def nth_list_update split: if_splits)
qed

lemma bpin_frame [simp]: "disk (bpin i s) = disk s" "disk_trace (bpin i s) = disk_trace s" "procs (bpin i s) = procs s"
  "bstate.more (bpin i s) = bstate.more s"
  by (simp_all add: bpin_def)

lemma tx_write:
  assumes t: "tx N dev me H s" and b: "b \<in> H" and o: "owns dev s i b" and d: "length d = BSIZE"
    and room: "lh_n s < int LOGSIZE" "lh_n s < log_size s - 1" "1 \<le> outstanding s" and la: "b \<notin> log_area LOGDATA s"
  shows "\<exists>s'. log_write i (set_data i d s) = Ok s' \<and> tx N dev me H s' \<and> blk dev s' = (blk dev s)(b := d) \<and>
     logged s' = insert b (logged s) \<and> lh_n s' \<le> lh_n s + 1 \<and> steady s s' \<and> (\<forall>j b'. owns dev s j b' \<longrightarrow> owns dev s' j b')"
proof -
  define u where "u = set_data i d s"
  have ok: "cache_ok dev s" and rc: "rc dev s = (\<lambda>x. (if x \<in> logged s then 1 else 0) + (if x \<in> H then 1 else 0))"
    and ho: "holder dev s = (\<lambda>x. if x \<in> H then Some (mypid me s) else None)"
    and N: "card (free_bufs s) + card (logged s \<union> H) = N" and n0: "0 \<le> lh_n s" and ll: "length (lh_block s) = LOGSIZE"
    and di: "distinct (take (nat (lh_n s)) (lh_block s))"
    and cl: "\<forall>b. b \<notin> logged s \<longrightarrow> blk dev s b = disk s b" using t by (simp_all add: tx_def)
  have mi: "mine dev me s i b" using o ho b by (simp add: mine_def)
  note sv = set_data_view[OF ok mi d, folded u_def]
  have bm: "bstate.more u = bstate.more s" by (simp add: u_def)
  note f = log_fields[OF bm]
  have lu: "logged u = logged s" by (simp add: logged_def f)
  have su: "steady s u" using steadyI[OF bm] by (simp add: u_def)
  have mu: "mypid me u = mypid me s" by (rule mypid_procs) (simp add: u_def)
  have bn: "blockno (bufs u ! i) = b" using sv(7) mine_facts(3)[OF sv(1), of me i b] by simp
  have run: "log_write i u = (case log_slot [0..<nat (lh_n s)] (lh_block s) b of
       Some j \<Rightarrow> Ok (u\<lparr>lh_block := (lh_block s)[j := b]\<rparr>)
     | None \<Rightarrow> Ok (bpin i (u\<lparr>lh_block := (lh_block s)[nat (lh_n s) := b], lh_n := lh_n s + 1\<rparr>)))"
    using room by (simp add: log_write_def f bn split: option.split)
  show ?thesis
  proof (cases "b \<in> logged s")
    case True
    then obtain j where j: "log_slot [0..<nat (lh_n s)] (lh_block s) b = Some j"
      using log_slot_logged[OF tx_bound(3)[OF t], of b] by (cases "log_slot [0..<nat (lh_n s)] (lh_block s) b") (auto simp: tx_def)
    then have "lh_block s ! j = b" using log_slot_Some by blast
    then have "u\<lparr>lh_block := (lh_block s)[j := b]\<rparr> = u" using f(7) by (metis (no_types) list_update_id lstate.surjective lstate.update_convs(7))
    then have r: "log_write i u = Ok u" using run j by simp
    have "tx N dev me H u"
      using t sv lu f su mu True steady_log[OF su, of LOGDATA] steady_size[OF su] unfolding tx_def by (auto simp: steady_def u_def[symmetric] dest: map_eq_imp_length_eq)
    then show ?thesis using r sv lu su f(6) True by (intro exI[of _ u]) (auto simp: u_def[symmetric] insert_absorb)
  next
    case False
    then have j: "log_slot [0..<nat (lh_n s)] (lh_block s) b = None" using log_slot_logged[OF tx_bound(3)[OF t], of b] False by simp
    define v where "v = u\<lparr>lh_block := (lh_block s)[nat (lh_n s) := b], lh_n := lh_n s + 1\<rparr>"
    have r: "log_write i u = Ok (bpin i v)" using run j by (simp add: v_def)
    have vv: "cache_ok dev v" "owns dev v = owns dev u" "blk dev v = blk dev u" "rc dev v = rc dev u" "holder dev v = holder dev u"
       "free_bufs v = free_bufs u" using view_cong[of v u] by (simp_all add: v_def sv(1))
    have ov: "owns dev v i b" using vv(2) sv(5)[OF o] by simp
    have rv: "rc dev v b = 1" using vv(4) sv(3) rc False b by simp
    note bp = bpin_view[OF vv(1) ov, unfolded rv]
    have nl: "nat (lh_n s) < length (lh_block s)" "nat (lh_n s + 1) = Suc (nat (lh_n s))" using room ll n0 by auto
    have tk: "take (nat (lh_n s + 1)) ((lh_block s)[nat (lh_n s) := b]) = take (nat (lh_n s)) (lh_block s) @ [b]"
      unfolding nl(2) using nl(1) by (simp add: take_Suc_conv_app_nth)
    have fv: "lh_n (bpin i v) = lh_n s + 1" "lh_block (bpin i v) = (lh_block s)[nat (lh_n s) := b]"
      "log_size (bpin i v) = log_size s" "outstanding (bpin i v) = outstanding s" "log_dev (bpin i v) = log_dev s"
      "log_start (bpin i v) = log_start s" "committing (bpin i v) = committing s" "procs (bpin i v) = procs s"
      "disk (bpin i v) = disk s" "disk_trace (bpin i v) = disk_trace s" "lstate.more (bpin i v) = lstate.more s"
      using log_fields[of "bpin i v" v] su f lstate_more_bstate[of "bpin i v" v] by (simp_all add: v_def u_def)
    have lg: "logged (bpin i v) = insert b (logged s)" by (simp add: logged_def fv tk)
    have st: "steady s (bpin i v)" by (simp add: steady_def fv del: bpin_frame)
    have m: "mypid me (bpin i v) = mypid me s" by (rule mypid_procs) (simp only: fv)
    have c: "card (free_bufs (bpin i v)) + card (logged (bpin i v) \<union> H) = N"
    proof -
      have "logged (bpin i v) \<union> H = logged s \<union> H" using lg b by auto
      then show ?thesis using bp(6) vv(6) sv(6) N by simp
    qed
    have "distinct (take (nat (lh_n (bpin i v))) (lh_block (bpin i v)))"
      unfolding fv tk using di False by (simp add: logged_def)
    moreover have "rc dev (bpin i v) = (\<lambda>x. (if x \<in> logged (bpin i v) then 1 else 0) + (if x \<in> H then 1 else 0))"
      using bp(3) vv(4) sv(3) rc False b lg rv by (auto simp: fun_eq_iff)
    moreover have "holder dev (bpin i v) = (\<lambda>x. if x \<in> H then Some (mypid me (bpin i v)) else None)"
      unfolding m using bp(4) vv(5) sv(4) ho by simp
    moreover have "\<forall>x. x \<notin> logged (bpin i v) \<longrightarrow> blk dev (bpin i v) x = disk (bpin i v) x"
      using bp(2) vv(3) sv(2) lg cl by (simp add: fv(9) del: bpin_frame)
    moreover have "finite H" "me < length (procs (bpin i v))" using t by (simp_all add: tx_def fv(8) del: bpin_frame)
    moreover have "logged (bpin i v) \<inter> log_area LOGDATA (bpin i v) = {}" unfolding lg steady_log[OF st] using t la by (simp add: tx_def)
    moreover have "lh_n s + 1 < log_size s" "log_size s \<le> int LOGSIZE" using room(2) t by (simp_all add: tx_def)
    ultimately have "tx N dev me H (bpin i v)" using bp(1) c ll n0 nl fv(1-3) unfolding tx_def by simp
    moreover have "\<forall>j b'. owns dev s j b' \<longrightarrow> owns dev (bpin i v) j b'" using bp(5) vv(2) sv(5) by simp
    ultimately show ?thesis using r bp(2) vv(3) sv(2) lg st fv(1) by (intro exI[of _ "bpin i v"]) (simp add: u_def[symmetric])
  qed
qed

text \<open>The log has room for \<open>k\<close> more calls of \<open>log_write\<close>, and the cache for the buffers they pin.\<close>

definition room :: "nat \<Rightarrow> nat \<Rightarrow> 'a lstate_scheme \<Rightarrow> bool" where
  "room N k s \<longleftrightarrow> lh_n s + int k \<le> int LOGSIZE \<and> lh_n s + int k < log_size s \<and> lh_n s + int k + 3 \<le> int N \<and> 1 \<le> outstanding s"

text \<open>
  A stretch of a transaction: at most \<open>k\<close> blocks joined it, and the blocks now read \<open>D\<close>.
\<close>

definition wrote ::
  "nat \<Rightarrow> u32 \<Rightarrow> nat \<Rightarrow> u32 set \<Rightarrow> nat \<Rightarrow> (u32 \<Rightarrow> u8 list) \<Rightarrow> 'a lstate_scheme \<Rightarrow> 'a lstate_scheme \<Rightarrow> bool" where
  "wrote N dev me H k D s s' \<longleftrightarrow> tx N dev me H s' \<and> blk dev s' = D \<and> lh_n s' \<le> lh_n s + int k \<and> logged s \<subseteq> logged s' \<and>
     steady s s' \<and> (\<forall>j b. b \<in> H \<and> owns dev s j b \<longrightarrow> owns dev s' j b)"

lemma wrote_refl: "tx N dev me H s \<Longrightarrow> wrote N dev me H k (blk dev s) s s"
  by (simp add: wrote_def)

lemma wrote_trans: "wrote N dev me H k D s s1 \<Longrightarrow> wrote N dev me H j D' s1 s2 \<Longrightarrow> wrote N dev me H (k + j) D' s s2"
  unfolding wrote_def using steady_trans[of s s1 s2] by auto

lemma wrote_mono: "wrote N dev me H k D s s' \<Longrightarrow> k \<le> j \<Longrightarrow> wrote N dev me H j D s s'"
  unfolding wrote_def by auto

lemma wroteD:
  assumes "wrote N dev me H k D s s'"
  shows "tx N dev me H s'" "blk dev s' = D" "lh_n s' \<le> lh_n s + int k" "logged s \<subseteq> logged s'" "steady s s'"
    "b \<in> H \<Longrightarrow> owns dev s i b \<Longrightarrow> owns dev s' i b"
  using assms by (simp_all add: wrote_def)

lemma wrote_log: "wrote N dev me H k D s s' \<Longrightarrow> log_start s' = log_start s"
  by (simp add: wrote_def steady_def)

lemma room_le: "room N k s \<Longrightarrow> j \<le> k \<Longrightarrow> room N j s"
  by (auto simp: room_def)

lemma room_after: "room N (k + j) s \<Longrightarrow> wrote N dev me H k D s s' \<Longrightarrow> room N j s'"
  by (auto simp: room_def wrote_def steady_def)

lemma tx_nonneg: "tx N dev me H s \<Longrightarrow> 0 \<le> lh_n s"
  by (simp add: tx_def)

lemma tx_room: "tx N dev me H s \<Longrightarrow> room N k s \<Longrightarrow> card H \<le> 2 \<Longrightarrow> nat (lh_n s) + card H < N"
  using tx_nonneg[of N dev me H s] unfolding room_def by arith

lemma bread_tx:
  assumes t: "tx N dev me H s" and b: "b \<notin> H" "card H \<le> 2" and r: "room N k s"
  shows "\<exists>i s1. bread me dev b s = Ok (i, s1) \<and> data_of i s1 = blk dev s b \<and> owns dev s1 i b \<and>
     wrote N dev me (insert b H) 0 (blk dev s) s s1"
  using tx_bread[OF t b(1) tx_room[OF t r b(2)]] unfolding wrote_def by fastforce

lemma wrote_less: "wrote N dev me (insert b H) k D s s1 \<Longrightarrow> wrote N dev me H j D' s1 s2 \<Longrightarrow> wrote N dev me H (k + j) D' s s2"
  unfolding wrote_def using steady_trans[of s s1 s2] by auto

lemma brelse_tx:
  assumes t: "tx N dev me (insert b H) s" and b: "b \<notin> H" and o: "owns dev s i b"
  shows "\<exists>s'. brelse me i s = Ok s' \<and> wrote N dev me H 0 (blk dev s) s s'"
proof -
  obtain s' where s': "brelse me i s = Ok s'" "tx N dev me H s'" "blk dev s' = blk dev s" "logged s' = logged s" "lh_n s' = lh_n s"
    "steady s s'" "\<forall>j b'. owns dev s j b' \<and> b' \<noteq> b \<longrightarrow> owns dev s' j b'"
    using tx_brelse[OF t b o] by blast
  have "\<forall>j b'. b' \<in> H \<and> owns dev s j b' \<longrightarrow> owns dev s' j b'" using s'(7) b by blast
  then show ?thesis using s' by (auto simp: wrote_def)
qed

lemma write_tx:
  assumes t: "tx N dev me H s" and b: "b \<in> H" and o: "owns dev s i b" and d: "length d = BSIZE" and r: "room N (Suc k) s"
    and la: "b \<notin> log_area LOGDATA s"
  shows "\<exists>s'. log_write i (set_data i d s) = Ok s' \<and> wrote N dev me H 1 ((blk dev s)(b := d)) s s' \<and> b \<in> logged s'"
proof -
  have rm: "lh_n s < int LOGSIZE" "lh_n s < log_size s - 1" "1 \<le> outstanding s" using r by (auto simp: room_def)
  show ?thesis using tx_write[OF t b o d rm la] unfolding wrote_def by fastforce
qed

text \<open>Changing a block: \<open>bread\<close>, new data, \<open>log_write\<close>, \<open>brelse\<close>.\<close>

lemma update_tx:
  assumes t: "tx N dev me H s" and b: "b \<notin> H" "card H \<le> 2" and d: "length d = BSIZE" and r: "room N (Suc k) s"
    and la: "b \<notin> log_area LOGDATA s"
  shows "\<exists>i s1 s2 s3. bread me dev b s = Ok (i, s1) \<and> data_of i s1 = blk dev s b \<and> log_write i (set_data i d s1) = Ok s2 \<and>
     brelse me i s2 = Ok s3 \<and> wrote N dev me H 1 ((blk dev s)(b := d)) s s3 \<and> b \<in> logged s3"
proof -
  obtain i s1 where 1: "bread me dev b s = Ok (i, s1)" "data_of i s1 = blk dev s b" "owns dev s1 i b"
    "wrote N dev me (insert b H) 0 (blk dev s) s s1" using bread_tx[OF t b r] by blast
  have r1: "room N (Suc k) s1" using room_after[of N 0 "Suc k" s] r 1(4) by simp
  obtain s2 where 2: "log_write i (set_data i d s1) = Ok s2" "wrote N dev me (insert b H) 1 ((blk dev s1)(b := d)) s1 s2" "b \<in> logged s2"
    using write_tx[OF wroteD(1)[OF 1(4)] insertI1 1(3) d r1] la steady_log[OF wroteD(5)[OF 1(4)]] by blast
  obtain s3 where 3: "brelse me i s2 = Ok s3" "wrote N dev me H 0 (blk dev s2) s2 s3"
    using brelse_tx[OF wroteD(1)[OF 2(2)] b(1) wroteD(6)[OF 2(2) insertI1 1(3)]] by blast
  have "wrote N dev me (insert b H) 1 ((blk dev s)(b := d)) s s2"
    using wrote_trans[OF 1(4) 2(2)] wroteD(2)[OF 1(4)] by simp
  then have "wrote N dev me H 1 ((blk dev s)(b := d)) s s3"
    using wrote_less[OF _ 3(2)] wroteD(2) by fastforce
  moreover have "b \<in> logged s3" using 2(3) wroteD(4)[OF 3(2)] by blast
  ultimately show ?thesis using 1 2 3 by blast
qed

section \<open>The free map\<close>

lemma bit_used_iff: "bit_used d bi \<longleftrightarrow> bit (d ! (bi div 8)) (bi mod 8)"
  by (simp add: bit_used_def bit_iff_and_push_bit_not_eq_0)

lemma div_mod_8: "(i :: nat) div 8 = j div 8 \<Longrightarrow> i mod 8 = j mod 8 \<Longrightarrow> i = j"
  by (metis div_mult_mod_eq)

lemma length_marks [simp]: "length (mark_used d bi) = length d" "length (mark_free d bi) = length d"
  by (simp_all add: mark_used_def mark_free_def)

lemma bit_single: "m < 8 \<Longrightarrow> k < 8 \<Longrightarrow> bit (push_bit m 1 :: u8) k \<longleftrightarrow> k = m"
  by (simp add: bit_exp_iff eq_commute[of k])

lemma bit_used_mark:
  assumes "bi < 8 * length d"
  shows "bit_used (mark_used d bi) bj \<longleftrightarrow> bi = bj \<or> bit_used d bj"
    and "bit_used (mark_free d bi) bj \<longleftrightarrow> bi \<noteq> bj \<and> bit_used d bj"
proof -
  have l: "bi div 8 < length d" using assms by auto
  have m: "bi mod 8 < 8" "bj mod 8 < 8" by simp_all
  have e: "bi = bj \<longleftrightarrow> bi div 8 = bj div 8 \<and> bi mod 8 = bj mod 8" using div_mod_8[of bi bj] by blast
  have p: "possible_bit TYPE(u8) (bj mod 8)" by (simp add: possible_bit_def)
  have b: "bit (push_bit (bi mod 8) 1 :: u8) (bj mod 8) \<longleftrightarrow> bj mod 8 = bi mod 8" by (rule bit_single[OF m])
  show "bit_used (mark_used d bi) bj \<longleftrightarrow> bi = bj \<or> bit_used d bj"
  proof (cases "bi div 8 = bj div 8")
    case True
    then have "mark_used d bi ! (bj div 8) = (d ! (bj div 8)) OR push_bit (bi mod 8) 1" using l by (simp add: mark_used_def)
    then show ?thesis using True b e by (auto simp: bit_used_iff bit_or_iff simp del: push_bit_of_1)
  qed (auto simp: bit_used_iff mark_used_def)
  show "bit_used (mark_free d bi) bj \<longleftrightarrow> bi \<noteq> bj \<and> bit_used d bj"
  proof (cases "bi div 8 = bj div 8")
    case True
    then have "mark_free d bi ! (bj div 8) = (d ! (bj div 8)) AND NOT (push_bit (bi mod 8) 1)" using l by (simp add: mark_free_def)
    then show ?thesis using True b e p by (auto simp: bit_used_iff bit_and_iff bit_not_iff simp del: push_bit_of_1)
  qed (auto simp: bit_used_iff mark_free_def)
qed

lemma scan_bits_Some:
  "scan_bits n bi b lim d = Some x \<Longrightarrow> bi \<le> x \<and> x < bi + n \<and> b + x < lim \<and> \<not> bit_used d x \<and> (\<forall>y. bi \<le> y \<and> y < x \<longrightarrow> bit_used d y)"
proof (induction n bi b lim d rule: scan_bits.induct)
  case (2 n bi b lim d)
  show ?case
  proof (cases "b + bi < lim \<and> bit_used d bi")
    case True
    then have "Suc bi \<le> x \<and> x < Suc bi + n \<and> b + x < lim \<and> \<not> bit_used d x \<and> (\<forall>y. Suc bi \<le> y \<and> y < x \<longrightarrow> bit_used d y)"
      using 2 by simp
    then show ?thesis using True by (metis Suc_leD Suc_le_eq add_Suc add_Suc_right le_eq_less_or_eq)
  next
    case False
    then show ?thesis using 2(2) by (auto split: if_splits)
  qed
qed simp

lemma scan_bits_None: "scan_bits n bi b lim d = None \<Longrightarrow> bi \<le> y \<Longrightarrow> y < bi + n \<Longrightarrow> b + y < lim \<Longrightarrow> bit_used d y"
proof (induction n bi b lim d rule: scan_bits.induct)
  case (2 n bi b lim d)
  then show ?case by (cases "y = bi") (auto split: if_splits)
qed simp

text \<open>Block \<open>x\<close> is marked in use.\<close>

definition map_block :: "'a fstate_scheme \<Rightarrow> nat \<Rightarrow> u32" where
  "map_block s x = BBLOCK (word_of_nat x) (sb s)"

definition allocated :: "u32 \<Rightarrow> 'a fstate_scheme \<Rightarrow> nat \<Rightarrow> bool" where
  "allocated dev s x \<longleftrightarrow> bit_used (blk dev s (map_block s x)) (x mod BPB)"

lemma map_block_nat: "x < 2 ^ 32 \<Longrightarrow> map_block s x = word_of_nat (x div BPB) + bmapstart (sb s)"
proof -
  assume "x < 2 ^ 32"
  then have "unat (word_of_nat x div 8192 :: u32) = unat (word_of_nat (x div 8192) :: u32)"
    by (simp add: unat_div unat_of_nat take_bit_nat_eq_self)
  then have "word_of_nat x div 8192 = (word_of_nat (x div 8192) :: u32)" by (simp only: word_unat_eq_iff)
  then show ?thesis by (simp add: map_block_def BBLOCK_def)
qed

lemma map_block_base: "b + bi < 2 ^ 32 \<Longrightarrow> bi < BPB \<Longrightarrow> BPB dvd b \<Longrightarrow> map_block s (b + bi) = map_block s b"
  by (auto simp: map_block_nat elim!: dvdE)

lemma unat_fssize: "x < unat (fssize (sb s)) \<Longrightarrow> x < 2 ^ 32"
  using unsigned_less[of "fssize (sb s)", where ?'a=nat] by simp

lemma bzero_tx:
  assumes "tx N dev me H s" "b \<notin> H" "card H \<le> 2" "room N (Suc k) s" "b \<notin> log_area LOGDATA s"
  shows "\<exists>s'. bzero me dev b s = Ok s' \<and> wrote N dev me H 1 ((blk dev s)(b := replicate BSIZE 0)) s s' \<and> lstate.more s' = lstate.more s"
  using update_tx[OF assms(1-3) _ assms(4,5), of "replicate BSIZE 0"] bzero_more[of me dev b s] by (auto simp: bzero_def)

lemma balloc_loop_tx:
  assumes "tx N dev me H s" "card H \<le> 1" "room N 2 s" "BPB dvd b"
    and "b \<le> a" "a < unat (fssize (sb s))" "\<not> allocated dev s a" "\<forall>y. b \<le> y \<and> y < a \<longrightarrow> allocated dev s y"
    and "\<forall>x < unat (fssize (sb s)). map_block s x \<notin> H \<and> map_block s x \<noteq> word_of_nat a" "word_of_nat a \<notin> H"
    and "\<forall>x < unat (fssize (sb s)). map_block s x \<notin> log_area LOGDATA s" "word_of_nat a \<notin> log_area LOGDATA s"
  shows "\<exists>s'. balloc_loop me b dev s = Ok (word_of_nat a, s') \<and>
     wrote N dev me H 2 ((blk dev s)(map_block s a := mark_used (blk dev s (map_block s a)) (a mod BPB), word_of_nat a := replicate BSIZE 0)) s s' \<and>
     lstate.more s' = lstate.more s"
  using assms
proof (induction "unat (fssize (sb s)) - b" arbitrary: b s rule: less_induct)
  case less
  note t = less.prems(1) and H = less.prems(2) and r = less.prems(3) and dv = less.prems(4) and a = less.prems(5-8)
    and sep = less.prems(9) and aH = less.prems(10) and la = less.prems(11,12)
  define lim where "lim = unat (fssize (sb s))"
  have bl: "b < lim" using a by (simp add: lim_def)
  have cH: "card H \<le> 2" using H by simp
  have mb: "map_block s b \<notin> H" using sep bl by (simp add: lim_def)
  obtain i s1 where 1: "bread me dev (map_block s b) s = Ok (i, s1)" "data_of i s1 = blk dev s (map_block s b)" "owns dev s1 i (map_block s b)"
    "wrote N dev me (insert (map_block s b) H) 0 (blk dev s) s s1" using bread_tx[OF t mb cH r] by blast
  have l32: "lim \<le> 2 ^ 32" using unsigned_less[of "fssize (sb s)", where ?'a=nat] by (simp add: lim_def)
  have scan: "bit_used (blk dev s (map_block s b)) bi \<longleftrightarrow> allocated dev s (b + bi)" if "bi < BPB" "b + bi < lim" for bi
  proof -
    have "(b + bi) mod BPB = bi" using dv that(1) by (auto elim!: dvdE)
    then show ?thesis using map_block_base[of b bi s] that dv l32 by (simp add: allocated_def)
  qed
  show ?case
  proof (cases "a < b + BPB")
    case True
    define bi where "bi = a - b"
    have bi: "bi < BPB" "a = b + bi" "b + bi < lim" using True a by (auto simp: bi_def lim_def)
    have sc: "scan_bits BPB 0 b lim (blk dev s (map_block s b)) = Some bi"
    proof (cases "scan_bits BPB 0 b lim (blk dev s (map_block s b))")
      case None
      then show ?thesis using scan_bits_None[OF None, of bi] bi scan a by simp
    next
      case (Some x)
      note x = scan_bits_Some[OF Some]
      then have nx: "\<not> allocated dev s (b + x)" using scan[of x] by simp
      have "\<not> x < bi" using a(4) nx bi by auto
      moreover have "\<not> bi < x" using x scan[of bi] bi a(3) by auto
      ultimately show ?thesis using Some by simp
    qed
    have ma: "map_block s a = map_block s b" "a mod BPB = bi" using bi map_block_base[of b bi s] dv l32 by (auto elim!: dvdE)
    define d where "d = mark_used (blk dev s (map_block s b)) bi"
    have ld: "length d = BSIZE" using cached_length[of dev s "map_block s b"] t by (simp add: d_def tx_def)
    have r1: "room N (Suc 1) s1" using room_after[OF _ 1(4), of 2] r by (simp add: numeral_2_eq_2)
    obtain s2 where 2: "log_write i (set_data i d s1) = Ok s2" "wrote N dev me (insert (map_block s b) H) 1 ((blk dev s1)(map_block s b := d)) s1 s2"
      using write_tx[OF wroteD(1)[OF 1(4)] insertI1 1(3) ld r1] la(1) bl steady_log[OF wroteD(5)[OF 1(4)], of LOGDATA]
      by (auto simp: lim_def)
    obtain s3 where 3: "brelse me i s2 = Ok s3" "wrote N dev me H 0 (blk dev s2) s2 s3"
      using brelse_tx[OF wroteD(1)[OF 2(2)] mb wroteD(6)[OF 2(2) insertI1 1(3)]] by blast
    have w3: "wrote N dev me H 1 ((blk dev s)(map_block s b := d)) s s3"
      using wrote_less[OF wrote_trans[OF 1(4) 2(2)] 3(2)] wroteD(2)[OF 2(2)] wroteD(2)[OF 1(4)] by simp
    have r3: "room N (Suc 0) s3" using room_after[OF _ w3, of 1] r by (simp add: numeral_2_eq_2)
    obtain s4 where 4: "bzero me dev (word_of_nat a) s3 = Ok s4" "wrote N dev me H 1 ((blk dev s3)(word_of_nat a := replicate BSIZE 0)) s3 s4"
      "lstate.more s4 = lstate.more s3" using bzero_tx[OF wroteD(1)[OF w3] aH cH r3] la(2) steady_log[OF wroteD(5)[OF w3], of LOGDATA] by auto
    have w4: "wrote N dev me H 2 ((blk dev s)(map_block s b := d, word_of_nat a := replicate BSIZE 0)) s s4"
      using wrote_trans[OF w3 4(2)] wroteD(2)[OF w3] by (simp add: numeral_2_eq_2)
    have "balloc_loop me b dev s = Ok (word_of_nat a, s4)"
      using 1(1,2) 2(1) 3(1) 4(1) sc bl bi(2) by (subst balloc_loop.simps) (simp add: map_block_def[symmetric] lim_def[symmetric] d_def[symmetric])
    moreover have "lstate.more s4 = lstate.more s" using 1(1) 2(1) 3(1) 4(3) by (auto dest!: block_more)
    ultimately show ?thesis using w4 unfolding ma d_def by blast
  next
    case False
    have sc: "scan_bits BPB 0 b lim (blk dev s (map_block s b)) = None"
    proof (cases "scan_bits BPB 0 b lim (blk dev s (map_block s b))")
      case (Some x)
      note x = scan_bits_Some[OF Some]
      then have nx: "\<not> allocated dev s (b + x)" using scan[of x] by simp
      then show ?thesis using a(4) False x by auto
    qed
    obtain s2 where 2: "brelse me i s1 = Ok s2" "wrote N dev me H 0 (blk dev s1) s1 s2"
      using brelse_tx[OF wroteD(1)[OF 1(4)] mb 1(3)] by blast
    have w: "wrote N dev me H 0 (blk dev s) s s2" using wrote_less[OF 1(4) 2(2)] wroteD(2)[OF 1(4)] by simp
    have m2: "lstate.more s2 = lstate.more s" using 1(1) 2(1) by (auto dest!: block_more)
    note sb2 = fs_fields(1)[OF m2]
    have al: "allocated dev s2 = allocated dev s" "map_block s2 = map_block s"
      using sb2 wroteD(2)[OF w] by (simp_all add: allocated_def map_block_def fun_eq_iff)
    have st: "balloc_loop me b dev s = balloc_loop me (b + BPB) dev s2"
      using 1(1,2) 2(1) sc bl by (subst balloc_loop.simps) (simp add: map_block_def[symmetric] lim_def[symmetric])
    have r2: "room N 2 s2" using room_after[OF _ w, of 2] r by (simp add: numeral_2_eq_2)
    note sl = steady_log[OF wroteD(5)[OF w], of LOGDATA]
    have "unat (fssize (sb s2)) - (b + BPB) < unat (fssize (sb s)) - b" using bl sb2 by (simp add: lim_def)
    from less.hyps[OF this wroteD(1)[OF w] H _ _ _ _ _ _ _ aH]
    obtain s' where s': "balloc_loop me (b + BPB) dev s2 = Ok (word_of_nat a, s')"
      "wrote N dev me H 2 ((blk dev s2)(map_block s2 a := mark_used (blk dev s2 (map_block s2 a)) (a mod BPB), word_of_nat a := replicate BSIZE 0)) s2 s'"
      "lstate.more s' = lstate.more s2"
      using r2 dv a False sep la by (auto simp: al sb2 sl)
    have "wrote N dev me H 2 ((blk dev s2)(map_block s2 a := mark_used (blk dev s2 (map_block s2 a)) (a mod BPB), word_of_nat a := replicate BSIZE 0)) s s'"
      using wrote_trans[OF w s'(2)] by (simp add: numeral_2_eq_2)
    then show ?thesis using st s' m2 al wroteD(2)[OF w] by simp
  qed
qed

definition free_blocks :: "u32 \<Rightarrow> 'a fstate_scheme \<Rightarrow> nat set" where
  "free_blocks dev s = {x. x < unat (fssize (sb s)) \<and> \<not> allocated dev s x}"

text \<open>The map marks itself, block 0 and the log as in use, and is not in the log.\<close>

definition map_ok :: "u32 \<Rightarrow> 'a fstate_scheme \<Rightarrow> bool" where
  "map_ok dev s \<longleftrightarrow> (\<forall>x \<in> free_blocks dev s. x \<noteq> 0 \<and> word_of_nat x \<notin> log_area LOGDATA s \<and>
       (\<forall>y < unat (fssize (sb s)). map_block s y \<noteq> word_of_nat x)) \<and>
     (\<forall>y < unat (fssize (sb s)). map_block s y \<notin> log_area LOGDATA s)"

lemma finite_free [simp]: "finite (free_blocks dev s)"
  by (rule finite_subset[of _ "{..< unat (fssize (sb s))}"]) (auto simp: free_blocks_def)

lemma map_block_inj:
  assumes "x < unat (fssize (sb s))" "y < unat (fssize (sb s))" "map_block s x = map_block s y" "x mod BPB = y mod BPB"
  shows "x = y"
proof -
  have l: "x < 2 ^ 32" "y < 2 ^ 32" using assms(1,2) unat_fssize by blast+
  have "word_of_nat (x div BPB) = (word_of_nat (y div BPB) :: u32)" using assms(3) unfolding map_block_nat[OF l(1)] map_block_nat[OF l(2)] by simp
  moreover have "x div BPB < 2 ^ 32" "y div BPB < 2 ^ 32" using l by simp_all
  ultimately have "x div BPB = y div BPB" by (simp add: of_nat_inverse word_of_nat_eq_iff take_bit_nat_eq_self)
  then show ?thesis using assms(4) by (metis div_mult_mod_eq)
qed

lemma word_nat_inj: "x < unat (fssize (sb s)) \<Longrightarrow> y < unat (fssize (sb s)) \<Longrightarrow> (word_of_nat x = (word_of_nat y :: u32)) \<longleftrightarrow> x = y"
  using unat_fssize[of x s] unat_fssize[of y s] by (auto simp: word_of_nat_eq_iff take_bit_nat_eq_self)

lemma unat_word_nat: "x < unat (fssize (sb s)) \<Longrightarrow> unat (word_of_nat x :: u32) = x"
  using unat_fssize[of x s] by (simp add: unat_of_nat take_bit_nat_eq_self)

lemma balloc_tx:
  assumes t: "tx N dev me H s" "card H \<le> 1" "room N 2 s" and m: "map_ok dev s" and f: "free_blocks dev s \<noteq> {}"
    and H: "\<forall>x < unat (fssize (sb s)). map_block s x \<notin> H" "\<forall>x \<in> free_blocks dev s. word_of_nat x \<notin> H"
  defines "a \<equiv> Min (free_blocks dev s)"
  shows "\<exists>s'. balloc me dev s = Ok (word_of_nat a, s') \<and>
     wrote N dev me H 2 ((blk dev s)(map_block s a := mark_used (blk dev s (map_block s a)) (a mod BPB), word_of_nat a := replicate BSIZE 0)) s s' \<and>
     lstate.more s' = lstate.more s \<and> a \<in> free_blocks dev s \<and> free_blocks dev s' = free_blocks dev s - {a} \<and> map_ok dev s'"
proof -
  have a: "a \<in> free_blocks dev s" unfolding a_def by (rule Min_in[OF finite_free f])
  have le: "x \<in> free_blocks dev s \<Longrightarrow> a \<le> x" for x unfolding a_def by (rule Min_le[OF finite_free])
  have al: "a < unat (fssize (sb s))" "\<not> allocated dev s a" using a by (simp_all add: free_blocks_def)
  have bel: "\<forall>y. 0 \<le> y \<and> y < a \<longrightarrow> allocated dev s y"
  proof (intro allI impI)
    fix y assume "0 \<le> y \<and> y < a"
    then show "allocated dev s y" using le[of y] al(1) by (auto simp: free_blocks_def)
  qed
  have sep: "\<forall>x < unat (fssize (sb s)). map_block s x \<notin> H \<and> map_block s x \<noteq> word_of_nat a" "word_of_nat a \<notin> H"
    using H m a by (auto simp: map_ok_def)
  have la: "\<forall>x < unat (fssize (sb s)). map_block s x \<notin> log_area LOGDATA s" "word_of_nat a \<notin> log_area LOGDATA s"
    using m a by (simp_all add: map_ok_def)
  obtain s' where s': "balloc_loop me 0 dev s = Ok (word_of_nat a, s')"
     "wrote N dev me H 2 ((blk dev s)(map_block s a := mark_used (blk dev s (map_block s a)) (a mod BPB), word_of_nat a := replicate BSIZE 0)) s s'"
     "lstate.more s' = lstate.more s"
    using balloc_loop_tx[OF t dvd_0_right le0 al bel sep la] by (elim exE conjE) (rule that)
  note sb = fs_fields(1)[OF s'(3)]
  have mb: "map_block s' = map_block s" by (simp add: map_block_def sb fun_eq_iff)
  have len: "a mod BPB < 8 * length (blk dev s (map_block s a))" using cached_length[of dev s] t by (simp add: tx_def)
  have ax: "allocated dev s' x \<longleftrightarrow> x = a \<or> allocated dev s x" if "x < unat (fssize (sb s))" for x
  proof -
    have n: "map_block s x \<noteq> word_of_nat a" using sep that by blast
    show ?thesis
    proof (cases "map_block s x = map_block s a")
      case True
      have "blk dev s' (map_block s x) = mark_used (blk dev s (map_block s a)) (a mod BPB)"
        using n True by (simp add: wroteD(2)[OF s'(2)])
      then have "allocated dev s' x \<longleftrightarrow> a mod BPB = x mod BPB \<or> allocated dev s x"
        unfolding allocated_def mb using bit_used_mark(1)[OF len, of "x mod BPB"] True by simp
      moreover have "a mod BPB = x mod BPB \<longleftrightarrow> x = a" using map_block_inj[OF that al(1) True] by metis
      ultimately show ?thesis by blast
    next
      case False
      then have "blk dev s' (map_block s x) = blk dev s (map_block s x)" using n by (simp add: wroteD(2)[OF s'(2)])
      then show ?thesis unfolding allocated_def mb using False by auto
    qed
  qed
  have fb: "free_blocks dev s' = free_blocks dev s - {a}" using ax by (auto simp: free_blocks_def sb)
  then have mo: "map_ok dev s'" using m steady_log[OF wroteD(5)[OF s'(2)], of LOGDATA] by (auto simp: map_ok_def mb sb)
  have run: "balloc me dev s = Ok (word_of_nat a, s')" using s'(1) by (simp add: balloc_def)
  show ?thesis by (intro exI[of _ s'] conjI run s'(2,3) a fb mo)
qed

lemma bfree_tx:
  assumes t: "tx N dev me H s" "card H \<le> 2" "room N (Suc k) s" and m: "map_ok dev s"
    and b: "b \<noteq> 0" "unat b < unat (fssize (sb s))" "allocated dev s (unat b)" "\<forall>y < unat (fssize (sb s)). map_block s y \<noteq> b" "b \<notin> log_area LOGDATA s"
    and H: "map_block s (unat b) \<notin> H"
  shows "\<exists>s'. bfree me dev b s = Ok s' \<and>
     wrote N dev me H 1 ((blk dev s)(map_block s (unat b) := mark_free (blk dev s (map_block s (unat b))) (unat b mod BPB))) s s' \<and>
     lstate.more s' = lstate.more s \<and> free_blocks dev s' = insert (unat b) (free_blocks dev s) \<and> map_ok dev s'"
proof -
  define c where "c = map_block s (unat b)"
  define d where "d = mark_free (blk dev s c) (unat b mod BPB)"
  have bc: "BBLOCK b (sb s) = c" by (simp add: c_def map_block_def)
  have len: "length (blk dev s c) = BSIZE" using cached_length[of dev s] t by (simp add: tx_def)
  then have ld: "length d = BSIZE" by (simp add: d_def)
  have cH: "c \<notin> H" using H by (simp add: c_def)
  obtain i s1 s2 s3 where u: "bread me dev c s = Ok (i, s1)" "data_of i s1 = blk dev s c" "log_write i (set_data i d s1) = Ok s2"
     "brelse me i s2 = Ok s3" "wrote N dev me H 1 ((blk dev s)(c := d)) s s3"
    using update_tx[OF t(1) cH t(2) ld t(3)] m b(2) by (auto simp: map_ok_def c_def)
  have used: "bit_used (blk dev s c) (unat b mod BPB)" using b(3) by (simp add: allocated_def c_def)
  have run: "bfree me dev b s = Ok s3" using u(1-4) used by (simp add: bfree_def bc d_def)
  have mr: "lstate.more s3 = lstate.more s" by (rule bfree_more[OF run])
  note sb = fs_fields(1)[OF mr]
  have mb: "map_block s3 = map_block s" by (simp add: map_block_def sb fun_eq_iff)
  have l8: "unat b mod BPB < 8 * length (blk dev s c)" using len by simp
  have ax: "allocated dev s3 x \<longleftrightarrow> x \<noteq> unat b \<and> allocated dev s x" if "x < unat (fssize (sb s))" for x
    using bit_used_mark(2)[OF l8, of "x mod BPB"] map_block_inj[OF that b(2)]
    by (cases "map_block s x = c") (auto simp: allocated_def mb wroteD(2)[OF u(5)] d_def c_def)
  have fb: "free_blocks dev s3 = insert (unat b) (free_blocks dev s)" using ax b(2) by (auto simp: free_blocks_def sb)
  then have "map_ok dev s3" using m b steady_log[OF wroteD(5)[OF u(5)], of LOGDATA] by (auto simp: map_ok_def mb sb unat_gt_0)
  then show ?thesis using run u(5) mr fb unfolding c_def d_def by blast
qed

end
