(* ===== verification/Blockmap.thy ===== *)
theory Blockmap
  imports Transaction
begin

text \<open>
  \<open>bmap\<close> of \<open>kernel/fs.c\<close> as an operation on the map from the block indices of a file to block numbers: a block is
  found, or a free one is given to the file and reads as zeros; no other index, no other file and no other block
  changes.
\<close>

section \<open>The block map of an inode\<close>

text \<open>The block number at index \<open>bn\<close> of a file whose inode has the addresses \<open>ads\<close>, in the blocks \<open>B\<close>; 0 if there is none.\<close>

definition faddr :: "u32 list \<Rightarrow> (u32 \<Rightarrow> u8 list) \<Rightarrow> nat \<Rightarrow> u32" where
  "faddr ads B bn =
     (if bn < NDIRECT then ads ! bn
      else if ads ! NDIRECT = 0 then 0 else get32 (B (ads ! NDIRECT)) (4 * (bn - NDIRECT)))"

definition fdata :: "u32 list \<Rightarrow> (u32 \<Rightarrow> u8 list) \<Rightarrow> nat \<Rightarrow> u8 list" where
  "fdata ads B bn = (if faddr ads B bn = 0 then replicate BSIZE 0 else B (faddr ads B bn))"

definition owned :: "u32 list \<Rightarrow> (u32 \<Rightarrow> u8 list) \<Rightarrow> u32 set" where
  "owned ads B = {b. b \<noteq> 0 \<and> (b = ads ! NDIRECT \<or> (\<exists>bn < MAXFILE. b = faddr ads B bn))}"

definition good_map :: "u32 list \<Rightarrow> (u32 \<Rightarrow> u8 list) \<Rightarrow> bool" where
  "good_map ads B \<longleftrightarrow> length ads = NDIRECT + 1 \<and>
     (\<forall>bn < MAXFILE. faddr ads B bn \<noteq> 0 \<longrightarrow> faddr ads B bn \<noteq> ads ! NDIRECT \<and>
        (\<forall>bm < MAXFILE. faddr ads B bm = faddr ads B bn \<longrightarrow> bm = bn))"

definition extends ::
  "u32 set \<Rightarrow> u32 list \<Rightarrow> (u32 \<Rightarrow> u8 list) \<Rightarrow> u32 list \<Rightarrow> (u32 \<Rightarrow> u8 list) \<Rightarrow> bool" where
  "extends A ads B ads' B' \<longleftrightarrow> good_map ads' B' \<and> owned ads B \<subseteq> owned ads' B' \<and> owned ads' B' \<subseteq> owned ads B \<union> A \<and>
     (\<forall>bn < MAXFILE. fdata ads' B' bn = fdata ads B bn \<and> (faddr ads B bn \<noteq> 0 \<longrightarrow> faddr ads' B' bn = faddr ads B bn))"

lemma extends_refl: "good_map ads B \<Longrightarrow> extends A ads B ads B"
  by (auto simp: extends_def)

lemma extends_trans: "extends A ads B ads1 B1 \<Longrightarrow> extends C ads1 B1 ads2 B2 \<Longrightarrow> extends (A \<union> C) ads B ads2 B2"
  unfolding extends_def by (intro conjI) (blast, blast, blast, metis)

lemma faddr_owned: "bn < MAXFILE \<Longrightarrow> faddr ads B bn \<noteq> 0 \<Longrightarrow> faddr ads B bn \<in> owned ads B"
  by (auto simp: owned_def)

text \<open>The map with one more block, at index \<open>k\<close>, that reads as zeros.\<close>

lemma extends_one:
  assumes g: "good_map ads B" and l: "length ads' = NDIRECT + 1" "ads' ! NDIRECT = ads ! NDIRECT"
    and k: "k < MAXFILE" "faddr ads B k = 0" "a \<noteq> 0" "a \<notin> owned ads B" "B' a = replicate BSIZE 0"
    and f: "\<And>bn. bn < MAXFILE \<Longrightarrow> faddr ads' B' bn = (if bn = k then a else faddr ads B bn)"
    and B: "\<And>bn. bn < MAXFILE \<Longrightarrow> faddr ads B bn \<noteq> 0 \<Longrightarrow> B' (faddr ads B bn) = B (faddr ads B bn)"
  shows "extends {a} ads B ads' B'"
proof -
  have na: "faddr ads B bn \<noteq> a" if "bn < MAXFILE" for bn using k(3,4) faddr_owned[OF that] by metis
  have ni: "ads ! NDIRECT \<noteq> a" using k(3,4) by (auto simp: owned_def)
  have gm: "good_map ads' B'"
    unfolding good_map_def l(2)
  proof (intro conjI allI impI)
    fix bn assume bn: "bn < MAXFILE" "faddr ads' B' bn \<noteq> 0"
    then have nz: "bn \<noteq> k \<Longrightarrow> faddr ads B bn \<noteq> 0" using f[OF bn(1)] by simp
    then show "faddr ads' B' bn \<noteq> ads ! NDIRECT" using f[OF bn(1)] ni g bn(1) by (auto simp: good_map_def)
    fix bm assume bm: "bm < MAXFILE" "faddr ads' B' bm = faddr ads' B' bn"
    show "bm = bn"
    proof (cases "bn = k \<or> bm = k")
      case True
      then show ?thesis using f[OF bn(1)] f[OF bm(1)] bm(2) na[OF bn(1)] na[OF bm(1)] by (auto split: if_splits)
    next
      case False
      then show ?thesis using f[OF bn(1)] f[OF bm(1)] bm nz g bn(1) by (simp add: good_map_def)
    qed
  qed (rule l(1))
  have o: "owned ads' B' = insert a (owned ads B)"
  proof (intro set_eqI iffI)
    fix b assume "b \<in> owned ads' B'"
    then consider "b \<noteq> 0" "b = ads ! NDIRECT" | bn where "b \<noteq> 0" "bn < MAXFILE" "b = faddr ads' B' bn"
      by (auto simp: owned_def l)
    then show "b \<in> insert a (owned ads B)"
    proof cases
      case (2 bn)
      then show ?thesis using f[OF 2(2)] by (auto simp: owned_def split: if_splits)
    qed (simp add: owned_def)
  next
    fix b assume "b \<in> insert a (owned ads B)"
    then consider "b = a" | "b \<noteq> 0" "b = ads ! NDIRECT" | bn where "b \<noteq> 0" "bn < MAXFILE" "bn \<noteq> k" "b = faddr ads B bn"
      using k(2) by (auto simp: owned_def)
    then show "b \<in> owned ads' B'"
    proof cases
      case 1
      then have "b = faddr ads' B' k" using f[OF k(1)] by simp
      then show ?thesis using 1 k(1,3) by (auto simp: owned_def)
    next
      case 2
      then show ?thesis by (simp add: owned_def l)
    next
      case (3 bn)
      then have "b = faddr ads' B' bn" using f[OF 3(2)] by simp
      then show ?thesis using 3 by (auto simp: owned_def)
    qed
  qed
  have "fdata ads' B' bn = fdata ads B bn" if bn: "bn < MAXFILE" for bn
    using f[OF bn] B[OF bn] k by (cases "bn = k") (auto simp: fdata_def)
  then show ?thesis using gm o f k(2) by (auto simp: extends_def)
qed

lemma extends_direct:
  assumes g: "good_map ads B" and k: "k < NDIRECT" "ads ! k = 0" "a \<noteq> 0" "a \<notin> owned ads B" "B' a = replicate BSIZE 0"
    and B: "\<And>b. b \<in> owned ads B \<Longrightarrow> B' b = B b"
  shows "extends {a} ads B (ads[k := a]) B'" "faddr (ads[k := a]) B' k = a"
proof -
  have l: "length ads = NDIRECT + 1" using g by (simp add: good_map_def)
  have i: "ads ! NDIRECT \<noteq> 0 \<Longrightarrow> B' (ads ! NDIRECT) = B (ads ! NDIRECT)" by (rule B) (simp add: owned_def)
  have f: "faddr (ads[k := a]) B' bn = (if bn = k then a else faddr ads B bn)" for bn
    using k(1) l i by (auto simp: faddr_def nth_list_update)
  show "extends {a} ads B (ads[k := a]) B'"
    by (rule extends_one[where k = k]) (use g l k f B faddr_owned in \<open>auto simp: faddr_def\<close>)
  show "faddr (ads[k := a]) B' k = a" using f by simp
qed

lemma get32_zero: "j + 4 \<le> n \<Longrightarrow> get32 (replicate n 0) j = 0"
  by (simp add: get32_def le32_def)

text \<open>A fresh indirect block changes nothing yet.\<close>

lemma extends_indirect:
  assumes g: "good_map ads B" and k: "ads ! NDIRECT = 0" "a \<noteq> 0" "a \<notin> owned ads B" "B' a = replicate BSIZE 0"
    and B: "\<And>b. b \<in> owned ads B \<Longrightarrow> B' b = B b"
  shows "extends {a} ads B (ads[NDIRECT := a]) B'"
proof -
  have l: "length ads = NDIRECT + 1" using g by (simp add: good_map_def)
  have z: "get32 (B' a) (4 * (bn - NDIRECT)) = 0" if "bn < MAXFILE" for bn
    unfolding k(4) by (rule get32_zero) (use that in auto)
  have f: "faddr (ads[NDIRECT := a]) B' bn = faddr ads B bn" if "bn < MAXFILE" for bn
    using z[OF that] k(1) l by (simp add: faddr_def)
  have "good_map (ads[NDIRECT := a]) B'"
    using g l f faddr_owned[of _ ads B] k(3) unfolding good_map_def by (simp add: f) metis
  moreover have "owned (ads[NDIRECT := a]) B' = insert a (owned ads B)"
    using k(1,2) l f by (auto simp: owned_def)
  moreover have "fdata (ads[NDIRECT := a]) B' bn = fdata ads B bn" if "bn < MAXFILE" for bn
    using f[OF that] B[OF faddr_owned[OF that]] by (auto simp: fdata_def)
  ultimately show ?thesis using f by (auto simp: extends_def)
qed

lemma extends_entry:
  assumes g: "good_map ads B" and n: "NDIRECT \<le> k" "k < MAXFILE" and ind: "ads ! NDIRECT \<noteq> 0" "faddr ads B k = 0"
    and a: "a \<noteq> 0" "a \<notin> owned ads B" "B' a = replicate BSIZE 0" and len: "length (B (ads ! NDIRECT)) = BSIZE"
    and Bi: "B' (ads ! NDIRECT) = put32 (B (ads ! NDIRECT)) (4 * (k - NDIRECT)) a"
    and B: "\<And>b. b \<in> owned ads B \<Longrightarrow> b \<noteq> ads ! NDIRECT \<Longrightarrow> B' b = B b"
  shows "extends {a} ads B ads B'" "faddr ads B' k = a"
proof -
  have f: "faddr ads B' bn = (if bn = k then a else faddr ads B bn)" if bn: "bn < MAXFILE" for bn
  proof (cases "bn < NDIRECT")
    case False
    have "4 * (k - NDIRECT) + 4 \<le> BSIZE" "4 * (bn - NDIRECT) + 4 \<le> BSIZE" using n bn by auto
    moreover have "bn \<noteq> k \<Longrightarrow> 4 * (bn - NDIRECT) + 4 \<le> 4 * (k - NDIRECT) \<or> 4 * (k - NDIRECT) + 4 \<le> 4 * (bn - NDIRECT)"
      using False n by arith
    ultimately show ?thesis using False ind(1) len
      by (cases "bn = k") (simp_all add: faddr_def Bi get32_put32 get32_put32_other)
  qed (use n in \<open>auto simp: faddr_def\<close>)
  show "faddr ads B' k = a" using f[OF n(2)] by simp
  show "extends {a} ads B ads B'"
  proof (rule extends_one[where k = k])
    show "B' (faddr ads B bn) = B (faddr ads B bn)" if "bn < MAXFILE" "faddr ads B bn \<noteq> 0" for bn
      using B[OF faddr_owned[OF that]] g that by (auto simp: good_map_def)
  qed (use g n ind a f in \<open>auto simp: good_map_def\<close>)
qed

section \<open>Files\<close>

text \<open>The blocks of the free map, of the inodes and of the log.\<close>

definition map_blocks :: "'a fstate_scheme \<Rightarrow> u32 set" where
  "map_blocks s = {map_block s y |y. y < unat (fssize (sb s))}"

definition meta_blocks :: "'a fstate_scheme \<Rightarrow> u32 set" where
  "meta_blocks s = map_blocks s \<union> {IBLOCK n (sb s) |n. n < ninodes (sb s)} \<union> log_area LOGDATA s"

text \<open>No free block is one of these, nor block 0, and the three kinds are apart.\<close>

definition fs_ok :: "u32 \<Rightarrow> 'a fstate_scheme \<Rightarrow> bool" where
  "fs_ok dev s \<longleftrightarrow> (\<forall>x \<in> free_blocks dev s. x \<noteq> 0 \<and> word_of_nat x \<notin> meta_blocks s) \<and>
     (\<forall>n < ninodes (sb s). IBLOCK n (sb s) \<notin> log_area LOGDATA s \<and> (\<forall>y < unat (fssize (sb s)). IBLOCK n (sb s) \<noteq> map_block s y)) \<and>
     (\<forall>y < unat (fssize (sb s)). map_block s y \<notin> log_area LOGDATA s)"

definition file_ok :: "u32 \<Rightarrow> 'a fstate_scheme \<Rightarrow> nat \<Rightarrow> bool" where
  "file_ok dev s i \<longleftrightarrow> i < length (itable s) \<and> idev (inode_at s i) = dev \<and> inum (inode_at s i) < ninodes (sb s) \<and>
     good_map (addrs (inode_at s i)) (blk dev s) \<and>
     (\<forall>b \<in> owned (addrs (inode_at s i)) (blk dev s).
        unat b < unat (fssize (sb s)) \<and> unat b \<notin> free_blocks dev s \<and> b \<notin> meta_blocks s)"

text \<open>Blocks came to file \<open>i\<close> from the free ones; nothing else changed but the free map.\<close>

definition grew :: "u32 \<Rightarrow> nat \<Rightarrow> 'a fstate_scheme \<Rightarrow> 'a fstate_scheme \<Rightarrow> bool" where
  "grew dev i s s' \<longleftrightarrow> sb s' = sb s \<and> log_start s' = log_start s \<and> itable s' = (itable s)[i := (inode_at s i)\<lparr>addrs := addrs (inode_at s' i)\<rparr>] \<and>
     free_blocks dev s' \<subseteq> free_blocks dev s \<and>
     extends (word_of_nat ` (free_blocks dev s - free_blocks dev s')) (addrs (inode_at s i)) (blk dev s) (addrs (inode_at s' i)) (blk dev s') \<and>
     fs_ok dev s' \<and>
     (\<forall>b. b \<notin> map_blocks s \<and> unat b \<notin> free_blocks dev s \<and> b \<notin> owned (addrs (inode_at s i)) (blk dev s) \<longrightarrow> blk dev s' b = blk dev s b)"

lemma fs_map_ok: "fs_ok dev s \<Longrightarrow> map_ok dev s"
  by (auto simp: fs_ok_def map_ok_def meta_blocks_def map_blocks_def)

lemma meta_sb: "sb s' = sb s \<Longrightarrow> log_start s' = log_start s \<Longrightarrow>
    meta_blocks s' = meta_blocks s \<and> map_blocks s' = map_blocks s \<and> map_block s' = map_block s \<and> log_area n s' = log_area n s"
  by (simp add: meta_blocks_def map_blocks_def map_block_def fun_eq_iff log_area_def log_at_def head_at_def)

lemma free_lt: "x \<in> free_blocks dev s \<Longrightarrow> x < unat (fssize (sb s))"
  by (simp add: free_blocks_def)

lemma free_word: "x \<in> free_blocks dev s \<Longrightarrow> unat (word_of_nat x :: u32) = x"
  by (rule unat_word_nat[OF free_lt])

lemma grewD:
  assumes "grew dev i s s'"
  shows "sb s' = sb s" "free_blocks dev s' \<subseteq> free_blocks dev s"
    "extends (word_of_nat ` (free_blocks dev s - free_blocks dev s')) (addrs (inode_at s i)) (blk dev s) (addrs (inode_at s' i)) (blk dev s')"
    "fs_ok dev s'"
    "\<And>b. b \<notin> map_blocks s \<Longrightarrow> unat b \<notin> free_blocks dev s \<Longrightarrow> b \<notin> owned (addrs (inode_at s i)) (blk dev s) \<Longrightarrow> blk dev s' b = blk dev s b"
    "meta_blocks s' = meta_blocks s" "log_start s' = log_start s" "map_blocks s' = map_blocks s"
proof -
  note g = assms[unfolded grew_def]
  show sb: "sb s' = sb s" by (rule conjunct1[OF g])
  show ls: "log_start s' = log_start s" by (rule conjunct1[OF conjunct2[OF g]])
  show "meta_blocks s' = meta_blocks s" "map_blocks s' = map_blocks s" using meta_sb[OF sb ls] by simp_all
  note g2 = conjunct2[OF conjunct2[OF conjunct2[OF g]]]
  show "free_blocks dev s' \<subseteq> free_blocks dev s" by (rule conjunct1[OF g2])
  note g3 = conjunct2[OF g2]
  show "extends (word_of_nat ` (free_blocks dev s - free_blocks dev s')) (addrs (inode_at s i)) (blk dev s) (addrs (inode_at s' i)) (blk dev s')"
    by (rule conjunct1[OF g3])
  show "fs_ok dev s'" by (rule conjunct1[OF conjunct2[OF g3]])
  show "blk dev s' b = blk dev s b"
    if "b \<notin> map_blocks s" "unat b \<notin> free_blocks dev s" "b \<notin> owned (addrs (inode_at s i)) (blk dev s)" for b
    using conjunct2[OF conjunct2[OF g3]] that by blast
qed

lemma grew_inode:
  assumes "grew dev i s s'" "i < length (itable s)"
  obtains ads where "addrs (inode_at s' i) = ads" "inode_at s' i = (inode_at s i)\<lparr>addrs := ads\<rparr>"
    "itable s' = (itable s)[i := (inode_at s i)\<lparr>addrs := ads\<rparr>]" "length (itable s') = length (itable s)"
proof -
  define ads where "ads = addrs (inode_at s' i)"
  have it: "itable s' = (itable s)[i := (inode_at s i)\<lparr>addrs := ads\<rparr>]" using assms(1) unfolding grew_def ads_def by (elim conjE)
  then have l: "inode_at s' i = (inode_at s i)\<lparr>addrs := ads\<rparr>" "length (itable s') = length (itable s)" using assms(2) by simp_all
  show thesis by (rule that[OF ads_def[symmetric] l(1) it l(2)])
qed

lemma file_free:
  "file_ok dev s i \<Longrightarrow> x \<in> free_blocks dev s \<Longrightarrow> word_of_nat x \<notin> owned (addrs (inode_at s i)) (blk dev s)"
  by (auto simp: file_ok_def free_word)

lemma grew_file_ok:
  assumes f: "file_ok dev s i" and g: "grew dev i s s'" and k: "fs_ok dev s"
  shows "file_ok dev s' i"
proof -
  note d = grewD[OF g]
  have i: "i < length (itable s)" using f by (simp add: file_ok_def)
  obtain ads where e: "inode_at s' i = (inode_at s i)\<lparr>addrs := ads\<rparr>" "length (itable s') = length (itable s)"
    using grew_inode[OF g i] .
  have b: "unat b < unat (fssize (sb s)) \<and> unat b \<notin> free_blocks dev s' \<and> b \<notin> meta_blocks s"
    if "b \<in> owned ads (blk dev s')" for b
  proof -
    have "b \<in> owned (addrs (inode_at s i)) (blk dev s) \<or> b \<in> word_of_nat ` (free_blocks dev s - free_blocks dev s')"
      using that d(3) e(1) by (auto simp: extends_def)
    then show ?thesis
    proof
      assume "b \<in> owned (addrs (inode_at s i)) (blk dev s)"
      then show ?thesis using f d(2) by (auto simp: file_ok_def)
    next
      assume "b \<in> word_of_nat ` (free_blocks dev s - free_blocks dev s')"
      then obtain x where x: "x \<in> free_blocks dev s" "x \<notin> free_blocks dev s'" "b = word_of_nat x" by auto
      then show ?thesis using k free_lt[OF x(1)] free_word[OF x(1)] by (simp add: fs_ok_def)
    qed
  qed
  have "good_map ads (blk dev s')" using d(3) e(1) by (simp add: extends_def)
  then show ?thesis using f b e d(1,6) by (simp add: file_ok_def)
qed

lemma grew_refl: "file_ok dev s i \<Longrightarrow> fs_ok dev s \<Longrightarrow> grew dev i s s"
  by (auto simp: grew_def file_ok_def extends_refl)

lemma grew_trans:
  assumes "grew dev i s s1" "grew dev i s1 s2" "i < length (itable s)"
  shows "grew dev i s s2"
proof -
  note sb = meta_sb[of s1 s]
  obtain a1 where a1: "inode_at s1 i = (inode_at s i)\<lparr>addrs := a1\<rparr>" "itable s1 = (itable s)[i := (inode_at s i)\<lparr>addrs := a1\<rparr>]"
    "length (itable s1) = length (itable s)" using grew_inode[OF assms(1,3)] .
  have l1: "i < length (itable s1)" using assms(3) a1(3) by simp
  obtain a2 where a2: "addrs (inode_at s2 i) = a2" "itable s2 = (itable s1)[i := (inode_at s1 i)\<lparr>addrs := a2\<rparr>]"
    using grew_inode[OF assms(2) l1] .
  have it: "itable s2 = (itable s)[i := (inode_at s i)\<lparr>addrs := addrs (inode_at s2 i)\<rparr>]"
    unfolding a2(1) using a2(2) a1(1,2) by simp
  have ex: "extends (word_of_nat ` (free_blocks dev s - free_blocks dev s2)) (addrs (inode_at s i)) (blk dev s) (addrs (inode_at s2 i)) (blk dev s2)"
  proof -
    have "word_of_nat ` (free_blocks dev s - free_blocks dev s1) \<union> word_of_nat ` (free_blocks dev s1 - free_blocks dev s2) =
      (word_of_nat ` (free_blocks dev s - free_blocks dev s2) :: u32 set)"
      using grewD(2)[OF assms(1)] grewD(2)[OF assms(2)] by (auto simp: image_Un[symmetric])
    then show ?thesis using extends_trans[OF grewD(3)[OF assms(1)] grewD(3)[OF assms(2)]] by metis
  qed
  have fr: "blk dev s2 b = blk dev s b"
    if b: "b \<notin> map_blocks s" "unat b \<notin> free_blocks dev s" "b \<notin> owned (addrs (inode_at s i)) (blk dev s)" for b
  proof -
    have n: "b \<notin> owned (addrs (inode_at s1 i)) (blk dev s1)"
    proof
      assume "b \<in> owned (addrs (inode_at s1 i)) (blk dev s1)"
      then have "b \<in> word_of_nat ` (free_blocks dev s - free_blocks dev s1)" using b(3) grewD(3)[OF assms(1)] by (auto simp: extends_def)
      then show False using b(2) by (auto simp: free_word)
    qed
    have "unat b \<notin> free_blocks dev s1" using b(2) grewD(2)[OF assms(1)] by blast
    then show ?thesis using grewD(5)[OF assms(2) _ _ n] grewD(5)[OF assms(1) b] b(1) grewD(8)[OF assms(1)] by simp
  qed
  show ?thesis unfolding grew_def
  proof (intro conjI allI impI)
    show "sb s2 = sb s" "log_start s2 = log_start s"
      using grewD(1,7)[OF assms(1)] grewD(1,7)[OF assms(2)] by simp_all
    show "free_blocks dev s2 \<subseteq> free_blocks dev s" using grewD(2)[OF assms(1)] grewD(2)[OF assms(2)] by blast
    show "blk dev s2 b = blk dev s b"
      if "b \<notin> map_blocks s \<and> unat b \<notin> free_blocks dev s \<and> b \<notin> owned (addrs (inode_at s i)) (blk dev s)" for b
      using fr that by blast
  qed (rule it ex grewD(4)[OF assms(2)])+
qed

section \<open>Finding and allocating the blocks of a file\<close>

lemma itable_view [simp]:
  "tx N dev me H (s\<lparr>itable := t\<rparr>) = tx N dev me H s" "blk dev (s\<lparr>itable := t\<rparr>) = blk dev s"
  "owns dev (s\<lparr>itable := t\<rparr>) = owns dev s" "logged (s\<lparr>itable := t\<rparr>) = logged s"
  "free_blocks dev (s\<lparr>itable := t\<rparr>) = free_blocks dev s" "map_block (s\<lparr>itable := t\<rparr>) = map_block s"
  "log_area n (s\<lparr>itable := t\<rparr>) = log_area n s"
proof -
  have la: "log_area n (s\<lparr>itable := t\<rparr>) = log_area n s" for n by (simp add: log_area_def head_at_def log_at_def)
  then show "log_area n (s\<lparr>itable := t\<rparr>) = log_area n s" .
  note v = view_cong[of "s\<lparr>itable := t\<rparr>" s]
  have l: "logged (s\<lparr>itable := t\<rparr>) = logged s" by (simp add: logged_def)
  have m: "map_block (s\<lparr>itable := t\<rparr>) = map_block s" by (simp add: map_block_def fun_eq_iff)
  show "logged (s\<lparr>itable := t\<rparr>) = logged s" "map_block (s\<lparr>itable := t\<rparr>) = map_block s" by (fact l m)+
  have p: "mypid me (s\<lparr>itable := t\<rparr>) = mypid me s" by (simp add: mypid_def)
  show "tx N dev me H (s\<lparr>itable := t\<rparr>) = tx N dev me H s" unfolding tx_def l p la by (simp add: v)
  show "blk dev (s\<lparr>itable := t\<rparr>) = blk dev s" "owns dev (s\<lparr>itable := t\<rparr>) = owns dev s" using v by simp_all
  then show "free_blocks dev (s\<lparr>itable := t\<rparr>) = free_blocks dev s" by (simp add: free_blocks_def allocated_def m)
qed

lemma wrote_itable: "wrote N dev me H k D s (s1\<lparr>itable := t\<rparr>) = wrote N dev me H k D s s1"
  by (simp add: wrote_def steady_def)

text \<open>The state after a block was allocated to the file.\<close>

lemma grewI:
  assumes f: "file_ok dev s i" and k: "fs_ok dev s" and a: "a \<in> free_blocks dev s"
    and s': "sb s' = sb s \<and> log_start s' = log_start s" "itable s' = (itable s)[i := (inode_at s i)\<lparr>addrs := ads\<rparr>]" "free_blocks dev s' = free_blocks dev s - {a}"
    and ex: "extends {word_of_nat a} (addrs (inode_at s i)) (blk dev s) ads (blk dev s')"
    and B: "\<And>b. b \<notin> map_blocks s \<Longrightarrow> unat b \<notin> free_blocks dev s \<Longrightarrow> b \<notin> owned (addrs (inode_at s i)) (blk dev s) \<Longrightarrow> blk dev s' b = blk dev s b"
  shows "grew dev i s s'"
proof -
  have i: "i < length (itable s)" using f by (simp add: file_ok_def)
  have ads: "addrs (inode_at s' i) = ads" using s'(2) i by simp
  have fr: "word_of_nat ` (free_blocks dev s - free_blocks dev s') = {word_of_nat a :: u32}" using s'(3) a by auto
  have fo: "fs_ok dev s'" using k meta_sb[of s' s] s'(1,3) by (auto simp: fs_ok_def)
  show ?thesis unfolding grew_def ads fr
  proof (intro conjI allI impI)
    show "free_blocks dev s' \<subseteq> free_blocks dev s" using s'(3) by blast
    show "blk dev s' b = blk dev s b"
      if "b \<notin> map_blocks s \<and> unat b \<notin> free_blocks dev s \<and> b \<notin> owned (addrs (inode_at s i)) (blk dev s)" for b
      using B that by blast
  qed (rule conjunct1[OF s'(1)] conjunct2[OF s'(1)] s'(2) ex fo)+
qed

lemma map_in: "x < unat (fssize (sb s)) \<Longrightarrow> map_block s x \<in> map_blocks s"
  by (auto simp: map_blocks_def)

lemma map_meta: "x < unat (fssize (sb s)) \<Longrightarrow> map_block s x \<in> meta_blocks s"
  by (simp add: meta_blocks_def map_in)

lemma meta_map: "b \<notin> meta_blocks s \<Longrightarrow> b \<notin> map_blocks s"
  by (simp add: meta_blocks_def)

lemma free_nonzero: "fs_ok dev s \<Longrightarrow> a \<in> free_blocks dev s \<Longrightarrow> word_of_nat a \<noteq> (0 :: u32)"
  using free_word[of a dev s] by (auto simp: fs_ok_def)

lemma direct_tx:
  assumes t: "tx N dev me {} s" "room N 2 s" and k: "fs_ok dev s" and f: "file_ok dev s i" and n: "free_blocks dev s \<noteq> {}" and j: "j \<le> NDIRECT"
  shows "\<exists>a s'. direct_block me i j s = Ok (a, s') \<and> a = addrs (inode_at s' i) ! j \<and> a \<noteq> 0 \<and> wrote N dev me {} 2 (blk dev s') s s' \<and>
     grew dev i s s' \<and> card (free_blocks dev s) \<le> Suc (card (free_blocks dev s'))"
proof (cases "addrs (inode_at s i) ! j = 0")
  case False
  then have "direct_block me i j s = Ok (addrs (inode_at s i) ! j, s)" by (simp add: direct_block_def)
  moreover have "wrote N dev me {} 2 (blk dev s) s s" by (rule wrote_refl[OF t(1)])
  ultimately show ?thesis using False grew_refl[OF f k] le_SucI[OF le_refl] by blast
next
  case True
  define a where "a = Min (free_blocks dev s)"
  define w where "w = (word_of_nat a :: u32)"
  have c0: "card ({} :: u32 set) \<le> 1" by simp
  obtain s1 where b: "balloc me dev s = Ok (w, s1)"
    "wrote N dev me {} 2 ((blk dev s)(map_block s a := mark_used (blk dev s (map_block s a)) (a mod BPB), w := replicate BSIZE 0)) s s1"
    "lstate.more s1 = lstate.more s" "a \<in> free_blocks dev s" "free_blocks dev s1 = free_blocks dev s - {a}"
    using balloc_tx[OF t(1) c0 t(2) fs_map_ok[OF k] n, folded a_def w_def] by auto
  note fl = fs_fields[OF b(3)]
  define ads where "ads = (addrs (inode_at s i))[j := w]"
  define s' where "s' = s1\<lparr>itable := (itable s)[i := (inode_at s i)\<lparr>addrs := ads\<rparr>]\<rparr>"
  have i: "i < length (itable s)" and gm: "good_map (addrs (inode_at s i)) (blk dev s)" and dv: "idev (inode_at s i) = dev"
    using f by (simp_all add: file_ok_def)
  have wz: "w \<noteq> 0" unfolding w_def by (rule free_nonzero[OF k b(4)])
  have run: "direct_block me i j s = Ok (w, s')"
    using True b(1) wz dv fl by (simp add: direct_block_def set_addr_def upd_inode_def s'_def ads_def)
  have D: "blk dev s' = (blk dev s)(map_block s a := mark_used (blk dev s (map_block s a)) (a mod BPB), w := replicate BSIZE 0)"
    using wroteD(2)[OF b(2)] by (simp add: s'_def)
  have mm: "map_block s a \<in> map_blocks s" using map_in free_lt[OF b(4)] by blast
  have B: "blk dev s' x = blk dev s x" if "x \<notin> map_blocks s" "unat x \<notin> free_blocks dev s" for x
    using that mm b(4) by (auto simp: D w_def free_word)
  have o: "x \<in> owned (addrs (inode_at s i)) (blk dev s) \<Longrightarrow> blk dev s' x = blk dev s x" for x
    using f B by (auto simp: file_ok_def meta_map)
  have wo: "w \<notin> owned (addrs (inode_at s i)) (blk dev s)" unfolding w_def by (rule file_free[OF f b(4)])
  have z: "blk dev s' w = replicate BSIZE 0" by (simp add: D)
  have ex: "extends {w} (addrs (inode_at s i)) (blk dev s) ads (blk dev s')"
  proof (cases "j = NDIRECT")
    case True
    then show ?thesis unfolding ads_def using extends_indirect[OF gm _ wz wo z o] \<open>addrs (inode_at s i) ! j = 0\<close> by simp
  next
    case False
    then have "j < NDIRECT" using j by simp
    then show ?thesis unfolding ads_def using extends_direct(1)[OF gm _ True wz wo z o] by simp
  qed
  have g: "grew dev i s s'"
    by (rule grewI[OF f k b(4), where ads = ads]) (use fl wroteD(5)[OF b(2)] b(5) ex B in \<open>simp_all add: s'_def w_def steady_def\<close>)
  have "addrs (inode_at s' i) ! j = w" using i gm j by (simp add: s'_def ads_def good_map_def)
  moreover have "wrote N dev me {} 2 (blk dev s') s s'" using b(2) unfolding D by (simp add: s'_def wrote_itable)
  moreover have "card (free_blocks dev s) \<le> Suc (card (free_blocks dev s'))" using card_Suc_Diff1[OF finite_free b(4)] b(5) by (simp add: s'_def)
  ultimately show ?thesis using run wz g by blast
qed

lemma bread_ro:
  assumes t: "tx N dev me H s" and b: "b \<notin> H" "card H \<le> 2" and r: "lh_n s + 3 \<le> int N"
  shows "\<exists>i s1. bread me dev b s = Ok (i, s1) \<and> data_of i s1 = blk dev s b \<and> owns dev s1 i b \<and>
     wrote N dev me (insert b H) 0 (blk dev s) s s1"
proof -
  have "nat (lh_n s) + card H < N" using b r tx_nonneg[OF t] by arith
  from tx_bread[OF t b(1) this] show ?thesis unfolding wrote_def by fastforce
qed

lemma view_ro:
  assumes "tx N dev me {} s" and "lh_n s + 3 \<le> int N"
  shows "\<exists>i s1 s2. bread me dev b s = Ok (i, s1) \<and> data_of i s1 = blk dev s b \<and> lstate.more s1 = lstate.more s \<and>
     brelse me i s1 = Ok s2 \<and> wrote N dev me {} 0 (blk dev s) s s2 \<and> lstate.more s2 = lstate.more s"
proof -
  obtain i s1 where 1: "bread me dev b s = Ok (i, s1)" "data_of i s1 = blk dev s b" "owns dev s1 i b"
    "wrote N dev me {b} 0 (blk dev s) s s1" using bread_ro[OF assms(1) _ _ assms(2), of b] by auto
  obtain s2 where 2: "brelse me i s1 = Ok s2" "wrote N dev me {} 0 (blk dev s1) s1 s2"
    using brelse_tx[OF wroteD(1)[OF 1(4)] _ 1(3)] by auto
  have "wrote N dev me {} 0 (blk dev s) s s2" using wrote_less[OF 1(4) 2(2)] wroteD(2)[OF 1(4)] by simp
  then show ?thesis using 1(1,2) 2(1) bread_lmore[OF 1(1)] brelse_lmore[OF 2(1)] by (intro exI[of _ i] exI[of _ s1] exI[of _ s2]) simp
qed

lemma bmap_found:
  assumes t: "tx N dev me {} s" "lh_n s + 3 \<le> int N" and dv: "idev (inode_at s i) = dev"
    and bn: "bn < MAXFILE" "faddr (addrs (inode_at s i)) (blk dev s) bn \<noteq> 0"
  shows "\<exists>s'. bmap me i bn s = Ok (faddr (addrs (inode_at s i)) (blk dev s) bn, s') \<and> wrote N dev me {} 0 (blk dev s) s s' \<and>
     lstate.more s' = lstate.more s"
proof (cases "bn < NDIRECT")
  case True
  then have "bmap me i bn s = Ok (faddr (addrs (inode_at s i)) (blk dev s) bn, s)"
    using bn by (simp add: bmap_def direct_block_def faddr_def)
  then show ?thesis using wrote_refl[OF t(1)] by blast
next
  case False
  define ind where "ind = addrs (inode_at s i) ! NDIRECT"
  have i0: "ind \<noteq> 0" using False bn(2) by (auto simp: faddr_def ind_def split: if_splits)
  obtain bp s1 s2 where v: "bread me dev ind s = Ok (bp, s1)" "data_of bp s1 = blk dev s ind" "lstate.more s1 = lstate.more s"
    "brelse me bp s1 = Ok s2" "wrote N dev me {} 0 (blk dev s) s s2" "lstate.more s2 = lstate.more s"
    using view_ro[OF t] by blast
  have e: "get32 (blk dev s ind) (4 * (bn - NDIRECT)) = faddr (addrs (inode_at s i)) (blk dev s) bn"
    using False i0 by (simp add: faddr_def ind_def)
  have "bmap me i bn s = Ok (faddr (addrs (inode_at s i)) (blk dev s) bn, s2)"
    using False bn v(1,2,4) i0 e dv by (simp add: bmap_def direct_block_def ind_def[symmetric] Let_def)
  then show ?thesis using v(5,6) by blast
qed

lemma grew_same:
  assumes "file_ok dev s i" "fs_ok dev s" "blk dev s' = blk dev s" "lstate.more s' = lstate.more s" "log_start s' = log_start s"
  shows "grew dev i s s'" "free_blocks dev s' = free_blocks dev s"
proof -
  note f = fs_fields[OF assms(4)] meta_sb[OF fs_fields(1)[OF assms(4)] assms(5)]
  show fr: "free_blocks dev s' = free_blocks dev s" using f assms(3) by (simp add: free_blocks_def allocated_def)
  have "fs_ok dev s'" using assms(2) f fr by (simp add: fs_ok_def)
  then show "grew dev i s s'" using assms(1,3,5) f fr by (simp add: grew_def file_ok_def extends_refl)
qed

lemma bmap_indirect:
  assumes t: "tx N dev me {} s" "room N 3 s" and k: "fs_ok dev s" and f: "file_ok dev s i" and n: "free_blocks dev s \<noteq> {}"
    and bn: "NDIRECT \<le> bn" "bn < MAXFILE" and ind: "ind = addrs (inode_at s i) ! NDIRECT" "ind \<noteq> 0"
  shows "\<exists>a s'. rbind (bread me (idev (inode_at s i)) ind s) (\<lambda>(bp, s2).
        let k = 4 * (bn - NDIRECT); a = get32 (data_of bp s2) k in
        if a = 0
        then rbind (balloc me (idev (inode_at s2 i)) s2) (\<lambda>(a1, s3).
               rbind (if a1 \<noteq> 0 then log_write bp (set_data bp (put32 (data_of bp s3) k a1) s3) else Ok s3) (\<lambda>s4.
               rbind (brelse me bp s4) (\<lambda>s5. Ok (a1, s5))))
        else rbind (brelse me bp s2) (\<lambda>s3. Ok (a, s3))) = Ok (a, s') \<and>
     a = faddr (addrs (inode_at s' i)) (blk dev s') bn \<and> a \<noteq> 0 \<and> wrote N dev me {} 3 (blk dev s') s s' \<and> grew dev i s s' \<and>
     card (free_blocks dev s) \<le> Suc (card (free_blocks dev s'))"
proof -
  let ?ads = "addrs (inode_at s i)"
  have i: "i < length (itable s)" and gm: "good_map ?ads (blk dev s)" and dv: "idev (inode_at s i) = dev"
    using f by (simp_all add: file_ok_def)
  have io: "ind \<in> owned ?ads (blk dev s)" using ind by (simp add: owned_def)
  then have im: "ind \<notin> meta_blocks s" "unat ind \<notin> free_blocks dev s" using f by (auto simp: file_ok_def)
  have fe: "get32 (blk dev s ind) (4 * (bn - NDIRECT)) = faddr ?ads (blk dev s) bn" using bn ind by (simp add: faddr_def)
  have s3: "lh_n s + 3 \<le> int N" using t(2) by (simp add: room_def)
  show ?thesis
  proof (cases "faddr ?ads (blk dev s) bn = 0")
    case False
    obtain bp s1 s2 where v: "bread me dev ind s = Ok (bp, s1)" "data_of bp s1 = blk dev s ind"
      "brelse me bp s1 = Ok s2" "wrote N dev me {} 0 (blk dev s) s s2" "lstate.more s2 = lstate.more s"
      using view_ro[OF t(1) s3] by blast
    note g = grew_same[OF f k wroteD(2)[OF v(4)] v(5) wrote_log[OF v(4)]]
    have "faddr (addrs (inode_at s2 i)) (blk dev s2) bn = faddr ?ads (blk dev s) bn"
      using fs_fields(2)[OF v(5)] wroteD(2)[OF v(4)] by simp
    then show ?thesis using v(1-3) False dv fe g wrote_mono[OF v(4), of 3] wroteD(2)[OF v(4)]
      by (intro exI[of _ "faddr ?ads (blk dev s) bn"] exI[of _ s2]) (simp add: Let_def)
  next
    case True
    define a where "a = Min (free_blocks dev s)"
    define w where "w = (word_of_nat a :: u32)"
    define M where "M = mark_used (blk dev s (map_block s a)) (a mod BPB)"
    have c0: "card ({} :: u32 set) \<le> 2" "card {ind} \<le> 1" by simp_all
    obtain bp s1 where r: "bread me dev ind s = Ok (bp, s1)" "data_of bp s1 = blk dev s ind" "owns dev s1 bp ind"
      "wrote N dev me {ind} 0 (blk dev s) s s1" using bread_ro[OF t(1) _ c0(1) s3, of ind] by auto
    note m1 = bread_lmore[OF r(1)]
    note g1 = grew_same[OF f k wroteD(2)[OF r(4)] m1 wrote_log[OF r(4)]]
    note fl1 = fs_fields[OF m1] meta_sb[OF fs_fields(1)[OF m1] wrote_log[OF r(4)]]
    have k1: "fs_ok dev s1" using grewD(4)[OF g1(1)] .
    have r1: "room N 3 s1" using room_after[OF _ r(4), of 3] t(2) by simp
    have H: "\<forall>x < unat (fssize (sb s1)). map_block s1 x \<notin> {ind}" "\<forall>x \<in> free_blocks dev s1. word_of_nat x \<notin> {ind}"
      using im(1) map_meta[of _ s] file_free[OF f] io fl1 g1(2) by auto
    have ne: "free_blocks dev s1 \<noteq> {}" using n g1(2) by simp
    obtain s2 where b: "balloc me dev s1 = Ok (w, s2)" "wrote N dev me {ind} 2 ((blk dev s)(map_block s a := M, w := replicate BSIZE 0)) s1 s2"
      "lstate.more s2 = lstate.more s1" "a \<in> free_blocks dev s" "free_blocks dev s2 = free_blocks dev s - {a}"
      using balloc_tx[OF wroteD(1)[OF r(4)] c0(2) room_le[OF r1] fs_map_ok[OF k1] ne H] g1(2) fl1 wroteD(2)[OF r(4)]
      by (auto simp: a_def w_def M_def)
    note fl2 = fs_fields[OF b(3)] meta_sb[OF fs_fields(1)[OF b(3)] wrote_log[OF b(2)]]
    have il: "ind \<notin> log_area LOGDATA s2" using im(1) fl1 fl2 by (simp add: meta_blocks_def map_blocks_def)
    have wz: "w \<noteq> 0" unfolding w_def by (rule free_nonzero[OF k b(4)])
    have wo: "w \<notin> owned ?ads (blk dev s)" unfolding w_def by (rule file_free[OF f b(4)])
    have mm: "map_block s a \<in> map_blocks s" using map_in free_lt[OF b(4)] by blast
    have ow: "owns dev s2 bp ind" using wroteD(6)[OF b(2) _ r(3)] by simp
    have i2: "blk dev s2 ind = blk dev s ind" using wroteD(2)[OF b(2)] meta_map[OF im(1)] io wo mm by auto
    have d2: "data_of bp s2 = blk dev s ind" using owns_view(1)[OF _ ow] wroteD(1)[OF b(2)] i2 by (simp add: tx_def)
    define d where "d = put32 (blk dev s ind) (4 * (bn - NDIRECT)) w"
    have li: "length (blk dev s ind) = BSIZE" using cached_length[of dev s] t(1) by (simp add: tx_def)
    have ld: "length d = BSIZE" using li bn by (simp add: d_def)
    have r2: "room N (Suc 0) s2" using room_after[OF _ b(2), of 1] r1 by (simp add: numeral_eq_Suc)
    obtain s3 where w3: "log_write bp (set_data bp d s2) = Ok s3" "wrote N dev me {ind} 1 ((blk dev s2)(ind := d)) s2 s3"
      using write_tx[OF wroteD(1)[OF b(2)] _ ow ld r2 il] by auto
    have o3: "owns dev s3 bp ind" using wroteD(6)[OF w3(2) _ ow] by simp
    obtain s4 where w4: "brelse me bp s3 = Ok s4" "wrote N dev me {} 0 (blk dev s3) s3 s4"
      using brelse_tx[OF wroteD(1)[OF w3(2)] _ o3] by auto
    have D: "blk dev s4 = (blk dev s)(map_block s a := M, w := replicate BSIZE 0, ind := d)"
      using wroteD(2)[OF w4(2)] wroteD(2)[OF w3(2)] wroteD(2)[OF b(2)] by simp
    have W: "wrote N dev me {} 3 (blk dev s4) s s4"
      using wrote_less[OF wrote_trans[OF wrote_trans[OF r(4) b(2)] w3(2)] w4(2)] wroteD(2)[OF w4(2)] by (simp add: numeral_eq_Suc)
    have m4: "lstate.more s4 = lstate.more s" using m1 b(3) log_write_more[OF w3(1)] brelse_lmore[OF w4(1)] by simp
    note fl4 = fs_fields[OF m4] meta_sb[OF fs_fields(1)[OF m4] wrote_log[OF W]]
    have fr4: "free_blocks dev s4 = free_blocks dev s - {a}"
    proof -
      have "map_block s y \<noteq> ind" if "y < unat (fssize (sb s))" for y using im(1) map_meta[OF that] by auto
      then have "allocated dev s4 y = allocated dev s2 y" if "y < unat (fssize (sb s))" for y
        using that fl4 fl1 fl2 by (simp add: allocated_def D wroteD(2)[OF b(2)])
      then show ?thesis using b(5) fl4 fl1 fl2 by (auto simp: free_blocks_def)
    qed
    have B: "blk dev s4 x = blk dev s x" if "x \<notin> map_blocks s" "unat x \<notin> free_blocks dev s" "x \<noteq> ind" for x
      using that mm b(4) by (auto simp: D w_def free_word)
    have o: "x \<in> owned ?ads (blk dev s) \<Longrightarrow> x \<noteq> ads \<Longrightarrow> ads = ind \<Longrightarrow> blk dev s4 x = blk dev s x" for x ads
      using f B by (auto simp: file_ok_def meta_map)
    have zw: "blk dev s4 w = replicate BSIZE 0" using wo io by (auto simp: D)
    have di: "blk dev s4 ind = d" by (simp add: D)
    have ex: "extends {w} ?ads (blk dev s) ?ads (blk dev s4)" "faddr ?ads (blk dev s4) bn = w"
      using extends_entry[where B = "blk dev s" and B' = "blk dev s4" and ads = ?ads and k = bn and a = w, folded ind(1),
          OF gm bn ind(2) True wz wo zw li di[unfolded d_def] o[OF _ _ refl]] by blast+
    have g: "grew dev i s s4"
    proof (rule grewI[OF f k b(4), where ads = ?ads])
      show "itable s4 = (itable s)[i := (inode_at s i)\<lparr>addrs := ?ads\<rparr>]" using fl4 by simp
      show "blk dev s4 x = blk dev s x"
        if "x \<notin> map_blocks s" "unat x \<notin> free_blocks dev s" "x \<notin> owned ?ads (blk dev s)" for x
        using B[OF that(1,2)] that(3) io by blast
    qed (use fl4 wrote_log[OF W] fr4 ex(1) in \<open>simp_all add: w_def\<close>)
    have "card (free_blocks dev s) \<le> Suc (card (free_blocks dev s4))" using card_Suc_Diff1[OF finite_free b(4)] fr4 by simp
    moreover have "w = faddr (addrs (inode_at s4 i)) (blk dev s4) bn" using ex(2) fl4 by simp
    ultimately show ?thesis using r(1,2) b(1) w3(1) w4(1) d2 fe True wz W g dv fl1
      by (intro exI[of _ w] exI[of _ s4]) (simp add: Let_def d_def)
  qed
qed

lemma bmap_tx:
  assumes t: "tx N dev me {} s" "room N 5 s" and k: "fs_ok dev s" and f: "file_ok dev s i" and n: "2 \<le> card (free_blocks dev s)"
    and bn: "bn < MAXFILE"
  shows "\<exists>a s'. bmap me i bn s = Ok (a, s') \<and> a = faddr (addrs (inode_at s' i)) (blk dev s') bn \<and> a \<noteq> 0 \<and>
     wrote N dev me {} 5 (blk dev s') s s' \<and> grew dev i s s' \<and> card (free_blocks dev s) \<le> card (free_blocks dev s') + 2"
proof -
  have ne: "free_blocks dev s \<noteq> {}" using n by auto
  have r2: "room N 2 s" using room_le[OF t(2), of 2] by simp
  show ?thesis
  proof (cases "bn < NDIRECT")
    case True
    obtain a s' where d: "direct_block me i bn s = Ok (a, s')" "a = addrs (inode_at s' i) ! bn" "a \<noteq> 0" "wrote N dev me {} 2 (blk dev s') s s'"
      "grew dev i s s'" "card (free_blocks dev s) \<le> Suc (card (free_blocks dev s'))"
      using direct_tx[OF t(1) r2 k f ne, of bn] True by auto
    have "bmap me i bn s = Ok (a, s')" "a = faddr (addrs (inode_at s' i)) (blk dev s') bn"
      using True d(1,2) by (simp_all add: bmap_def faddr_def)
    then show ?thesis using d(3,5,6) wrote_mono[OF d(4), of 5] by (intro exI[of _ a] exI[of _ s']) simp
  next
    case False
    obtain ind s1 where d: "direct_block me i NDIRECT s = Ok (ind, s1)" "ind = addrs (inode_at s1 i) ! NDIRECT" "ind \<noteq> 0"
      "wrote N dev me {} 2 (blk dev s1) s s1" "grew dev i s s1" "card (free_blocks dev s) \<le> Suc (card (free_blocks dev s1))"
      using direct_tx[OF t(1) r2 k f ne le_refl] by blast
    have r3: "room N 3 s1" using room_after[OF _ d(4), of 3] t(2) by simp
    have n1: "free_blocks dev s1 \<noteq> {}" using d(6) n by auto
    have f1: "file_ok dev s1 i" by (rule grew_file_ok[OF f d(5) k])
    have b: "NDIRECT \<le> bn" using False by simp
    obtain a s' where r: "rbind (bread me (idev (inode_at s1 i)) ind s1) (\<lambda>(bp, s2).
        let k = 4 * (bn - NDIRECT); a = get32 (data_of bp s2) k in
        if a = 0
        then rbind (balloc me (idev (inode_at s2 i)) s2) (\<lambda>(a1, s3).
               rbind (if a1 \<noteq> 0 then log_write bp (set_data bp (put32 (data_of bp s3) k a1) s3) else Ok s3) (\<lambda>s4.
               rbind (brelse me bp s4) (\<lambda>s5. Ok (a1, s5))))
        else rbind (brelse me bp s2) (\<lambda>s3. Ok (a, s3))) = Ok (a, s')"
      "a = faddr (addrs (inode_at s' i)) (blk dev s') bn" "a \<noteq> 0" "wrote N dev me {} 3 (blk dev s') s1 s'" "grew dev i s1 s'"
      "card (free_blocks dev s1) \<le> Suc (card (free_blocks dev s'))"
      using bmap_indirect[OF wroteD(1)[OF d(4)] r3 grewD(4)[OF d(5)] f1 n1 b bn d(2,3)] by blast
    have "bmap me i bn s = Ok (a, s')" using False bn d(1,3) r(1) by (simp add: bmap_def)
    moreover have "wrote N dev me {} 5 (blk dev s') s s'" using wrote_trans[OF d(4) r(4)] by simp
    moreover have "grew dev i s s'" using grew_trans[OF d(5) r(5)] f by (simp add: file_ok_def)
    moreover have "card (free_blocks dev s) \<le> card (free_blocks dev s') + 2" using d(6) r(6) by simp
    ultimately show ?thesis using r(2,3) by blast
  qed
qed

end
