(* ===== verification/Files.thy ===== *)
theory Files
  imports Blockmap
begin

text \<open>
  Files and directories (\<open>kernel/fs.c\<close>) as what they are to a reader: a file is a sequence of bytes (\<open>fbyte\<close>), which
  \<open>writei\<close> edits and \<open>readi\<close> reads, across block boundaries and while blocks are allocated for it; a directory is a map
  from names to inode numbers (\<open>dir_inum\<close>), which \<open>dirlink\<close> extends and \<open>dirlookup\<close> reads.
\<close>

section \<open>The bytes of a file\<close>

text \<open>The byte at \<open>k\<close> of the file of the inode \<open>i\<close>, and whether a block backs it.\<close>

definition fbyte :: "u32 \<Rightarrow> 'a fstate_scheme \<Rightarrow> nat \<Rightarrow> nat \<Rightarrow> u8" where
  "fbyte dev s i k = fdata (addrs (inode_at s i)) (blk dev s) (k div BSIZE) ! (k mod BSIZE)"

definition mapped :: "u32 \<Rightarrow> 'a fstate_scheme \<Rightarrow> nat \<Rightarrow> nat \<Rightarrow> bool" where
  "mapped dev s i k \<longleftrightarrow> faddr (addrs (inode_at s i)) (blk dev s) (k div BSIZE) \<noteq> 0"

lemma chunk_bytes:
  assumes l: "length d = BSIZE" and m: "m \<le> BSIZE - off mod BSIZE"
  shows "take m (drop (off mod BSIZE) d) = map (\<lambda>k. d ! (k mod BSIZE)) [off..<off + m]"
proof (rule nth_equalityI)
  have z: "off mod BSIZE < BSIZE" by simp
  show "length (take m (drop (off mod BSIZE) d)) = length (map (\<lambda>k. d ! (k mod BSIZE)) [off..<off + m])" using l m z by simp
  fix j assume "j < length (take m (drop (off mod BSIZE) d))"
  then have j: "j < m" "off mod BSIZE + j < BSIZE" using l m by auto
  have "(off + j) mod BSIZE = (off mod BSIZE + j) mod BSIZE" by (simp add: mod_simps)
  then have "(off + j) mod BSIZE = off mod BSIZE + j" using j(2) by simp
  then show "take m (drop (off mod BSIZE) d) ! j = map (\<lambda>k. d ! (k mod BSIZE)) [off..<off + m] ! j" using j l by simp
qed

lemma chunk_div: "off mod BSIZE + j < BSIZE \<Longrightarrow> (off + j) div BSIZE = off div BSIZE"
proof -
  assume a: "off mod BSIZE + j < BSIZE"
  have "off + j = BSIZE * (off div BSIZE) + (off mod BSIZE + j)" by simp
  then show ?thesis using a by (metis div_mult_self4 div_less add.right_neutral zero_neq_numeral)
qed

lemma chunk_file:
  assumes l: "length (B a) = BSIZE" and m: "m \<le> BSIZE - off mod BSIZE" and a: "a = faddr ads B (off div BSIZE)" "a \<noteq> 0"
  shows "take m (drop (off mod BSIZE) (B a)) = map (\<lambda>k. fdata ads B (k div BSIZE) ! (k mod BSIZE)) [off..<off + m]"
proof -
  have "fdata ads B (k div BSIZE) = B a" if "k \<in> set [off..<off + m]" for k
  proof -
    have "off mod BSIZE < BSIZE" by simp
    then have "k div BSIZE = off div BSIZE" using chunk_div[of off "k - off"] that m by auto
    then show ?thesis using a by (simp add: fdata_def)
  qed
  then show ?thesis unfolding chunk_bytes[of "B a", OF l m] by (intro map_cong) simp_all
qed

lemma readi_loop_tx:
  assumes "tx N dev me {} s" "lh_n s + 3 \<le> int N" "idev (inode_at s i) = dev" "off + left \<le> MAXFILE * BSIZE"
    and "\<forall>k. off \<le> k \<and> k < off + left \<longrightarrow> mapped dev s i k"
  shows "\<exists>s'. readi_loop me i (Local ds) off tot left s = Ok (int (tot + left), Local (ds @ map (fbyte dev s i) [off..<off + left]), s') \<and>
     wrote N dev me {} 0 (blk dev s) s s' \<and> lstate.more s' = lstate.more s"
  using assms
proof (induction left arbitrary: ds off tot s rule: less_induct)
  case (less left)
  show ?case
  proof (cases "left = 0")
    case True
    then have "readi_loop me i (Local ds) off tot left s = Ok (int tot, Local ds, s)" by (simp add: readi_loop.simps)
    then show ?thesis using True wrote_refl[OF less.prems(1)] by (intro exI[of _ s]) simp
  next
    case False
    let ?ads = "addrs (inode_at s i)" and ?bn = "off div BSIZE"
    define a where "a = faddr ?ads (blk dev s) ?bn"
    have a0: "a \<noteq> 0" using less.prems(5) False by (auto simp: mapped_def a_def)
    have bn: "?bn < MAXFILE" using less.prems(4) False by (simp add: div_less_iff_less_mult)
    obtain s1 where b: "bmap me i ?bn s = Ok (a, s1)" "wrote N dev me {} 0 (blk dev s) s s1" "lstate.more s1 = lstate.more s"
      using bmap_found[OF less.prems(1,2,3) bn] a0 by (auto simp: a_def)
    have l1: "lh_n s1 + 3 \<le> int N" using wroteD(3)[OF b(2)] less.prems(2) by simp
    obtain bp s2 s4 where v: "bread me dev a s1 = Ok (bp, s2)" "data_of bp s2 = blk dev s1 a"
      "brelse me bp s2 = Ok s4" "wrote N dev me {} 0 (blk dev s1) s1 s4" "lstate.more s4 = lstate.more s1"
      using view_ro[OF wroteD(1)[OF b(2)] l1] by blast
    have W: "wrote N dev me {} 0 (blk dev s) s s4" using wrote_trans[OF b(2) v(4)] wroteD(2)[OF b(2)] by simp
    define m where "m = min left (BSIZE - off mod BSIZE)"
    have mp: "0 < m" "m \<le> left" "m \<le> BSIZE - off mod BSIZE" using False by (simp_all add: m_def)
    have la: "length (blk dev s a) = BSIZE" using cached_length[of dev s] less.prems(1) by (simp add: tx_def)
    have ch: "take m (drop (off mod BSIZE) (blk dev s a)) = map (fbyte dev s i) [off..<off + m]"
      using chunk_file[OF la mp(3) a_def a0] by (simp add: fbyte_def)
    note fl = fs_fields[OF b(3)] fs_fields[OF v(5)]
    have st: "readi_loop me i (Local ds) off tot left s =
        readi_loop me i (Local (ds @ map (fbyte dev s i) [off..<off + m])) (off + m) (tot + m) (left - m) s4"
      using False b(1) a0 v(1-3) less.prems(3) fl ch wroteD(2)[OF b(2)]
      by (subst readi_loop.simps) (simp add: put_place_def m_def[symmetric] Let_def)
    have M: "mapped dev s4 i k = mapped dev s i k" "fbyte dev s4 i k = fbyte dev s i k" for k
      using fl wroteD(2)[OF W] by (simp_all add: mapped_def fbyte_def)
    have lt: "left - m < left" using mp False by simp
    have l4: "lh_n s4 + 3 \<le> int N" using wroteD(3)[OF W] less.prems(2) by simp
    have r4: "\<forall>k. off + m \<le> k \<and> k < off + m + (left - m) \<longrightarrow> mapped dev s4 i k" using less.prems(5) M mp by simp
    have "off + m + (left - m) \<le> MAXFILE * BSIZE" "idev (inode_at s4 i) = dev" using less.prems(3,4) mp fl by simp_all
    from less.IH[OF lt wroteD(1)[OF W] l4 this(2,1) r4, of "ds @ map (fbyte dev s i) [off..<off + m]" "tot + m"]
    obtain s' where s': "readi_loop me i (Local (ds @ map (fbyte dev s i) [off..<off + m])) (off + m) (tot + m) (left - m) s4 =
         Ok (int (tot + m + (left - m)), Local ((ds @ map (fbyte dev s i) [off..<off + m]) @ map (fbyte dev s4 i) [off + m..<off + m + (left - m)]), s')"
      "wrote N dev me {} 0 (blk dev s4) s4 s'" "lstate.more s' = lstate.more s4" by blast
    have "map (fbyte dev s i) [off..<off + m] @ map (fbyte dev s4 i) [off + m..<off + m + (left - m)] = map (fbyte dev s i) [off..<off + left]"
    proof -
      have u: "[off..<off + left] = [off..<off + m] @ [off + m..<off + m + (left - m)]"
        using upt_add_eq_append[of off "off + m" "left - m"] mp by simp
      show ?thesis unfolding u by (simp add: M)
    qed
    moreover have "wrote N dev me {} 0 (blk dev s) s s'" using wrote_trans[OF W s'(2)] wroteD(2)[OF W] by simp
    ultimately show ?thesis using st s'(1,3) v(5) b(3) mp by (intro exI[of _ s']) simp
  qed
qed

text \<open>
  The file changed, and may have grown; every block outside it, the free blocks and the free map is as it was, and of
  the block of its inode only the inode's 64 bytes changed.
\<close>

abbreviation file_blocks :: "u32 \<Rightarrow> 'a fstate_scheme \<Rightarrow> nat \<Rightarrow> u32 set" where
  "file_blocks dev s i \<equiv> owned (addrs (inode_at s i)) (blk dev s)"

abbreviation inode_block :: "'a fstate_scheme \<Rightarrow> nat \<Rightarrow> u32" where
  "inode_block s i \<equiv> IBLOCK (inum (inode_at s i)) (sb s)"

definition in_slot :: "u32 \<Rightarrow> nat \<Rightarrow> bool" where
  "in_slot n k \<longleftrightarrow> dinode_at n \<le> k \<and> k < dinode_at n + 64"

definition edited :: "u32 \<Rightarrow> nat \<Rightarrow> 'a fstate_scheme \<Rightarrow> 'a fstate_scheme \<Rightarrow> bool" where
  "edited dev i s s' \<longleftrightarrow> sb s' = sb s \<and> log_start s' = log_start s \<and> fs_ok dev s' \<and> file_ok dev s' i \<and> free_blocks dev s' \<subseteq> free_blocks dev s \<and>
     file_blocks dev s' i \<subseteq> file_blocks dev s i \<union> word_of_nat ` free_blocks dev s \<and>
     (\<exists>ads z. itable s' = (itable s)[i := (inode_at s i)\<lparr>addrs := ads, isize := z\<rparr>]) \<and>
     (\<forall>k < MAXFILE * BSIZE. mapped dev s i k \<longrightarrow> mapped dev s' i k) \<and>
     (\<forall>b. b \<notin> map_blocks s \<and> b \<noteq> inode_block s i \<and> unat b \<notin> free_blocks dev s \<and> b \<notin> file_blocks dev s i \<longrightarrow>
        blk dev s' b = blk dev s b) \<and>
     (\<forall>k < BSIZE. \<not> in_slot (inum (inode_at s i)) k \<longrightarrow> blk dev s' (inode_block s i) ! k = blk dev s (inode_block s i) ! k)"

lemma editedD:
  assumes "edited dev i s s'"
  shows "sb s' = sb s" "fs_ok dev s'" "file_ok dev s' i" "free_blocks dev s' \<subseteq> free_blocks dev s" "meta_blocks s' = meta_blocks s"
    "file_blocks dev s' i \<subseteq> file_blocks dev s i \<union> word_of_nat ` free_blocks dev s"
    "\<exists>ads z. itable s' = (itable s)[i := (inode_at s i)\<lparr>addrs := ads, isize := z\<rparr>]"
    "\<And>k. k < MAXFILE * BSIZE \<Longrightarrow> mapped dev s i k \<Longrightarrow> mapped dev s' i k"
    "\<And>b. b \<notin> map_blocks s \<Longrightarrow> b \<noteq> inode_block s i \<Longrightarrow> unat b \<notin> free_blocks dev s \<Longrightarrow> b \<notin> file_blocks dev s i \<Longrightarrow> blk dev s' b = blk dev s b"
    "log_start s' = log_start s" "map_blocks s' = map_blocks s" "inum (inode_at s' i) = inum (inode_at s i)" "inode_block s' i = inode_block s i"
    "\<And>k. k < BSIZE \<Longrightarrow> \<not> in_slot (inum (inode_at s i)) k \<Longrightarrow> blk dev s' (inode_block s i) ! k = blk dev s (inode_block s i) ! k"
proof -
  note a = assms[unfolded edited_def]
  show "sb s' = sb s" "log_start s' = log_start s" "fs_ok dev s'" "file_ok dev s' i" "free_blocks dev s' \<subseteq> free_blocks dev s"
    "file_blocks dev s' i \<subseteq> file_blocks dev s i \<union> word_of_nat ` free_blocks dev s"
    "\<exists>ads z. itable s' = (itable s)[i := (inode_at s i)\<lparr>addrs := ads, isize := z\<rparr>]" using a by simp_all
  then show "meta_blocks s' = meta_blocks s" "map_blocks s' = map_blocks s" using meta_sb by blast+
  show n: "inum (inode_at s' i) = inum (inode_at s i)" using a by (auto simp: file_ok_def)
  show "inode_block s' i = inode_block s i" using n a by simp
  show "blk dev s' (inode_block s i) ! k = blk dev s (inode_block s i) ! k" if "k < BSIZE" "\<not> in_slot (inum (inode_at s i)) k" for k
    using a that by blast
  show "mapped dev s' i k" if "k < MAXFILE * BSIZE" "mapped dev s i k" for k using a that by simp
  show "blk dev s' b = blk dev s b"
    if "b \<notin> map_blocks s" "b \<noteq> inode_block s i" "unat b \<notin> free_blocks dev s" "b \<notin> file_blocks dev s i" for b
    using a that by blast
qed

lemma edited_refl: "file_ok dev s i \<Longrightarrow> fs_ok dev s \<Longrightarrow> edited dev i s s"
proof -
  assume a: "file_ok dev s i" "fs_ok dev s"
  have "itable s = (itable s)[i := (inode_at s i)\<lparr>addrs := addrs (inode_at s i), isize := isize (inode_at s i)\<rparr>]" by simp
  then show ?thesis using a unfolding edited_def by blast
qed

lemma edited_trans:
  assumes "edited dev i s s1" "edited dev i s1 s2"
  shows "edited dev i s s2"
proof -
  note d1 = editedD[OF assms(1)] and d2 = editedD[OF assms(2)]
  obtain a1 z1 where 1: "itable s1 = (itable s)[i := (inode_at s i)\<lparr>addrs := a1, isize := z1\<rparr>]" using d1(7) by blast
  obtain a2 z2 where 2: "itable s2 = (itable s1)[i := (inode_at s1 i)\<lparr>addrs := a2, isize := z2\<rparr>]" using d2(7) by blast
  have "i < length (itable s1)" using d1(3) by (simp add: file_ok_def)
  then have it: "itable s2 = (itable s)[i := (inode_at s i)\<lparr>addrs := a2, isize := z2\<rparr>]" using 1 2 by simp
  have "blk dev s2 b = blk dev s b"
    if b: "b \<notin> map_blocks s" "b \<noteq> inode_block s i" "unat b \<notin> free_blocks dev s" "b \<notin> file_blocks dev s i" for b
  proof -
    have n: "b \<notin> file_blocks dev s1 i"
    proof
      assume "b \<in> file_blocks dev s1 i"
      then obtain x where x: "x \<in> free_blocks dev s" "b = word_of_nat x" using b(4) d1(6) by blast
      then show False using b(3) free_word[OF x(1)] by simp
    qed
    then show ?thesis using d2(9)[OF _ _ _ n] d1(9)[OF b] d1(4,11,13) b by auto
  qed
  moreover have "file_blocks dev s2 i \<subseteq> file_blocks dev s i \<union> word_of_nat ` free_blocks dev s"
    using d1(4,6) d2(6) by blast
  moreover have "mapped dev s2 i k" if "k < MAXFILE * BSIZE" "mapped dev s i k" for k using d2(8)[OF that(1) d1(8)[OF that]] .
  moreover have "blk dev s2 (inode_block s i) ! k = blk dev s (inode_block s i) ! k" if "k < BSIZE" "\<not> in_slot (inum (inode_at s i)) k" for k
    using d1(14)[OF that] d2(14)[OF that(1)] that(2) unfolding d1(1,12) by simp
  moreover have "log_start s2 = log_start s" using d1(10) d2(10) by simp
  moreover have "sb s2 = sb s" "free_blocks dev s2 \<subseteq> free_blocks dev s" using d1(1,4) d2(1,4) by auto
  ultimately show ?thesis unfolding edited_def using it d2(2,3) by blast
qed

lemma inode_block_apart:
  assumes f: "file_ok dev s i" and k: "fs_ok dev s"
  shows "inode_block s i \<notin> map_blocks s" "unat (inode_block s i) \<notin> free_blocks dev s" "inode_block s i \<notin> file_blocks dev s i"
proof -
  have n: "inum (inode_at s i) < ninodes (sb s)" using f by (simp add: file_ok_def)
  then have m: "inode_block s i \<in> meta_blocks s" by (auto simp: meta_blocks_def)
  show "inode_block s i \<notin> map_blocks s" using n k by (auto simp: fs_ok_def map_blocks_def)
  show "inode_block s i \<notin> file_blocks dev s i" using m f by (auto simp: file_ok_def)
  show "unat (inode_block s i) \<notin> free_blocks dev s" 
  proof
    assume "unat (inode_block s i) \<in> free_blocks dev s"
    then have "word_of_nat (unat (inode_block s i)) \<notin> meta_blocks s" using k unfolding fs_ok_def by blast
    then show False using m by simp
  qed
qed

lemma grew_edited:
  assumes f: "file_ok dev s i" and k: "fs_ok dev s" and g: "grew dev i s s'"
  shows "edited dev i s s'" "k < MAXFILE * BSIZE \<Longrightarrow> fbyte dev s' i k = fbyte dev s i k" "isize (inode_at s' i) = isize (inode_at s i)"
proof -
  note d = grewD[OF g]
  have i: "i < length (itable s)" using f by (simp add: file_ok_def)
  obtain ads where e: "inode_at s' i = (inode_at s i)\<lparr>addrs := ads\<rparr>" "itable s' = (itable s)[i := (inode_at s i)\<lparr>addrs := ads\<rparr>]"
    using grew_inode[OF g i] .
  have "(inode_at s i)\<lparr>addrs := ads\<rparr> = (inode_at s i)\<lparr>addrs := ads, isize := isize (inode_at s i)\<rparr>" by (cases "inode_at s i") simp
  then have it: "\<exists>ads z. itable s' = (itable s)[i := (inode_at s i)\<lparr>addrs := ads, isize := z\<rparr>]" using e(2) by metis
  show "isize (inode_at s' i) = isize (inode_at s i)" by (simp add: e(1))
  have ex: "k div BSIZE < MAXFILE" if "k < MAXFILE * BSIZE" for k using that by (simp add: div_less_iff_less_mult)
  have mp: "\<forall>k < MAXFILE * BSIZE. mapped dev s i k \<longrightarrow> mapped dev s' i k"
    using d(3) ex by (simp add: mapped_def extends_def)
  show "fbyte dev s' i k = fbyte dev s i k" if "k < MAXFILE * BSIZE" using d(3) ex[OF that] by (simp add: fbyte_def extends_def)
  have ow: "file_blocks dev s' i \<subseteq> file_blocks dev s i \<union> word_of_nat ` free_blocks dev s" using d(3) by (auto simp: extends_def)
  have fr: "\<forall>b. b \<notin> map_blocks s \<and> b \<noteq> inode_block s i \<and> unat b \<notin> free_blocks dev s \<and> b \<notin> file_blocks dev s i \<longrightarrow>
      blk dev s' b = blk dev s b" using d(5) by blast
  have sl: "\<forall>k < BSIZE. \<not> in_slot (inum (inode_at s i)) k \<longrightarrow> blk dev s' (inode_block s i) ! k = blk dev s (inode_block s i) ! k"
    using d(5)[OF inode_block_apart[OF f k]] by simp
  show "edited dev i s s'" unfolding edited_def
    by (intro conjI d(1,2,4,7) grew_file_ok[OF f g k] ow it mp fr sl)
qed

lemma edited_data:
  assumes f: "file_ok dev s i" and k: "fs_ok dev s" and bn: "bn < MAXFILE" and a: "a = faddr (addrs (inode_at s i)) (blk dev s) bn" "a \<noteq> 0"
    and s': "blk dev s' = (blk dev s)(a := d)" "lstate.more s' = lstate.more s" "log_start s' = log_start s"
  shows "edited dev i s s'" "free_blocks dev s' = free_blocks dev s"
    "j < BSIZE \<Longrightarrow> bm < MAXFILE \<Longrightarrow> fbyte dev s' i (BSIZE * bm + j) = (if bm = bn then d ! j else fbyte dev s i (BSIZE * bm + j))"
proof -
  note fl = fs_fields[OF s'(2)] meta_sb[OF fs_fields(1)[OF s'(2)] s'(3)]
  let ?ads = "addrs (inode_at s i)"
  have gm: "good_map ?ads (blk dev s)" using f by (simp add: file_ok_def)
  have ao: "a \<in> owned ?ads (blk dev s)" using faddr_owned[OF bn] a by simp
  then have am: "a \<notin> meta_blocks s" using f by (simp add: file_ok_def)
  have "blk dev s' (map_block s y) = blk dev s (map_block s y)" if "y < unat (fssize (sb s))" for y
    using am map_meta[OF that] s'(1) by auto
  then show fr: "free_blocks dev s' = free_blocks dev s" using fl by (auto simp: free_blocks_def allocated_def)
  have ai: "a \<noteq> ?ads ! NDIRECT" using gm bn a by (simp add: good_map_def)
  have fa: "faddr ?ads (blk dev s') = faddr ?ads (blk dev s)" using ai s'(1) by (auto simp: faddr_def fun_eq_iff)
  have ow: "owned ?ads (blk dev s') = owned ?ads (blk dev s)" "good_map ?ads (blk dev s') = good_map ?ads (blk dev s)"
    by (simp_all add: owned_def good_map_def fa)
  have fk: "fs_ok dev s'" using k fl fr by (simp add: fs_ok_def)
  have fo: "file_ok dev s' i" using f fl fr ow by (simp add: file_ok_def)
  have mp: "mapped dev s' i k = mapped dev s i k" for k by (simp add: mapped_def fl fa)
  have "itable s' = (itable s)[i := (inode_at s i)\<lparr>addrs := ?ads, isize := isize (inode_at s i)\<rparr>]" using fl by simp
  then have it: "\<exists>ads z. itable s' = (itable s)[i := (inode_at s i)\<lparr>addrs := ads, isize := z\<rparr>]" by blast
  have b: "\<forall>b. b \<notin> map_blocks s \<and> b \<noteq> inode_block s i \<and> unat b \<notin> free_blocks dev s \<and> b \<notin> file_blocks dev s i \<longrightarrow>
      blk dev s' b = blk dev s b" using s'(1) ao by auto
  have sl: "\<forall>k < BSIZE. \<not> in_slot (inum (inode_at s i)) k \<longrightarrow> blk dev s' (inode_block s i) ! k = blk dev s (inode_block s i) ! k"
    using s'(1) ao inode_block_apart(3)[OF f k] by auto
  show "edited dev i s s'" unfolding edited_def
    by (intro conjI fk fo it b sl s'(3)) (use fl fr ow mp in auto)
  show "fbyte dev s' i (BSIZE * bm + j) = (if bm = bn then d ! j else fbyte dev s i (BSIZE * bm + j))" if "j < BSIZE" "bm < MAXFILE"
  proof -
    have dm: "(BSIZE * bm + j) div BSIZE = bm" "(BSIZE * bm + j) mod BSIZE = j" using that(1) by simp_all
    have "bm \<noteq> bn \<Longrightarrow> faddr ?ads (blk dev s) bm \<noteq> a" using gm that(2) bn a unfolding good_map_def by metis
    then have "fdata ?ads (blk dev s') bm = (if bm = bn then d else fdata ?ads (blk dev s) bm)"
      unfolding fdata_def fa unfolding s'(1) using a(2) by (simp add: a(1)[symmetric])
    then show ?thesis unfolding fbyte_def dm fl by simp
  qed
qed

text \<open>The number of blocks that \<open>n\<close> bytes from \<open>off\<close> lie in.\<close>

definition span :: "nat \<Rightarrow> nat \<Rightarrow> nat" where
  "span off n = (if n = 0 then 0 else (off + n - 1) div BSIZE - off div BSIZE + 1)"

lemma span_step:
  assumes "0 < n" and m: "m = min n (BSIZE - off mod BSIZE)"
  shows "span off n = Suc (span (off + m) (n - m))"
proof -
  have z: "off mod BSIZE < BSIZE" by simp
  show ?thesis
  proof (cases "n \<le> BSIZE - off mod BSIZE")
    case True
    then have "(off + (n - 1)) div BSIZE = off div BSIZE" using chunk_div[of off "n - 1"] assms(1) z by simp
    moreover have "off + n - 1 = off + (n - 1)" using assms(1) by simp
    ultimately show ?thesis using True assms by (simp add: span_def)
  next
    case False
    then have mm: "m = BSIZE - off mod BSIZE" "m < n" using m by simp_all
    define q where "q = off div BSIZE"
    define r where "r = off mod BSIZE"
    have "off = BSIZE * q + r" "r < BSIZE" by (simp_all add: q_def r_def)
    then have "off + (BSIZE - r) = BSIZE * (q + 1)" by simp
    then have "off + m = BSIZE * (off div BSIZE + 1)" by (simp only: mm(1) q_def r_def)
    then have e: "(off + m) div BSIZE = off div BSIZE + 1" by simp
    have "off + m \<le> off + n - 1" using mm by simp
    then have "(off + m) div BSIZE \<le> (off + n - 1) div BSIZE" by (rule div_le_mono)
    then have l: "off div BSIZE + 1 \<le> (off + n - 1) div BSIZE" by (simp only: e)
    have q: "off + m + (n - m) - 1 = off + n - 1" "n - m \<noteq> 0" "n \<noteq> 0" using mm(2) by simp_all
    show ?thesis unfolding span_def q(1) e using q(2,3) l by (simp add: Suc_diff_le[symmetric] del: One_nat_def) linarith
  qed
qed

lemma patch_byte:
  assumes l: "length d = BSIZE" and m: "m \<le> BSIZE - off mod BSIZE" "m \<le> length ds" and k: "k div BSIZE = off div BSIZE"
  shows "patch d (off mod BSIZE) (take m ds) ! (k mod BSIZE) = (if off \<le> k \<and> k < off + m then ds ! (k - off) else d ! (k mod BSIZE))"
proof -
  have z: "off mod BSIZE < BSIZE" "k mod BSIZE < BSIZE" by simp_all
  have e: "off = BSIZE * (off div BSIZE) + off mod BSIZE" "k = BSIZE * (off div BSIZE) + k mod BSIZE" using k by (metis mult_div_mod_eq)+
  have r: "off mod BSIZE \<le> k mod BSIZE \<longleftrightarrow> off \<le> k" "k mod BSIZE < off mod BSIZE + m \<longleftrightarrow> k < off + m"
    "off \<le> k \<Longrightarrow> k mod BSIZE - off mod BSIZE = k - off" using e by linarith+
  have "off mod BSIZE + length (take m ds) \<le> length d" using l m z by simp
  note n = nth_patch[OF this, of "k mod BSIZE"]
  have "take m ds ! (k - off) = ds ! (k - off)" if "off \<le> k" "k < off + m" by (rule nth_take) (use that in linarith)
  then show ?thesis using n r m z l by (cases "off \<le> k \<and> k < off + m") auto
qed

lemma writei_loop_tx:
  assumes "tx N dev me {} s" "room N (6 * span off left) s" "fs_ok dev s" "file_ok dev s i" "2 * span off left \<le> card (free_blocks dev s)"
    and "off + left \<le> MAXFILE * BSIZE" "left \<le> length ds"
  shows "\<exists>s'. writei_loop me i (Local ds) off tot left s = Ok (tot + left, off + left, s') \<and>
     wrote N dev me {} (6 * span off left) (blk dev s') s s' \<and> edited dev i s s' \<and> isize (inode_at s' i) = isize (inode_at s i) \<and>
     (\<forall>k < MAXFILE * BSIZE. fbyte dev s' i k = (if off \<le> k \<and> k < off + left then ds ! (k - off) else fbyte dev s i k)) \<and>
     (\<forall>k. off \<le> k \<and> k < off + left \<longrightarrow> mapped dev s' i k)"
  using assms
proof (induction left arbitrary: ds off tot s rule: less_induct)
  case (less left)
  show ?case
  proof (cases "left = 0")
    case True
    then have "writei_loop me i (Local ds) off tot left s = Ok (tot, off, s)" by (simp add: writei_loop.simps)
    then show ?thesis using True wrote_refl[OF less.prems(1)] edited_refl[OF less.prems(4,3)] by (intro exI[of _ s]) auto
  next
    case False
    let ?bn = "off div BSIZE"
    define m where "m = min left (BSIZE - off mod BSIZE)"
    have mp: "0 < m" "m \<le> left" "m \<le> BSIZE - off mod BSIZE" "m \<le> length ds" using False less.prems(7) by (simp_all add: m_def)
    have sp: "span off left = Suc (span (off + m) (left - m))" by (rule span_step) (use False in \<open>simp_all add: m_def\<close>)
    define c where "c = span (off + m) (left - m)"
    have bn: "?bn < MAXFILE" using less.prems(6) False by (simp add: div_less_iff_less_mult)
    have r5: "room N 5 s" by (rule room_le[OF less.prems(2)]) (simp add: sp)
    have n2: "2 \<le> card (free_blocks dev s)" using less.prems(5) sp by simp
    obtain a s1 where b: "bmap me i ?bn s = Ok (a, s1)" "a = faddr (addrs (inode_at s1 i)) (blk dev s1) ?bn" "a \<noteq> 0"
      "wrote N dev me {} 5 (blk dev s1) s s1" "grew dev i s s1" "card (free_blocks dev s) \<le> card (free_blocks dev s1) + 2"
      using bmap_tx[OF less.prems(1) r5 less.prems(3,4) n2 bn] by blast
    note ge = grew_edited[OF less.prems(4,3) b(5)]
    have f1: "file_ok dev s1 i" and k1: "fs_ok dev s1" using editedD(2,3)[OF ge(1)] by simp_all
    have r1: "room N (Suc (6 * c)) s1" using room_after[OF _ b(4), of "Suc (6 * c)"] less.prems(2) sp by (simp add: c_def)
    define d where "d = patch (blk dev s1 a) (off mod BSIZE) (take m ds)"
    have la: "length (blk dev s1 a) = BSIZE" using cached_length[of dev s1] wroteD(1)[OF b(4)] by (simp add: tx_def)
    have ld: "length d = BSIZE" using la mp by (simp add: d_def)
    have al: "a \<notin> log_area LOGDATA s1"
      using f1 faddr_owned[OF bn, of "addrs (inode_at s1 i)" "blk dev s1"] b(2,3) by (auto simp: file_ok_def meta_blocks_def map_blocks_def)
    obtain bp s2 s3 s4 where u: "bread me dev a s1 = Ok (bp, s2)" "data_of bp s2 = blk dev s1 a" "log_write bp (set_data bp d s2) = Ok s3"
       "brelse me bp s3 = Ok s4" "wrote N dev me {} 1 ((blk dev s1)(a := d)) s1 s4"
      using update_tx[OF wroteD(1)[OF b(4)] _ _ ld r1 al] by auto
    have m4: "lstate.more s4 = lstate.more s1" using bread_lmore[OF u(1)] log_write_more[OF u(3)] brelse_lmore[OF u(4)] by simp
    note D = wroteD(2)[OF u(5)]
    note e4 = edited_data[OF f1 k1 bn b(2,3) D m4 wrote_log[OF u(5)]]
    have E: "edited dev i s s4" by (rule edited_trans[OF ge(1) e4(1)])
    note fl = fs_fields[OF m4]
    have dv: "idev (inode_at s1 i) = dev" using f1 by (simp add: file_ok_def)
    have st: "writei_loop me i (Local ds) off tot left s = writei_loop me i (Local (drop m ds)) (off + m) (tot + m) (left - m) s4"
      using False b(1,3) u dv by (subst writei_loop.simps) (simp add: get_place_def m_def[symmetric] Let_def d_def)
    have F: "fbyte dev s4 i k = (if off \<le> k \<and> k < off + m then ds ! (k - off) else fbyte dev s i k)" if k: "k < MAXFILE * BSIZE" for k
    proof -
      have km: "k div BSIZE < MAXFILE" "k mod BSIZE < BSIZE" using k by (simp_all add: div_less_iff_less_mult)
      have e: "fbyte dev s4 i k = (if k div BSIZE = ?bn then d ! (k mod BSIZE) else fbyte dev s i k)"
        using e4(3)[OF km(2,1)] ge(2)[OF k] by simp
      show ?thesis
      proof (cases "k div BSIZE = ?bn")
        case True
        have "fbyte dev s i k = blk dev s1 a ! (k mod BSIZE)" using ge(2)[OF k] True b(2,3) by (simp add: fbyte_def fdata_def)
        then show ?thesis using e True patch_byte[OF la mp(3,4) True] by (simp add: d_def)
      next
        case False
        have "\<not> (off \<le> k \<and> k < off + m)"
        proof
          assume a: "off \<le> k \<and> k < off + m"
          then have "off mod BSIZE + (k - off) < BSIZE" using mp(3) by auto
          then show False using chunk_div[of off "k - off"] a False by simp
        qed
        then show ?thesis using e False by auto
      qed
    qed
    have W: "wrote N dev me {} 6 (blk dev s4) s s4" using wrote_trans[OF b(4) u(5)] D by simp
    have r4: "room N (6 * c) s4" using room_after[OF _ W, of "6 * c"] less.prems(2) sp by (simp add: c_def)
    have n4: "2 * c \<le> card (free_blocks dev s4)" using b(6) e4(2) less.prems(5) sp by (simp add: c_def)
    have lt: "left - m < left" using mp False by simp
    have "off + m + (left - m) \<le> MAXFILE * BSIZE" "left - m \<le> length (drop m ds)" using less.prems(6,7) mp by simp_all
    from less.IH[OF lt wroteD(1)[OF W] r4[unfolded c_def] editedD(2,3)[OF E] n4[unfolded c_def] this, of "tot + m", folded c_def]
    obtain s' where s': "writei_loop me i (Local (drop m ds)) (off + m) (tot + m) (left - m) s4 = Ok (tot + m + (left - m), off + m + (left - m), s')"
      "wrote N dev me {} (6 * c) (blk dev s') s4 s'" "edited dev i s4 s'" "isize (inode_at s' i) = isize (inode_at s4 i)"
      "\<forall>k < MAXFILE * BSIZE. fbyte dev s' i k = (if off + m \<le> k \<and> k < off + m + (left - m) then drop m ds ! (k - (off + m)) else fbyte dev s4 i k)"
      "\<forall>k. off + m \<le> k \<and> k < off + m + (left - m) \<longrightarrow> mapped dev s' i k" by blast
    have "fbyte dev s' i k = (if off \<le> k \<and> k < off + left then ds ! (k - off) else fbyte dev s i k)" if k: "k < MAXFILE * BSIZE" for k
      using s'(5) F[OF k] k mp less.prems(7) by (auto simp: add.commute)
    moreover have "mapped dev s' i k" if k: "off \<le> k" "k < off + left" for k
    proof (cases "k < off + m")
      case True
      have "off mod BSIZE + (k - off) < BSIZE" using True mp(3) k by auto
      then have "k div BSIZE = ?bn" using chunk_div[of off "k - off"] k by simp
      then have "mapped dev s1 i k" using b(2,3) by (simp add: mapped_def)
      moreover have "k < MAXFILE * BSIZE" using k less.prems(6) by simp
      ultimately show ?thesis using editedD(8)[OF e4(1), of k] editedD(8)[OF s'(3), of k] by blast
    qed (use s'(6) k mp in auto)
    moreover have "wrote N dev me {} (6 * span off left) (blk dev s') s s'" using wrote_trans[OF W s'(2)] sp by (simp add: c_def)
    moreover have "isize (inode_at s' i) = isize (inode_at s i)" using s'(4) ge(3) fl by simp
    ultimately show ?thesis using st s'(1) edited_trans[OF E s'(3)] mp by (intro exI[of _ s']) simp
  qed
qed

section \<open>Writing and reading a file\<close>

lemma length_concat_bytes: "length (concat (map bytes32 ws)) = 4 * length ws"
  by (induction ws) (simp_all add: bytes32_def)

lemma length_store_dinode:
  assumes "length d = BSIZE" "length (addrs ip) = NDIRECT + 1" "k + 64 \<le> BSIZE"
  shows "length (store_dinode ip k d) = BSIZE"
proof -
  have "length (put_short (itype ip) @ put_short (imajor ip) @ put_short (iminor ip) @ put_short (inlink ip) @ bytes32 (isize ip) @
     concat (map bytes32 (addrs ip))) = 64" using assms(2) by (simp add: put_short_def bytes16_def bytes32_def[of "isize ip"] length_concat_bytes)
  then show ?thesis using assms(1,3) unfolding store_dinode_def by (subst length_patch) simp_all
qed

lemma dinode_fits: "dinode_at n + 64 \<le> BSIZE"
  using mod_less_divisor[of IPB "unat n"] by (simp add: dinode_at_def)

lemma nth_concat_bytes32: "j < length ws \<Longrightarrow> m < 4 \<Longrightarrow> concat (map bytes32 ws) ! (4 * j + m) = bytes32 (ws ! j) ! m"
proof (induction ws arbitrary: j)
  case (Cons w ws)
  have l: "length (bytes32 w) = 4" by (simp add: bytes32_def)
  show ?case
  proof (cases j)
    case (Suc i)
    have "4 * Suc i + m - 4 = 4 * i + m" by simp
    then show ?thesis using Cons Suc l by (simp add: nth_append)
  qed (use Cons l in \<open>simp add: nth_append\<close>)
qed simp

text \<open>Reading the inode back from the block it was stored in.\<close>

lemma store_dinode_bytes:
  assumes d: "length d = BSIZE" and a: "length (addrs ip) = NDIRECT + 1"
  shows "j < BSIZE \<Longrightarrow> store_dinode ip (dinode_at n) d ! j = (if in_slot n j
    then (put_short (itype ip) @ put_short (imajor ip) @ put_short (iminor ip) @ put_short (inlink ip) @ bytes32 (isize ip) @
       concat (map bytes32 (addrs ip))) ! (j - dinode_at n) else d ! j)"
proof -
  assume j: "j < BSIZE"
  have l: "length (put_short (itype ip) @ put_short (imajor ip) @ put_short (iminor ip) @ put_short (inlink ip) @ bytes32 (isize ip) @
     concat (map bytes32 (addrs ip))) = 64" using a by (simp add: put_short_def bytes16_def bytes32_def[of "isize ip"] length_concat_bytes)
  show ?thesis unfolding store_dinode_def in_slot_def
    by (subst nth_patch) (use l d j dinode_fits[of n] in \<open>simp_all del: length_append\<close>)
qed

lemma store_dinode_other:
  assumes "length d = BSIZE" "length (addrs ip) = NDIRECT + 1" "j < BSIZE" "\<not> in_slot n j"
  shows "store_dinode ip (dinode_at n) d ! j = d ! j"
  using store_dinode_bytes[OF assms(1,2,3)] assms(4) by simp

lemma get32_nth:
  assumes "\<And>m. m < 4 \<Longrightarrow> d ! (k + m) = bytes32 w ! m"
  shows "get32 d k = w"
proof -
  have "d ! k = byte_of 0 w" "d ! (k + 1) = byte_of 1 w" "d ! (k + 2) = byte_of 2 w" "d ! (k + 3) = byte_of 3 w"
    using assms[of 0] assms[of 1] assms[of 2] assms[of 3] by (simp_all add: bytes32_def numeral_2_eq_2 numeral_3_eq_3)
  then show ?thesis using le32_byte_of[of w] by (simp add: get32_def)
qed

lemma load_store_dinode:
  assumes d: "length d = BSIZE" and a: "length (addrs ip) = NDIRECT + 1"
  shows "isize (load_dinode (store_dinode ip (dinode_at n) d) (dinode_at n) x) = isize ip"
    "addrs (load_dinode (store_dinode ip (dinode_at n) d) (dinode_at n) x) = addrs ip"
proof -
  let ?k = "dinode_at n"
  define h where "h = put_short (itype ip) @ put_short (imajor ip) @ put_short (iminor ip) @ put_short (inlink ip)"
  have lh: "length h = 8" by (simp add: h_def put_short_def bytes16_def)
  have lz: "length (bytes32 (isize ip)) = 4" by (simp add: bytes32_def)
  have sb: "store_dinode ip ?k d ! (?k + j) = (h @ bytes32 (isize ip) @ concat (map bytes32 (addrs ip))) ! j" if "j < 64" for j
    using store_dinode_bytes[OF d a, of "?k + j" n] that dinode_fits[of n] by (simp add: in_slot_def h_def)
  have "get32 (store_dinode ip ?k d) (?k + 8) = isize ip"
  proof (rule get32_nth)
    fix m :: nat assume m: "m < 4"
    then show "store_dinode ip ?k d ! (?k + 8 + m) = bytes32 (isize ip) ! m" using sb[of "8 + m"] lh lz by (simp add: nth_append add.assoc)
  qed
  then show "isize (load_dinode (store_dinode ip ?k d) ?k x) = isize ip" by (simp add: load_dinode_def)
  have "get32 (store_dinode ip ?k d) (?k + 12 + 4 * j) = addrs ip ! j" if j: "j < NDIRECT + 1" for j
  proof (rule get32_nth)
    fix m :: nat assume m: "m < 4"
    have "(h @ bytes32 (isize ip) @ concat (map bytes32 (addrs ip))) ! (12 + (4 * j + m)) = concat (map bytes32 (addrs ip)) ! (4 * j + m)"
      using lh lz by (simp add: nth_append)
    then show "store_dinode ip ?k d ! (?k + 12 + 4 * j + m) = bytes32 (addrs ip ! j) ! m"
      using sb[of "12 + (4 * j + m)"] nth_concat_bytes32[of j "addrs ip" m] j m a by (simp add: add.assoc)
  qed
  then have "map (\<lambda>j. get32 (store_dinode ip ?k d) (?k + 12 + 4 * j)) [0..<NDIRECT + 1] = addrs ip"
    by (intro nth_equalityI) (use a in simp_all)
  then show "addrs (load_dinode (store_dinode ip ?k d) ?k x) = addrs ip" by (simp add: load_dinode_def)
qed

definition synced :: "u32 \<Rightarrow> 'a fstate_scheme \<Rightarrow> nat \<Rightarrow> bool" where
  "synced dev s i \<longleftrightarrow>
     (let ip = inode_at s i; dip = load_dinode (blk dev s (IBLOCK (inum ip) (sb s))) (dinode_at (inum ip)) ip
      in isize dip = isize ip \<and> addrs dip = addrs ip)"

text \<open>A file after a step that leaves its blocks alone.\<close>

lemma edited_same:
  assumes f: "file_ok dev s i" and k: "fs_ok dev s"
    and s': "sb s' = sb s" "itable s' = (itable s)[i := (inode_at s i)\<lparr>isize := z\<rparr>]" "log_start s' = log_start s"
    and b: "\<And>b. b \<noteq> inode_block s i \<Longrightarrow> blk dev s' b = blk dev s b"
    and sl: "\<And>k. k < BSIZE \<Longrightarrow> \<not> in_slot (inum (inode_at s i)) k \<Longrightarrow> blk dev s' (inode_block s i) ! k = blk dev s (inode_block s i) ! k"
  shows "edited dev i s s'" "\<And>k. k < MAXFILE * BSIZE \<Longrightarrow> fbyte dev s' i k = fbyte dev s i k" "mapped dev s' i = mapped dev s i" "free_blocks dev s' = free_blocks dev s"
proof -
  let ?ads = "addrs (inode_at s i)"
  have i: "i < length (itable s)" using f by (simp add: file_ok_def)
  have n: "inode_at s' i = (inode_at s i)\<lparr>isize := z\<rparr>" using s'(2) i by simp
  note sb = meta_sb[OF s'(1,3)]
  note ap = inode_block_apart[OF f k]
  have m: "blk dev s' (map_block s y) = blk dev s (map_block s y)" if "y < unat (fssize (sb s))" for y
    by (rule b) (use ap(1) map_in[OF that] in auto)
  have ob: "x \<in> owned ?ads (blk dev s) \<Longrightarrow> blk dev s' x = blk dev s x" for x
    by (rule b) (use ap(3) in auto)
  have fa: "faddr ?ads (blk dev s') = faddr ?ads (blk dev s)" using ob by (auto simp: faddr_def owned_def fun_eq_iff)
  have fd: "fdata ?ads (blk dev s') bn = fdata ?ads (blk dev s) bn" if "bn < MAXFILE" for bn
    using ob[OF faddr_owned[OF that]] by (simp add: fdata_def fa)
  have ow: "owned ?ads (blk dev s') = owned ?ads (blk dev s)" "good_map ?ads (blk dev s') = good_map ?ads (blk dev s)"
    by (simp_all add: owned_def good_map_def fa)
  show fr: "free_blocks dev s' = free_blocks dev s" using m sb s'(1) by (auto simp: free_blocks_def allocated_def)
  have fk: "fs_ok dev s'" using k sb s'(1) fr by (simp add: fs_ok_def)
  have fo: "file_ok dev s' i" using f sb s'(1,2) fr ow i by (simp add: file_ok_def n)
  show mp: "mapped dev s' i = mapped dev s i" by (simp add: mapped_def n fa fun_eq_iff)
  have "(inode_at s i)\<lparr>isize := z\<rparr> = (inode_at s i)\<lparr>addrs := ?ads, isize := z\<rparr>" by (cases "inode_at s i") simp
  then have it: "\<exists>ads z. itable s' = (itable s)[i := (inode_at s i)\<lparr>addrs := ads, isize := z\<rparr>]" using s'(2) by metis
  show "edited dev i s s'" unfolding edited_def
    by (intro conjI s'(1,3) fk fo it) (use fr ow mp n b sl in auto)
  show "fbyte dev s' i k = fbyte dev s i k" if "k < MAXFILE * BSIZE" for k
    using fd[of "k div BSIZE"] that by (simp add: fbyte_def n div_less_iff_less_mult)
qed

lemma iupdate_tx:
  assumes t: "tx N dev me {} s" "room N (Suc k) s" and ok: "fs_ok dev s" and f: "file_ok dev s i"
  shows "\<exists>s'. iupdate me i s = Ok s' \<and> wrote N dev me {} 1 (blk dev s') s s' \<and> lstate.more s' = lstate.more s \<and>
     (\<forall>b. b \<noteq> inode_block s i \<longrightarrow> blk dev s' b = blk dev s b) \<and>
     blk dev s' (inode_block s i) = store_dinode (inode_at s i) (dinode_at (inum (inode_at s i))) (blk dev s (inode_block s i)) \<and>
     inode_block s i \<in> logged s'"
proof -
  define b where "b = IBLOCK (inum (inode_at s i)) (sb s)"
  define d where "d = store_dinode (inode_at s i) (dinode_at (inum (inode_at s i))) (blk dev s b)"
  have dv: "idev (inode_at s i) = dev" and la: "length (addrs (inode_at s i)) = NDIRECT + 1"
    using f by (simp_all add: file_ok_def good_map_def)
  have lb: "length (blk dev s b) = BSIZE" using cached_length[of dev s] t(1) by (simp add: tx_def)
  have ld: "length d = BSIZE" unfolding d_def
    by (rule length_store_dinode[OF lb la]) (use mod_less_divisor[of IPB "unat (inum (inode_at s i))"] in \<open>simp add: dinode_at_def\<close>)
  have bl: "b \<notin> log_area LOGDATA s" using ok f by (simp add: b_def fs_ok_def file_ok_def)
  obtain bp s1 s2 s3 where u: "bread me dev b s = Ok (bp, s1)" "data_of bp s1 = blk dev s b" "log_write bp (set_data bp d s1) = Ok s2"
     "brelse me bp s2 = Ok s3" "wrote N dev me {} 1 ((blk dev s)(b := d)) s s3" "b \<in> logged s3"
    using update_tx[OF t(1) _ _ ld t(2) bl] by auto
  have "lstate.more s3 = lstate.more s" using bread_lmore[OF u(1)] log_write_more[OF u(3)] brelse_lmore[OF u(4)] by simp
  moreover have "iupdate me i s = Ok s3" using u(1-4) dv by (simp add: iupdate_def Let_def b_def[symmetric] d_def)
  ultimately show ?thesis using u(5,6) wroteD(2)[OF u(5)] by (intro exI[of _ s3]) (simp add: b_def d_def)
qed

lemma iblock_meta: "fs_ok dev s \<Longrightarrow> file_ok dev s i \<Longrightarrow> IBLOCK (inum (inode_at s i)) (sb s) \<in> meta_blocks s"
  by (auto simp: file_ok_def meta_blocks_def map_blocks_def)

lemma unat_plus: "off \<le> off + n \<Longrightarrow> unat (off + n) = unat off + unat (n :: u32)"
  by (rule unat_plus_simple[THEN iffD1])

lemma writei_tx:
  assumes t: "tx N dev me {} s" "room N (6 * span (unat off) (unat n) + 1) s" and ok: "fs_ok dev s" and f: "file_ok dev s i"
    and fr: "2 * span (unat off) (unat n) \<le> card (free_blocks dev s)"
    and off: "off \<le> isize (inode_at s i)" "off \<le> off + n" "unat (off + n) \<le> MAXFILE * BSIZE" and ds: "length ds = unat n"
  shows "\<exists>s'. writei me i (Local ds) off n s = Ok (int (unat n), s') \<and>
     wrote N dev me {} (6 * span (unat off) (unat n) + 1) (blk dev s') s s' \<and> edited dev i s s' \<and>
     isize (inode_at s' i) = max (isize (inode_at s i)) (off + n) \<and>
     (\<forall>k < MAXFILE * BSIZE. fbyte dev s' i k = (if unat off \<le> k \<and> k < unat (off + n) then ds ! (k - unat off) else fbyte dev s i k)) \<and>
     (\<forall>k. unat off \<le> k \<and> k < unat (off + n) \<longrightarrow> mapped dev s' i k) \<and> synced dev s' i \<and> logged s' \<noteq> {}"
proof -
  let ?c = "span (unat off) (unat n)"
  note un = unat_plus[OF off(2)]
  have r: "room N (6 * ?c) s" by (rule room_le[OF t(2)]) simp
  have en: "unat off + unat n \<le> MAXFILE * BSIZE" using off(3) un by simp
  obtain s1 where l: "writei_loop me i (Local ds) (unat off) 0 (unat n) s = Ok (unat n, unat off + unat n, s1)"
     "wrote N dev me {} (6 * ?c) (blk dev s1) s s1" "edited dev i s s1" "isize (inode_at s1 i) = isize (inode_at s i)"
     "\<forall>k < MAXFILE * BSIZE. fbyte dev s1 i k = (if unat off \<le> k \<and> k < unat off + unat n then ds ! (k - unat off) else fbyte dev s i k)"
     "\<forall>k. unat off \<le> k \<and> k < unat off + unat n \<longrightarrow> mapped dev s1 i k"
    using writei_loop_tx[OF t(1) r ok f fr en, of ds 0] ds by auto
  note e1 = editedD[OF l(3)]
  have i1: "i < length (itable s1)" using e1(3) by (simp add: file_ok_def)
  define z where "z = max (isize (inode_at s i)) (off + n)"
  define s2 where "s2 = (if unat off + unat n > unat (isize (inode_at s1 i)) then upd_inode i (\<lambda>ip. ip\<lparr>isize := word_of_nat (unat off + unat n)\<rparr>) s1 else s1)"
  have zs: "unat off + unat n > unat (isize (inode_at s i)) \<longleftrightarrow> isize (inode_at s i) < off + n" using un by (simp add: word_less_nat_alt)
  have wn: "word_of_nat (unat off + unat n) = off + n" by simp
  have s2: "s2 = s1\<lparr>itable := (itable s1)[i := (inode_at s1 i)\<lparr>isize := z\<rparr>]\<rparr>"
  proof (cases "isize (inode_at s i) < off + n")
    case True
    then have zt: "z = off + n" unfolding z_def by (intro max_absorb2 order_less_imp_le)
    show ?thesis unfolding s2_def l(4) zs wn zt using True by (simp add: upd_inode_def)
  next
    case False
    then have "off + n \<le> isize (inode_at s i)" by (simp add: not_less)
    then have "z = isize (inode_at s1 i)" unfolding z_def l(4) by (rule max_absorb1)
    then have "(itable s1)[i := (inode_at s1 i)\<lparr>isize := z\<rparr>] = itable s1" by simp
    then show ?thesis unfolding s2_def l(4) zs using False by simp
  qed
  have m2: "isize (inode_at s2 i) = z" using i1 by (simp add: s2)
  have f2: "sb s2 = sb s1" "itable s2 = (itable s1)[i := (inode_at s1 i)\<lparr>isize := z\<rparr>]" "blk dev s2 = blk dev s1" "log_start s2 = log_start s1" by (simp_all add: s2)
  have t2: "tx N dev me {} s2" "room N (Suc 0) s2" using wroteD(1)[OF l(2)] room_after[OF _ l(2), of 1] t(2) by (simp_all add: s2 room_def)
  note e2 = edited_same[OF e1(3,2) f2(1,2,4), unfolded f2(3), OF refl refl]
  have ok2: "fs_ok dev s2" "file_ok dev s2 i" using editedD(2,3)[OF e2(1)] .
  obtain s3 where u: "iupdate me i s2 = Ok s3" "wrote N dev me {} 1 (blk dev s3) s2 s3" "lstate.more s3 = lstate.more s2"
     "\<forall>b. b \<noteq> inode_block s2 i \<longrightarrow> blk dev s3 b = blk dev s2 b"
     "blk dev s3 (inode_block s2 i) = store_dinode (inode_at s2 i) (dinode_at (inum (inode_at s2 i))) (blk dev s2 (inode_block s2 i))"
     "inode_block s2 i \<in> logged s3"
    using iupdate_tx[OF t2 ok2] by blast
  note fl = fs_fields[OF u(3)]
  have it3: "itable s3 = (itable s2)[i := (inode_at s2 i)\<lparr>isize := z\<rparr>]" unfolding fl(2) m2[symmetric] by simp
  note e3 = edited_same[OF ok2(2,1) fl(1) it3 wrote_log[OF u(2)]]
  have b1: "b \<noteq> inode_block s2 i \<Longrightarrow> blk dev s3 b = blk dev s2 b" for b using u(4) by blast
  have lb: "length (blk dev s2 (inode_block s2 i)) = BSIZE" using cached_length[of dev s2] t2(1) by (simp add: tx_def)
  have la: "length (addrs (inode_at s2 i)) = NDIRECT + 1" using ok2(2) by (simp add: file_ok_def good_map_def)
  have b2: "blk dev s3 (inode_block s2 i) ! k = blk dev s2 (inode_block s2 i) ! k" if "k < BSIZE" "\<not> in_slot (inum (inode_at s2 i)) k" for k
    unfolding u(5) by (rule store_dinode_other[OF lb la that])
  have sy: "synced dev s3 i" using load_store_dinode[OF lb la] by (simp add: synced_def fl u(5))
  note E3 = e3(1)[OF b1 b2] and F3 = e3(2)[OF b1 b2] and M3 = e3(3)[OF b1 b2]
  have "wrote N dev me {} (6 * ?c) (blk dev s1) s s2" using l(2) by (simp add: s2 wrote_itable)
  then have "wrote N dev me {} (6 * ?c + 1) (blk dev s3) s s3" using wrote_trans[OF _ u(2)] by blast
  moreover have "edited dev i s s3" by (rule edited_trans[OF edited_trans[OF l(3) e2(1)] E3])
  moreover have "isize (inode_at s3 i) = z" using fl m2 by simp
  moreover have "writei me i (Local ds) off n s = Ok (int (unat n), s3)"
    using off(1,2)[THEN leD] off(3) l(1) u(1) by (simp add: writei_def s2_def[symmetric])
  moreover have "\<forall>k < MAXFILE * BSIZE. fbyte dev s3 i k = (if unat off \<le> k \<and> k < unat (off + n) then ds ! (k - unat off) else fbyte dev s i k)"
    using l(5) e2(2) F3 un by simp
  moreover have "\<forall>k. unat off \<le> k \<and> k < unat (off + n) \<longrightarrow> mapped dev s3 i k" using l(6) e2(3) M3 un by simp
  ultimately show ?thesis using sy u(6) unfolding z_def by blast
qed

text \<open>A file without holes.\<close>

definition solid :: "u32 \<Rightarrow> 'a fstate_scheme \<Rightarrow> nat \<Rightarrow> bool" where
  "solid dev s i \<longleftrightarrow> unat (isize (inode_at s i)) \<le> MAXFILE * BSIZE \<and> (\<forall>k < unat (isize (inode_at s i)). mapped dev s i k)"

lemma readi_tx:
  assumes t: "tx N dev me {} s" "lh_n s + 3 \<le> int N" and f: "idev (inode_at s i) = dev" "solid dev s i" and w: "off \<le> off + n"
  defines "m \<equiv> min (unat n) (unat (isize (inode_at s i)) - unat off)"
  shows "\<exists>s'. readi me i (Local ds) off n s = Ok (int m, Local (ds @ map (fbyte dev s i) [unat off..<unat off + m]), s') \<and>
     wrote N dev me {} 0 (blk dev s) s s' \<and> lstate.more s' = lstate.more s"
proof (cases "off > isize (inode_at s i)")
  case True
  then have "m = 0" by (simp add: m_def word_less_nat_alt)
  moreover have "readi me i (Local ds) off n s = Ok (0, Local ds, s)" using True by (simp add: readi_def)
  ultimately show ?thesis using wrote_refl[OF t(1)] by (intro exI[of _ s]) simp
next
  case False
  let ?z = "isize (inode_at s i)"
  have le: "off \<le> ?z" using False by (simp add: not_less)
  have u: "unat (?z - off) = unat ?z - unat off" by (rule unat_sub[OF le])
  have c: "?z < off + n \<longleftrightarrow> unat ?z < unat off + unat n" using unat_plus[OF w] by (simp add: word_less_nat_alt)
  have mm: "unat (if off + n > ?z then ?z - off else n) = m" using c u le by (auto simp: m_def word_le_nat_alt min_def)
  have b: "unat off + m \<le> unat ?z" using le by (simp add: m_def word_le_nat_alt)
  have r: "readi me i (Local ds) off n s = readi_loop me i (Local ds) (unat off) 0 m s"
    unfolding mm[symmetric] using False w by (simp add: readi_def Let_def leD)
  have "\<forall>k. unat off \<le> k \<and> k < unat off + m \<longrightarrow> mapped dev s i k" using f(2) b by (simp add: solid_def)
  moreover have "unat off + m \<le> MAXFILE * BSIZE" using f(2) b by (simp add: solid_def)
  ultimately show ?thesis unfolding r using readi_loop_tx[OF t f(1), of "unat off" m ds 0] by simp
qed

lemma writei_solid:
  assumes e: "edited dev i s s'" and so: "solid dev s i" and off: "off \<le> isize (inode_at s i)" "unat (off + n) \<le> MAXFILE * BSIZE"
    and z: "isize (inode_at s' i) = max (isize (inode_at s i)) (off + n)"
    and m: "\<forall>k. unat off \<le> k \<and> k < unat (off + n) \<longrightarrow> mapped dev s' i k"
  shows "unat (isize (inode_at s' i)) = max (unat (isize (inode_at s i))) (unat (off + n))" "solid dev s' i"
proof -
  show mx: "unat (isize (inode_at s' i)) = max (unat (isize (inode_at s i))) (unat (off + n))"
    unfolding z by (simp add: max_def word_le_nat_alt)
  show "solid dev s' i" unfolding solid_def mx
  proof (intro conjI allI impI)
    show "max (unat (isize (inode_at s i))) (unat (off + n)) \<le> MAXFILE * BSIZE" using so off(2) by (simp add: solid_def)
    fix k assume k: "k < max (unat (isize (inode_at s i))) (unat (off + n))"
    show "mapped dev s' i k"
    proof (cases "unat off \<le> k \<and> k < unat (off + n)")
      case False
      then have "k < unat (isize (inode_at s i))" using k off(1) by (auto simp: word_le_nat_alt)
      then have "mapped dev s i k" "k < MAXFILE * BSIZE" using so by (simp_all add: solid_def)
      then show ?thesis using editedD(8)[OF e] by blast
    qed (use m in blast)
  qed
qed

lemma edited_inode_block:
  assumes "edited dev i s s'"
  shows "inode_block s i \<in> meta_blocks s"
proof -
  have "inum (inode_at s i) < ninodes (sb s)" using editedD(1,3,12)[OF assms] by (simp add: file_ok_def)
  then show ?thesis by (auto simp: meta_blocks_def)
qed

lemma other_file:
  assumes e: "edited dev i s s'" and f: "file_ok dev s j" "j \<noteq> i" "file_blocks dev s j \<inter> file_blocks dev s i = {}"
  shows "inode_at s' j = inode_at s j" "k < MAXFILE * BSIZE \<Longrightarrow> fbyte dev s' j k = fbyte dev s j k"
proof -
  note d = editedD[OF e]
  show n: "inode_at s' j = inode_at s j" using d(7) f(2) by auto
  let ?ads = "addrs (inode_at s j)"
  have ob: "x \<in> owned ?ads (blk dev s) \<Longrightarrow> blk dev s' x = blk dev s x" for x
    using f d(9)[of x] edited_inode_block[OF e] by (auto simp: file_ok_def meta_map)
  have fa: "faddr ?ads (blk dev s') = faddr ?ads (blk dev s)" using ob by (auto simp: faddr_def owned_def fun_eq_iff)
  have fd: "fdata ?ads (blk dev s') bn = fdata ?ads (blk dev s) bn" if "bn < MAXFILE" for bn
    using ob[OF faddr_owned[OF that]] by (simp add: fdata_def fa)
  show "fbyte dev s' j k = fbyte dev s j k" if "k < MAXFILE * BSIZE"
    using fd[of "k div BSIZE"] that by (simp add: fbyte_def n div_less_iff_less_mult)
qed

section \<open>Directories\<close>

text \<open>What a name is to \<open>namecmp\<close>: its characters before the NUL, at most \<open>DIRSIZ\<close> of them.\<close>

definition dname :: "nat \<Rightarrow> u8 list \<Rightarrow> u8 list" where
  "dname k p = takeWhile (\<lambda>b. b \<noteq> 0) (take k p)"

lemma cmp_name_iff: "cmp_name k p q = 0 \<longleftrightarrow> dname k p = dname k q"
  by (induction k p q rule: cmp_name.induct) (auto simp: dname_def word_uint_eq_iff split: list.splits)

definition dirent :: "u32 \<Rightarrow> 'a fstate_scheme \<Rightarrow> nat \<Rightarrow> nat \<Rightarrow> u8 list" where
  "dirent dev s dp q = map (fbyte dev s dp) [16 * q..<16 * q + 16]"

definition entry_for :: "u8 list \<Rightarrow> u8 list \<Rightarrow> bool" where
  "entry_for name d \<longleftrightarrow> de_inum d \<noteq> 0 \<and> namecmp name (de_name d) = 0"

definition dir_len :: "'a fstate_scheme \<Rightarrow> nat \<Rightarrow> nat" where
  "dir_len s dp = unat (isize (inode_at s dp)) div 16"

text \<open>A directory as a map: the inode number of the first entry with the name.\<close>

definition dir_slot :: "u32 \<Rightarrow> 'a fstate_scheme \<Rightarrow> nat \<Rightarrow> u8 list \<Rightarrow> nat option" where
  "dir_slot dev s dp name = List.find (\<lambda>q. entry_for name (dirent dev s dp q)) [0..<dir_len s dp]"

definition dir_inum :: "u32 \<Rightarrow> 'a fstate_scheme \<Rightarrow> nat \<Rightarrow> u8 list \<Rightarrow> u16 option" where
  "dir_inum dev s dp name = map_option (\<lambda>q. de_inum (dirent dev s dp q)) (dir_slot dev s dp name)"

definition dir_ok :: "u32 \<Rightarrow> 'a fstate_scheme \<Rightarrow> nat \<Rightarrow> bool" where
  "dir_ok dev s dp \<longleftrightarrow> idev (inode_at s dp) = dev \<and> solid dev s dp \<and> 16 dvd unat (isize (inode_at s dp))"

lemma same_dir:
  assumes "blk dev s' = blk dev s" "lstate.more s' = lstate.more s"
  shows "dirent dev s' dp = dirent dev s dp" "dir_ok dev s' dp = dir_ok dev s dp" "dir_len s' dp = dir_len s dp"
    "fbyte dev s' dp = fbyte dev s dp"
proof -
  note fl = fs_fields[OF assms(2)]
  show f: "fbyte dev s' dp = fbyte dev s dp" by (rule ext) (simp only: fbyte_def fl assms(1))
  then show "dirent dev s' dp = dirent dev s dp" by (simp add: dirent_def fun_eq_iff)
  show "dir_ok dev s' dp = dir_ok dev s dp" "dir_len s' dp = dir_len s dp"
    using fl assms(1) by (simp_all add: dir_ok_def dir_len_def solid_def mapped_def)
qed

lemma dir_bound: "dir_ok dev s dp \<Longrightarrow> 16 * dir_len s dp = unat (isize (inode_at s dp)) \<and> 16 * dir_len s dp \<le> MAXFILE * BSIZE"
  by (auto simp: dir_ok_def dir_len_def solid_def)

lemma read_dirent_tx:
  assumes t: "tx N dev me {} s" "lh_n s + 3 \<le> int N" and d: "dir_ok dev s dp" and q: "q < dir_len s dp"
  shows "\<exists>s'. read_dirent msg me dp (16 * q) s = Ok (dirent dev s dp q, s') \<and> wrote N dev me {} 0 (blk dev s) s s' \<and>
     lstate.more s' = lstate.more s"
proof -
  note b = dir_bound[OF d]
  have n: "16 * q + 16 \<le> MAXFILE * BSIZE" "16 * q + 16 \<le> unat (isize (inode_at s dp))" using b q by auto
  define o1 where "o1 = (word_of_nat (16 * q) :: u32)"
  have u: "unat o1 = 16 * q" unfolding o1_def by (rule of_nat_inverse[OF refl]) (use n(1) in simp)
  have w: "o1 \<le> o1 + 16" using n(1) by (intro no_olen_add_nat[THEN iffD2]) (simp add: u)
  have mm: "min (unat (16 :: u32)) (unat (isize (inode_at s dp)) - 16 * q) = 16" using n(2) by simp
  have di: "idev (inode_at s dp) = dev" "solid dev s dp" using d by (simp_all add: dir_ok_def)
  obtain s' where "readi me dp (Local []) o1 16 s =
       Ok (int 16, Local ([] @ map (fbyte dev s dp) [16 * q..<16 * q + 16]), s')"
     "wrote N dev me {} 0 (blk dev s) s s'" "lstate.more s' = lstate.more s"
    using readi_tx[OF t di w, of "[]", unfolded u mm] by blast
  then show ?thesis by (intro exI[of _ s']) (simp add: read_dirent_def dirent_def o1_def)
qed

lemma dir_find_tx:
  assumes "tx N dev me {} s" "lh_n s + 3 \<le> int N" "dir_ok dev s dp" "q \<le> dir_len s dp"
  shows "\<exists>s'. dir_find me dp name (16 * q) (16 * dir_len s dp) s =
      Ok (map_option (\<lambda>x. (de_inum (dirent dev s dp x), 16 * x)) (List.find (\<lambda>x. entry_for name (dirent dev s dp x)) [q..<dir_len s dp]), s') \<and>
     wrote N dev me {} 0 (blk dev s) s s' \<and> lstate.more s' = lstate.more s"
  using assms
proof (induction "dir_len s dp - q" arbitrary: q s)
  case 0
  then have "q = dir_len s dp" by simp
  then have "dir_find me dp name (16 * q) (16 * dir_len s dp) s = Ok (None, s)" by (simp add: dir_find.simps)
  then show ?case using 0 wrote_refl[OF "0.prems"(1)] by (intro exI[of _ s]) simp
next
  case (Suc x)
  have q: "q < dir_len s dp" using Suc(2) by simp
  obtain s1 where r: "read_dirent ''dirlookup read'' me dp (16 * q) s = Ok (dirent dev s dp q, s1)" "wrote N dev me {} 0 (blk dev s) s s1"
     "lstate.more s1 = lstate.more s" using read_dirent_tx[OF Suc.prems(1-3) q] by blast
  note e = same_dir[OF wroteD(2)[OF r(2)] r(3), of dp]
  have u: "[q..<dir_len s dp] = q # [Suc q..<dir_len s dp]" using q by (rule upt_conv_Cons)
  show ?case
  proof (cases "entry_for name (dirent dev s dp q)")
    case True
    then have "dir_find me dp name (16 * q) (16 * dir_len s dp) s = Ok (Some (de_inum (dirent dev s dp q), 16 * q), s1)"
      using r(1) q by (subst dir_find.simps) (simp add: entry_for_def)
    then show ?thesis using r(2,3) True by (intro exI[of _ s1]) (simp add: u)
  next
    case False
    then have st: "dir_find me dp name (16 * q) (16 * dir_len s dp) s = dir_find me dp name (16 * Suc q) (16 * dir_len s dp) s1"
      using r(1) q by (subst dir_find.simps) (auto simp: entry_for_def add.commute)
    have p: "x = dir_len s1 dp - Suc q" "lh_n s1 + 3 \<le> int N" "dir_ok dev s1 dp" "Suc q \<le> dir_len s1 dp"
      using Suc(2) Suc.prems(2,3) q e wroteD(3)[OF r(2)] by auto
    obtain s' where s': "dir_find me dp name (16 * Suc q) (16 * dir_len s1 dp) s1 =
        Ok (map_option (\<lambda>x. (de_inum (dirent dev s1 dp x), 16 * x)) (List.find (\<lambda>x. entry_for name (dirent dev s1 dp x)) [Suc q..<dir_len s1 dp]), s')"
      "wrote N dev me {} 0 (blk dev s1) s1 s'" "lstate.more s' = lstate.more s1"
      using Suc(1)[OF p(1) wroteD(1)[OF r(2)] p(2-4)] by blast
    have "wrote N dev me {} 0 (blk dev s) s s'" using wrote_trans[OF r(2) s'(2)] wroteD(2)[OF r(2)] by simp
    then show ?thesis using st s'(1,3) r(3) False e by (intro exI[of _ s']) (simp add: u)
  qed
qed

lemma dir_free_tx:
  assumes "tx N dev me {} s" "lh_n s + 3 \<le> int N" "dir_ok dev s dp" "q \<le> dir_len s dp"
  shows "\<exists>s' x. dir_free me dp (16 * q) (16 * dir_len s dp) s = Ok (16 * x, s') \<and> q \<le> x \<and> x \<le> dir_len s dp \<and>
     (x < dir_len s dp \<longrightarrow> de_inum (dirent dev s dp x) = 0) \<and>
     wrote N dev me {} 0 (blk dev s) s s' \<and> lstate.more s' = lstate.more s"
  using assms
proof (induction "dir_len s dp - q" arbitrary: q s)
  case 0
  then have "q = dir_len s dp" by simp
  then have "dir_free me dp (16 * q) (16 * dir_len s dp) s = Ok (16 * q, s)" by (simp add: dir_free.simps)
  then show ?case using 0 wrote_refl[OF "0.prems"(1)] by (intro exI[of _ s] exI[of _ q]) simp
next
  case (Suc y)
  have q: "q < dir_len s dp" using Suc(2) by simp
  obtain s1 where r: "read_dirent ''dirlink read'' me dp (16 * q) s = Ok (dirent dev s dp q, s1)" "wrote N dev me {} 0 (blk dev s) s s1"
     "lstate.more s1 = lstate.more s" using read_dirent_tx[OF Suc.prems(1-3) q] by blast
  note e = same_dir[OF wroteD(2)[OF r(2)] r(3), of dp]
  show ?case
  proof (cases "de_inum (dirent dev s dp q) = 0")
    case True
    then have "dir_free me dp (16 * q) (16 * dir_len s dp) s = Ok (16 * q, s1)"
      using r(1) q by (subst dir_free.simps) simp
    then show ?thesis using r(2,3) True q by (intro exI[of _ s1] exI[of _ q]) simp
  next
    case False
    then have st: "dir_free me dp (16 * q) (16 * dir_len s dp) s = dir_free me dp (16 * Suc q) (16 * dir_len s dp) s1"
      using r(1) q by (subst dir_free.simps) (simp add: add.commute)
    have p: "y = dir_len s1 dp - Suc q" "lh_n s1 + 3 \<le> int N" "dir_ok dev s1 dp" "Suc q \<le> dir_len s1 dp"
      using Suc(2) Suc.prems(2,3) q e wroteD(3)[OF r(2)] by auto
    obtain s' x where s': "dir_free me dp (16 * Suc q) (16 * dir_len s1 dp) s1 = Ok (16 * x, s')" "Suc q \<le> x" "x \<le> dir_len s1 dp"
      "x < dir_len s1 dp \<longrightarrow> de_inum (dirent dev s1 dp x) = 0"
      "wrote N dev me {} 0 (blk dev s1) s1 s'" "lstate.more s' = lstate.more s1"
      using Suc(1)[OF p(1) wroteD(1)[OF r(2)] p(2-4)] by blast
    have "wrote N dev me {} 0 (blk dev s) s s'" using wrote_trans[OF r(2) s'(5)] wroteD(2)[OF r(2)] by simp
    then show ?thesis using st s' r(3) e by (intro exI[of _ s'] exI[of _ x]) simp
  qed
qed

lemma dirlookup_tx:
  assumes t: "tx N dev me {} s" "lh_n s + 3 \<le> int N" and d: "dir_ok dev s dp" "itype (inode_at s dp) = T_DIR"
  shows "\<exists>s1. wrote N dev me {} 0 (blk dev s) s s1 \<and> lstate.more s1 = lstate.more s \<and>
     dirlookup me dp name s = (case dir_slot dev s dp name of
        None \<Rightarrow> Ok (None, s1)
      | Some q \<Rightarrow> rbind (iget dev (ucast (de_inum (dirent dev s dp q))) s1) (\<lambda>(ip, s2). Ok (Some (ip, 16 * q), s2)))"
proof -
  have z: "unat (isize (inode_at s dp)) = 16 * dir_len s dp" using dir_bound[OF d(1)] by simp
  obtain s1 where r: "dir_find me dp name (16 * 0) (16 * dir_len s dp) s =
      Ok (map_option (\<lambda>x. (de_inum (dirent dev s dp x), 16 * x)) (dir_slot dev s dp name), s1)"
     "wrote N dev me {} 0 (blk dev s) s s1" "lstate.more s1 = lstate.more s"
    using dir_find_tx[OF t d(1) le0, of name] unfolding dir_slot_def by blast
  have "idev (inode_at s1 dp) = dev" using fs_fields(2)[OF r(3)] d(1) by (simp add: dir_ok_def)
  then have "dirlookup me dp name s = (case dir_slot dev s dp name of
        None \<Rightarrow> Ok (None, s1)
      | Some q \<Rightarrow> rbind (iget dev (ucast (de_inum (dirent dev s dp q))) s1) (\<lambda>(ip, s2). Ok (Some (ip, 16 * q), s2)))"
    using r(1) d(2) z by (simp add: dirlookup_def split: option.split)
  then show ?thesis using r(2,3) by blast
qed

lemma find_upt:
  "List.find P [0..<n] = Some q \<longleftrightarrow> q < n \<and> P q \<and> (\<forall>r < q. \<not> P r)"
  "List.find P [0..<n] = None \<longleftrightarrow> (\<forall>r < n. \<not> P r)"
  by (auto simp: find_Some_iff find_None_iff)

lemma length_dirent_bytes: "length (dirent_bytes n name) = 16"
  by (simp add: dirent_bytes_def bytes16_def min_def)

lemma dirent_bytes_fields:
  assumes "0 \<notin> set name"
  shows "de_inum (dirent_bytes n name) = n" "dname DIRSIZ (de_name (dirent_bytes n name)) = dname DIRSIZ name"
proof -
  show "de_inum (dirent_bytes n name) = n"
    by (simp add: de_inum_def dirent_bytes_def bytes16_def get16_def byte_of_def bit_eq_iff bit_simps) (auto simp: bit_simps)
  have nz: "x \<in> set (take DIRSIZ name) \<Longrightarrow> x \<noteq> 0" for x using assms in_set_takeD[of x DIRSIZ name] by auto
  have "de_name (dirent_bytes n name) = take DIRSIZ name @ replicate (DIRSIZ - length name) 0"
    by (simp add: de_name_def dirent_bytes_def bytes16_def)
  then have "takeWhile (\<lambda>b. b \<noteq> 0) (take DIRSIZ (de_name (dirent_bytes n name))) = take DIRSIZ name"
    using nz by (cases "DIRSIZ - length name") (auto simp: takeWhile_append2 takeWhile_append1 takeWhile_eq_all_conv[THEN iffD2])
  moreover have "takeWhile (\<lambda>b. b \<noteq> 0) (take DIRSIZ name) = take DIRSIZ name"
    using nz unfolding takeWhile_eq_all_conv by blast
  ultimately show "dname DIRSIZ (de_name (dirent_bytes n name)) = dname DIRSIZ name" unfolding dname_def by (simp only:)
qed

lemma span_dirent: "span (16 * x) 16 = 1"
proof -
  have "(16 * x + 15) div (16 * 64) = (16 * x) div (16 * 64 :: nat)" unfolding div_mult2_eq by simp
  then show ?thesis by (simp add: span_def)
qed

lemma dirent_change:
  assumes f: "\<forall>k < MAXFILE * BSIZE. fbyte dev s' dp k = (if 16 * x \<le> k \<and> k < 16 * x + 16 then bs ! (k - 16 * x) else fbyte dev s dp k)"
    and l: "length bs = 16" and q: "16 * q + 16 \<le> MAXFILE * BSIZE"
  shows "dirent dev s' dp q = (if q = x then bs else dirent dev s dp q)"
proof (rule nth_equalityI)
  show "length (dirent dev s' dp q) = length (if q = x then bs else dirent dev s dp q)" by (simp add: dirent_def l)
  fix j assume "j < length (dirent dev s' dp q)"
  then have j: "j < 16" by (simp add: dirent_def)
  have b: "16 * q + j < MAXFILE * BSIZE" using q j by simp
  have "16 * x \<le> 16 * q + j \<and> 16 * q + j < 16 * x + 16 \<longleftrightarrow> q = x" using j by arith
  then show "dirent dev s' dp q ! j = (if q = x then bs else dirent dev s dp q) ! j"
    using f b j by (auto simp: dirent_def)
qed

lemma dirlink_slots:
  assumes x: "x \<le> n" "x < n \<longrightarrow> de_inum (E x) = 0" and new: "de_inum bs \<noteq> 0" "dname DIRSIZ (de_name bs) = dname DIRSIZ name"
    and none: "List.find (\<lambda>q. entry_for name (E q)) [0..<n] = None"
    and E': "\<And>q. q < n' \<Longrightarrow> E' q = (if q = x then bs else E q)" and n': "n' = max n (Suc x)"
  shows "map_option (\<lambda>q. de_inum (E' q)) (List.find (\<lambda>q. entry_for nm (E' q)) [0..<n']) =
      (if dname DIRSIZ nm = dname DIRSIZ name then Some (de_inum bs)
       else map_option (\<lambda>q. de_inum (E q)) (List.find (\<lambda>q. entry_for nm (E q)) [0..<n]))"
    and "dname DIRSIZ nm = dname DIRSIZ name \<Longrightarrow> List.find (\<lambda>q. entry_for nm (E' q)) [0..<n'] = Some x"
proof -
  have ef: "entry_for nm d \<longleftrightarrow> de_inum d \<noteq> 0 \<and> dname DIRSIZ nm = dname DIRSIZ (de_name d)" for nm d
    by (simp add: entry_for_def namecmp_def cmp_name_iff)
  have xn: "x < n'" using n' by simp
  have nh: "\<not> entry_for name (E q)" if "q < n" for q using none that by (simp add: find_upt)
  show s: "List.find (\<lambda>q. entry_for nm (E' q)) [0..<n'] = Some x" if same: "dname DIRSIZ nm = dname DIRSIZ name"
  proof -
    have "entry_for nm (E' x)" using E'[OF xn] new same by (simp add: ef)
    moreover have "\<not> entry_for nm (E' r)" if "r < x" for r
      using E'[of r] nh[of r] that x(1) xn same by (simp add: ef)
    ultimately show ?thesis using xn by (simp add: find_upt)
  qed
  show "map_option (\<lambda>q. de_inum (E' q)) (List.find (\<lambda>q. entry_for nm (E' q)) [0..<n']) =
      (if dname DIRSIZ nm = dname DIRSIZ name then Some (de_inum bs)
       else map_option (\<lambda>q. de_inum (E q)) (List.find (\<lambda>q. entry_for nm (E q)) [0..<n]))"
  proof (cases "dname DIRSIZ nm = dname DIRSIZ name")
    case True
    then show ?thesis using s E'[OF xn] by simp
  next
    case False
    have eq: "entry_for nm (E' q) \<longleftrightarrow> q < n \<and> entry_for nm (E q)" if q: "q < n'" for q
    proof (cases "q = x")
      case True
      then show ?thesis using E'[OF q] new False x(2) by (auto simp: ef)
    next
      case False
      then have "q < n" using q n' x(1) by auto
      then show ?thesis using E'[OF q] False by simp
    qed
    have "map_option (\<lambda>q. de_inum (E' q)) (List.find (\<lambda>q. entry_for nm (E' q)) [0..<n']) =
       map_option (\<lambda>q. de_inum (E q)) (List.find (\<lambda>q. entry_for nm (E q)) [0..<n])"
    proof (cases "List.find (\<lambda>q. entry_for nm (E q)) [0..<n]")
      case None
      then have "List.find (\<lambda>q. entry_for nm (E' q)) [0..<n'] = None" using eq by (auto simp: find_upt)
      then show ?thesis using None by simp
    next
      case (Some q)
      then have q: "q < n" "entry_for nm (E q)" "\<forall>r < q. \<not> entry_for nm (E r)" by (simp_all add: find_upt)
      have qn: "q < n'" using q(1) n' by simp
      have "List.find (\<lambda>q. entry_for nm (E' q)) [0..<n'] = Some q" using eq q qn by (auto simp: find_upt)
      moreover have "q \<noteq> x" using q(1,2) x(2) by (auto simp: ef)
      ultimately show ?thesis using Some E'[OF qn] by simp
    qed
    then show ?thesis using False by simp
  qed
qed

text \<open>\<open>dirlink\<close> up to its write: the name is not there, and the first free entry or the end is found.\<close>

lemma dirlink_run:
  assumes t: "tx N dev me {} s" "lh_n s + 3 \<le> int N" and d: "dir_ok dev s dp" "itype (inode_at s dp) = T_DIR" and none: "dir_slot dev s dp name = None"
  shows "\<exists>x s2. x \<le> dir_len s dp \<and> (x < dir_len s dp \<longrightarrow> de_inum (dirent dev s dp x) = 0) \<and> wrote N dev me {} 0 (blk dev s) s s2 \<and>
     lstate.more s2 = lstate.more s \<and>
     dirlink me dp name n s = rbind (writei me dp (Local (dirent_bytes (ucast n) name)) (word_of_nat (16 * x)) 16 s2)
       (\<lambda>(w, s3). Ok (if w \<noteq> 16 then -1 else 0, s3))"
proof -
  obtain s1 where l1: "wrote N dev me {} 0 (blk dev s) s s1" "lstate.more s1 = lstate.more s" "dirlookup me dp name s = Ok (None, s1)"
    using dirlookup_tx[OF t d, of name] none by auto
  note e1 = same_dir[OF wroteD(2)[OF l1(1)] l1(2), of dp]
  have d1: "dir_ok dev s1 dp" "lh_n s1 + 3 \<le> int N" using e1 d(1) t(2) wroteD(3)[OF l1(1)] by auto
  obtain s2 x where l2: "dir_free me dp (16 * 0) (16 * dir_len s1 dp) s1 = Ok (16 * x, s2)" "x \<le> dir_len s dp"
     "x < dir_len s dp \<longrightarrow> de_inum (dirent dev s dp x) = 0" "wrote N dev me {} 0 (blk dev s1) s1 s2" "lstate.more s2 = lstate.more s1"
    using dir_free_tx[OF wroteD(1)[OF l1(1)] d1(2,1) le0] e1 by auto
  have "wrote N dev me {} 0 (blk dev s) s s2" using wrote_trans[OF l1(1) l2(4)] wroteD(2)[OF l1(1)] by simp
  moreover have "dirlink me dp name n s = rbind (writei me dp (Local (dirent_bytes (ucast n) name)) (word_of_nat (16 * x)) 16 s2)
       (\<lambda>(w, s3). Ok (if w \<noteq> 16 then -1 else 0, s3))"
    using l1(3) l2(1) dir_bound[OF d1(1)] by (simp add: dirlink_def)
  ultimately show ?thesis using l1(2) l2(2,3,5) by (intro exI[of _ x] exI[of _ s2]) simp
qed

text \<open>Writing one entry of a directory, in the middle or at the end.\<close>

lemma write_dirent:
  assumes t: "tx N dev me {} s" "room N 7 s" and k: "fs_ok dev s" and f: "file_ok dev s dp" and d: "dir_ok dev s dp" "itype (inode_at s dp) = T_DIR"
    and fr: "2 \<le> card (free_blocks dev s)" and x: "x \<le> dir_len s dp" "16 * x + 16 \<le> MAXFILE * BSIZE" and bs: "length bs = 16"
  shows "\<exists>s'. writei me dp (Local bs) (word_of_nat (16 * x)) 16 s = Ok (16, s') \<and> wrote N dev me {} 7 (blk dev s') s s' \<and>
     edited dev dp s s' \<and> dir_ok dev s' dp \<and> itype (inode_at s' dp) = T_DIR \<and> dir_len s' dp = max (dir_len s dp) (Suc x) \<and>
     (\<forall>q < dir_len s' dp. dirent dev s' dp q = (if q = x then bs else dirent dev s dp q))"
proof -
  note db = dir_bound[OF d(1)]
  define o1 where "o1 = (word_of_nat (16 * x) :: u32)"
  have u: "unat o1 = 16 * x" unfolding o1_def by (rule of_nat_inverse[OF refl]) (use x(2) in simp)
  have nw: "o1 \<le> o1 + 16" using x(2) by (intro no_olen_add_nat[THEN iffD2]) (simp add: u)
  have u16: "unat (o1 + 16) = 16 * x + 16" "unat (16 :: u32) = 16" using unat_plus[OF nw] u by simp_all
  have sp: "span (unat o1) (unat (16 :: u32)) = 1" unfolding u u16(2) by (rule span_dirent)
  have le: "o1 \<le> isize (inode_at s dp)" using x(1) db u by (simp add: word_le_nat_alt)
  have pre: "room N (6 * span (unat o1) (unat (16 :: u32)) + 1) s" "2 * span (unat o1) (unat (16 :: u32)) \<le> card (free_blocks dev s)"
    unfolding sp using t(2) fr by simp_all
  have mx: "unat (o1 + 16) \<le> MAXFILE * BSIZE" unfolding u16(1) by (rule x(2))
  have lb: "length bs = unat (16 :: u32)" by (simp add: bs)
  obtain s' where w: "writei me dp (Local bs) o1 16 s = Ok (int (unat (16 :: u32)), s')"
     "wrote N dev me {} (6 * span (unat o1) (unat (16 :: u32)) + 1) (blk dev s') s s'" "edited dev dp s s'"
     "isize (inode_at s' dp) = max (isize (inode_at s dp)) (o1 + 16)"
     "\<forall>k < MAXFILE * BSIZE. fbyte dev s' dp k = (if unat o1 \<le> k \<and> k < unat (o1 + 16) then bs ! (k - unat o1) else fbyte dev s dp k)"
     "\<forall>k. unat o1 \<le> k \<and> k < unat (o1 + 16) \<longrightarrow> mapped dev s' dp k"
    using writei_tx[OF t(1) pre(1) k f pre(2) le nw mx lb] by blast
  have ds: "solid dev s dp" using d(1) by (simp add: dir_ok_def)
  note so = writei_solid[OF w(3) ds le mx w(4,6)]
  have z: "unat (isize (inode_at s' dp)) = 16 * max (dir_len s dp) (Suc x)" using so(1) db u16(1) by (simp add: max_def)
  then have n: "dir_len s' dp = max (dir_len s dp) (Suc x)" by (simp add: dir_len_def)
  have E: "dirent dev s' dp q = (if q = x then bs else dirent dev s dp q)" if "q < dir_len s' dp" for q
  proof -
    have "16 * q + 16 \<le> MAXFILE * BSIZE" using that n db x(2) by (auto simp: max_def split: if_splits)
    then show ?thesis by (rule dirent_change[OF w(5)[unfolded u u16(1)] bs])
  qed
  have dp: "dp < length (itable s)" using f by (simp add: file_ok_def)
  obtain ads z1 where "itable s' = (itable s)[dp := (inode_at s dp)\<lparr>addrs := ads, isize := z1\<rparr>]" using editedD(7)[OF w(3)] by blast
  then have i: "idev (inode_at s' dp) = dev" "itype (inode_at s' dp) = T_DIR" using dp f d(2) by (simp_all add: file_ok_def)
  have "dir_ok dev s' dp" using i(1) so(2) z by (simp add: dir_ok_def)
  then show ?thesis using w(1,2,3) i(2) n E sp by (intro exI[of _ s']) (simp add: o1_def)
qed

end
