(* ===== verification/Crash.thy ===== *)
theory Crash
  imports Files
begin

text \<open>
  A whole write to a file against a crash: \<open>writei\<close> in a transaction, \<open>end_op\<close> that commits it, a crash after any
  number of the commit's writes and the recovery of the next boot, as what is in the file on the disk (\<open>disk_file\<close>).
\<close>

section \<open>Files on the disk\<close>

definition empty_inode :: inode where
  "empty_inode = \<lparr>idev = 0, inum = 0, iref = 0, ilk = initsleeplock, ivalid = False, itype = 0, imajor = 0, iminor = 0,
     inlink = 0, isize = 0, addrs = []\<rparr>"

definition disk_inode :: "superblock \<Rightarrow> u32 \<Rightarrow> (u32 \<Rightarrow> u8 list) \<Rightarrow> inode" where
  "disk_inode b n D = load_dinode (D (IBLOCK n b)) (dinode_at n) empty_inode"

definition disk_file :: "superblock \<Rightarrow> u32 \<Rightarrow> (u32 \<Rightarrow> u8 list) \<Rightarrow> u8 list" where
  "disk_file b n D =
     (let ip = disk_inode b n D in map (\<lambda>k. fdata (addrs ip) D (k div BSIZE) ! (k mod BSIZE)) [0..<unat (isize ip)])"

lemma load_dinode_addrs:
  "isize (load_dinode d k ip) = get32 d (k + 8)" "addrs (load_dinode d k ip) = map (\<lambda>j. get32 d (k + 12 + 4 * j)) [0..<NDIRECT + 1]"
  by (simp_all add: load_dinode_def)

lemma fdata_cong:
  assumes "\<And>x. x \<in> owned ads D \<Longrightarrow> D' x = D x" "bn < MAXFILE"
  shows "fdata ads D' bn = fdata ads D bn"
proof -
  have "ads ! NDIRECT \<noteq> 0 \<Longrightarrow> D' (ads ! NDIRECT) = D (ads ! NDIRECT)" by (rule assms(1)) (simp add: owned_def)
  then have f: "faddr ads D' bn = faddr ads D bn" by (simp add: faddr_def)
  then show ?thesis using assms(1)[OF faddr_owned[OF assms(2)]] by (simp add: fdata_def)
qed

lemma disk_file_cong:
  assumes i: "\<And>k. in_slot n k \<Longrightarrow> D' (IBLOCK n b) ! k = D (IBLOCK n b) ! k"
    and o: "\<And>x. x \<in> owned (addrs (disk_inode b n D)) D \<Longrightarrow> D' x = D x"
    and z: "unat (isize (disk_inode b n D)) \<le> MAXFILE * BSIZE"
  shows "disk_file b n D' = disk_file b n D"
proof -
  have g: "get32 (D' (IBLOCK n b)) (dinode_at n + j) = get32 (D (IBLOCK n b)) (dinode_at n + j)" if "j + 4 \<le> 64" for j
    using i[of "dinode_at n + j"] i[of "dinode_at n + j + 1"] i[of "dinode_at n + j + 2"] i[of "dinode_at n + j + 3"] that
    by (simp add: get32_def in_slot_def)
  have s: "isize (disk_inode b n D') = isize (disk_inode b n D)" using g[of 8] by (simp add: disk_inode_def load_dinode_addrs)
  have a: "addrs (disk_inode b n D') = addrs (disk_inode b n D)"
  proof -
    have "get32 (D' (IBLOCK n b)) (dinode_at n + 12 + 4 * j) = get32 (D (IBLOCK n b)) (dinode_at n + 12 + 4 * j)" if "j < NDIRECT + 1" for j
      using g[of "12 + 4 * j"] that by (simp add: add.assoc)
    then show ?thesis unfolding disk_inode_def load_dinode_addrs by (intro map_cong refl) auto
  qed
  have "fdata (addrs (disk_inode b n D)) D' (k div BSIZE) = fdata (addrs (disk_inode b n D)) D (k div BSIZE)"
    if "k < unat (isize (disk_inode b n D))" for k
    by (rule fdata_cong[OF o]) (use that z in \<open>simp_all add: div_less_iff_less_mult\<close>)
  then show ?thesis unfolding disk_file_def Let_def s a by (intro map_cong refl) auto
qed

text \<open>The file on a disk that holds what the block layer shows of it.\<close>

lemma disk_file_view:
  assumes y: "synced dev s i" and i: "D (inode_block s i) = blk dev s (inode_block s i)"
    and o: "\<And>x. x \<in> file_blocks dev s i \<Longrightarrow> D x = blk dev s x" and z: "unat (isize (inode_at s i)) \<le> MAXFILE * BSIZE"
  shows "disk_file (sb s) (inum (inode_at s i)) D = map (fbyte dev s i) [0..<unat (isize (inode_at s i))]"
proof -
  have d: "isize (disk_inode (sb s) (inum (inode_at s i)) D) = isize (inode_at s i)"
    "addrs (disk_inode (sb s) (inum (inode_at s i)) D) = addrs (inode_at s i)"
    using y by (simp_all add: disk_inode_def i synced_def load_dinode_addrs Let_def)
  have "fdata (addrs (inode_at s i)) D (k div BSIZE) = fdata (addrs (inode_at s i)) (blk dev s) (k div BSIZE)"
    if "k < unat (isize (inode_at s i))" for k
    by (rule fdata_cong[OF o]) (use that z in \<open>simp_all add: div_less_iff_less_mult\<close>)
  then show ?thesis unfolding disk_file_def Let_def d by (intro map_cong refl) (auto simp: fbyte_def)
qed

section \<open>Committing a transaction\<close>

text \<open>The log as \<open>initlog\<close> finds it: its blocks are apart, and the header on the disk is empty.\<close>

definition log_ready :: "u32 \<Rightarrow> 'a lstate_scheme \<Rightarrow> bool" where
  "log_ready dev s \<longleftrightarrow> log_dev s = dev \<and> inj_on (log_at s) {..<LOGDATA} \<and> head_at s \<notin> log_at s ` {..<LOGDATA} \<and>
     head_n (disk s (head_at s)) = 0"

lemma log_ready_steady: "steady s s' \<Longrightarrow> log_ready dev s' = log_ready dev s"
  by (simp add: steady_def log_ready_def head_at_def log_at_def fun_eq_iff inj_on_def)

lemma logged_image: "nat (lh_n s) \<le> length (lh_block s) \<Longrightarrow> (\<lambda>t. lh_block s ! t) ` {..<nat (lh_n s)} = logged s"
  using nth_image[of "nat (lh_n s)" "lh_block s"] by (simp add: logged_def atLeast0LessThan)

lemma tx_transaction:
  assumes t: "tx N dev me {} s" and l: "log_ready dev s" and n: "logged s \<noteq> {}" "nat (lh_n s) < N"
  shows "transaction dev me s"
proof -
  let ?n = "nat (lh_n s)"
  have nn: "?n \<le> LOGDATA" "length (lh_block s) = LOGSIZE" "0 \<le> lh_n s"
    using t tx_bound(1)[OF t] by (simp_all add: tx_def)
  have im: "(\<lambda>t. lh_block s ! t) ` {..<?n} = logged s" by (rule logged_image[OF tx_bound(3)[OF t]])
  have q: "quiet dev me (logged s) s" using t by (simp add: quiet_def tx_def fun_eq_iff)
  have pos: "0 < lh_n s" using n(1) nn by (cases "lh_n s = 0") (auto simp: logged_def)
  have c: "0 < card (free_bufs s)" using t n(2) card_logged[OF t] by (simp add: tx_def)
  have "log_layout ?n (\<lambda>t. lh_block s ! t) s" unfolding log_layout_def
  proof (intro conjI allI impI)
    have "distinct (take ?n (lh_block s))" using t by (simp add: tx_def)
    moreover have "map (\<lambda>t. lh_block s ! t) [0..<?n] = take ?n (lh_block s)" using nn by (intro nth_equalityI) simp_all
    ultimately show "distinct (map (\<lambda>t. lh_block s ! t) [0..<?n])" by simp
    have "inj_on (log_at s) {..<?n}" using l nn(1) unfolding log_ready_def by (blast intro: inj_on_subset)
    then show "distinct (map (log_at s) [0..<?n])" by (simp add: distinct_map atLeast0LessThan)
    fix k assume k: "k < ?n"
    then have kl: "k < LOGDATA" using nn(1) by simp
    have h: "lh_block s ! u \<notin> log_area LOGDATA s" if "u < ?n" for u using im t that by (auto simp: tx_def)
    show "lh_block s ! k \<noteq> head_at s" using h[OF k] by (auto simp: log_area_def)
    have "log_at s k \<in> log_at s ` {..<LOGDATA}" by (rule imageI) (use kl in simp)
    then show "log_at s k \<noteq> head_at s" using l unfolding log_ready_def by metis
    show "lh_block s ! u \<noteq> log_at s k" if "u < ?n" for u using h[OF that] kl by (auto simp: log_area_def)
  qed
  then show ?thesis unfolding transaction_def im using q pos nn c l by (simp add: log_ready_def)
qed

text \<open>\<open>end_op\<close> of the last operation commits.\<close>

lemma commit_view:
  assumes "bufs s' = bufs s" "lru s' = lru s" "disk s' = disk s" "procs s' = procs s" "log_dev s' = log_dev s" "log_start s' = log_start s"
    "lh_n s' = lh_n s" "lh_block s' = lh_block s"
  shows "transaction dev me s' = transaction dev me s" "commit_writes dev s' = commit_writes dev s"
proof -
  note v = view_cong[OF assms(1-3)]
  have h: "head_at s' = head_at s" "log_at s' = log_at s" using assms by (simp_all add: head_at_def log_at_def fun_eq_iff)
  show "commit_writes dev s' = commit_writes dev s" by (simp add: commit_writes_def v h assms Let_def)
  show "transaction dev me s' = transaction dev me s" by (simp add: transaction_def quiet_def log_layout_def v h assms)
qed

lemma end_op_commits:
  assumes t: "transaction dev me s" and o: "outstanding s = 1" "\<not> committing s"
  shows "\<exists>s'. end_op me s = Ok s' \<and> disk_trace s' = disk_trace s @ commit_writes dev s"
proof -
  let ?s = "s\<lparr>outstanding := 0, committing := True\<rparr>"
  note c = commit_view[of ?s s]
  have T: "transaction dev me ?s" "commit_writes dev ?s = commit_writes dev s" using c t by simp_all
  obtain s2 where "commit me ?s = Ok s2" "stepped dev me {} ?s (commit_writes dev ?s) s2"
    using commit_steps[of dev me _ ?s] T(1) by (auto simp: transaction_def)
  then show ?thesis using o T(2) by (simp add: end_op_def stepped_def Let_def)
qed

section \<open>A write and a crash\<close>

lemma slot_unique:
  assumes "IBLOCK m b = IBLOCK n b" "in_slot m k" "in_slot n k"
  shows "m = n"
proof -
  have "unat (m div 16) = unat (n div 16)" using assms(1) by (simp add: IBLOCK_def)
  then have q: "unat m div 16 = unat n div 16" by (simp add: unat_div)
  define x where "x = unat m mod 16"
  define y where "y = unat n mod 16"
  have "64 * x \<le> k" "k < 64 * x + 64" "64 * y \<le> k" "k < 64 * y + 64"
    using assms(2,3) by (simp_all add: in_slot_def dinode_at_def x_def y_def)
  then have "x = y" by linarith
  then have "unat m = unat n" using q unfolding x_def y_def by (metis div_mult_mod_eq)
  then show ?thesis by (rule unsigned_word_eqI)
qed

text \<open>A file of the disk that shares no block with the file of the inode \<open>i\<close>.\<close>

definition disk_apart :: "u32 \<Rightarrow> 'a fstate_scheme \<Rightarrow> nat \<Rightarrow> u32 \<Rightarrow> bool" where
  "disk_apart dev s i m \<longleftrightarrow> m \<noteq> inum (inode_at s i) \<and> m < ninodes (sb s) \<and>
     unat (isize (disk_inode (sb s) m (disk s))) \<le> MAXFILE * BSIZE \<and>
     (\<forall>b \<in> owned (addrs (disk_inode (sb s) m (disk s))) (disk s).
        b \<notin> meta_blocks s \<and> unat b \<notin> free_blocks dev s \<and> b \<notin> file_blocks dev s i)"

lemma disk_apart_kept:
  assumes e: "edited dev i s s'" and k: "fs_ok dev s" and f: "file_ok dev s i" and a: "disk_apart dev s i m"
    and v: "blk dev s = disk s" and D: "\<And>b. b \<notin> log_area LOGDATA s \<Longrightarrow> D b = blk dev s' b"
  shows "disk_file (sb s) m D = disk_file (sb s) m (disk s)"
proof (rule disk_file_cong)
  note d = editedD[OF e]
  have m: "m \<noteq> inum (inode_at s i)" "m < ninodes (sb s)" using a by (simp_all add: disk_apart_def)
  have mm: "IBLOCK m (sb s) \<in> meta_blocks s" using m(2) by (auto simp: meta_blocks_def)
  have ml: "IBLOCK m (sb s) \<notin> log_area LOGDATA s" "IBLOCK m (sb s) \<notin> map_blocks s"
    using k m(2) by (auto simp: fs_ok_def map_blocks_def)
  have mf: "unat (IBLOCK m (sb s)) \<notin> free_blocks dev s"
  proof
    assume "unat (IBLOCK m (sb s)) \<in> free_blocks dev s"
    then have "word_of_nat (unat (IBLOCK m (sb s))) \<notin> meta_blocks s" using k unfolding fs_ok_def by blast
    then show False using mm by simp
  qed
  have mo: "IBLOCK m (sb s) \<notin> file_blocks dev s i" using f mm by (auto simp: file_ok_def)
  show "D (IBLOCK m (sb s)) ! j = disk s (IBLOCK m (sb s)) ! j" if j: "in_slot m j" for j
  proof (cases "IBLOCK m (sb s) = inode_block s i")
    case True
    have "\<not> in_slot (inum (inode_at s i)) j" using slot_unique[OF True j] m(1) by blast
    moreover have "j < BSIZE" using j dinode_fits[of m] by (simp add: in_slot_def)
    ultimately show ?thesis using d(14) D[OF ml(1)] True v by simp
  next
    case False
    then show ?thesis using d(9)[OF ml(2) False mf mo] D[OF ml(1)] v by simp
  qed
  show "D x = disk s x" if x: "x \<in> owned (addrs (disk_inode (sb s) m (disk s))) (disk s)" for x
  proof -
    have x': "x \<notin> meta_blocks s" "unat x \<notin> free_blocks dev s" "x \<notin> file_blocks dev s i" using a x by (auto simp: disk_apart_def)
    then have "x \<noteq> inode_block s i" "x \<notin> log_area LOGDATA s" using edited_inode_block[OF e] by (auto simp: meta_blocks_def)
    then show ?thesis using d(9)[OF meta_map[OF x'(1)] _ x'(2,3)] D[of x] v by simp
  qed
  show "unat (isize (disk_inode (sb s) m (disk s))) \<le> MAXFILE * BSIZE" using a by (simp add: disk_apart_def)
qed

lemma patch_map:
  assumes "unat off \<le> z" "length bs = n" "\<And>k. k < max z (unat off + n) \<Longrightarrow> g k = (if unat off \<le> k \<and> k < unat off + n then bs ! (k - unat off) else f k)"
  shows "map g [0..<max z (unat off + n)] = patch (map f [0..<z]) (unat off) bs"
  by (rule nth_equalityI) (use assms in \<open>auto simp: patch_def nth_append\<close>)

lemma commit_lengths:
  assumes k: "cache_ok dev s" and n: "transaction dev me s"
  shows "\<forall>b. length (replay (disk s) (commit_writes dev s) b) = BSIZE"
proof -
  have R: "(\<forall>b. length (D b) = BSIZE) \<Longrightarrow> (\<forall>(b, d) \<in> set ws. length d = BSIZE) \<Longrightarrow> \<forall>b. length (replay D ws b) = BSIZE" for D :: "u32 \<Rightarrow> u8 list" and ws
  proof (induction ws arbitrary: D)
    case (Cons w ws)
    then show ?case by (cases w) auto
  qed simp
  have d: "\<forall>b. length (disk s b) = BSIZE" using k by (simp add: cache_ok_def)
  have n': "0 \<le> lh_n s" "lh_n s \<le> int LOGSIZE" using n by (simp_all add: transaction_def)
  have h1: "length (head_bytes (lh_n s) (lh_block s) (disk s (head_at s))) = BSIZE" by (rule length_head_bytes) (use d n' in auto)
  have "length (head_bytes 0 (lh_block s) (head_bytes (lh_n s) (lh_block s) (disk s (head_at s)))) = BSIZE" using h1 by simp
  then show ?thesis by (intro R d) (use h1 cached_length[OF k] in \<open>auto simp: commit_writes_def Let_def\<close>)
qed

text \<open>The disk after a crash and the recovery, as the block layer showed it before or after the transaction.\<close>

lemma recovered_view:
  assumes T: "transaction dev me s1" and t1: "tx N dev me {} s1" and st: "steady s s1" and v: "blk dev s = disk s"
    and k: "k \<le> length (commit_writes dev s1)" and r: "rebooted dev me (replay (disk s) (take k (commit_writes dev s1))) s t"
  shows "\<exists>t'. recover_from_log me t = Ok t' \<and>
     (\<forall>b. b \<notin> log_area LOGDATA s \<longrightarrow> disk t' b = blk dev (if k \<le> nat (lh_n s1) then s else s1) b)"
proof -
  have d1: "disk s1 = disk s" using st by (simp add: steady_def)
  have cm: "committed dev s1 b = blk dev s1 b" for b
    using logged_image[OF tx_bound(3)[OF t1]] t1 by (auto simp: committed_def tx_def)
  have area: "log_area (nat (lh_n s1)) s1 \<subseteq> log_area LOGDATA s"
    unfolding steady_log[OF st, symmetric, of LOGDATA] using tx_bound(1)[OF t1] by (auto simp: log_area_def)
  have r1: "rebooted dev me (replay (disk s) (take k (commit_writes dev s1))) s1 t" using r st by (simp add: rebooted_def steady_def)
  obtain t' where t': "recover_from_log me t = Ok t'"
    "\<forall>b. b \<notin> log_area (nat (lh_n s1)) s1 \<longrightarrow> disk t' b = (if k \<le> nat (lh_n s1) then disk s1 b else committed dev s1 b)"
    using crash_recovery[OF T k, unfolded d1, OF r1] d1 by auto
  then show ?thesis using area by (intro exI[of _ t']) (auto simp: d1 v cm)
qed

text \<open>The files on a disk that shows an edited file.\<close>

lemma edited_disk:
  assumes e: "edited dev i s s'" and k: "fs_ok dev s" and f: "file_ok dev s i" and y: "synced dev s' i"
    and z: "unat (isize (inode_at s' i)) \<le> MAXFILE * BSIZE"
    and v: "blk dev s = disk s" and D: "\<And>b. b \<notin> log_area LOGDATA s \<Longrightarrow> D b = blk dev s' b"
  shows "disk_file (sb s) (inum (inode_at s i)) D = map (fbyte dev s' i) [0..<unat (isize (inode_at s' i))]"
    "disk_apart dev s i m \<Longrightarrow> disk_file (sb s) m D = disk_file (sb s) m (disk s)"
proof -
  note d = editedD[OF e]
  have ib: "inode_block s i \<notin> log_area LOGDATA s" using k f by (simp add: fs_ok_def file_ok_def)
  have fb: "x \<notin> log_area LOGDATA s" if "x \<in> file_blocks dev s' i" for x
    using d(3) that unfolding file_ok_def d(5) by (auto simp: meta_blocks_def)
  have "disk_file (sb s') (inum (inode_at s' i)) D = map (fbyte dev s' i) [0..<unat (isize (inode_at s' i))]"
    by (rule disk_file_view[OF y]) (use D ib fb z d(13) in auto)
  then show "disk_file (sb s) (inum (inode_at s i)) D = map (fbyte dev s' i) [0..<unat (isize (inode_at s' i))]" unfolding d(1,12) .
  show "disk_apart dev s i m \<Longrightarrow> disk_file (sb s) m D = disk_file (sb s) m (disk s)"
    by (rule disk_apart_kept[OF e k f _ v D])
qed

end
