(* ===== verification/Image.thy ===== *)
theory Image
  imports Crash
begin

text \<open>
  A small disk, laid out as \<open>mkfs\<close> does it, and the kernel just after \<open>begin_op\<close> on it: 60 blocks, of which the first
  48 are in use; the root directory with its entries \<open>.\<close> and \<open>..\<close>, and a file of five bytes, both in memory. The
  theorems on the file system are applied to it.
\<close>

section \<open>The disk and the state\<close>

definition small_sb :: superblock where
  "small_sb = \<lparr>magic = 0x10203040, fssize = 60, nblocks = 14, ninodes = 200, nlog = 30, logstart = 2, inodestart = 32, bmapstart = 45\<rparr>"

definition root_inode :: inode where
  "root_inode = empty_inode\<lparr>idev := 1, inum := 1, iref := 1, ivalid := True, itype := 1, inlink := 1, isize := 32,
     addrs := 46 # replicate 12 0\<rparr>"

definition hello_inode :: inode where
  "hello_inode = empty_inode\<lparr>idev := 1, inum := 2, iref := 1, ivalid := True, itype := 2, inlink := 1, isize := 5,
     addrs := 47 # replicate 12 0\<rparr>"

definition bitmap_block :: "u8 list" where
  "bitmap_block = replicate 6 255 @ replicate 1018 0"

definition inodes_block :: "u8 list" where
  "inodes_block = store_dinode hello_inode (dinode_at 2) (store_dinode root_inode (dinode_at 1) (replicate BSIZE 0))"

definition root_block :: "u8 list" where
  "root_block = dirent_bytes 1 [46] @ dirent_bytes 1 [46, 46] @ replicate 992 0"

definition hello_block :: "u8 list" where
  "hello_block = [104, 101, 108, 108, 111] @ replicate 1019 0"

definition small_disk :: "u32 \<Rightarrow> u8 list" where
  "small_disk b = (if b = 45 then bitmap_block else if b = 32 then inodes_block else if b = 46 then root_block
     else if b = 47 then hello_block else replicate BSIZE 0)"

definition small :: fstate where
  "small = \<lparr>mem = \<lambda>_. 0, freelist = 0, kend = 0x80001234, config = RR, trampoline_pa = 0x80000000,
     forkret_pc = 0x80000100, procs = [blank_proc], initproc = None, nextpid = 1, sys_time = 0, kticks = 0,
     uart_buf = replicate 32 0, uart_w = 0, uart_r = 0, uart_out = [], panicked = False,
     cons_buf = replicate 128 0, cons_r = 0, cons_w = 0, cons_e = 0,
     bufs = replicate 12 free_buf, lru = [0..<12], disk = small_disk, disk_trace = [],
     log_start = 2, log_size = 30, outstanding = 1, committing = False, log_dev = 1, lh_n = 0,
     lh_block = replicate 30 0, sb = small_sb, itable = [root_inode, hello_inode]\<rparr>"

lemma small_fields [simp]:
  "procs small = [blank_proc]" "bufs small = replicate 12 free_buf" "lru small = [0..<12]" "disk small = small_disk" "log_start small = 2"
  "log_size small = 30" "outstanding small = 1" "\<not> committing small" "log_dev small = 1" "lh_n small = 0" "lh_block small = replicate 30 0"
  "sb small = small_sb" "itable small = [root_inode, hello_inode]"
  by (simp_all add: small_def)

lemma sb_fields [simp]: "fssize small_sb = 60" "ninodes small_sb = 200" "inodestart small_sb = 32" "bmapstart small_sb = 45"
  by (simp_all add: small_sb_def)

lemma inode_fields [simp]:
  "idev root_inode = 1" "inum root_inode = 1" "itype root_inode = 1" "isize root_inode = 32" "addrs root_inode = 46 # replicate 12 0"
  "idev hello_inode = 1" "inum hello_inode = 2" "itype hello_inode = 2" "isize hello_inode = 5" "addrs hello_inode = 47 # replicate 12 0"
  by (simp_all add: root_inode_def hello_inode_def)

section \<open>The state is a good one\<close>

lemma length_inodes_block: "length inodes_block = BSIZE"
  unfolding inodes_block_def by (intro length_store_dinode dinode_fits) simp_all

lemma length_small_disk: "length (small_disk b) = BSIZE"
  by (simp add: small_disk_def length_inodes_block bitmap_block_def root_block_def hello_block_def length_dirent_bytes)

lemma small_unused: "holds_block 1 small i b = False"
proof -
  have "bdev (replicate 12 free_buf ! i) = 0" if "i < 12" using that by (simp add: free_buf_def)
  then show ?thesis by (auto simp: holds_block_def)
qed

lemma small_cache: "cache_ok 1 small"
  unfolding cache_ok_def small_unused by (auto simp: buf_ok_def free_buf_def initsleeplock_def length_small_disk)

lemma small_view: "blk 1 small = small_disk" "rc 1 small = (\<lambda>_. 0)" "holder 1 small = (\<lambda>_. None)"
  using none_view[OF small_cache] small_unused by (auto simp: fun_eq_iff)

lemma small_tx: "tx 12 1 0 {} small"
proof -
  have "free_bufs small = {0..<12}" by (auto simp: free_bufs_def free_buf_def)
  then show ?thesis unfolding tx_def small_view using small_cache by (simp add: logged_def small_view)
qed

lemma small_room: "k \<le> 9 \<Longrightarrow> room 12 k small"
  by (simp add: room_def)

lemma small_map: "x < 60 \<Longrightarrow> map_block small x = 45"
  by (subst map_block_nat) simp_all

lemma small_bits: "x < 60 \<Longrightarrow> bit_used bitmap_block (x mod BPB) = (x < 48)"
proof -
  assume x: "x < 60"
  have m: "x mod BPB = x" using x by simp
  have b: "bitmap_block ! (x div 8) = (if x < 48 then - 1 else 0)"
    using x by (auto simp: bitmap_block_def nth_append div_less_iff_less_mult)
  show ?thesis unfolding m bit_used_iff b by (simp add: bit_minus_1_iff)
qed

lemma small_free: "free_blocks 1 small = {48..<60}"
proof -
  have "allocated 1 small x = (x < 48)" if "x < 60" for x
    using small_bits[OF that] by (simp add: allocated_def small_view small_map[OF that] small_disk_def)
  then show ?thesis by (auto simp: free_blocks_def)
qed

lemma small_iblock: "n < 200 \<Longrightarrow> 32 \<le> unat (IBLOCK n small_sb) \<and> unat (IBLOCK n small_sb) < 45"
proof -
  assume n: "n < (200 :: u32)"
  then have "unat n < 200" by (simp add: word_less_nat_alt)
  then have d: "unat (n div 16) < 13" by (simp add: unat_div)
  have "unat (n div 16 + 32) = unat (n div 16) + unat (32 :: u32)"
    by (intro unat_plus_simple[THEN iffD1] no_olen_add_nat[THEN iffD2]) (use d in simp)
  then show ?thesis using d by (simp add: IBLOCK_def)
qed

lemma small_log: "x \<in> log_area LOGDATA small \<Longrightarrow> 2 \<le> unat x \<and> unat x < 32"
proof -
  assume "x \<in> log_area LOGDATA small"
  then consider "x = 2" | t where "t < 29" "x = word_of_int (3 + int t)"
    by (auto simp: log_area_def head_at_def log_at_def algebra_simps)
  then show ?thesis
  proof cases
    case (2 t)
    have "unat (word_of_nat (3 + t) :: u32) = 3 + t" by (rule of_nat_inverse[OF refl]) (use 2 in simp)
    then have "unat x = 3 + t" using 2 by simp
    then show ?thesis using 2(1) by simp
  qed simp
qed

lemma small_meta: "x \<in> meta_blocks small \<Longrightarrow> 2 \<le> unat x \<and> unat x < 46"
  using small_iblock small_log[of x] by (auto simp: meta_blocks_def map_blocks_def small_map) force+

lemma small_ok: "fs_ok 1 small"
  unfolding fs_ok_def
proof (intro conjI ballI allI impI)
  fix x assume x: "x \<in> free_blocks 1 small"
  then have "48 \<le> x" "x < 60" by (simp_all add: small_free)
  moreover have "unat (word_of_nat x :: u32) = x" using free_word[OF x] .
  ultimately show "x \<noteq> 0" "word_of_nat x \<notin> meta_blocks small" using small_meta[of "word_of_nat x"] by auto
next
  fix n assume n: "n < ninodes (sb small)"
  then show "IBLOCK n (sb small) \<notin> log_area LOGDATA small" using small_iblock[of n] small_log[of "IBLOCK n small_sb"] by auto
  fix y assume "y < unat (fssize (sb small))"
  then show "IBLOCK n (sb small) \<noteq> map_block small y" using n small_iblock[of n] by (auto simp: small_map)
next
  fix y assume "y < unat (fssize (sb small))"
  then show "map_block small y \<notin> log_area LOGDATA small" using small_log[of 45] by (auto simp: small_map)
qed

text \<open>A file whose only block is its first.\<close>

lemma one_block:
  assumes "a \<noteq> 0"
  shows "faddr (a # replicate 12 0) B bn = (if bn = 0 then a else 0) \<or> MAXFILE \<le> bn" "good_map (a # replicate 12 0) B"
    "owned (a # replicate 12 0) B = {a}"
proof -
  have f: "faddr (a # replicate 12 0) B bn = (if bn = 0 then a else 0)" for bn
    by (auto simp: faddr_def nth_Cons split: nat.split)
  then show "faddr (a # replicate 12 0) B bn = (if bn = 0 then a else 0) \<or> MAXFILE \<le> bn" by simp
  show "good_map (a # replicate 12 0) B" using f assms by (auto simp: good_map_def nth_Cons split: if_splits)
  show "owned (a # replicate 12 0) B = {a}" using f assms by (auto simp: owned_def nth_Cons split: if_splits)
qed

lemma small_files: "file_ok 1 small 0" "file_ok 1 small 1"
  using one_block(2,3)[of 46] one_block(2,3)[of 47] small_meta[of 46] small_meta[of 47] by (auto simp: file_ok_def small_free)

lemma small_mapped: "k < BSIZE \<Longrightarrow> mapped 1 small 0 k" "k < BSIZE \<Longrightarrow> mapped 1 small 1 k"
  by (simp_all add: mapped_def faddr_def)

lemma small_solid: "solid 1 small 0" "solid 1 small 1"
  using small_mapped by (auto simp: solid_def)

lemma small_blocks: "file_blocks 1 small 0 = {46}" "file_blocks 1 small 1 = {47}"
  by (simp_all add: one_block)

lemma small_bytes: "k < BSIZE \<Longrightarrow> fbyte 1 small 0 k = root_block ! k" "k < BSIZE \<Longrightarrow> fbyte 1 small 1 k = hello_block ! k"
  by (simp_all add: fbyte_def fdata_def faddr_def small_view small_disk_def)

lemma small_dirent: "q < 64 \<Longrightarrow> dirent 1 small 0 q = take 16 (drop (16 * q) root_block)"
proof -
  assume q: "q < 64"
  have l: "length root_block = BSIZE" by (simp add: root_block_def length_dirent_bytes)
  show "dirent 1 small 0 q = take 16 (drop (16 * q) root_block)"
    by (rule nth_equalityI) (use q l in \<open>simp_all add: dirent_def small_bytes\<close>)
qed

lemma small_synced: "synced 1 small 1"
proof -
  have i: "IBLOCK 2 small_sb = 32" by (simp add: IBLOCK_def)
  have l: "length (store_dinode root_inode (dinode_at 1) (replicate BSIZE 0)) = BSIZE" "length (addrs hello_inode) = NDIRECT + 1"
    by (rule length_store_dinode) (simp_all add: dinode_fits)
  show ?thesis using load_store_dinode[OF l, of 2] by (simp add: synced_def small_view i small_disk_def inodes_block_def)
qed

lemma small_log_ready: "log_ready 1 small"
proof -
  have l: "log_at small t = word_of_nat (3 + t)" for t by (simp add: log_at_def algebra_simps)
  have u: "unat (log_at small t) = 3 + t" if "t < LOGDATA" for t unfolding l by (rule of_nat_inverse[OF refl]) (use that in simp)
  have "inj_on (log_at small) {..<LOGDATA}"
  proof (rule inj_onI)
    fix x y assume "x \<in> {..<LOGDATA}" "y \<in> {..<LOGDATA}" "log_at small x = log_at small y"
    then have "3 + x = 3 + y" using u[of x] u[of y] by (metis lessThan_iff)
    then show "x = y" by simp
  qed
  moreover have "head_at small \<notin> log_at small ` {..<LOGDATA}"
  proof
    assume "head_at small \<in> log_at small ` {..<LOGDATA}"
    then obtain t where "t < LOGDATA" "log_at small t = 2" by (auto simp: head_at_def)
    then show False using u[of t] by simp
  qed
  moreover have "head_n (small_disk 2) = 0" by (simp add: small_disk_def head_n_def get32_zero)
  ultimately show ?thesis by (simp add: log_ready_def head_at_def)
qed

text \<open>The same machine booted on another disk.\<close>

lemma small_rebooted:
  assumes "\<forall>b. length (D b) = BSIZE"
  shows "rebooted 1 0 D small (small\<lparr>disk := D\<rparr>)"
proof -
  let ?t = "small\<lparr>disk := D\<rparr>"
  have h: "holds_block 1 ?t i b = False" for i b using small_unused[of i b] by (simp add: holds_block_def)
  have ok: "cache_ok 1 ?t"
    unfolding cache_ok_def h using assms by (auto simp: buf_ok_def free_buf_def initsleeplock_def)
  have "rc 1 ?t = (\<lambda>_. 0)" "holder 1 ?t = (\<lambda>_. None)" using none_view[OF ok] h by (auto simp: fun_eq_iff)
  moreover have "free_bufs ?t = {0..<12}" by (auto simp: free_bufs_def free_buf_def)
  ultimately show ?thesis using ok by (simp add: rebooted_def quiet_def)
qed

end
