(* ===== verification/Filesys.thy ===== *)
theory Filesys
  imports Image
begin

text \<open>
  What the file system promises, over all its layers at once: the free map, the bytes of a file, names in a directory,
  and a write to a file that a crash interrupts. Each theorem is applied to the small disk of \<open>Image\<close>.
\<close>

section \<open>Allocating and freeing a block\<close>

text \<open>C16. The free map is a set of blocks: \<open>balloc\<close> takes the least free block out of it and zeroes that block, and \<open>bfree\<close>
  puts it back; but for the block and its byte of the map no block changes, and nothing reaches the disk before the commit.\<close>

theorem balloc_bfree:
  assumes "tx N dev me {} s" and "room N 3 s" and "fs_ok dev s" and "free_blocks dev s \<noteq> {}"
  shows "\<exists>a s1 s2. a = Min (free_blocks dev s) \<and> balloc me dev s = Ok (word_of_nat a, s1) \<and>
     free_blocks dev s1 = free_blocks dev s - {a} \<and> blk dev s1 (word_of_nat a) = replicate BSIZE 0 \<and>
     bfree me dev (word_of_nat a) s1 = Ok s2 \<and> free_blocks dev s2 = free_blocks dev s \<and> disk s2 = disk s \<and>
     (\<forall>b. b = word_of_nat a \<or> b = map_block s a \<or> blk dev s2 b = blk dev s b)"
proof -
  define a where "a = Min (free_blocks dev s)"
  define w where "w = (word_of_nat a :: u32)"
  have m: "map_ok dev s" by (rule fs_map_ok[OF assms(3)])
  have c: "card ({} :: u32 set) \<le> 1" "card ({} :: u32 set) \<le> 2" by simp_all
  have H: "\<forall>x < unat (fssize (sb s)). map_block s x \<notin> ({} :: u32 set)" "\<forall>x \<in> free_blocks dev s. word_of_nat x \<notin> ({} :: u32 set)" by simp_all
  have r2: "room N 2 s" by (rule room_le[OF assms(2)]) simp
  obtain s1 where b: "balloc me dev s = Ok (w, s1)"
    "wrote N dev me {} 2 ((blk dev s)(map_block s a := mark_used (blk dev s (map_block s a)) (a mod BPB), w := replicate BSIZE 0)) s s1"
    "lstate.more s1 = lstate.more s" "a \<in> free_blocks dev s" "free_blocks dev s1 = free_blocks dev s - {a}" "map_ok dev s1"
    using balloc_tx[OF assms(1) c(1) r2 m assms(4) H, folded a_def w_def] by auto
  note fl = fs_fields[OF b(3)] meta_sb[OF fs_fields(1)[OF b(3)] wrote_log[OF b(2)]]
  have uw: "unat w = a" unfolding w_def by (rule free_word[OF b(4)])
  have wm: "w \<notin> meta_blocks s" "a \<noteq> 0" using assms(3) b(4) by (auto simp: fs_ok_def w_def)
  have r1: "room N (Suc 0) s1" using room_after[OF _ b(2), of 1] assms(2) by (simp add: numeral_eq_Suc)
  have lt: "unat w < unat (fssize (sb s1))" using free_lt[OF b(4)] uw fl by simp
  have al: "allocated dev s1 (unat w)" using b(5) lt uw by (auto simp: free_blocks_def)
  have wz: "w \<noteq> 0" using uw wm(2) by auto
  have sep: "\<forall>y < unat (fssize (sb s1)). map_block s1 y \<noteq> w" "w \<notin> log_area LOGDATA s1"
    using map_in[of _ s] meta_map[OF wm(1)] wm(1) fl by (auto, auto simp: meta_blocks_def)
  obtain s2 where f: "bfree me dev w s1 = Ok s2"
    "wrote N dev me {} 1 ((blk dev s1)(map_block s1 (unat w) := mark_free (blk dev s1 (map_block s1 (unat w))) (unat w mod BPB))) s1 s2"
    "free_blocks dev s2 = insert (unat w) (free_blocks dev s1)"
    using bfree_tx[OF wroteD(1)[OF b(2)] c(2) r1 b(6) wz lt al sep] by auto
  have "disk s2 = disk s" using steady_trans[OF wroteD(5)[OF b(2)] wroteD(5)[OF f(2)]] by (simp add: steady_def)
  moreover have "free_blocks dev s2 = free_blocks dev s" using f(3) b(4,5) uw by auto
  moreover have "\<forall>x. x = w \<or> x = map_block s a \<or> blk dev s2 x = blk dev s x"
    using wroteD(2)[OF f(2)] wroteD(2)[OF b(2)] fl uw by simp
  moreover have "blk dev s1 w = replicate BSIZE 0" using wroteD(2)[OF b(2)] by simp
  ultimately show ?thesis using b(1,5) f(1) unfolding a_def[symmetric] w_def by blast
qed

theorem balloc_bfree_witness:
  "\<exists>s1 s2. balloc 0 1 small = Ok (48, s1) \<and> free_blocks 1 s1 = {49..<60} \<and> bfree 0 1 48 s1 = Ok s2 \<and> free_blocks 1 s2 = {48..<60}"
proof -
  have f: "free_blocks 1 small \<noteq> {}" "Min (free_blocks 1 small) = 48" "{48..<60} - {48} = {49..<60 :: nat}" "(3 :: nat) \<le> 9"
    by (auto simp: small_free intro!: Min_eqI)
  obtain s1 s2 where "balloc 0 1 small = Ok (word_of_nat 48, s1)" "free_blocks 1 s1 = {48..<60} - {48}"
      "bfree 0 1 (word_of_nat 48) s1 = Ok s2" "free_blocks 1 s2 = {48..<60}"
    using balloc_bfree[OF small_tx small_room[OF f(4)] small_ok f(1)] unfolding f(2) unfolding small_free by blast
  then show ?thesis by (simp add: f(3))
qed

section \<open>Writing and reading back\<close>

text \<open>C3. \<open>writei\<close> edits the bytes of a file: in a transaction with room, \<open>n\<close> bytes written at \<open>off\<close> (not past the end)
  are all written, however they fall on blocks; the size becomes the larger of the old one and \<open>off + n\<close>, every later
  \<open>readi\<close> returns the new bytes there and the old ones elsewhere, cut at the size, and no other file changes.\<close>

theorem writei_readi:
  assumes "tx N dev me {} s" and "room N (6 * span (unat off) (unat n) + 1) s" and "fs_ok dev s" and "file_ok dev s i" and "solid dev s i"
    and "2 * span (unat off) (unat n) \<le> card (free_blocks dev s)"
    and "off \<le> isize (inode_at s i)" and "off \<le> off + n" and "unat (off + n) \<le> MAXFILE * BSIZE" and "length bs = unat n"
  shows "\<exists>s1. writei me i (Local bs) off n s = Ok (int (unat n), s1) \<and>
     isize (inode_at s1 i) = max (isize (inode_at s i)) (off + n) \<and> disk s1 = disk s \<and>
     (\<forall>off1 n1. off1 \<le> off1 + n1 \<longrightarrow> (\<exists>m s2. m = min (unat n1) (unat (isize (inode_at s1 i)) - unat off1) \<and>
        readi me i (Local []) off1 n1 s1 = Ok (int m, Local (map (\<lambda>k. if unat off \<le> k \<and> k < unat (off + n) then bs ! (k - unat off)
          else fbyte dev s i k) [unat off1..<unat off1 + m]), s2))) \<and>
     (\<forall>j. j \<noteq> i \<and> file_ok dev s j \<and> file_blocks dev s j \<inter> file_blocks dev s i = {} \<longrightarrow>
        inode_at s1 j = inode_at s j \<and> (\<forall>k < MAXFILE * BSIZE. fbyte dev s1 j k = fbyte dev s j k))"
proof -
  obtain s1 where w: "writei me i (Local bs) off n s = Ok (int (unat n), s1)"
     "wrote N dev me {} (6 * span (unat off) (unat n) + 1) (blk dev s1) s s1" "edited dev i s s1"
     "isize (inode_at s1 i) = max (isize (inode_at s i)) (off + n)"
     "\<forall>k < MAXFILE * BSIZE. fbyte dev s1 i k = (if unat off \<le> k \<and> k < unat (off + n) then bs ! (k - unat off) else fbyte dev s i k)"
     "\<forall>k. unat off \<le> k \<and> k < unat (off + n) \<longrightarrow> mapped dev s1 i k"
    using writei_tx[OF assms(1-4,6-10)] by blast
  note e = editedD[OF w(3)] and so = writei_solid(2)[OF w(3) assms(5,7,9) w(4,6)]
  have l: "lh_n s1 + 3 \<le> int N" using room_after[OF _ w(2), of 0] assms(2) by (simp add: room_def)
  have dv: "idev (inode_at s1 i) = dev" using e(3) by (simp add: file_ok_def)
  have d: "disk s1 = disk s" using wroteD(5)[OF w(2)] by (simp add: steady_def)
  have rd: "\<exists>m s2. m = min (unat n1) (unat (isize (inode_at s1 i)) - unat off1) \<and>
      readi me i (Local []) off1 n1 s1 = Ok (int m, Local (map (\<lambda>k. if unat off \<le> k \<and> k < unat (off + n) then bs ! (k - unat off)
        else fbyte dev s i k) [unat off1..<unat off1 + m]), s2)" if n1: "off1 \<le> off1 + n1" for off1 n1
  proof -
    define m where "m = min (unat n1) (unat (isize (inode_at s1 i)) - unat off1)"
    obtain s2 where r: "readi me i (Local []) off1 n1 s1 = Ok (int m, Local (map (fbyte dev s1 i) [unat off1..<unat off1 + m]), s2)"
      using readi_tx[OF wroteD(1)[OF w(2)] l dv so n1, of "[]", folded m_def] by auto
    have "map (fbyte dev s1 i) [unat off1..<unat off1 + m] = map (\<lambda>k. if unat off \<le> k \<and> k < unat (off + n) then bs ! (k - unat off)
        else fbyte dev s i k) [unat off1..<unat off1 + m]"
    proof (rule map_cong[OF refl])
      fix k assume "k \<in> set [unat off1..<unat off1 + m]"
      then have "k < unat (isize (inode_at s1 i))" by (auto simp: m_def)
      then have "k < MAXFILE * BSIZE" using so by (simp add: solid_def)
      then show "fbyte dev s1 i k = (if unat off \<le> k \<and> k < unat (off + n) then bs ! (k - unat off) else fbyte dev s i k)" using w(5) by blast
    qed
    then show ?thesis using r m_def by metis
  qed
  show ?thesis using w(1,4) d rd other_file[OF w(3)] by blast
qed


text \<open>Four bytes over the end of a file of five.\<close>

theorem writei_readi_witness:
  "\<exists>s1 s2. writei 0 1 (Local [1, 2, 3, 4]) 3 4 small = Ok (4, s1) \<and>
     readi 0 1 (Local []) 0 100 s1 = Ok (7, Local [104, 101, 108, 1, 2, 3, 4], s2)"
proof -
  have sp: "span (unat (3 :: u32)) (unat (4 :: u32)) = 1" by (simp add: span_def)
  have r: "room 12 (6 * span (unat (3 :: u32)) (unat (4 :: u32)) + 1) small" "2 * span (unat (3 :: u32)) (unat (4 :: u32)) \<le> card (free_blocks 1 small)"
    unfolding sp by (simp_all add: small_room small_free)
  have h: "(3 :: u32) \<le> isize (inode_at small 1)" "(3 :: u32) \<le> 3 + 4" "unat (3 + 4 :: u32) \<le> MAXFILE * BSIZE" "length [1, 2, 3, 4 :: u8] = unat (4 :: u32)"
    by simp_all
  obtain s1 where w: "writei 0 1 (Local [1, 2, 3, 4]) 3 4 small = Ok (int (unat (4 :: u32)), s1)"
      "isize (inode_at s1 1) = max (isize (inode_at small 1)) (3 + 4)"
      "\<forall>off1 n1. off1 \<le> off1 + n1 \<longrightarrow> (\<exists>m s2. m = min (unat n1) (unat (isize (inode_at s1 1)) - unat off1) \<and>
        readi 0 1 (Local []) off1 n1 s1 = Ok (int m, Local (map (\<lambda>k. if unat (3 :: u32) \<le> k \<and> k < unat (3 + 4 :: u32)
          then [1, 2, 3, 4] ! (k - unat (3 :: u32)) else fbyte 1 small 1 k) [unat off1..<unat off1 + m]), s2))"
    using writei_readi[OF small_tx r(1) small_ok small_files(2) small_solid(2) r(2) h] by blast
  have z: "unat (isize (inode_at s1 1)) = 7" unfolding w(2) by simp
  obtain m s2 where m: "m = min (unat (100 :: u32)) (unat (isize (inode_at s1 1)) - unat (0 :: u32))"
      "readi 0 1 (Local []) 0 100 s1 = Ok (int m, Local (map (\<lambda>k. if unat (3 :: u32) \<le> k \<and> k < unat (3 + 4 :: u32)
          then [1, 2, 3, 4] ! (k - unat (3 :: u32)) else fbyte 1 small 1 k) [unat (0 :: u32)..<unat (0 :: u32) + m]), s2)"
    using w(3)[rule_format, of 0 100] by auto
  have "m = 7" unfolding m(1) z by simp
  moreover have "map (\<lambda>k. if unat (3 :: u32) \<le> k \<and> k < unat (3 + 4 :: u32) then [1, 2, 3, 4] ! (k - unat (3 :: u32)) else fbyte 1 small 1 k) [0..<7]
      = [104, 101, 108, 1, 2, 3, 4]"
    by (simp add: upt_conv_Cons small_bytes(2)[unfolded One_nat_def] hello_block_def)
  ultimately show ?thesis using w(1) m(2) by auto
qed

section \<open>Names in a directory\<close>

text \<open>C4. A directory is a map from names to inode numbers: when the name is not there, \<open>dirlink\<close> adds it with the number and
  leaves every other name as it was (names count up to the NUL and up to \<open>DIRSIZ\<close> characters), and \<open>dirlookup\<close> then
  hands that number to \<open>iget\<close>.\<close>

theorem dirlink_dirlookup:
  assumes "tx N dev me {} s" and "room N 7 s" and "fs_ok dev s" and "file_ok dev s dp" and "dir_ok dev s dp"
    and "itype (inode_at s dp) = T_DIR" and "2 \<le> card (free_blocks dev s)"
    and "unat (isize (inode_at s dp)) + 16 \<le> MAXFILE * BSIZE"
    and "0 \<notin> set name" and "(ucast n :: u16) \<noteq> 0" and "dir_inum dev s dp name = None"
  shows "\<exists>s1. dirlink me dp name n s = Ok (0, s1) \<and>
     (\<forall>nm. dir_inum dev s1 dp nm = (if dname DIRSIZ nm = dname DIRSIZ name then Some (ucast n) else dir_inum dev s dp nm)) \<and>
     (\<exists>q s2. dirlookup me dp name s1 = rbind (iget dev (ucast (ucast n :: u16)) s2) (\<lambda>(ip, s3). Ok (Some (ip, 16 * q), s3)) \<and>
        itable s2 = itable s1)"
proof -
  define bs where "bs = dirent_bytes (ucast n) name"
  have lh: "lh_n s + 3 \<le> int N" using assms(2) by (simp add: room_def)
  have none: "dir_slot dev s dp name = None" using assms(11) by (simp add: dir_inum_def)
  obtain x s2 where l: "x \<le> dir_len s dp" "x < dir_len s dp \<longrightarrow> de_inum (dirent dev s dp x) = 0" "wrote N dev me {} 0 (blk dev s) s s2"
     "lstate.more s2 = lstate.more s"
     "dirlink me dp name n s = rbind (writei me dp (Local bs) (word_of_nat (16 * x)) 16 s2) (\<lambda>(w, s3). Ok (if w \<noteq> 16 then -1 else 0, s3))"
    using dirlink_run[OF assms(1) lh assms(5,6) none] unfolding bs_def by blast
  note fl = fs_fields[OF l(4)] and e2 = same_dir[OF wroteD(2)[OF l(3)] l(4), of dp]
  note g2 = grew_same[OF assms(4,3) wroteD(2)[OF l(3)] l(4) wrote_log[OF l(3)]]
  have ok2: "fs_ok dev s2" "file_ok dev s2 dp" using grewD(4)[OF g2(1)] grew_file_ok[OF assms(4) g2(1) assms(3)] by simp_all
  have p2: "room N 7 s2" "dir_ok dev s2 dp" "itype (inode_at s2 dp) = T_DIR" "2 \<le> card (free_blocks dev s2)" "x \<le> dir_len s2 dp"
    "16 * x + 16 \<le> MAXFILE * BSIZE" "length bs = 16"
    using room_after[OF _ l(3), of 7] assms(2,5-8) e2 g2(2) fl l(1) dir_bound[OF assms(5)] by (simp_all add: bs_def length_dirent_bytes)
  obtain s3 where w: "writei me dp (Local bs) (word_of_nat (16 * x)) 16 s2 = Ok (16, s3)" "wrote N dev me {} 7 (blk dev s3) s2 s3"
     "dir_ok dev s3 dp" "itype (inode_at s3 dp) = T_DIR" "dir_len s3 dp = max (dir_len s dp) (Suc x)"
     "\<forall>q < dir_len s3 dp. dirent dev s3 dp q = (if q = x then bs else dirent dev s dp q)"
    using write_dirent[OF wroteD(1)[OF l(3)] p2(1) ok2 p2(2-7)] unfolding e2(1,3) by blast
  have bf: "de_inum bs = ucast n" "dname DIRSIZ (de_name bs) = dname DIRSIZ name"
    using dirent_bytes_fields[OF assms(9), of "ucast n"] by (simp_all add: bs_def)
  have bn: "de_inum bs \<noteq> 0" using bf(1) assms(10) by simp
  note sl = dirlink_slots[OF l(1,2) bn bf(2) none[unfolded dir_slot_def] w(6)[rule_format] w(5)]
  have all: "dir_inum dev s3 dp nm = (if dname DIRSIZ nm = dname DIRSIZ name then Some (ucast n) else dir_inum dev s dp nm)" for nm
    using sl(1) bf(1) by (simp add: dir_inum_def dir_slot_def)
  have slot: "dir_slot dev s3 dp name = Some x" using sl(2)[OF _ refl] by (simp add: dir_slot_def)
  have lh3: "lh_n s3 + 3 \<le> int N" using room_after[OF _ w(2), of 0] p2(1) by (simp add: room_def)
  obtain s4 where s4: "lstate.more s4 = lstate.more s3"
     "dirlookup me dp name s3 = rbind (iget dev (ucast (de_inum (dirent dev s3 dp x))) s4) (\<lambda>(ip, s5). Ok (Some (ip, 16 * x), s5))"
    using dirlookup_tx[OF wroteD(1)[OF w(2)] lh3 w(3,4), of name] slot by auto
  have "de_inum (dirent dev s3 dp x) = ucast n" using w(5,6) bf(1) by simp
  then show ?thesis using l(5) w(1) all s4 fs_fields(2)[OF s4(1)] by (intro exI[of _ s3]) auto
qed

theorem dirlink_dirlookup_witness:
  "\<exists>s1. dirlink 0 0 [97] 2 small = Ok (0, s1) \<and> dir_inum 1 s1 0 [97] = Some 2 \<and> dir_inum 1 s1 0 [46] = Some 1"
proof -
  have d: "dir_ok 1 small 0" by (simp add: dir_ok_def small_solid)
  have t: "itype (inode_at small 0) = T_DIR" by simp
  have e: "dirent 1 small 0 0 = dirent_bytes 1 [46]" "dirent 1 small 0 (Suc 0) = dirent_bytes 1 [46, 46]"
    by (simp_all add: small_dirent root_block_def length_dirent_bytes)
  have l: "dir_len small 0 = 2" by (simp add: dir_len_def)
  have f: "dir_inum 1 small 0 [97] = None" "dir_inum 1 small 0 [46] = Some 1"
    by (simp_all add: dir_inum_def dir_slot_def l upt_conv_Cons e) (code_simp, code_simp)
  have n: "dname DIRSIZ [97] \<noteq> dname DIRSIZ [46]" "(ucast (2 :: u32) :: u16) = 2" by (simp_all add: dname_def)
  have fr: "2 \<le> card (free_blocks 1 small)" "unat (isize (inode_at small 0)) + 16 \<le> MAXFILE * BSIZE" by (simp_all add: small_free)
  have h: "0 \<notin> set [97 :: u8]" "(ucast (2 :: u32) :: u16) \<noteq> 0" by simp_all
  show ?thesis
    using dirlink_dirlookup[OF small_tx small_room small_ok small_files(1) d t fr h f(1)] f(2) n by fastforce
qed

section \<open>A write and a crash\<close>

text \<open>C1. A write to a file is atomic in a crash: after \<open>writei\<close> as the only operation of the transaction, \<open>end_op\<close> commits;
  if the machine stops after any number \<open>k\<close> of the commit's disk writes, then recovery at the next boot succeeds and
  the file on the disk (its size, its block map and its bytes, read from the disk's inode) is the old one when \<open>k\<close> does
  not reach the log's header and the old one with all the new bytes from then on; every other file on the disk is as
  before.\<close>

theorem writei_crash_atomic:
  assumes "tx N dev me {} s" and "room N (6 * span (unat off) (unat n) + 1) s" and "fs_ok dev s" and "file_ok dev s i" and "solid dev s i"
    and "2 * span (unat off) (unat n) \<le> card (free_blocks dev s)"
    and "off \<le> isize (inode_at s i)" and "off \<le> off + n" and "unat (off + n) \<le> MAXFILE * BSIZE" and "length bs = unat n"
    and "synced dev s i" and "logged s = {}" and "log_ready dev s" and "outstanding s = 1" and "\<not> committing s"
  shows "\<exists>s1 s2. writei me i (Local bs) off n s = Ok (int (unat n), s1) \<and> transaction dev me s1 \<and> end_op me s1 = Ok s2 \<and> disk s1 = disk s \<and>
     disk_trace s2 = disk_trace s @ commit_writes dev s1 \<and>
     (\<forall>k t. k \<le> length (commit_writes dev s1) \<and> rebooted dev me (replay (disk s) (take k (commit_writes dev s1))) s t \<longrightarrow>
        (\<exists>t'. recover_from_log me t = Ok t' \<and>
           disk_file (sb s) (inum (inode_at s i)) (disk t') =
             (let old = disk_file (sb s) (inum (inode_at s i)) (disk s) in if k \<le> nat (lh_n s1) then old else patch old (unat off) bs) \<and>
           (\<forall>m. disk_apart dev s i m \<longrightarrow> disk_file (sb s) m (disk t') = disk_file (sb s) m (disk s))))"
proof -
  let ?n = "inum (inode_at s i)"
  obtain s1 where w: "writei me i (Local bs) off n s = Ok (int (unat n), s1)"
     "wrote N dev me {} (6 * span (unat off) (unat n) + 1) (blk dev s1) s s1" "edited dev i s s1"
     "isize (inode_at s1 i) = max (isize (inode_at s i)) (off + n)"
     "\<forall>k < MAXFILE * BSIZE. fbyte dev s1 i k = (if unat off \<le> k \<and> k < unat (off + n) then bs ! (k - unat off) else fbyte dev s i k)"
     "synced dev s1 i" "logged s1 \<noteq> {}"
    using writei_tx[OF assms(1-4,6-10)] by blast
  note e = editedD[OF w(3)] and st = wroteD(5)[OF w(2)]
  note un = unat_plus[OF assms(8)]
  have t1: "tx N dev me {} s1" by (rule wroteD(1)[OF w(2)])
  have "room N 0 s1" using room_after[OF _ w(2), of 0] assms(2) by simp
  then have "lh_n s1 + 3 \<le> int N" by (simp add: room_def)
  then have r1: "nat (lh_n s1) < N" using tx_nonneg[OF t1] by (simp add: nat_less_iff)
  have T: "transaction dev me s1" by (rule tx_transaction[OF t1 _ w(7) r1]) (simp add: log_ready_steady[OF st] assms(13))
  obtain s2 where s2: "end_op me s1 = Ok s2" "disk_trace s2 = disk_trace s @ commit_writes dev s1"
    using end_op_commits[OF T] st assms(14,15) by (auto simp: steady_def)
  have v: "blk dev s = disk s" using assms(1,12) by (simp add: tx_def fun_eq_iff)
  have d1: "disk s1 = disk s" using st by (simp add: steady_def)
  let ?z = "unat (isize (inode_at s i))" and ?V = "\<lambda>k. if k \<le> nat (lh_n s1) then s else s1"
  have z1: "unat (isize (inode_at s1 i)) = max ?z (unat off + unat n)" unfolding w(4) un[symmetric] by (simp add: max_def word_le_nat_alt)
  have zb: "?z \<le> MAXFILE * BSIZE" "max ?z (unat off + unat n) \<le> MAXFILE * BSIZE" using assms(5,9) un by (simp_all add: solid_def)
  have old: "disk_file (sb s) ?n (disk s) = map (fbyte dev s i) [0..<?z]"
    by (rule disk_file_view[OF assms(11)]) (use v zb(1) in simp_all)
  have new: "map (fbyte dev s1 i) [0..<unat (isize (inode_at s1 i))] = patch (map (fbyte dev s i) [0..<?z]) (unat off) bs"
    unfolding z1 by (rule patch_map) (use assms(7,10) w(5) zb(2) un in \<open>auto simp: word_le_nat_alt\<close>)
  have rec: "\<exists>t'. recover_from_log me t = Ok t' \<and>
           disk_file (sb s) ?n (disk t') =
             (let old = disk_file (sb s) ?n (disk s) in if k \<le> nat (lh_n s1) then old else patch old (unat off) bs) \<and>
           (\<forall>m. disk_apart dev s i m \<longrightarrow> disk_file (sb s) m (disk t') = disk_file (sb s) m (disk s))"
    if k: "k \<le> length (commit_writes dev s1)" and r: "rebooted dev me (replay (disk s) (take k (commit_writes dev s1))) s t" for k t
  proof -
    obtain t' where t': "recover_from_log me t = Ok t'" "\<And>b. b \<notin> log_area LOGDATA s \<Longrightarrow> disk t' b = blk dev (?V k) b"
      using recovered_view[OF T t1 st v k r] by blast
    have V: "edited dev i s (?V k)" "synced dev (?V k) i" "unat (isize (inode_at (?V k) i)) \<le> MAXFILE * BSIZE"
      using edited_refl[OF assms(4,3)] w(3,6) assms(11) zb z1 by auto
    have d: "disk_file (sb s) ?n (disk t') = map (fbyte dev (?V k) i) [0..<unat (isize (inode_at (?V k) i))]"
      by (rule edited_disk(1)[OF V(1) assms(3,4) V(2,3) v t'(2)])
    have o: "disk_file (sb s) m (disk t') = disk_file (sb s) m (disk s)" if "disk_apart dev s i m" for m
      by (rule edited_disk(2)[OF V(1) assms(3,4) V(2,3) v t'(2) that])
    have "disk_file (sb s) ?n (disk t') = (let old = disk_file (sb s) ?n (disk s) in if k \<le> nat (lh_n s1) then old else patch old (unat off) bs)"
      unfolding d old Let_def using new by simp
    then show ?thesis using t'(1) o by blast
  qed
  show ?thesis using w(1) T s2 d1 rec by blast
qed

text \<open>The machine stops after the last write of the commit: the file has the new bytes.\<close>

theorem writei_crash_atomic_witness:
  "\<exists>s1 t t'. writei 0 1 (Local [1, 2, 3, 4]) 3 4 small = Ok (4, s1) \<and>
     rebooted 1 0 (replay (disk small) (commit_writes 1 s1)) small t \<and> recover_from_log 0 t = Ok t' \<and>
     disk_file small_sb 2 (disk small) = [104, 101, 108, 108, 111] \<and> disk_file small_sb 2 (disk t') = [104, 101, 108, 1, 2, 3, 4]"
proof -
  have sp: "span (unat (3 :: u32)) (unat (4 :: u32)) = 1" by (simp add: span_def)
  have r: "room 12 (6 * span (unat (3 :: u32)) (unat (4 :: u32)) + 1) small" "2 * span (unat (3 :: u32)) (unat (4 :: u32)) \<le> card (free_blocks 1 small)"
    unfolding sp by (simp_all add: small_room small_free)
  have h: "(3 :: u32) \<le> isize (inode_at small 1)" "(3 :: u32) \<le> 3 + 4" "unat (3 + 4 :: u32) \<le> MAXFILE * BSIZE" "length [1, 2, 3, 4 :: u8] = unat (4 :: u32)"
    by simp_all
  have g: "logged small = {}" "outstanding small = 1" "\<not> committing small" by (simp_all add: logged_def)
  have n2: "sb small = small_sb" "inum (inode_at small 1) = 2" by simp_all
  obtain s1 where w: "writei 0 1 (Local [1, 2, 3, 4]) 3 4 small = Ok (int (unat (4 :: u32)), s1)" "transaction 1 0 s1" "disk s1 = disk small"
      "\<forall>k t. k \<le> length (commit_writes 1 s1) \<and> rebooted 1 0 (replay (disk small) (take k (commit_writes 1 s1))) small t \<longrightarrow>
        (\<exists>t'. recover_from_log 0 t = Ok t' \<and> disk_file small_sb 2 (disk t') =
          (let old = disk_file small_sb 2 (disk small) in if k \<le> nat (lh_n s1) then old else patch old (unat (3 :: u32)) [1, 2, 3, 4]))"
    using writei_crash_atomic[OF small_tx r(1) small_ok small_files(2) small_solid(2) r(2) h small_synced g(1) small_log_ready g(2,3)]
    unfolding n2 by blast
  let ?ws = "commit_writes 1 s1"
  define t where "t = small\<lparr>disk := replay (disk small) ?ws\<rparr>"
  have old: "disk_file small_sb 2 (disk small) = [104, 101, 108, 108, 111]"
  proof -
    have "disk_file (sb small) (inum (inode_at small 1)) (disk small) = map (fbyte 1 small 1) [0..<unat (isize (inode_at small 1))]"
      by (rule disk_file_view[OF small_synced]) (simp_all add: small_view)
    then show ?thesis by (simp add: upt_conv_Cons small_bytes(2)[unfolded One_nat_def] hello_block_def)
  qed
  have len: "\<forall>b. length (replay (disk small) ?ws b) = BSIZE"
    using commit_lengths[OF _ w(2)] w(2,3) by (simp add: transaction_def quiet_def)
  have R: "rebooted 1 0 (replay (disk small) ?ws) small t" unfolding t_def by (rule small_rebooted[OF len])
  have k: "nat (lh_n s1) < length ?ws" by (simp add: commit_writes_def Let_def)
  obtain t' where t': "recover_from_log 0 t = Ok t'" "disk_file small_sb 2 (disk t') = patch [104, 101, 108, 108, 111] 3 [1, 2, 3, 4]"
    using w(4)[rule_format, of "length ?ws" t] R k old by (auto simp: Let_def)
  have "patch [104, 101, 108, 108, 111] 3 [1, 2, 3, 4] = [104, 101, 108, 1, 2, 3, 4 :: u8]" by (simp add: patch_def)
  then show ?thesis using w(1) R t' old by (intro exI[of _ s1] exI[of _ t] exI[of _ t']) simp
qed

end
