(* ===== verification/Mkfs.thy ===== *)
theory Mkfs
  imports Image
begin

text \<open>
  \<open>mkfs/mkfs.c\<close>, which builds the disk the kernel boots from: its operations, what the image they build holds, and that the
  image meets what the theorems on the kernel's file system ask of a disk. A sector is a block; the files of the command
  line are pairs of a name and the chunks that \<open>read\<close> returned of the contents; a failed \<open>assert\<close> and \<open>die\<close> are panics.
  The host is taken to have the byte order of RISC-V, as the code does where it writes \<open>magic\<close> and the indirect block.
\<close>

section \<open>State\<close>

abbreviation FSSIZE :: nat where "FSSIZE \<equiv> 2000"
abbreviation NMETA :: nat where "NMETA \<equiv> 46"

definition mk_sb :: superblock where
  "mk_sb = \<lparr>magic = FSMAGIC, fssize = 2000, nblocks = 1954, ninodes = 200, nlog = 30, logstart = 2, inodestart = 32, bmapstart = 45\<rparr>"

record mstate =
  mdisk :: "u32 \<Rightarrow> u8 list"
  freeinode :: u32
  freeblock :: u32

definition wsect :: "u32 \<Rightarrow> u8 list \<Rightarrow> mstate \<Rightarrow> mstate" where
  "wsect b d s = s\<lparr>mdisk := (mdisk s)(b := d)\<rparr>"

text \<open>Every sector below \<open>FSSIZE\<close> has been written; reading beyond fails, and \<open>die\<close> is called.\<close>

definition rsect :: "u32 \<Rightarrow> mstate \<Rightarrow> u8 list res" where
  "rsect b s = (if unat b < FSSIZE then Ok (mdisk s b) else Panic ''read'')"

definition rinode :: "u32 \<Rightarrow> mstate \<Rightarrow> inode res" where
  "rinode n s = rbind (rsect (IBLOCK n mk_sb) s) (\<lambda>buf. Ok (load_dinode buf (dinode_at n) empty_inode))"

definition winode :: "u32 \<Rightarrow> inode \<Rightarrow> mstate \<Rightarrow> mstate res" where
  "winode n ip s = rbind (rsect (IBLOCK n mk_sb) s) (\<lambda>buf. Ok (wsect (IBLOCK n mk_sb) (store_dinode ip (dinode_at n) buf) s))"

definition new_block :: "mstate \<Rightarrow> u32 \<times> mstate" where
  "new_block s = (freeblock s, s\<lparr>freeblock := freeblock s + 1\<rparr>)"

section \<open>Operations\<close>

definition mk_ialloc :: "int \<Rightarrow> mstate \<Rightarrow> (u32 \<times> mstate) res" where
  "mk_ialloc ty s =
     (let n = freeinode s; din = empty_inode\<lparr>itype := ty, inlink := 1, isize := 0, addrs := replicate (NDIRECT + 1) 0\<rparr>
      in rbind (winode n din (s\<lparr>freeinode := n + 1\<rparr>)) (\<lambda>s1. Ok (n, s1)))"

text \<open>The sector of block \<open>fbn\<close> of a file, taken from the free ones if there is none.\<close>

definition mk_bmap :: "nat \<Rightarrow> u32 list \<Rightarrow> mstate \<Rightarrow> (u32 \<times> u32 list \<times> mstate) res" where
  "mk_bmap fbn ads s =
     (if fbn < NDIRECT
      then let (a, s1) = (if ads ! fbn = 0 then new_block s else (ads ! fbn, s)) in Ok (a, ads[fbn := a], s1)
      else let (ind, s1) = (if ads ! NDIRECT = 0 then new_block s else (ads ! NDIRECT, s)) in
        rbind (rsect ind s1) (\<lambda>buf.
          let k = 4 * (fbn - NDIRECT) in
          if get32 buf k = 0
          then let (a, s2) = new_block s1 in Ok (a, ads[NDIRECT := ind], wsect ind (put32 buf k a) s2)
          else Ok (get32 buf k, ads[NDIRECT := ind], s1)))"

function iappend_loop :: "u32 list \<Rightarrow> nat \<Rightarrow> u8 list \<Rightarrow> mstate \<Rightarrow> (u32 list \<times> nat \<times> mstate) res" where
  "iappend_loop ads off p s =
     (if p = [] then Ok (ads, off, s)
      else let fbn = off div BSIZE; n1 = min (length p) ((fbn + 1) * BSIZE - off) in
        if \<not> fbn < MAXFILE then Panic ''fbn < MAXFILE''
        else rbind (mk_bmap fbn ads s) (\<lambda>(x, ads1, s1).
             rbind (rsect x s1) (\<lambda>buf.
               iappend_loop ads1 (off + n1) (drop n1 p) (wsect x (patch buf (off - fbn * BSIZE) (take n1 p)) s1))))"
  by pat_completeness auto
termination
proof (relation "measure (\<lambda>(ads, off, p, s). length p)", simp)
  fix off :: nat and p :: "u8 list" and fbn n1 :: nat
  assume a: "p \<noteq> []" "fbn = off div BSIZE" "n1 = min (length p) ((fbn + 1) * BSIZE - off)"
  have "off < (off div BSIZE + 1) * BSIZE" using dividend_less_div_times[of BSIZE off] by simp
  then have "0 < n1" using a by simp
  then show "((ads', off + n1, drop n1 p, s'), ads, off, p, s) \<in> measure (\<lambda>(ads, off, p, s). length p)" for ads' s' ads s
    using a(1) by simp
qed

declare iappend_loop.simps [simp del]

definition iappend :: "u32 \<Rightarrow> u8 list \<Rightarrow> mstate \<Rightarrow> mstate res" where
  "iappend n p s =
     rbind (rinode n s) (\<lambda>din.
     rbind (iappend_loop (addrs din) (unat (isize din)) p s) (\<lambda>(ads, off, s1).
       winode n (din\<lparr>addrs := ads, isize := word_of_nat off\<rparr>) s1))"

fun mark_blocks :: "nat list \<Rightarrow> u8 list \<Rightarrow> u8 list" where
  "mark_blocks [] d = d"
| "mark_blocks (i # is) d = mark_blocks is (mark_used d i)"

definition mk_balloc :: "nat \<Rightarrow> mstate \<Rightarrow> mstate res" where
  "mk_balloc used s =
     (if \<not> used < BSIZE * 8 then Panic ''used < BSIZE*8''
      else Ok (wsect (bmapstart mk_sb) (mark_blocks [0..<used] (replicate BSIZE 0)) s))"

section \<open>The image\<close>

definition sb_bytes :: "superblock \<Rightarrow> u8 list" where
  "sb_bytes b = bytes32 (magic b) @ bytes32 (fssize b) @ bytes32 (nblocks b) @ bytes32 (ninodes b) @ bytes32 (nlog b) @
     bytes32 (logstart b) @ bytes32 (inodestart b) @ bytes32 (bmapstart b)"

text \<open>The name in the directory: without \<open>user/\<close> and without a leading underscore.\<close>

definition no_user :: "u8 list \<Rightarrow> u8 list" where
  "no_user path = (if take 5 path = [117, 115, 101, 114, 47] then drop 5 path else path)"

definition shortname :: "u8 list \<Rightarrow> u8 list" where
  "shortname path = (let n = no_user path in if n \<noteq> [] \<and> hd n = 95 then tl n else n)"

fun append_chunks :: "u32 \<Rightarrow> u8 list list \<Rightarrow> mstate \<Rightarrow> mstate res" where
  "append_chunks n [] s = Ok s"
| "append_chunks n (c # cs) s = rbind (iappend n c s) (\<lambda>s1. append_chunks n cs s1)"

fun add_files :: "(u8 list \<times> u8 list list) list \<Rightarrow> mstate \<Rightarrow> mstate res" where
  "add_files [] s = Ok s"
| "add_files ((path, cs) # fs) s =
     (if 47 \<in> set (no_user path) then Panic ''index(shortname)''
      else rbind (mk_ialloc T_FILE s) (\<lambda>(n, s1).
        rbind (iappend ROOTINO (dirent_bytes (ucast n) (shortname path)) s1) (\<lambda>s2.
        rbind (append_chunks n cs s2) (\<lambda>s3. add_files fs s3))))"

definition mkfs :: "(u8 list \<times> u8 list list) list \<Rightarrow> mstate res" where
  "mkfs files =
     (let s0 = \<lparr>mdisk = \<lambda>_. replicate BSIZE 0, freeinode = 1, freeblock = word_of_nat NMETA\<rparr>;
          s1 = wsect 1 (patch (replicate BSIZE 0) 0 (sb_bytes mk_sb)) s0 in
      rbind (mk_ialloc T_DIR s1) (\<lambda>(r, s2).
      if r \<noteq> ROOTINO then Panic ''rootino == ROOTINO''
      else rbind (iappend r (dirent_bytes (ucast r) [46]) s2) (\<lambda>s3.
           rbind (iappend r (dirent_bytes (ucast r) [46, 46]) s3) (\<lambda>s4.
           rbind (add_files files s4) (\<lambda>s5.
           rbind (rinode r s5) (\<lambda>din.
           rbind (winode r (din\<lparr>isize := (isize din div word_of_nat BSIZE + 1) * word_of_nat BSIZE\<rparr>) s5) (\<lambda>s6.
             mk_balloc (unat (freeblock s6)) s6)))))))"

section \<open>Blocks given out\<close>

text \<open>The blocks taken by a file of \<open>z\<close> bytes.\<close>

definition need :: "nat \<Rightarrow> nat" where
  "need z = (z + (BSIZE - 1)) div BSIZE + (if NDIRECT * BSIZE < z then 1 else 0)"

text \<open>The sectors from \<open>fb\<close> on have not been given out, and are still zeros.\<close>

definition sane :: "nat \<Rightarrow> mstate \<Rightarrow> bool" where
  "sane fb s \<longleftrightarrow> freeblock s = word_of_nat fb \<and> NMETA \<le> fb \<and> fb \<le> FSSIZE \<and> (\<forall>b. length (mdisk s b) = BSIZE) \<and>
     (\<forall>b. fb \<le> unat b \<longrightarrow> mdisk s b = replicate BSIZE 0)"

definition between :: "nat \<Rightarrow> nat \<Rightarrow> u32 set" where
  "between x y = {b. x \<le> unat b \<and> unat b < y}"

text \<open>Nothing happened but to the blocks \<open>X\<close> and those given out meanwhile.\<close>

definition spread :: "nat \<Rightarrow> u32 set \<Rightarrow> mstate \<Rightarrow> nat \<Rightarrow> mstate \<Rightarrow> bool" where
  "spread fb X s fb' s' \<longleftrightarrow> fb \<le> fb' \<and> sane fb' s' \<and> freeinode s' = freeinode s \<and>
     (\<forall>b. unat b < fb \<and> b \<notin> X \<longrightarrow> mdisk s' b = mdisk s b)"

text \<open>The addresses \<open>ads\<close> have just the blocks that a file of \<open>z\<close> bytes takes.\<close>

definition covers :: "u32 list \<Rightarrow> (u32 \<Rightarrow> u8 list) \<Rightarrow> nat \<Rightarrow> bool" where
  "covers ads D z \<longleftrightarrow> good_map ads D \<and> (\<forall>bn < MAXFILE. faddr ads D bn \<noteq> 0 \<longleftrightarrow> bn * BSIZE < z) \<and>
     (ads ! NDIRECT \<noteq> 0 \<longleftrightarrow> NDIRECT * BSIZE < z)"

definition reads_as :: "u32 list \<Rightarrow> (u32 \<Rightarrow> u8 list) \<Rightarrow> u8 list \<Rightarrow> bool" where
  "reads_as ads D c \<longleftrightarrow> (\<forall>k < MAXFILE * BSIZE. fdata ads D (k div BSIZE) ! (k mod BSIZE) = (if k < length c then c ! k else 0))"

lemma need_same: "l < z \<Longrightarrow> z \<le> (l div BSIZE + 1) * BSIZE \<Longrightarrow> need z = need (l + 1)"
proof -
  assume z: "l < z" "z \<le> (l div BSIZE + 1) * BSIZE"
  have q: "(y + 1023) div 1024 = l div 1024 + 1" if "l < y" "y \<le> (l div 1024 + 1) * 1024" for y
  proof (rule div_nat_eqI)
    have "l div 1024 * 1024 \<le> l" by simp
    moreover have "1024 * (l div 1024 + 1) = l div 1024 * 1024 + 1024" by simp
    ultimately show "1024 * (l div 1024 + 1) \<le> y + 1023" using that(1) by simp
    show "y + 1023 < 1024 * Suc (l div 1024 + 1)" using that(2) by simp
  qed
  have "l + 1 \<le> (l div 1024 + 1) * 1024" using dividend_less_div_times[of 1024 l] by simp
  moreover have "12288 < z \<longleftrightarrow> 12288 < l + 1"
  proof
    assume "12288 < z"
    then have "12 * 1024 < (l div 1024 + 1) * 1024" using z(2) by simp
    then have "12 \<le> l div 1024" by simp
    then show "12288 < l + 1" using div_le_dividend[of l 1024] by (simp add: less_eq_div_iff_mult_less_eq)
  qed (use z(1) in simp)
  ultimately show ?thesis using q[of z] q[of "l + 1"] z by (simp add: need_def)
qed

lemma need_step:
  "need (l + 1) = need l + (if l mod BSIZE = 0 then 1 else 0) + (if l = NDIRECT * BSIZE then 1 else 0)"
proof -
  have "(l + 1 + 1023) div 1024 = (l + 1023) div 1024 + (if l mod 1024 = 0 then 1 else 0)"
  proof (cases "l mod 1024 = 0")
    case True
    then obtain q where "l = 1024 * q" by (auto simp: mod_eq_0_iff_dvd dvd_def)
    then show ?thesis by (simp add: div_nat_eqI)
  next
    case False
    define q where "q = l div 1024"
    define r where "r = l mod 1024"
    have l: "l = 1024 * q + r" "0 < r" "r < 1024" using False by (simp_all add: q_def r_def)
    have "(l + 1 + 1023) div 1024 = q + 1" "(l + 1023) div 1024 = q + 1" by (rule div_nat_eqI; use l in simp)+
    then show ?thesis using False by simp
  qed
  then show ?thesis by (simp add: need_def)
qed

lemma need_mono: "x \<le> y \<Longrightarrow> need x \<le> need y"
  unfolding need_def by (intro add_mono div_le_mono) auto

lemma unat_fb: "fb \<le> FSSIZE \<Longrightarrow> unat (word_of_nat fb :: u32) = fb"
  by (rule of_nat_inverse[OF refl]) simp

lemma word_fb: "fb \<le> FSSIZE \<Longrightarrow> unat (b :: u32) = fb \<longleftrightarrow> b = word_of_nat fb"
  using unat_fb[of fb] by (metis unsigned_word_eqI)

lemma saneD:
  assumes "sane fb s"
  shows "freeblock s = word_of_nat fb" "NMETA \<le> fb" "fb \<le> FSSIZE" "length (mdisk s b) = BSIZE"
    "fb \<le> unat b \<Longrightarrow> mdisk s b = replicate BSIZE 0" "unat (word_of_nat fb :: u32) = fb"
  using assms unat_fb by (auto simp: sane_def)

lemma new_block_spec:
  assumes "sane fb s" "fb < FSSIZE"
  shows "\<exists>s1. new_block s = (word_of_nat fb, s1) \<and> mdisk s1 = mdisk s \<and> spread fb {} s (fb + 1) s1"
  using assms unfolding new_block_def by (auto simp: spread_def sane_def)

lemma spread_refl: "sane fb s \<Longrightarrow> spread fb X s fb s"
  by (simp add: spread_def)

lemma spread_trans:
  assumes "spread fb X s fb1 s1" "spread fb1 Y s1 fb2 s2" "Y \<inter> {b. unat b < fb} \<subseteq> X"
  shows "spread fb X s fb2 s2"
  using assms unfolding spread_def by (auto simp: subset_iff) (metis order_less_le_trans)

lemma wsect_spread:
  assumes "sane fb s" "unat b < fb" "length d = BSIZE"
  shows "spread fb {b} s fb (wsect b d s)"
  using assms by (auto simp: spread_def sane_def wsect_def)

lemma rsect_ok: "unat b < FSSIZE \<Longrightarrow> rsect b s = Ok (mdisk s b)"
  by (simp add: rsect_def)

section \<open>The blocks of a file\<close>

lemma block_start: "bn * BSIZE < z + 1 \<longleftrightarrow> bn * BSIZE < z \<or> (z mod BSIZE = 0 \<and> bn = z div BSIZE)"
proof -
  have "bn * BSIZE = z \<longleftrightarrow> z mod BSIZE = 0 \<and> bn = z div BSIZE" by auto
  then show ?thesis by linarith
qed

lemma covers_faddr: "covers ads D z \<Longrightarrow> bn < MAXFILE \<Longrightarrow> (faddr ads D bn = 0) = (z \<le> bn * BSIZE)"
  by (auto simp: covers_def)

lemma start_unmapped: "z \<le> z div BSIZE * BSIZE \<longleftrightarrow> z mod BSIZE = 0"
  using div_mult_mod_eq[of z BSIZE] by linarith

lemma fresh_owned:
  assumes "sane fb s" "owned ads D \<subseteq> between NMETA fb" "fb < FSSIZE"
  shows "(word_of_nat fb :: u32) \<noteq> 0" "word_of_nat fb \<notin> owned ads D" "mdisk s (word_of_nat fb) = replicate BSIZE 0"
    "word_of_nat fb \<in> between fb (fb + 1)"
proof -
  have u: "unat (word_of_nat fb :: u32) = fb" using assms(3) by (intro unat_fb) simp
  show "(word_of_nat fb :: u32) \<noteq> 0" using u saneD(2)[OF assms(1)] by (metis unat_0 not_numeral_le_zero)
  show "word_of_nat fb \<notin> owned ads D" using u assms(2) by (auto simp: between_def)
  show "mdisk s (word_of_nat fb) = replicate BSIZE 0" using saneD(5)[OF assms(1)] u by simp
  show "word_of_nat fb \<in> between fb (fb + 1)" using u by (simp add: between_def)
qed

lemma between_single: "fb < FSSIZE \<Longrightarrow> between fb (fb + 1) = {word_of_nat fb}"
  using word_fb[of fb] unfolding between_def by force

text \<open>What \<open>mk_bmap\<close> does to a file of \<open>z\<close> bytes that gets one more.\<close>

definition mapped_on :: "nat \<Rightarrow> u32 list \<Rightarrow> mstate \<Rightarrow> nat \<Rightarrow> u32 list \<Rightarrow> mstate \<Rightarrow> bool" where
  "mapped_on fb ads s fb1 ads1 s1 \<longleftrightarrow> extends (between fb fb1) ads (mdisk s) ads1 (mdisk s1) \<and> spread fb (owned ads (mdisk s)) s fb1 s1"

lemma mapped_on_trans:
  assumes "mapped_on fb ads s fb1 ads1 s1" "mapped_on fb1 ads1 s1 fb2 ads2 s2"
  shows "mapped_on fb ads s fb2 ads2 s2"
proof -
  have le: "fb \<le> fb1" "fb1 \<le> fb2" using assms by (auto simp: mapped_on_def spread_def)
  have "between fb fb1 \<union> between fb1 fb2 = between fb fb2" using le by (auto simp: between_def)
  moreover have "owned ads1 (mdisk s1) \<inter> {b. unat b < fb} \<subseteq> owned ads (mdisk s)"
    using assms(1) by (auto simp: mapped_on_def extends_def between_def)
  ultimately show ?thesis using assms extends_trans[of "between fb fb1"] spread_trans unfolding mapped_on_def by metis
qed

lemma mapped_on_owned: "mapped_on fb ads s fb1 ads1 s1 \<Longrightarrow> owned ads (mdisk s) \<subseteq> between NMETA fb \<Longrightarrow> NMETA \<le> fb \<Longrightarrow>
    owned ads1 (mdisk s1) \<subseteq> between NMETA fb1"
  by (auto simp: mapped_on_def extends_def spread_def between_def subset_iff)

lemma direct_block:
  assumes k: "sane fb s" "owned ads (mdisk s) \<subseteq> between NMETA fb" and c: "covers ads (mdisk s) z"
    and n: "z div BSIZE < NDIRECT" "fb + need (z + 1) \<le> FSSIZE + need z"
  shows "\<exists>ads1 s1 fb1. mk_bmap (z div BSIZE) ads s = Ok (faddr ads1 (mdisk s1) (z div BSIZE), ads1, s1) \<and>
     mapped_on fb ads s fb1 ads1 s1 \<and> covers ads1 (mdisk s1) (z + 1) \<and> fb1 + need z = fb + need (z + 1)"
proof (cases "z mod BSIZE = 0")
  case True
  let ?n = "z div BSIZE" and ?a = "word_of_nat fb :: u32"
  have z: "z < NDIRECT * BSIZE" using n(1) by (simp add: div_less_iff_less_mult)
  have nd: "need (z + 1) = need z + 1" using need_step[of z] True z by simp
  have f0: "ads ! ?n = 0" using covers_faddr[OF c, of ?n] n(1) start_unmapped[of z] True by (simp add: faddr_def)
  have g: "good_map ads (mdisk s)" "length ads = NDIRECT + 1" using c by (auto simp: covers_def good_map_def)
  have fb: "fb < FSSIZE" using n(2) nd by simp
  obtain s1 where s1: "new_block s = (?a, s1)" "mdisk s1 = mdisk s" "spread fb {} s (fb + 1) s1" using new_block_spec[OF k(1) fb] by blast
  note fr = fresh_owned[OF k fb]
  have e: "extends {?a} ads (mdisk s) (ads[?n := ?a]) (mdisk s)"
    by (rule extends_direct) (use g n(1) f0 fr in simp_all)
  have f: "faddr (ads[?n := ?a]) (mdisk s) bn = (if bn = ?n then ?a else faddr ads (mdisk s) bn)" for bn
    using n(1) g(2) by (auto simp: faddr_def nth_list_update)
  have "covers (ads[?n := ?a]) (mdisk s) (z + 1)"
    unfolding covers_def block_start f using e fr(1) c n(1) z True by (auto simp: covers_def extends_def)
  moreover have "spread fb (owned ads (mdisk s)) s (fb + 1) s1" using s1(3) by (auto simp: spread_def)
  ultimately show ?thesis using s1 f0 n(1) e f between_single[OF fb] nd
    by (intro exI[of _ "ads[?n := ?a]"] exI[of _ s1] exI[of _ "fb + 1"]) (simp add: mk_bmap_def mapped_on_def)
next
  case False
  let ?n = "z div BSIZE"
  have "z \<noteq> NDIRECT * BSIZE" using False by auto
  then have nd: "need (z + 1) = need z" using need_step[of z] False by simp
  have f0: "ads ! ?n \<noteq> 0" using covers_faddr[OF c, of ?n] n(1) start_unmapped[of z] False by (simp add: faddr_def)
  have "covers ads (mdisk s) (z + 1)" using c False \<open>z \<noteq> NDIRECT * BSIZE\<close> unfolding covers_def block_start by auto
  then show ?thesis using f0 n(1) nd k(1) c
    by (intro exI[of _ ads] exI[of _ s] exI[of _ fb]) (auto simp: mk_bmap_def mapped_on_def faddr_def covers_def extends_refl spread_refl)
qed

lemma indirect_block:
  assumes k: "sane fb s" "owned ads (mdisk s) \<subseteq> between NMETA fb" and c: "covers ads (mdisk s) z"
    and n: "NDIRECT * BSIZE \<le> z" "fb + (if z = NDIRECT * BSIZE then 1 else 0) \<le> FSSIZE"
  shows "\<exists>i s1 fb1. (if ads ! NDIRECT = 0 then new_block s else (ads ! NDIRECT, s)) = (i, s1) \<and> mdisk s1 = mdisk s \<and> i \<noteq> 0 \<and>
     mapped_on fb ads s fb1 (ads[NDIRECT := i]) s1 \<and> fb1 = fb + (if z = NDIRECT * BSIZE then 1 else 0) \<and>
     (\<forall>bn < MAXFILE. faddr (ads[NDIRECT := i]) (mdisk s) bn = faddr ads (mdisk s) bn)"
proof (cases "z = NDIRECT * BSIZE")
  case True
  let ?a = "word_of_nat fb :: u32"
  have a0: "ads ! NDIRECT = 0" using c True by (simp add: covers_def)
  have g: "good_map ads (mdisk s)" "length ads = NDIRECT + 1" using c by (auto simp: covers_def good_map_def)
  have fb: "fb < FSSIZE" using n(2) True by simp
  obtain s1 where s1: "new_block s = (?a, s1)" "mdisk s1 = mdisk s" "spread fb {} s (fb + 1) s1" using new_block_spec[OF k(1) fb] by blast
  note fr = fresh_owned[OF k fb]
  have e: "extends {?a} ads (mdisk s) (ads[NDIRECT := ?a]) (mdisk s)"
    by (rule extends_indirect) (use g a0 fr in simp_all)
  have z: "get32 (mdisk s ?a) (4 * (bn - NDIRECT)) = 0" if "bn < MAXFILE" for bn
    unfolding fr(3) by (rule get32_zero) (use that in auto)
  have f: "faddr (ads[NDIRECT := ?a]) (mdisk s) bn = faddr ads (mdisk s) bn" if "bn < MAXFILE" for bn
    using z[OF that] a0 g(2) by (simp add: faddr_def)
  have "spread fb (owned ads (mdisk s)) s (fb + 1) s1" using s1(3) by (auto simp: spread_def)
  then show ?thesis using s1 a0 e f between_single[OF fb] True fr(1)
    by (intro exI[of _ ?a] exI[of _ s1] exI[of _ "fb + 1"]) (simp add: mapped_on_def)
next
  case False
  have a0: "ads ! NDIRECT \<noteq> 0" "good_map ads (mdisk s)" using c n(1) False by (simp_all add: covers_def)
  then show ?thesis using False k(1)
    by (intro exI[of _ "ads ! NDIRECT"] exI[of _ s] exI[of _ fb]) (simp add: mapped_on_def extends_refl spread_refl)
qed

lemma entry_block:
  assumes k: "sane fb s" "owned ads (mdisk s) \<subseteq> between NMETA fb" and g: "good_map ads (mdisk s)" "ads ! NDIRECT = i" "i \<noteq> 0"
    and n: "NDIRECT \<le> bn" "bn < MAXFILE" "faddr ads (mdisk s) bn = 0" "fb < FSSIZE"
  shows "\<exists>a s1 s2. new_block s = (a, s1) \<and> s2 = wsect i (put32 (mdisk s i) (4 * (bn - NDIRECT)) a) s1 \<and> faddr ads (mdisk s2) bn = a \<and> a \<noteq> 0 \<and>
     mapped_on fb ads s (fb + 1) ads s2 \<and> (\<forall>bm < MAXFILE. bm \<noteq> bn \<longrightarrow> faddr ads (mdisk s2) bm = faddr ads (mdisk s) bm)"
proof -
  let ?a = "word_of_nat fb :: u32"
  obtain s1 where s1: "new_block s = (?a, s1)" "mdisk s1 = mdisk s" "spread fb {} s (fb + 1) s1" using new_block_spec[OF k(1) n(4)] by blast
  define s2 where "s2 = wsect i (put32 (mdisk s i) (4 * (bn - NDIRECT)) ?a) s1"
  have D2: "mdisk s2 = (mdisk s)(i := put32 (mdisk s i) (4 * (bn - NDIRECT)) ?a)" by (simp add: s2_def wsect_def s1)
  note fr = fresh_owned[OF k n(4)]
  have io: "i \<in> owned ads (mdisk s)" using g by (simp add: owned_def)
  then have ia: "i \<noteq> ?a" "unat i < fb" using fr(2) k(2) by (auto simp: between_def)
  have l: "length (mdisk s i) = BSIZE" by (rule saneD(4)[OF k(1)])
  have e: "extends {?a} ads (mdisk s) ads (mdisk s2)" "faddr ads (mdisk s2) bn = ?a"
    by (rule extends_entry; use g n fr l ia D2 in simp)+
  have f: "faddr ads (mdisk s2) bm = faddr ads (mdisk s) bm" if bm: "bm < MAXFILE" "bm \<noteq> bn" for bm
  proof (cases "bm < NDIRECT")
    case False
    then have "4 * (bn - NDIRECT) + 4 \<le> BSIZE" "4 * (bm - NDIRECT) + 4 \<le> BSIZE"
      "4 * (bm - NDIRECT) + 4 \<le> 4 * (bn - NDIRECT) \<or> 4 * (bn - NDIRECT) + 4 \<le> 4 * (bm - NDIRECT)"
      using n(1,2) bm by arith+
    then show ?thesis using False l by (simp add: faddr_def D2 g(2) get32_put32_other)
  qed (simp add: faddr_def)
  have "4 * (bn - NDIRECT) + 4 \<le> BSIZE" using n(1,2) by arith
  then have "length (put32 (mdisk s i) (4 * (bn - NDIRECT)) ?a) = BSIZE" using l by simp
  then have "spread (fb + 1) {i} s1 (fb + 1) s2" unfolding s2_def using s1(3) ia(2) by (intro wsect_spread) (auto simp: spread_def)
  moreover have "spread fb (owned ads (mdisk s)) s (fb + 1) s1" using s1(3) by (auto simp: spread_def)
  ultimately have "spread fb (owned ads (mdisk s)) s (fb + 1) s2" using io by (elim spread_trans) auto
  then show ?thesis using s1(1) s2_def e f fr(1) between_single[OF n(4)] by (intro exI[of _ ?a] exI[of _ s1] exI[of _ s2]) (simp add: mapped_on_def)
qed

lemma far_block:
  assumes k: "sane fb s" "owned ads (mdisk s) \<subseteq> between NMETA fb" and c: "covers ads (mdisk s) z"
    and n: "NDIRECT \<le> z div BSIZE" "z div BSIZE < MAXFILE" "fb + need (z + 1) \<le> FSSIZE + need z"
  shows "\<exists>ads1 s1 fb1. mk_bmap (z div BSIZE) ads s = Ok (faddr ads1 (mdisk s1) (z div BSIZE), ads1, s1) \<and>
     mapped_on fb ads s fb1 ads1 s1 \<and> covers ads1 (mdisk s1) (z + 1) \<and> fb1 + need z = fb + need (z + 1)"
proof -
  let ?n = "z div BSIZE" and ?k = "4 * (z div BSIZE - NDIRECT)"
  have z: "NDIRECT * BSIZE \<le> z" using n(1) by (simp add: less_eq_div_iff_mult_less_eq)
  have nd: "need (z + 1) = need z + (if z mod BSIZE = 0 then 1 else 0) + (if z = NDIRECT * BSIZE then 1 else 0)" by (rule need_step)
  have lim: "fb + (if z = NDIRECT * BSIZE then 1 else 0) \<le> FSSIZE" using n(3) nd by simp
  obtain i s1 fb1 where i: "(if ads ! NDIRECT = 0 then new_block s else (ads ! NDIRECT, s)) = (i, s1)" "mdisk s1 = mdisk s" "i \<noteq> 0"
    "mapped_on fb ads s fb1 (ads[NDIRECT := i]) s1" "fb1 = fb + (if z = NDIRECT * BSIZE then 1 else 0)"
    and f: "\<And>bn. bn < MAXFILE \<Longrightarrow> faddr (ads[NDIRECT := i]) (mdisk s) bn = faddr ads (mdisk s) bn"
    using indirect_block[OF k c z lim] by blast
  let ?ads = "ads[NDIRECT := i]"
  have la: "length ads = NDIRECT + 1" using c by (auto simp: covers_def good_map_def)
  have ai: "?ads ! NDIRECT = i" using la by simp
  have o1: "owned ?ads (mdisk s1) \<subseteq> between NMETA fb1" using mapped_on_owned[OF i(4) k(2) saneD(2)[OF k(1)]] .
  have s1: "sane fb1 s1" "good_map ?ads (mdisk s1)" using i(4) by (auto simp: mapped_on_def spread_def extends_def)
  have "i \<in> owned ?ads (mdisk s1)" using ai i(3) by (simp add: owned_def)
  then have iu: "unat i < FSSIZE" using o1 saneD(3)[OF s1(1)] by (auto simp: between_def)
  have fk: "faddr ?ads (mdisk s1) ?n = get32 (mdisk s1 i) ?k" using n(1) ai i(3) by (simp add: faddr_def)
  have un: "get32 (mdisk s1 i) ?k = 0 \<longleftrightarrow> z mod BSIZE = 0"
    using covers_faddr[OF c n(2)] f[OF n(2)] start_unmapped[of z] fk by (simp add: i(2))
  have bm: "mk_bmap ?n ads s =
      (if get32 (mdisk s1 i) ?k = 0 then let (a, s2) = new_block s1 in Ok (a, ?ads, wsect i (put32 (mdisk s1 i) ?k a) s2)
       else Ok (get32 (mdisk s1 i) ?k, ?ads, s1))"
    using n(1) i(1) rsect_ok[OF iu] by (simp add: mk_bmap_def)
  show ?thesis
  proof (cases "z mod BSIZE = 0")
    case True
    have fb1: "fb1 < FSSIZE" using n(3) nd i(5) True by simp
    have f0: "faddr ?ads (mdisk s1) ?n = 0" using fk un True by simp
    obtain a s2 s3 where a: "new_block s1 = (a, s2)" "s3 = wsect i (put32 (mdisk s1 i) ?k a) s2" "faddr ?ads (mdisk s3) ?n = a" "a \<noteq> 0"
      "mapped_on fb1 ?ads s1 (fb1 + 1) ?ads s3"
      and f2: "\<And>bm. bm < MAXFILE \<Longrightarrow> bm \<noteq> ?n \<Longrightarrow> faddr ?ads (mdisk s3) bm = faddr ?ads (mdisk s1) bm"
      using entry_block[OF s1(1) o1 s1(2) ai i(3) n(1,2) f0 fb1] by blast
    have "faddr ?ads (mdisk s3) bn \<noteq> 0 \<longleftrightarrow> bn * BSIZE < z + 1" if bn: "bn < MAXFILE" for bn
      using f2[OF bn] f[OF bn] a(3,4) True covers_faddr[OF c bn] unfolding block_start i(2) by (cases "bn = ?n") auto
    moreover have "good_map ?ads (mdisk s3)" using a(5) by (simp add: mapped_on_def extends_def)
    ultimately have "covers ?ads (mdisk s3) (z + 1)" using ai i(3) z by (simp add: covers_def)
    then show ?thesis using bm un True a nd i(5) mapped_on_trans[OF i(4) a(5)]
      by (intro exI[of _ ?ads] exI[of _ s3] exI[of _ "fb1 + 1"]) simp
  next
    case False
    have "faddr ?ads (mdisk s1) bn \<noteq> 0 \<longleftrightarrow> bn * BSIZE < z + 1" if bn: "bn < MAXFILE" for bn
      using f[OF bn] False covers_faddr[OF c bn] unfolding block_start i(2) by auto
    then have "covers ?ads (mdisk s1) (z + 1)" using ai i(3) z s1(2) by (simp add: covers_def)
    then show ?thesis using bm un False fk i(4,5) nd by (intro exI[of _ ?ads] exI[of _ s1] exI[of _ fb1]) simp
  qed
qed

lemma mk_bmap_spec:
  assumes "sane fb s" "owned ads (mdisk s) \<subseteq> between NMETA fb" "covers ads (mdisk s) z" "z div BSIZE < MAXFILE" "fb + need (z + 1) \<le> FSSIZE + need z"
  shows "\<exists>ads1 s1 fb1. mk_bmap (z div BSIZE) ads s = Ok (faddr ads1 (mdisk s1) (z div BSIZE), ads1, s1) \<and>
     mapped_on fb ads s fb1 ads1 s1 \<and> covers ads1 (mdisk s1) (z + 1) \<and> fb1 + need z = fb + need (z + 1)"
  using direct_block[OF assms(1-3) _ assms(5)] far_block[OF assms(1-3) _ assms(4,5)] by (cases "z div BSIZE < NDIRECT") simp_all

section \<open>Appending to a file\<close>

definition holds_file :: "nat \<Rightarrow> u32 list \<Rightarrow> (u32 \<Rightarrow> u8 list) \<Rightarrow> u8 list \<Rightarrow> bool" where
  "holds_file fb ads D c \<longleftrightarrow> covers ads D (length c) \<and> reads_as ads D c \<and> owned ads D \<subseteq> between NMETA fb \<and> length c \<le> MAXFILE * BSIZE"

text \<open>From the contents \<open>c\<close> to the contents \<open>c1\<close>: the new blocks are the next free ones.\<close>

definition appended :: "nat \<Rightarrow> u32 list \<Rightarrow> mstate \<Rightarrow> u8 list \<Rightarrow> nat \<Rightarrow> u32 list \<Rightarrow> mstate \<Rightarrow> u8 list \<Rightarrow> bool" where
  "appended fb ads s c fb1 ads1 s1 c1 \<longleftrightarrow> holds_file fb1 ads1 (mdisk s1) c1 \<and> spread fb (owned ads (mdisk s)) s fb1 s1 \<and>
     owned ads1 (mdisk s1) \<subseteq> owned ads (mdisk s) \<union> between fb fb1 \<and> fb1 + need (length c) = fb + need (length c1)"

lemma appended_trans:
  assumes "appended fb ads s c fb1 ads1 s1 c1" "appended fb1 ads1 s1 c1 fb2 ads2 s2 c2"
  shows "appended fb ads s c fb2 ads2 s2 c2"
proof -
  have le: "fb \<le> fb1" "fb1 \<le> fb2" using assms by (auto simp: appended_def spread_def)
  have u: "between fb fb1 \<union> between fb1 fb2 = between fb fb2" using le by (auto simp: between_def)
  have o1: "owned ads1 (mdisk s1) \<inter> {b. unat b < fb} \<subseteq> owned ads (mdisk s)" using assms(1) by (auto simp: appended_def between_def)
  have "spread fb (owned ads (mdisk s)) s fb2 s2" using assms o1 unfolding appended_def by (elim conjE) (rule spread_trans)
  moreover have "owned ads2 (mdisk s2) \<subseteq> owned ads (mdisk s) \<union> between fb fb2" using assms u by (auto simp: appended_def)
  ultimately show ?thesis using assms by (simp add: appended_def)
qed

lemma covers_round: "covers ads D (z + 1) \<Longrightarrow> z < z' \<Longrightarrow> z' \<le> (z div BSIZE + 1) * BSIZE \<Longrightarrow> covers ads D z'"
proof -
  assume c: "covers ads D (z + 1)" and z: "z < z'" "z' \<le> (z div BSIZE + 1) * BSIZE"
  have "bn * BSIZE < z' \<longleftrightarrow> bn * BSIZE < z + 1" for bn
  proof
    assume "bn * BSIZE < z'"
    then have "bn * BSIZE < (z div BSIZE + 1) * BSIZE" using z(2) by linarith
    then have "bn \<le> z div BSIZE" by simp
    then have "bn * BSIZE \<le> z div BSIZE * BSIZE" by simp
    also have "\<dots> \<le> z" by simp
    finally show "bn * BSIZE < z + 1" by simp
  qed (use z(1) in simp)
  note e = this
  show ?thesis using c unfolding covers_def e by blast
qed

lemma chunk_written:
  assumes s: "sane fb s" and c: "covers ads (mdisk s) (length c + 1)" "reads_as ads (mdisk s) c" "owned ads (mdisk s) \<subseteq> between NMETA fb"
    and n: "length c div BSIZE < MAXFILE" "bs \<noteq> []" "length c mod BSIZE + length bs \<le> BSIZE"
    and x: "x = faddr ads (mdisk s) (length c div BSIZE)"
  defines "s1 \<equiv> wsect x (patch (mdisk s x) (length c mod BSIZE) bs) s"
  shows "holds_file fb ads (mdisk s1) (c @ bs)" "spread fb (owned ads (mdisk s)) s fb s1" "owned ads (mdisk s1) = owned ads (mdisk s)"
proof -
  let ?n = "length c div BSIZE" and ?d = "patch (mdisk s x) (length c mod BSIZE) bs"
  have x0: "x \<noteq> 0" using c(1) n(1) unfolding covers_def x by (simp add: less_Suc_eq_le)
  have g: "good_map ads (mdisk s)" using c(1) by (simp add: covers_def)
  have xi: "x \<noteq> ads ! NDIRECT" using g n(1) x0 unfolding good_map_def x by metis
  have xo: "x \<in> owned ads (mdisk s)" using faddr_owned[OF n(1)] x0 x by metis
  have D1: "mdisk s1 = (mdisk s)(x := ?d)" by (simp add: s1_def wsect_def)
  have f: "faddr ads (mdisk s1) = faddr ads (mdisk s)" using xi by (simp add: faddr_def D1 fun_eq_iff)
  have l: "length (mdisk s x) = BSIZE" by (rule saneD(4)[OF s])
  have ld: "length ?d = BSIZE" using l n(3) by (subst length_patch) simp_all
  show o: "owned ads (mdisk s1) = owned ads (mdisk s)" by (simp add: owned_def f)
  have "spread fb {x} s fb s1" unfolding s1_def by (rule wsect_spread[OF s _ ld]) (use xo c(3) in \<open>auto simp: between_def\<close>)
  then show "spread fb (owned ads (mdisk s)) s fb s1" using xo by (auto simp: spread_def)
  have "?n * BSIZE + length c mod BSIZE = length c" by (rule div_mult_mod_eq)
  then have z: "length (c @ bs) \<le> (?n + 1) * BSIZE" using n(3) by (simp only: length_append distrib_right)
  have cv: "covers ads (mdisk s1) (length (c @ bs))"
    using covers_round[OF c(1), of "length (c @ bs)"] z n(2) by (simp add: covers_def good_map_def f)
  have "fdata ads (mdisk s1) (k div BSIZE) ! (k mod BSIZE) = (if k < length (c @ bs) then (c @ bs) ! k else 0)" if k: "k < MAXFILE * BSIZE" for k
  proof -
    have kn: "k div BSIZE < MAXFILE" using k by (simp add: div_less_iff_less_mult)
    have old: "fdata ads (mdisk s) (k div BSIZE) ! (k mod BSIZE) = (if k < length c then c ! k else 0)" using c(2) k by (simp add: reads_as_def)
    show ?thesis
    proof (cases "k div BSIZE = ?n")
      case False
      then have "faddr ads (mdisk s) (k div BSIZE) \<noteq> x" using g kn n(1) x0 unfolding good_map_def x by metis
      then have "fdata ads (mdisk s1) (k div BSIZE) = fdata ads (mdisk s) (k div BSIZE)" unfolding fdata_def f by (simp add: D1)
      moreover have "k < length (c @ bs) \<longleftrightarrow> k < length c"
      proof (cases "k div BSIZE < ?n")
        case True
        then have "k < length c" using div_le_mono[of "length c" k BSIZE] by linarith
        then show ?thesis by simp
      next
        case False
        then have "?n + 1 \<le> k div BSIZE" using \<open>k div BSIZE \<noteq> ?n\<close> by simp
        then have "(?n + 1) * BSIZE \<le> k" by (simp only: less_eq_div_iff_mult_less_eq)
        then show ?thesis using z by simp
      qed
      ultimately show ?thesis using old by (simp add: nth_append)
    next
      case True
      have e: "k = ?n * BSIZE + k mod BSIZE" "length c = ?n * BSIZE + length c mod BSIZE"
        using div_mult_mod_eq[of k BSIZE] div_mult_mod_eq[of "length c" BSIZE] True by simp_all
      have o': "mdisk s x ! (k mod BSIZE) = (if k < length c then c ! k else 0)" using old x0 by (simp add: fdata_def True x[symmetric])
      have "fdata ads (mdisk s1) (k div BSIZE) ! (k mod BSIZE) = ?d ! (k mod BSIZE)" using x0 unfolding fdata_def f True x[symmetric] by (simp add: D1)
      also have "\<dots> = (if length c mod BSIZE \<le> k mod BSIZE \<and> k mod BSIZE < length c mod BSIZE + length bs then bs ! (k mod BSIZE - length c mod BSIZE)
          else mdisk s x ! (k mod BSIZE))" by (rule nth_patch) (use l n(3) in simp_all)
      also have "\<dots> = (if k < length (c @ bs) then (c @ bs) ! k else 0)"
      proof -
        have "length c mod BSIZE \<le> k mod BSIZE \<longleftrightarrow> length c \<le> k" "k mod BSIZE < length c mod BSIZE + length bs \<longleftrightarrow> k < length (c @ bs)"
          "length c \<le> k \<Longrightarrow> k mod BSIZE - length c mod BSIZE = k - length c" using e by (simp_all only: length_append) linarith+
        then show ?thesis using o' by (auto simp: nth_append)
      qed
      finally show ?thesis .
    qed
  qed
  then have "reads_as ads (mdisk s1) (c @ bs)" by (simp add: reads_as_def)
  moreover have "(?n + 1) * BSIZE \<le> MAXFILE * BSIZE" using n(1) by (intro mult_le_mono1) simp
  ultimately show "holds_file fb ads (mdisk s1) (c @ bs)" using cv o c(3) z by (simp add: holds_file_def)
qed

lemma reads_as_extends: "extends A ads D ads1 D1 \<Longrightarrow> reads_as ads D c \<Longrightarrow> reads_as ads1 D1 c"
  by (auto simp: reads_as_def extends_def div_less_iff_less_mult)

lemma loop_spec:
  assumes "sane fb s" "holds_file fb ads (mdisk s) c" "length c + length p \<le> MAXFILE * BSIZE"
    "fb + need (length c + length p) \<le> FSSIZE + need (length c)"
  shows "\<exists>ads1 s1 fb1. iappend_loop ads (length c) p s = Ok (ads1, length c + length p, s1) \<and> appended fb ads s c fb1 ads1 s1 (c @ p)"
  using assms
proof (induction "length p" arbitrary: fb ads c p s rule: less_induct)
  case less
  show ?case
  proof (cases "p = []")
    case True
    then show ?thesis using less(2,3)
      by (intro exI[of _ ads] exI[of _ s] exI[of _ fb]) (simp add: iappend_loop.simps[of ads _ "[]"] appended_def spread_refl)
  next
    case False
    let ?l = "length c" and ?n = "length c div BSIZE"
    define n1 where "n1 = min (length p) ((?n + 1) * BSIZE - ?l)"
    have lt: "?l < (?n + 1) * BSIZE" using dividend_less_div_times[of BSIZE ?l] by simp
    have n1: "0 < n1" "n1 \<le> length p" "?l + n1 \<le> (?n + 1) * BSIZE" using False lt by (auto simp: n1_def)
    have m: "?l - ?n * BSIZE = ?l mod BSIZE" by (rule minus_div_mult_eq_mod)
    have nM: "?n < MAXFILE" using less(4) n1 by (simp add: div_less_iff_less_mult)
    have h: "covers ads (mdisk s) ?l" "reads_as ads (mdisk s) c" "owned ads (mdisk s) \<subseteq> between NMETA fb"
      using less(3) by (simp_all add: holds_file_def)
    have nd: "need (?l + n1) = need (?l + 1)" by (rule need_same) (use n1 in simp_all)
    have "need (?l + n1) \<le> need (?l + length p)" by (rule need_mono) (use n1 in simp)
    then have room: "fb + need (?l + 1) \<le> FSSIZE + need ?l" using less(5) nd by linarith
    obtain ads1 s1 fb1 where b: "mk_bmap ?n ads s = Ok (faddr ads1 (mdisk s1) ?n, ads1, s1)" "mapped_on fb ads s fb1 ads1 s1"
      "covers ads1 (mdisk s1) (?l + 1)" "fb1 + need ?l = fb + need (?l + 1)"
      using mk_bmap_spec[OF less(2) h(3,1) nM room] by blast
    define x where "x = faddr ads1 (mdisk s1) ?n"
    have s1: "sane fb1 s1" "extends (between fb fb1) ads (mdisk s) ads1 (mdisk s1)" "spread fb (owned ads (mdisk s)) s fb1 s1"
      using b(2) by (simp_all add: mapped_on_def spread_def)
    have o1: "owned ads1 (mdisk s1) \<subseteq> between NMETA fb1" by (rule mapped_on_owned[OF b(2) h(3) saneD(2)[OF less(2)]])
    have r1: "reads_as ads1 (mdisk s1) c" by (rule reads_as_extends[OF s1(2) h(2)])
    have tk: "take n1 p \<noteq> []" "?l mod BSIZE + length (take n1 p) \<le> BSIZE" using n1 m False by auto
    define s2 where "s2 = wsect x (patch (mdisk s1 x) (?l mod BSIZE) (take n1 p)) s1"
    note w = chunk_written[OF s1(1) b(3) r1 o1 nM tk x_def, folded s2_def]
    have x: "x \<noteq> 0" "x \<in> owned ads1 (mdisk s1)" using b(3) nM faddr_owned[OF nM] unfolding covers_def x_def by (auto simp: less_Suc_eq_le)
    then have xu: "unat x < FSSIZE" using o1 saneD(3)[OF s1(1)] by (auto simp: between_def)
    have ap: "appended fb ads s c fb1 ads1 s2 (c @ take n1 p)"
    proof -
      have "owned ads1 (mdisk s1) \<inter> {b. unat b < fb} \<subseteq> owned ads (mdisk s)" using s1(2) by (auto simp: extends_def between_def)
      then have "spread fb (owned ads (mdisk s)) s fb1 s2" by (rule spread_trans[OF s1(3) w(2)])
      moreover have "owned ads1 (mdisk s2) \<subseteq> owned ads (mdisk s) \<union> between fb fb1" using s1(2) w(3) by (auto simp: extends_def)
      ultimately show ?thesis using w(1) b(4) nd n1(2) by (simp add: appended_def min_def)
    qed
    have lens: "length (drop n1 p) < length p" "length (c @ take n1 p) + length (drop n1 p) = ?l + length p" using n1(1,2) False by auto
    have s2: "sane fb1 s2" "holds_file fb1 ads1 (mdisk s2) (c @ take n1 p)" using w by (simp_all add: spread_def)
    have l1: "length (c @ take n1 p) = ?l + n1" using n1(2) by simp
    have room2: "fb1 + need (?l + length p) \<le> FSSIZE + need (?l + n1)" using less(5) b(4) nd by linarith
    obtain ads3 s3 fb3 where r: "iappend_loop ads1 (length (c @ take n1 p)) (drop n1 p) s2 = Ok (ads3, ?l + length p, s3)"
      "appended fb1 ads1 s2 (c @ take n1 p) fb3 ads3 s3 (c @ p)"
      using less(1)[OF lens(1) s2, unfolded lens(2)] less(4) room2 l1 by auto
    have "min (length p) (BSIZE + ?n * BSIZE - ?l) = n1" by (simp add: n1_def)
    then have "iappend_loop ads ?l p s = iappend_loop ads1 (?l + n1) (drop n1 p) s2"
      using False nM b(1) rsect_ok[OF xu] m by (simp add: iappend_loop.simps[of ads ?l p] Let_def x_def[symmetric] s2_def[symmetric])
    then show ?thesis using r l1 appended_trans[OF ap r(2)] by auto
  qed
qed

section \<open>Inodes\<close>

abbreviation dino :: "mstate \<Rightarrow> nat \<Rightarrow> inode" where
  "dino s m \<equiv> disk_inode mk_sb (word_of_nat m) (mdisk s)"

lemma mk_sb_fields [simp]: "fssize mk_sb = 2000" "ninodes mk_sb = 200" "logstart mk_sb = 2" "inodestart mk_sb = 32" "bmapstart mk_sb = 45"
  by (simp_all add: mk_sb_def)

lemma unat_inum: "m < 200 \<Longrightarrow> unat (word_of_nat m :: u32) = m"
  by (rule of_nat_inverse[OF refl]) simp

lemma unat_iblock: "unat (n :: u32) < 200 \<Longrightarrow> unat (IBLOCK n mk_sb) = unat n div 16 + 32"
proof -
  assume n: "unat n < 200"
  have d: "unat (n div 16) = unat n div 16" by (simp add: unat_div)
  have "unat (n div 16 + 32) = unat (n div 16) + unat (32 :: u32)"
    by (intro unat_plus_simple[THEN iffD1] no_olen_add_nat[THEN iffD2]) (use d n in simp)
  then show ?thesis using d by (simp add: IBLOCK_def)
qed

lemma iblock_range: "unat (n :: u32) < 200 \<Longrightarrow> 32 \<le> unat (IBLOCK n mk_sb) \<and> unat (IBLOCK n mk_sb) < 45"
  by (simp add: unat_iblock div_less_iff_less_mult)

lemma disk_inode_slot:
  assumes "\<And>k. k < BSIZE \<Longrightarrow> in_slot n k \<Longrightarrow> D' (IBLOCK n b) ! k = D (IBLOCK n b) ! k"
  shows "isize (disk_inode b n D') = isize (disk_inode b n D)" "addrs (disk_inode b n D') = addrs (disk_inode b n D)"
proof -
  have e: "D' (IBLOCK n b) ! (dinode_at n + j) = D (IBLOCK n b) ! (dinode_at n + j)" if "j < 64" for j
    using assms[of "dinode_at n + j"] that dinode_fits[of n] by (simp add: in_slot_def)
  have g: "get32 (D' (IBLOCK n b)) (dinode_at n + j) = get32 (D (IBLOCK n b)) (dinode_at n + j)" if "j + 4 \<le> 64" for j
    using e[of j] e[of "j + 1"] e[of "j + 2"] e[of "j + 3"] that by (simp add: get32_def add.assoc)
  show "isize (disk_inode b n D') = isize (disk_inode b n D)" using g[of 8] by (simp add: disk_inode_def load_dinode_addrs)
  have "get32 (D' (IBLOCK n b)) (dinode_at n + 12 + 4 * j) = get32 (D (IBLOCK n b)) (dinode_at n + 12 + 4 * j)" if "j < NDIRECT + 1" for j
    using g[of "12 + 4 * j"] that by (simp add: add.assoc)
  then show "addrs (disk_inode b n D') = addrs (disk_inode b n D)" unfolding disk_inode_def load_dinode_addrs by (intro map_cong refl) auto
qed

text \<open>Inode \<open>m\<close> was written; nothing outside its slot.\<close>

definition inode_put :: "nat \<Rightarrow> nat \<Rightarrow> inode \<Rightarrow> mstate \<Rightarrow> mstate \<Rightarrow> bool" where
  "inode_put fb m ip s s1 \<longleftrightarrow> sane fb s1 \<and> freeinode s1 = freeinode s \<and> isize (dino s1 m) = isize ip \<and> addrs (dino s1 m) = addrs ip \<and>
     (\<forall>m' < 200. m' \<noteq> m \<longrightarrow> isize (dino s1 m') = isize (dino s m') \<and> addrs (dino s1 m') = addrs (dino s m')) \<and>
     (\<forall>b. unat b < 32 \<or> 45 \<le> unat b \<longrightarrow> mdisk s1 b = mdisk s b)"

lemma winode_spec:
  assumes m: "m < 200" and a: "length (addrs ip) = NDIRECT + 1" and s: "sane fb s"
  shows "\<exists>s1. winode (word_of_nat m) ip s = Ok s1 \<and> inode_put fb m ip s s1"
proof -
  let ?n = "word_of_nat m :: u32" and ?b = "IBLOCK (word_of_nat m) mk_sb"
  let ?d = "store_dinode ip (dinode_at ?n) (mdisk s ?b)"
  have b: "32 \<le> unat ?b" "unat ?b < 45" using iblock_range[of ?n] unat_inum[OF m] m by simp_all
  have l: "length (mdisk s ?b) = BSIZE" by (rule saneD(4)[OF s])
  have ld: "length ?d = BSIZE" by (rule length_store_dinode[OF l a dinode_fits])
  define s1 where "s1 = wsect ?b ?d s"
  have D1: "mdisk s1 = (mdisk s)(?b := ?d)" by (simp add: s1_def wsect_def)
  have s1: "sane fb s1" "freeinode s1 = freeinode s"
    using wsect_spread[OF s _ ld] b saneD(2)[OF s] by (simp_all add: spread_def s1_def)
  have own: "isize (dino s1 m) = isize ip" "addrs (dino s1 m) = addrs ip"
    unfolding disk_inode_def D1 fun_upd_same by (rule load_store_dinode[OF l a])+
  have other: "isize (dino s1 m') = isize (dino s m')" "addrs (dino s1 m') = addrs (dino s m')" if m': "m' < 200" "m' \<noteq> m" for m'
  proof -
    have ne: "(word_of_nat m' :: u32) \<noteq> ?n" using m' m unat_inum by metis
    have "mdisk s1 (IBLOCK (word_of_nat m') mk_sb) ! k = mdisk s (IBLOCK (word_of_nat m') mk_sb) ! k"
      if k: "k < BSIZE" "in_slot (word_of_nat m') k" for k
    proof (cases "IBLOCK (word_of_nat m') mk_sb = ?b")
      case True
      then have "\<not> in_slot ?n k" using slot_unique[OF True k(2)] ne by blast
      then show ?thesis using store_dinode_other[OF l a k(1)] True by (simp add: D1)
    qed (simp add: D1)
    then show "isize (dino s1 m') = isize (dino s m')" "addrs (dino s1 m') = addrs (dino s m')" by (rule disk_inode_slot; blast)+
  qed
  have "mdisk s1 x = mdisk s x" if "unat x < 32 \<or> 45 \<le> unat x" for x using that b by (auto simp: D1)
  then have "inode_put fb m ip s s1" using s1 own other by (simp add: inode_put_def)
  moreover have "winode ?n ip s = Ok s1" using b rsect_ok[of ?b s] by (simp add: winode_def s1_def)
  ultimately show ?thesis by blast
qed

section \<open>The files of the image\<close>

definition first_sectors :: "u32 \<Rightarrow> u8 list" where
  "first_sectors b = (if b = 1 then patch (replicate BSIZE 0) 0 (sb_bytes mk_sb) else replicate BSIZE 0)"

text \<open>The inodes below \<open>n\<close> have been given out, and inode \<open>m\<close> has the contents \<open>C m\<close>.\<close>

definition img :: "nat \<Rightarrow> nat \<Rightarrow> mstate \<Rightarrow> (nat \<Rightarrow> u8 list) \<Rightarrow> bool" where
  "img n fb s C \<longleftrightarrow> sane fb s \<and> freeinode s = word_of_nat n \<and> 1 \<le> n \<and> n \<le> 200 \<and>
     (\<forall>m \<in> {1..<n}. isize (dino s m) = word_of_nat (length (C m)) \<and> holds_file fb (addrs (dino s m)) (mdisk s) (C m)) \<and>
     (\<forall>m \<in> {1..<n}. \<forall>m' \<in> {1..<n}. m \<noteq> m' \<longrightarrow> owned (addrs (dino s m)) (mdisk s) \<inter> owned (addrs (dino s m')) (mdisk s) = {}) \<and>
     (\<forall>b. unat b < 32 \<longrightarrow> mdisk s b = first_sectors b)"

lemma holds_file_frame:
  assumes h: "holds_file fb ads D c" and e: "\<And>b. b \<in> owned ads D \<Longrightarrow> D' b = D b" and le: "fb \<le> fb'"
  shows "holds_file fb' ads D' c" "owned ads D' = owned ads D"
proof -
  have "ads ! NDIRECT \<noteq> 0 \<Longrightarrow> D' (ads ! NDIRECT) = D (ads ! NDIRECT)" by (rule e) (simp add: owned_def)
  then have f: "faddr ads D' = faddr ads D" by (auto simp: faddr_def fun_eq_iff)
  show o: "owned ads D' = owned ads D" by (simp add: owned_def f)
  have "reads_as ads D' c" using h fdata_cong[of ads D D', OF e] by (simp add: holds_file_def reads_as_def div_less_iff_less_mult)
  then show "holds_file fb' ads D' c" using h le o by (auto simp: holds_file_def covers_def good_map_def f between_def)
qed

lemma holds_file_empty: "holds_file fb (replicate (NDIRECT + 1) 0) D []" "owned (replicate (NDIRECT + 1) 0) D = {}"
proof -
  have f: "faddr (replicate (NDIRECT + 1) 0) D bn = 0" for bn by (simp add: faddr_def nth_Cons split: nat.split)
  have i: "replicate (NDIRECT + 1) (0 :: u32) ! NDIRECT = 0" by (rule nth_replicate) simp
  show o: "owned (replicate (NDIRECT + 1) 0) D = {}" unfolding owned_def f i by auto
  show "holds_file fb (replicate (NDIRECT + 1) 0) D []"
    unfolding holds_file_def covers_def good_map_def reads_as_def o f i by (simp add: fdata_def f[simplified])
qed

lemma imgD:
  assumes "img n fb s C"
  shows "sane fb s" "freeinode s = word_of_nat n" "1 \<le> n" "n \<le> 200"
    "m \<in> {1..<n} \<Longrightarrow> isize (dino s m) = word_of_nat (length (C m))"
    "m \<in> {1..<n} \<Longrightarrow> holds_file fb (addrs (dino s m)) (mdisk s) (C m)"
    "m \<in> {1..<n} \<Longrightarrow> m' \<in> {1..<n} \<Longrightarrow> m \<noteq> m' \<Longrightarrow> owned (addrs (dino s m)) (mdisk s) \<inter> owned (addrs (dino s m')) (mdisk s) = {}"
    "unat b < 32 \<Longrightarrow> mdisk s b = first_sectors b"
  using assms unfolding img_def by blast+

lemma img_frame:
  assumes p: "inode_put fb m ip s s1" and h: "holds_file fb ads (mdisk s) c"
  shows "holds_file fb ads (mdisk s1) c" "owned ads (mdisk s1) = owned ads (mdisk s)"
proof -
  have "mdisk s1 b = mdisk s b" if "b \<in> owned ads (mdisk s)" for b
    using that p h by (auto simp: inode_put_def holds_file_def between_def)
  then show "holds_file fb ads (mdisk s1) c" "owned ads (mdisk s1) = owned ads (mdisk s)" using holds_file_frame[OF h] by blast+
qed

lemma mk_ialloc_spec:
  assumes i: "img n fb s C" and n: "n < 200"
  shows "\<exists>s1. mk_ialloc ty s = Ok (word_of_nat n, s1) \<and> img (n + 1) fb s1 (C(n := []))"
proof -
  let ?ip = "empty_inode\<lparr>itype := ty, inlink := 1, isize := 0, addrs := replicate (NDIRECT + 1) 0\<rparr>"
  let ?s = "s\<lparr>freeinode := word_of_nat n + 1\<rparr>"
  have "sane fb ?s" using imgD(1)[OF i] by (simp add: sane_def)
  then obtain s1 where s1: "winode (word_of_nat n) ?ip ?s = Ok s1" "inode_put fb n ?ip ?s s1" using winode_spec[OF n, of ?ip] by auto
  have ip: "isize (dino s1 n) = 0" "addrs (dino s1 n) = replicate (NDIRECT + 1) 0" "sane fb s1" "freeinode s1 = word_of_nat (n + 1)"
    using s1(2) by (simp_all add: inode_put_def algebra_simps)
  have old: "isize (dino s1 m) = isize (dino s m)" "addrs (dino s1 m) = addrs (dino s m)" "holds_file fb (addrs (dino s m)) (mdisk s1) (C m)"
    "owned (addrs (dino s m)) (mdisk s1) = owned (addrs (dino s m)) (mdisk s)" if m: "m \<in> {1..<n}" for m
    using m n s1(2) img_frame[OF s1(2), of "addrs (dino s m)" "C m"] imgD(6)[OF i m] by (auto simp: inode_put_def)
  have set: "{1..<n + 1} = insert n {1..<n}" using imgD(3)[OF i] by auto
  have "img (n + 1) fb s1 (C(n := []))" unfolding img_def set
  proof (intro conjI ballI impI allI)
    fix m assume m: "m \<in> insert n {1..<n}"
    show "isize (dino s1 m) = word_of_nat (length ((C(n := [])) m))" using m ip(1) old(1) imgD(5)[OF i] by auto
    show "holds_file fb (addrs (dino s1 m)) (mdisk s1) ((C(n := [])) m)" using m ip(2) old holds_file_empty by auto
    fix m' assume m': "m' \<in> insert n {1..<n}" "m \<noteq> m'"
    show "owned (addrs (dino s1 m)) (mdisk s1) \<inter> owned (addrs (dino s1 m')) (mdisk s1) = {}"
    proof (cases "m = n \<or> m' = n")
      case False
      then show ?thesis using m m' old imgD(7)[OF i] by simp
    qed (use ip(2) holds_file_empty(2) in auto)
  next
    show "mdisk s1 b = first_sectors b" if "unat b < 32" for b using that s1(2) imgD(8)[OF i] by (simp add: inode_put_def)
  qed (use ip imgD(3,4)[OF i] n in simp_all)
  then show ?thesis using s1(1) imgD(2)[OF i] by (simp add: mk_ialloc_def)
qed

lemma iappend_spec:
  assumes i: "img n fb s C" and m: "m \<in> {1..<n}" and l: "length (C m) + length p \<le> MAXFILE * BSIZE"
    and f: "fb + need (length (C m) + length p) \<le> FSSIZE + need (length (C m))"
  shows "\<exists>s1 fb1. iappend (word_of_nat m) p s = Ok s1 \<and> img n fb1 s1 (C(m := C m @ p)) \<and>
     fb1 + need (length (C m)) = fb + need (length (C m) + length p)"
proof -
  let ?n = "word_of_nat m :: u32" and ?ads = "addrs (dino s m)"
  have m2: "m < 200" using m imgD(4)[OF i] by simp
  have h: "holds_file fb ?ads (mdisk s) (C m)" by (rule imgD(6)[OF i m])
  have z: "unat (isize (dino s m)) = length (C m)" unfolding imgD(5)[OF i m] by (rule of_nat_inverse[OF refl]) (use l in simp)
  have "unat (IBLOCK ?n mk_sb) < FSSIZE" using iblock_range[of ?n] unat_inum[OF m2] m2 by simp
  then have rd: "rinode ?n s = Ok (dino s m)" by (simp add: rinode_def rsect_ok disk_inode_def)
  obtain ads1 s1 fb1 where s1: "iappend_loop ?ads (length (C m)) p s = Ok (ads1, length (C m) + length p, s1)"
    "appended fb ?ads s (C m) fb1 ads1 s1 (C m @ p)" using loop_spec[OF imgD(1)[OF i] h l f] by blast
  let ?ip = "(dino s m)\<lparr>addrs := ads1, isize := word_of_nat (length (C m) + length p)\<rparr>"
  have a: "holds_file fb1 ads1 (mdisk s1) (C m @ p)" "spread fb (owned ?ads (mdisk s)) s fb1 s1"
    "owned ads1 (mdisk s1) \<subseteq> owned ?ads (mdisk s) \<union> between fb fb1" "fb1 + need (length (C m)) = fb + need (length (C m) + length p)"
    using s1(2) by (simp_all add: appended_def)
  have la: "length (addrs ?ip) = NDIRECT + 1" using a(1) by (simp add: holds_file_def covers_def good_map_def)
  have sp: "sane fb1 s1" "freeinode s1 = freeinode s" "fb \<le> fb1" using a(2) by (simp_all add: spread_def)
  obtain s2 where s2: "winode ?n ?ip s1 = Ok s2" "inode_put fb1 m ?ip s1 s2" using winode_spec[OF m2 la sp(1)] by blast
  have ip: "isize (dino s2 m) = word_of_nat (length (C m @ p))" "addrs (dino s2 m) = ads1" "sane fb1 s2" "freeinode s2 = freeinode s"
    using s2(2) sp(2) by (simp_all add: inode_put_def)
  note own = img_frame[OF s2(2) a(1)]
  have own_less: "owned (addrs (dino s k)) (mdisk s) \<subseteq> between NMETA fb" if "k \<in> {1..<n}" for k
    using imgD(6)[OF i that] by (simp add: holds_file_def)
  have below: "mdisk s1 b = mdisk s b" if "unat b < fb" "b \<notin> owned ?ads (mdisk s)" for b using a(2) that by (simp add: spread_def)
  have meta: "mdisk s1 b = mdisk s b" if "unat b < NMETA" for b
  proof (rule below)
    show "unat b < fb" using that saneD(2)[OF imgD(1)[OF i]] by simp
    show "b \<notin> owned ?ads (mdisk s)" using that own_less[OF m] by (auto simp: between_def)
  qed
  have old: "isize (dino s2 k) = isize (dino s k)" "addrs (dino s2 k) = addrs (dino s k)" "holds_file fb1 (addrs (dino s k)) (mdisk s2) (C k)"
    "owned (addrs (dino s k)) (mdisk s2) = owned (addrs (dino s k)) (mdisk s)" if k: "k \<in> {1..<n}" "k \<noteq> m" for k
  proof -
    have "unat (IBLOCK (word_of_nat k) mk_sb) < NMETA" using iblock_range[of "word_of_nat k"] unat_inum[of k] k(1) imgD(4)[OF i] by simp
    then have "isize (dino s1 k) = isize (dino s k)" "addrs (dino s1 k) = addrs (dino s k)" by (simp_all add: disk_inode_def meta)
    then show "isize (dino s2 k) = isize (dino s k)" "addrs (dino s2 k) = addrs (dino s k)"
      using s2(2) k imgD(4)[OF i] by (simp_all add: inode_put_def)
    have same: "mdisk s1 b = mdisk s b" if "b \<in> owned (addrs (dino s k)) (mdisk s)" for b
      using that below[of b] own_less[OF k(1)] imgD(7)[OF i k(1) m k(2)] by (auto simp: between_def)
    note fr = holds_file_frame[OF imgD(6)[OF i k(1)] same sp(3)]
    show "holds_file fb1 (addrs (dino s k)) (mdisk s2) (C k)" "owned (addrs (dino s k)) (mdisk s2) = owned (addrs (dino s k)) (mdisk s)"
      using img_frame[OF s2(2) fr(1)] fr(2) by blast+
  qed
  have apart: "owned ads1 (mdisk s2) \<inter> owned (addrs (dino s k)) (mdisk s) = {}" if k: "k \<in> {1..<n}" "k \<noteq> m" for k
  proof -
    have "between fb fb1 \<inter> between NMETA fb = {}" by (auto simp: between_def)
    then show ?thesis unfolding own(2) using a(3) own_less[OF k(1)] imgD(7)[OF i m k(1) k(2)[symmetric]] by blast
  qed
  have "img n fb1 s2 (C(m := C m @ p))" unfolding img_def
  proof (intro conjI ballI impI allI)
    fix k assume k: "k \<in> {1..<n}"
    show "isize (dino s2 k) = word_of_nat (length ((C(m := C m @ p)) k))" using ip(1) old(1)[OF k] imgD(5)[OF i k] by simp
    show "holds_file fb1 (addrs (dino s2 k)) (mdisk s2) ((C(m := C m @ p)) k)" using ip(2) own(1) old(2,3)[OF k] by simp
    fix k' assume k': "k' \<in> {1..<n}" "k \<noteq> k'"
    consider "k = m" "k' \<noteq> m" | "k' = m" "k \<noteq> m" | "k \<noteq> m" "k' \<noteq> m" using k'(2) by blast
    then show "owned (addrs (dino s2 k)) (mdisk s2) \<inter> owned (addrs (dino s2 k')) (mdisk s2) = {}"
    proof cases
      case 1
      then show ?thesis using apart[OF k'(1)] old(2,4)[OF k'(1)] ip(2) by simp
    next
      case 2
      then show ?thesis using apart[OF k] old(2,4)[OF k] ip(2) by (simp add: Int_commute)
    next
      case 3
      then show ?thesis using old(2,4)[OF k] old(2,4)[OF k'(1)] imgD(7)[OF i k k'] by simp
    qed
  next
    show "mdisk s2 b = first_sectors b" if "unat b < 32" for b
      using that s2(2) meta[of b] imgD(8)[OF i] by (simp add: inode_put_def)
  qed (use ip imgD(2-4)[OF i] in simp_all)
  moreover have "iappend ?n p s = Ok s2" using rd s1(1) z s2(1) by (simp add: iappend_def)
  ultimately show ?thesis using a(4) by blast
qed

lemma append_chunks_spec:
  assumes "img n fb s C" "m \<in> {1..<n}" "length (C m) + length (concat cs) \<le> MAXFILE * BSIZE"
    "fb + need (length (C m) + length (concat cs)) \<le> FSSIZE + need (length (C m))"
  shows "\<exists>s1 fb1. append_chunks (word_of_nat m) cs s = Ok s1 \<and> img n fb1 s1 (C(m := C m @ concat cs)) \<and>
     fb1 + need (length (C m)) = fb + need (length (C m) + length (concat cs))"
  using assms
proof (induction cs arbitrary: s fb C)
  case Nil
  then show ?case by (intro exI[of _ s] exI[of _ fb]) simp
next
  case (Cons c cs)
  have "need (length (C m) + length c) \<le> need (length (C m) + length (concat (c # cs)))" by (rule need_mono) simp
  then have f: "fb + need (length (C m) + length c) \<le> FSSIZE + need (length (C m))" using Cons.prems(4) by linarith
  obtain s1 fb1 where s1: "iappend (word_of_nat m) c s = Ok s1" "img n fb1 s1 (C(m := C m @ c))"
    "fb1 + need (length (C m)) = fb + need (length (C m) + length c)"
    using iappend_spec[OF Cons.prems(1,2) _ f] Cons.prems(3) by auto
  have p: "length (C m @ c) + length (concat cs) \<le> MAXFILE * BSIZE" "fb1 + need (length (C m @ c) + length (concat cs)) \<le> FSSIZE + need (length (C m @ c))"
    using Cons.prems(3,4) s1(3) by (simp_all add: add.assoc)
  obtain s2 fb2 where "append_chunks (word_of_nat m) cs s1 = Ok s2" "img n fb2 s2 (C(m := C m @ c @ concat cs))"
    "fb2 + need (length (C m @ c)) = fb1 + need (length (C m @ c) + length (concat cs))"
    using Cons.IH[OF s1(2) Cons.prems(2), unfolded fun_upd_same fun_upd_upd append_assoc, OF p] by blast
  then show ?case using s1 by (intro exI[of _ s2] exI[of _ fb2]) (simp add: add.assoc fun_upd_def)
qed

text \<open>The entries of the root directory, for inodes from \<open>n\<close>.\<close>

fun dir_entries :: "nat \<Rightarrow> (u8 list \<times> u8 list list) list \<Rightarrow> u8 list" where
  "dir_entries n [] = []"
| "dir_entries n ((path, cs) # fs) = dirent_bytes (word_of_nat n) (shortname path) @ dir_entries (n + 1) fs"

definition file_sectors :: "(u8 list \<times> u8 list list) list \<Rightarrow> nat" where
  "file_sectors fs = sum_list (map (\<lambda>(path, cs). need (length (concat cs))) fs)"

definition fitting :: "(u8 list \<times> u8 list list) list \<Rightarrow> bool" where
  "fitting fs \<longleftrightarrow> (\<forall>(path, cs) \<in> set fs. 47 \<notin> set (no_user path) \<and> length (concat cs) \<le> MAXFILE * BSIZE)"

lemma length_dir_entries: "length (dir_entries n fs) = 16 * length fs"
  by (induction n fs rule: dir_entries.induct) (simp_all add: length_dirent_bytes)

lemma ucast_inum: "n < 200 \<Longrightarrow> ucast (word_of_nat n :: u32) = (word_of_nat n :: u16)"
  by (simp add: unsigned_of_nat take_bit_nat_eq_self)

lemma need_empty: "need 0 = 0"
  by (simp add: need_def)

lemma add_files_spec:
  assumes "img n fb s C" "1 < n" "n + length fs \<le> 200" "fitting fs" "length (C 1) + 16 * length fs \<le> MAXFILE * BSIZE"
    "fb + need (length (C 1) + 16 * length fs) + file_sectors fs \<le> FSSIZE + need (length (C 1))"
  shows "\<exists>s1 fb1 C1. add_files fs s = Ok s1 \<and> img (n + length fs) fb1 s1 C1 \<and> C1 1 = C 1 @ dir_entries n fs \<and>
     (\<forall>m < n. m \<noteq> 1 \<longrightarrow> C1 m = C m) \<and> (\<forall>k < length fs. C1 (n + k) = concat (snd (fs ! k))) \<and>
     fb1 + need (length (C 1)) = fb + need (length (C 1) + 16 * length fs) + file_sectors fs"
  using assms
proof (induction fs arbitrary: n s fb C)
  case Nil
  then show ?case by (intro exI[of _ s] exI[of _ fb] exI[of _ C]) (simp add: file_sectors_def)
next
  case (Cons f fs)
  obtain path cs where fp: "f = (path, cs)" by (cases f)
  have fit: "47 \<notin> set (no_user path)" "length (concat cs) \<le> MAXFILE * BSIZE" "fitting fs" using Cons.prems(4) by (simp_all add: fitting_def fp)
  have n: "n < 200" using Cons.prems(3) by simp
  let ?e = "dirent_bytes (word_of_nat n) (shortname path)" and ?l = "length (C 1)"
  have le: "length ?e = 16" by (rule length_dirent_bytes)
  have fl: "file_sectors (f # fs) = need (length (concat cs)) + file_sectors fs" by (simp add: file_sectors_def fp)
  have mono: "need (?l + 16) \<le> need (?l + 16 * length (f # fs))" by (rule need_mono) simp
  obtain s1 where s1: "mk_ialloc T_FILE s = Ok (word_of_nat n, s1)" "img (n + 1) fb s1 (C(n := []))" using mk_ialloc_spec[OF Cons.prems(1) n] by blast
  have n1: "1 \<noteq> n" "1 \<in> {1..<n + 1}" "n \<in> {1..<n + 1}" using Cons.prems(2) by auto
  have "fb + need (?l + 16) \<le> FSSIZE + need ?l" using Cons.prems(6) mono by linarith
  then obtain s2 fb2 where s2: "iappend (word_of_nat 1) ?e s1 = Ok s2" "img (n + 1) fb2 s2 (C(n := [], 1 := C 1 @ ?e))"
    "fb2 + need ?l = fb + need (?l + 16)"
    using iappend_spec[OF s1(2) n1(2), of ?e] Cons.prems(5) n1(1) le by auto
  let ?C2 = "C(n := [], 1 := C 1 @ ?e)"
  have c2: "?C2 n = []" using n1(1) by simp
  have room: "fb2 + need (length (concat cs)) \<le> FSSIZE" using Cons.prems(6) mono fl s2(3) by linarith
  obtain s3 fb3 where s3: "append_chunks (word_of_nat n) cs s2 = Ok s3" "img (n + 1) fb3 s3 (?C2(n := concat cs))"
    "fb3 = fb2 + need (length (concat cs))"
    using append_chunks_spec[OF s2(2) n1(3), of cs] fit(2) c2 need_empty room by auto
  let ?C3 = "?C2(n := concat cs)"
  have c3: "?C3 1 = C 1 @ ?e" "?C3 n = concat cs" using n1(1) by simp_all
  have l3: "length (?C3 1) = ?l + 16" using c3(1) le by simp
  have "fb3 + need (?l + 16 + 16 * length fs) + file_sectors fs \<le> FSSIZE + need (?l + 16)"
    using Cons.prems(6) s2(3) s3(3) fl by (simp add: add.assoc)
  then obtain s4 fb4 C4 where s4: "add_files fs s3 = Ok s4" "img (n + 1 + length fs) fb4 s4 C4" "C4 1 = ?C3 1 @ dir_entries (n + 1) fs"
    "\<And>m. m < n + 1 \<Longrightarrow> m \<noteq> 1 \<Longrightarrow> C4 m = ?C3 m" "\<And>k. k < length fs \<Longrightarrow> C4 (n + 1 + k) = concat (snd (fs ! k))"
    "fb4 + need (?l + 16) = fb3 + need (?l + 16 + 16 * length fs) + file_sectors fs"
    using Cons.IH[OF s3(2) _ _ fit(3)] Cons.prems(2,3,5) unfolding l3 by auto
  have run: "add_files (f # fs) s = Ok s4" using fit(1) s1(1) s2(1) s3(1) s4(1) ucast_inum[OF n] by (simp add: fp)
  have root: "C4 1 = C 1 @ dir_entries n (f # fs)" using s4(3) c3(1) by (simp add: fp)
  have old: "\<forall>m < n. m \<noteq> 1 \<longrightarrow> C4 m = C m" using s4(4) by simp
  have new: "C4 (n + k) = concat (snd ((f # fs) ! k))" if "k < length (f # fs)" for k
    using that s4(4)[of n] s4(5)[of "k - 1"] n1(1) by (cases k) (simp_all add: fp)
  have "fb4 + need ?l = fb + need (?l + 16 * length (f # fs)) + file_sectors (f # fs)"
    using s4(6) s2(3) s3(3) fl by (simp add: add.assoc)
  then show ?case using run s4(2) root old new by (intro exI[of _ s4] exI[of _ fb4] exI[of _ C4]) simp
qed

section \<open>The free map\<close>

lemma length_mark_blocks [simp]: "length (mark_blocks is d) = length d"
  by (induction "is" d rule: mark_blocks.induct) simp_all

lemma mark_blocks_used:
  "(\<forall>i \<in> set is. i < 8 * length d) \<Longrightarrow> bit_used (mark_blocks is d) x \<longleftrightarrow> x \<in> set is \<or> bit_used d x"
  by (induction "is" d rule: mark_blocks.induct) (auto simp: bit_used_mark)

lemma zero_map: "x < 8 * n \<Longrightarrow> \<not> bit_used (replicate n 0) x"
  by (simp add: bit_used_def div_less_iff_less_mult mult.commute)

section \<open>The image that is built\<close>

definition root_dir :: "(u8 list \<times> u8 list list) list \<Rightarrow> u8 list" where
  "root_dir files = dirent_bytes 1 [46] @ dirent_bytes 1 [46, 46] @ dir_entries 2 files"

text \<open>The first sector that is left free.\<close>

definition image_end :: "(u8 list \<times> u8 list list) list \<Rightarrow> nat" where
  "image_end files = NMETA + need (length (root_dir files)) + file_sectors files"

text \<open>The image of \<open>files\<close>: the root directory and the files, all apart, the superblock, an empty log and the free map.\<close>

definition image_of :: "(u8 list \<times> u8 list list) list \<Rightarrow> mstate \<Rightarrow> bool" where
  "image_of files s \<longleftrightarrow> unat (freeblock s) = image_end files \<and> superblock_of (mdisk s 1) = mk_sb \<and> (\<forall>b. length (mdisk s b) = BSIZE) \<and>
     (\<forall>b. 2 \<le> unat b \<and> unat b < 32 \<longrightarrow> mdisk s b = replicate BSIZE 0) \<and>
     (\<forall>x < FSSIZE. bit_used (mdisk s (bmapstart mk_sb)) x \<longleftrightarrow> x < image_end files) \<and>
     disk_file mk_sb ROOTINO (mdisk s) = root_dir files @ replicate (BSIZE - length (root_dir files) mod BSIZE) 0 \<and>
     (\<forall>k < length files. disk_file mk_sb (word_of_nat (k + 2)) (mdisk s) = concat (snd (files ! k))) \<and>
     (\<forall>m \<in> {1..<length files + 2}. good_map (addrs (dino s m)) (mdisk s) \<and> owned (addrs (dino s m)) (mdisk s) \<subseteq> between NMETA (image_end files) \<and>
        (\<forall>m' \<in> {1..<length files + 2}. m \<noteq> m' \<longrightarrow> owned (addrs (dino s m)) (mdisk s) \<inter> owned (addrs (dino s m')) (mdisk s) = {}))"

lemma first_sectors_sb: "superblock_of (first_sectors 1) = mk_sb"
  by (simp add: superblock_of_def first_sectors_def sb_bytes_def bytes32_def patch_def get32_def nth_append le32_byte_of[unfolded One_nat_def] mk_sb_def)

lemma disk_file_reads:
  assumes "reads_as (addrs (disk_inode b n D)) D c" "unat (isize (disk_inode b n D)) = z" "length c \<le> z" "z \<le> MAXFILE * BSIZE"
  shows "disk_file b n D = c @ replicate (z - length c) 0"
  unfolding disk_file_def Let_def
proof (rule nth_equalityI)
  fix k assume "k < length (map (\<lambda>k. fdata (addrs (disk_inode b n D)) D (k div BSIZE) ! (k mod BSIZE)) [0..<unat (isize (disk_inode b n D))])"
  then have k: "k < z" using assms(2) by simp
  then show "map (\<lambda>k. fdata (addrs (disk_inode b n D)) D (k div BSIZE) ! (k mod BSIZE)) [0..<unat (isize (disk_inode b n D))] ! k =
      (c @ replicate (z - length c) 0) ! k"
    using assms by (simp add: reads_as_def nth_append)
qed (use assms in simp)

lemma img_start: "img 1 NMETA (wsect 1 (patch (replicate BSIZE 0) 0 (sb_bytes mk_sb))
    \<lparr>mdisk = \<lambda>_. replicate BSIZE 0, freeinode = 1, freeblock = word_of_nat NMETA\<rparr>) (\<lambda>_. [])"
proof -
  have l: "length (patch (replicate BSIZE 0) 0 (sb_bytes mk_sb)) = BSIZE" by (simp add: sb_bytes_def bytes32_def)
  have "unat b \<noteq> 1" if "NMETA \<le> unat b" for b :: u32 using that by simp
  then show ?thesis using l by (auto simp: img_def sane_def wsect_def first_sectors_def)
qed

lemma length_root_dir: "length (root_dir files) = 32 + 16 * length files"
  by (simp add: root_dir_def length_dir_entries length_dirent_bytes)

text \<open>The files are on the disk before the size of the root directory and the free map are written.\<close>

lemma mkfs_files:
  assumes f: "length files \<le> 198" "fitting files" "image_end files \<le> FSSIZE"
  shows "\<exists>s5 C. img (length files + 2) (image_end files) s5 C \<and> C 1 = root_dir files \<and> (\<forall>k < length files. C (k + 2) = concat (snd (files ! k))) \<and>
     mkfs files = rbind (rinode ROOTINO s5) (\<lambda>din.
       rbind (winode ROOTINO (din\<lparr>isize := (isize din div word_of_nat BSIZE + 1) * word_of_nat BSIZE\<rparr>) s5) (\<lambda>s6. mk_balloc (unat (freeblock s6)) s6))"
proof -
  let ?d1 = "dirent_bytes 1 [46]" and ?d2 = "dirent_bytes 1 [46, 46]"
  have l: "length ?d1 = 16" "length ?d2 = 16" by (simp_all add: length_dirent_bytes)
  have n16: "need 16 = 1" "need 32 = 1" by (simp_all add: need_def)
  define s1 where "s1 = wsect 1 (patch (replicate BSIZE 0) 0 (sb_bytes mk_sb))
    \<lparr>mdisk = \<lambda>_. replicate BSIZE 0, freeinode = 1, freeblock = word_of_nat NMETA\<rparr>"
  have nil: "(\<lambda>_. [])(1 := []) = (\<lambda>_. [] :: u8 list)" by auto
  obtain s2 where s2: "mk_ialloc T_DIR s1 = Ok (1, s2)" "img 2 NMETA s2 (\<lambda>_. [])"
    using mk_ialloc_spec[OF img_start[folded s1_def], of T_DIR, unfolded nil of_nat_1 one_add_one] by auto
  obtain s3 fb3 where s3: "iappend 1 ?d1 s2 = Ok s3" "img 2 fb3 s3 ((\<lambda>_. [])(1 := ?d1))" "fb3 = NMETA + 1"
    using iappend_spec[OF s2(2), of 1 ?d1] l n16 need_empty by auto
  obtain s4 fb4 where s4: "iappend 1 ?d2 s3 = Ok s4" "img 2 fb4 s4 ((\<lambda>_. [])(1 := ?d1 @ ?d2))" "fb4 = NMETA + 1"
    using iappend_spec[OF s3(2), of 1 ?d2, unfolded fun_upd_same fun_upd_upd] l n16 s3(3) by auto
  let ?C = "(\<lambda>_. [])(1 := ?d1 @ ?d2) :: nat \<Rightarrow> u8 list"
  have C1: "?C 1 = ?d1 @ ?d2" "length (?C 1) = 32" using l by simp_all
  have e: "image_end files = NMETA + need (32 + 16 * length files) + file_sectors files" by (simp add: image_end_def length_root_dir)
  obtain s5 fb5 C where s5: "add_files files s4 = Ok s5" "img (2 + length files) fb5 s5 C" "C 1 = ?C 1 @ dir_entries 2 files"
    "\<forall>k < length files. C (2 + k) = concat (snd (files ! k))" "fb5 + need 32 = fb4 + need (32 + 16 * length files) + file_sectors files"
    using add_files_spec[OF s4(2) _ _ f(2)] f(1,3) s4(3) n16(2) unfolding C1(2) e by auto
  have "fb5 = image_end files" using s5(5) s4(3) n16(2) e by simp
  then have "img (length files + 2) (image_end files) s5 C" "C 1 = root_dir files" "\<forall>k < length files. C (k + 2) = concat (snd (files ! k))"
    using s5(2,3,4) by (simp_all add: root_dir_def add.commute)
  moreover have "mkfs files = rbind (rinode ROOTINO s5) (\<lambda>din.
      rbind (winode ROOTINO (din\<lparr>isize := (isize din div word_of_nat BSIZE + 1) * word_of_nat BSIZE\<rparr>) s5) (\<lambda>s6. mk_balloc (unat (freeblock s6)) s6))"
    using s2(1) s3(1) s4(1) s5(1) unfolding mkfs_def s1_def Let_def by simp
  ultimately show ?thesis by blast
qed

text \<open>The size of the root directory is rounded up, and the free map is written.\<close>

lemma mkfs_tail:
  assumes i: "img n fb s C" and n: "1 < n" and c: "length (C 1) < MAXFILE * BSIZE"
  shows "\<exists>s'. rbind (rinode ROOTINO s) (\<lambda>din.
       rbind (winode ROOTINO (din\<lparr>isize := (isize din div word_of_nat BSIZE + 1) * word_of_nat BSIZE\<rparr>) s) (\<lambda>s6. mk_balloc (unat (freeblock s6)) s6)) = Ok s' \<and>
     unat (freeblock s') = fb \<and> (\<forall>b. length (mdisk s' b) = BSIZE) \<and> (\<forall>b. unat b < 32 \<longrightarrow> mdisk s' b = first_sectors b) \<and>
     (\<forall>x < FSSIZE. bit_used (mdisk s' (bmapstart mk_sb)) x \<longleftrightarrow> x < fb) \<and>
     (\<forall>m \<in> {1..<n}. addrs (dino s' m) = addrs (dino s m) \<and> holds_file fb (addrs (dino s m)) (mdisk s') (C m) \<and>
        owned (addrs (dino s m)) (mdisk s') = owned (addrs (dino s m)) (mdisk s) \<and>
        unat (isize (dino s' m)) = (if m = 1 then (length (C 1) div BSIZE + 1) * BSIZE else length (C m)))"
proof -
  let ?z = "(isize (dino s 1) div word_of_nat BSIZE + 1) * word_of_nat BSIZE"
  let ?ip = "(dino s 1)\<lparr>isize := ?z\<rparr>"
  have m1: "1 \<in> {1..<n}" using n by simp
  have rd: "rinode ROOTINO s = Ok (dino s 1)" using iblock_range[of 1] by (simp add: rinode_def rsect_ok disk_inode_def)
  have la: "length (addrs ?ip) = NDIRECT + 1" using imgD(6)[OF i m1] by (simp add: holds_file_def covers_def good_map_def)
  obtain s1 where s1: "winode ROOTINO ?ip s = Ok s1" "inode_put fb 1 ?ip s s1" using winode_spec[OF _ la imgD(1)[OF i], of 1] by auto
  have sn: "sane fb s1" using s1(2) by (simp add: inode_put_def)
  define bm where "bm = mark_blocks [0..<fb] (replicate BSIZE 0)"
  define s' where "s' = wsect 45 bm s1"
  have fb: "unat (freeblock s1) = fb" "fb \<le> FSSIZE" using saneD[OF sn] by simp_all
  have run: "mk_balloc (unat (freeblock s1)) s1 = Ok s'" using fb by (simp add: mk_balloc_def s'_def bm_def)
  have D': "mdisk s' = (mdisk s1)(45 := bm)" "freeblock s' = freeblock s1" by (simp_all add: s'_def wsect_def)
  have u45: "unat b < 45 \<or> NMETA \<le> unat b \<Longrightarrow> mdisk s' b = mdisk s1 b" for b by (auto simp: D')
  have bits: "\<forall>x < FSSIZE. bit_used (mdisk s' (bmapstart mk_sb)) x \<longleftrightarrow> x < fb"
    using fb(2) mark_blocks_used[of "[0..<fb]" "replicate BSIZE 0"] zero_map[of _ BSIZE] by (simp add: D' bm_def)
  have lens: "length (mdisk s' b) = BSIZE" for b using saneD(4)[OF sn] by (simp add: D' bm_def)
  have low: "mdisk s' b = first_sectors b" if "unat b < 32" for b
    using that u45[of b] s1(2) imgD(8)[OF i] by (simp add: inode_put_def)
  have fl: "addrs (dino s' m) = addrs (dino s m) \<and> holds_file fb (addrs (dino s m)) (mdisk s') (C m) \<and>
      owned (addrs (dino s m)) (mdisk s') = owned (addrs (dino s m)) (mdisk s) \<and>
      unat (isize (dino s' m)) = (if m = 1 then (length (C 1) div BSIZE + 1) * BSIZE else length (C m))" if m: "m \<in> {1..<n}" for m
  proof -
    have m2: "m < 200" using m imgD(4)[OF i] by simp
    have "mdisk s' (IBLOCK (word_of_nat m) mk_sb) = mdisk s1 (IBLOCK (word_of_nat m) mk_sb)"
      by (rule u45) (use iblock_range[of "word_of_nat m"] unat_inum[OF m2] m2 in simp)
    then have d: "dino s' m = dino s1 m" by (simp add: disk_inode_def)
    have z: "unat (isize (dino s k)) = length (C k)" if "k \<in> {1..<n}" for k
      unfolding imgD(5)[OF i that] by (rule of_nat_inverse[OF refl]) (use imgD(6)[OF i that] in \<open>simp add: holds_file_def\<close>)
    have "?z = word_of_nat ((length (C 1) div BSIZE + 1) * BSIZE)"
    proof (rule unsigned_word_eqI)
      have q: "length (C 1) div BSIZE + 1 \<le> MAXFILE" using c by (simp add: less_mult_imp_div_less Suc_le_eq)
      have "isize (dino s 1) div word_of_nat BSIZE = word_of_nat (length (C 1) div BSIZE)"
      proof (rule unsigned_word_eqI)
        show "unat (isize (dino s 1) div word_of_nat BSIZE) = unat (word_of_nat (length (C 1) div BSIZE) :: u32)"
          using z[OF m1] q by (simp add: unat_div unat_of_nat)
      qed
      then show "unat ?z = unat (word_of_nat ((length (C 1) div BSIZE + 1) * BSIZE) :: u32)" by (simp add: add.commute)
    qed
    moreover have "unat (word_of_nat ((length (C 1) div BSIZE + 1) * BSIZE) :: u32) = (length (C 1) div BSIZE + 1) * BSIZE"
    proof (rule of_nat_inverse[OF refl])
      have "length (C 1) div BSIZE < MAXFILE" using c by (simp add: div_less_iff_less_mult)
      then show "(length (C 1) div BSIZE + 1) * BSIZE < 2 ^ LENGTH(32)" by simp
    qed
    ultimately have z1: "unat ?z = (length (C 1) div BSIZE + 1) * BSIZE" by (simp only:)
    note fr = img_frame[OF s1(2) imgD(6)[OF i m]]
    have "mdisk s' b = mdisk s1 b" if "b \<in> owned (addrs (dino s m)) (mdisk s1)" for b
      by (rule u45) (use that fr(1) in \<open>auto simp: holds_file_def between_def\<close>)
    note fr' = holds_file_frame[OF fr(1) this order_refl]
    show ?thesis using fr' fr(2) d s1(2) z[OF m] z1 m2 by (auto simp: inode_put_def)
  qed
  show ?thesis using rd s1(1) run fb D'(2) bits lens low fl by (intro exI[of _ s']) simp
qed

lemma image_built:
  assumes "length files \<le> 198" "fitting files" "image_end files \<le> FSSIZE"
  shows "\<exists>s. mkfs files = Ok s \<and> image_of files s"
proof -
  obtain s5 C where i: "img (length files + 2) (image_end files) s5 C" and C: "C 1 = root_dir files" "\<And>k. k < length files \<Longrightarrow> C (k + 2) = concat (snd (files ! k))"
    and run: "mkfs files = rbind (rinode ROOTINO s5) (\<lambda>din.
       rbind (winode ROOTINO (din\<lparr>isize := (isize din div word_of_nat BSIZE + 1) * word_of_nat BSIZE\<rparr>) s5) (\<lambda>s6. mk_balloc (unat (freeblock s6)) s6))"
    using mkfs_files[OF assms] by blast
  have n: "1 < length files + 2" by simp
  have c1: "length (C 1) < MAXFILE * BSIZE" using C(1) length_root_dir[of files] assms(1) by simp
  obtain s where s: "mkfs files = Ok s" "unat (freeblock s) = image_end files" "\<forall>b. length (mdisk s b) = BSIZE"
    "\<forall>b. unat b < 32 \<longrightarrow> mdisk s b = first_sectors b" "\<forall>x < FSSIZE. bit_used (mdisk s (bmapstart mk_sb)) x \<longleftrightarrow> x < image_end files"
    and fl: "\<And>m. m \<in> {1..<length files + 2} \<Longrightarrow> addrs (dino s m) = addrs (dino s5 m) \<and> holds_file (image_end files) (addrs (dino s5 m)) (mdisk s) (C m) \<and>
        owned (addrs (dino s5 m)) (mdisk s) = owned (addrs (dino s5 m)) (mdisk s5) \<and>
        unat (isize (dino s m)) = (if m = 1 then (length (C 1) div BSIZE + 1) * BSIZE else length (C m))"
    using mkfs_tail[OF i n c1] unfolding run by blast
  have sup: "superblock_of (mdisk s 1) = mk_sb" using s(4) first_sectors_sb by simp
  have log: "\<forall>b. 2 \<le> unat b \<and> unat b < 32 \<longrightarrow> mdisk s b = replicate BSIZE 0" using s(4) by (auto simp: first_sectors_def)
  have "length (C 1) div BSIZE + 1 \<le> MAXFILE" using c1 by (simp add: less_mult_imp_div_less Suc_le_eq)
  then have z: "(length (C 1) div BSIZE + 1) * BSIZE \<le> MAXFILE * BSIZE" by (rule mult_le_mono1)
  have p: "length (C 1) \<le> (length (C 1) div BSIZE + 1) * BSIZE"
    "(length (C 1) div BSIZE + 1) * BSIZE - length (C 1) = BSIZE - length (C 1) mod BSIZE"
    using div_mult_mod_eq[of "length (C 1)" BSIZE] mod_less_divisor[of BSIZE "length (C 1)"] by (simp_all only: distrib_right)
  have "disk_file mk_sb (word_of_nat 1) (mdisk s) = C 1 @ replicate ((length (C 1) div BSIZE + 1) * BSIZE - length (C 1)) 0"
    by (rule disk_file_reads) (use fl[of 1] p z in \<open>simp_all add: holds_file_def\<close>)
  then have root: "disk_file mk_sb ROOTINO (mdisk s) = root_dir files @ replicate (BSIZE - length (root_dir files) mod BSIZE) 0"
    unfolding p(2) unfolding C(1) by simp
  have "disk_file mk_sb (word_of_nat (k + 2)) (mdisk s) = C (k + 2) @ replicate (length (C (k + 2)) - length (C (k + 2))) 0" if "k < length files" for k
    by (rule disk_file_reads) (use fl[of "k + 2"] that in \<open>simp_all add: holds_file_def\<close>)
  then have files: "\<forall>k < length files. disk_file mk_sb (word_of_nat (k + 2)) (mdisk s) = concat (snd (files ! k))" using C(2) by simp
  have maps: "good_map (addrs (dino s m)) (mdisk s) \<and> owned (addrs (dino s m)) (mdisk s) \<subseteq> between NMETA (image_end files)"
    if "m \<in> {1..<length files + 2}" for m using fl[OF that] unfolding holds_file_def covers_def by metis
  have "owned (addrs (dino s m)) (mdisk s) \<inter> owned (addrs (dino s m')) (mdisk s) = {}"
    if "m \<in> {1..<length files + 2}" "m' \<in> {1..<length files + 2}" "m \<noteq> m'" for m m'
    using fl[OF that(1)] fl[OF that(2)] imgD(7)[OF i that] by simp
  then have "image_of files s" unfolding image_of_def using s(2,3,5) sup log root files maps by blast
  then show ?thesis using s(1) by blast
qed

text \<open>C17. For at most 198 files (the inodes there are) that fit, that is with no slash left in their names and at most
  \<open>MAXFILE\<close> blocks each, which are \<open>mkfs\<close>'s own assertions, and with enough blocks for all of them (a condition the
  code does not check), \<open>mkfs\<close> succeeds, and the image holds exactly what it was given: every file reads back as its contents, the root directory as its entries, no two files share a block, the free map marks just the
  blocks up to the last one given out, the superblock reads back as it was laid out, and the log is empty.\<close>

theorem mkfs_builds_image:
  assumes "length files \<le> 198" "fitting files" "image_end files \<le> FSSIZE"
  shows "\<exists>s. mkfs files = Ok s \<and> image_of files s"
  by (rule image_built[OF assms])

text \<open>The image as a kernel finds it that has just booted on it.\<close>

lemma image_log: "log_start t = 2 \<Longrightarrow> x \<in> log_area LOGDATA t \<Longrightarrow> 2 \<le> unat x \<and> unat x < 32"
proof -
  assume s: "log_start t = 2" and "x \<in> log_area LOGDATA t"
  then consider "x = 2" | k where "k < 29" "x = word_of_int (3 + int k)"
    by (auto simp: log_area_def head_at_def log_at_def algebra_simps)
  then show ?thesis
  proof cases
    case (2 k)
    have "unat (word_of_nat (3 + k) :: u32) = 3 + k" by (rule of_nat_inverse[OF refl]) (use 2 in simp)
    then have "unat x = 3 + k" using 2 by simp
    then show ?thesis using 2(1) by simp
  qed simp
qed

lemma image_meta:
  assumes t: "sb t = mk_sb" "log_start t = 2"
  shows "x < FSSIZE \<Longrightarrow> map_block t x = 45" "x' \<in> meta_blocks t \<Longrightarrow> 2 \<le> unat x' \<and> unat x' < NMETA"
proof -
  show m: "map_block t x = 45" if "x < FSSIZE" for x by (subst map_block_nat) (use that t in simp_all)
  have "2 \<le> unat (IBLOCK n mk_sb) \<and> unat (IBLOCK n mk_sb) < NMETA" if "n < 200" for n
    using iblock_range[of n] that by (simp add: word_less_nat_alt)
  then show "x' \<in> meta_blocks t \<Longrightarrow> 2 \<le> unat x' \<and> unat x' < NMETA"
    using image_log[OF t(2), of x'] m t(1) by (auto simp: meta_blocks_def map_blocks_def)
qed

text \<open>C18. What the theorems on the file system ask of the disk holds on the image of \<open>mkfs\<close>: for a kernel whose blocks are those
  of the image, the free blocks are those behind the last one given out, the areas are laid out as \<open>fs_ok\<close> wants them,
  the header of the log is empty, and the file of each inode \<open>mkfs\<close> made is well formed once it is in the inode table.\<close>

theorem mkfs_image_mounts:
  assumes m: "mkfs files = Ok s" "length files \<le> 198" "fitting files" "image_end files \<le> FSSIZE"
    and t: "disk t = mdisk s" "blk dev t = disk t" "sb t = superblock_of (disk t 1)" "log_start t = uint (logstart (sb t))"
  shows "fs_ok dev t \<and> free_blocks dev t = {image_end files..<FSSIZE} \<and> head_n (disk t (head_at t)) = 0 \<and>
    (\<forall>i n. i < length (itable t) \<and> 1 \<le> n \<and> n < length files + 2 \<and> idev (inode_at t i) = dev \<and> inum (inode_at t i) = word_of_nat n \<and>
       addrs (inode_at t i) = addrs (disk_inode (sb t) (word_of_nat n) (disk t)) \<longrightarrow> file_ok dev t i)"
proof -
  have im: "image_of files s" using image_built[OF m(2-4)] m(1) by auto
  note i = im[unfolded image_of_def]
  have sb: "sb t = mk_sb" "log_start t = 2" using t i by simp_all
  note mt = image_meta[OF sb]
  have al: "allocated dev t x \<longleftrightarrow> x < image_end files" if x: "x < FSSIZE" for x
  proof -
    have "x mod BPB = x" using x by simp
    then show ?thesis using i x by (simp add: allocated_def t mt(1))
  qed
  then have fr: "free_blocks dev t = {image_end files..<FSSIZE}" by (auto simp: free_blocks_def sb)
  have ne: "NMETA \<le> image_end files" by (simp add: image_end_def)
  have ib: "32 \<le> unat (IBLOCK n mk_sb) \<and> unat (IBLOCK n mk_sb) < 45" if "n < 200" for n
    by (rule iblock_range) (use that in \<open>simp add: word_less_nat_alt\<close>)
  have ok: "fs_ok dev t" unfolding fs_ok_def
  proof (intro conjI ballI allI impI)
    fix x assume x: "x \<in> free_blocks dev t"
    then have "image_end files \<le> x" "x < FSSIZE" by (simp_all add: fr)
    then show "x \<noteq> 0" "word_of_nat x \<notin> meta_blocks t" using ne mt(2)[of "word_of_nat x"] free_word[OF x] by auto
  next
    fix n assume n: "n < ninodes (sb t)"
    then show "IBLOCK n (sb t) \<notin> log_area LOGDATA t" using ib[of n] image_log[OF sb(2), of "IBLOCK n mk_sb"] by (auto simp: sb)
    fix y assume "y < unat (fssize (sb t))"
    then show "IBLOCK n (sb t) \<noteq> map_block t y" using n ib[of n] mt(1)[of y] by (auto simp: sb)
  next
    fix y assume "y < unat (fssize (sb t))"
    then show "map_block t y \<notin> log_area LOGDATA t" using image_log[OF sb(2), of 45] mt(1)[of y] by (auto simp: sb)
  qed
  have hd: "head_n (disk t (head_at t)) = 0" using i by (simp add: t head_at_def sb head_n_def get32_zero)
  have "file_ok dev t j" if j: "j < length (itable t)" "1 \<le> n" "n < length files + 2" "idev (inode_at t j) = dev" "inum (inode_at t j) = word_of_nat n"
    "addrs (inode_at t j) = addrs (disk_inode (sb t) (word_of_nat n) (disk t))" for j n
  proof -
    have n: "n < 200" using j(3) m(2) by simp
    have a: "addrs (inode_at t j) = addrs (dino s n)" using j(6) by (simp add: sb t)
    have g: "good_map (addrs (dino s n)) (mdisk s)" "owned (addrs (dino s n)) (mdisk s) \<subseteq> between NMETA (image_end files)" using i j(2,3) by simp_all
    have "unat b < FSSIZE \<and> unat b \<notin> free_blocks dev t \<and> b \<notin> meta_blocks t" if "b \<in> owned (addrs (dino s n)) (mdisk s)" for b
      using that g(2) mt(2)[of b] m(4) by (auto simp: fr between_def)
    moreover have "inum (inode_at t j) < ninodes (sb t)" using unat_inum[OF n] n j(5) by (simp add: sb word_less_nat_alt)
    ultimately show ?thesis using j(1,4) g(1) by (simp add: file_ok_def a t(1,2) sb)
  qed
  then show ?thesis using ok fr hd by blast
qed

section \<open>An image with one file\<close>

definition one_file :: "(u8 list \<times> u8 list list) list" where
  "one_file = [([117, 115, 101, 114, 47, 95, 99, 97, 116], [[1, 2], [3]])]"

lemma one_file_fits: "length one_file \<le> 198" "fitting one_file" "image_end one_file \<le> FSSIZE" "image_end one_file = 48"
  by (simp_all add: one_file_def fitting_def no_user_def image_end_def file_sectors_def length_root_dir need_def)

lemma mkfs_builds_image_witness:
  "\<exists>s. mkfs one_file = Ok s \<and> disk_file mk_sb 2 (mdisk s) = [1, 2, 3] \<and>
     take 48 (disk_file mk_sb 1 (mdisk s)) = dirent_bytes 1 [46] @ dirent_bytes 1 [46, 46] @ dirent_bytes 2 [99, 97, 116]"
proof -
  obtain s where s: "mkfs one_file = Ok s" "image_of one_file s" using mkfs_builds_image[OF one_file_fits(1-3)] by blast
  have r: "root_dir one_file = dirent_bytes 1 [46] @ dirent_bytes 1 [46, 46] @ dirent_bytes 2 [99, 97, 116]"
    by (simp add: root_dir_def one_file_def shortname_def no_user_def)
  have "length (root_dir one_file) = 48" by (simp add: length_root_dir one_file_def)
  then have "take 48 (disk_file mk_sb 1 (mdisk s)) = root_dir one_file" using s(2) by (simp add: image_of_def)
  moreover have "disk_file mk_sb 2 (mdisk s) = [1, 2, 3]" using s(2) by (simp add: image_of_def one_file_def)
  ultimately show ?thesis using s(1) r by auto
qed

lemma mkfs_image_mounts_witness:
  "\<exists>s t :: fstate. mkfs one_file = Ok s \<and> fs_ok 1 t \<and> free_blocks 1 t = {48..<2000} \<and> file_ok 1 t 0 \<and> file_ok 1 t 1"
proof -
  obtain s where s: "mkfs one_file = Ok s" "image_of one_file s" using image_built[OF one_file_fits(1-3)] by blast
  define t :: fstate where "t = small\<lparr>disk := mdisk s, sb := mk_sb,
    itable := [(dino s 1)\<lparr>idev := 1, inum := 1\<rparr>, (dino s 2)\<lparr>idev := 1, inum := 2\<rparr>]\<rparr>"
  have f: "disk t = mdisk s" "sb t = mk_sb" "log_start t = 2" by (simp_all add: t_def small_def)
  have l: "\<forall>b. length (mdisk s b) = BSIZE" and sb: "superblock_of (mdisk s 1) = mk_sb" using s(2) by (simp_all add: image_of_def)
  have h: "holds_block 1 t i b = False" for i b using small_unused[of i b] by (simp add: holds_block_def t_def)
  have ck: "cache_ok 1 t" unfolding cache_ok_def h using l by (auto simp: buf_ok_def free_buf_def initsleeplock_def t_def small_def)
  have v: "blk 1 t = disk t" using none_view(1)[OF ck] h by (simp add: fun_eq_iff)
  have "sb t = superblock_of (disk t 1)" "log_start t = uint (logstart (sb t))" using f sb by simp_all
  note m = mkfs_image_mounts[OF s(1) one_file_fits(1-3) f(1) v this]
  have "file_ok 1 t 0" using m[THEN conjunct2, THEN conjunct2, THEN conjunct2, rule_format, of 0 1] f by (simp add: t_def)
  moreover have "file_ok 1 t 1" using m[THEN conjunct2, THEN conjunct2, THEN conjunct2, rule_format, of 1 2] f by (simp add: t_def one_file_def)
  ultimately show ?thesis using s(1) m one_file_fits(4) by auto
qed

end
