(* ===== verification/Pipe.thy ===== *)
theory Pipe
  imports File
begin

text \<open>
  Pipes (\<open>kernel/pipe.c\<close>) as bounded queues of bytes: \<open>pipewrite\<close> appends bytes of the writer's memory until it is
  done or the queue has \<open>PIPESIZE\<close> bytes, \<open>piperead\<close> hands out bytes from the front.
\<close>

interpretation pp: ring_buffer 512 "0 :: u32"
  by unfold_locales simp_all

section \<open>The queue\<close>

definition pipe_ok :: "pipe \<Rightarrow> bool" where
  "pipe_ok p \<longleftrightarrow> length (pdata p) = PIPESIZE \<and> unat (nwrite p - nread p) \<le> PIPESIZE"

definition queue_of :: "pipe \<Rightarrow> u8 list" where
  "queue_of p = ring_list PIPESIZE (pdata p) (nread p) (nwrite p)"

text \<open>Byte \<open>j\<close> of the writer's buffer, and whether it can be read.\<close>

definition user_byte :: "nat \<Rightarrow> u64 \<Rightarrow> 'a kstate_scheme \<Rightarrow> nat \<Rightarrow> u8" where
  "user_byte me addr s j = snd (copyin (pagetable (proc_at s me)) (addr + word_of_nat j) 1 s) ! 0"

definition user_fault :: "nat \<Rightarrow> u64 \<Rightarrow> 'a kstate_scheme \<Rightarrow> nat \<Rightarrow> bool" where
  "user_fault me addr s j \<longleftrightarrow> fst (copyin (pagetable (proc_at s me)) (addr + word_of_nat j) 1 s) = -1"

text \<open>Bytes copied out one by one: how many arrived, and whether one was lost to a bad address.\<close>

fun deliver :: "u64 \<Rightarrow> u64 \<Rightarrow> nat \<Rightarrow> u8 list \<Rightarrow> 'a kmem_scheme \<Rightarrow> nat \<times> bool \<times> 'a kmem_scheme" where
  "deliver pt addr i [] s = (i, False, s)"
| "deliver pt addr i (b # bs) s =
     (let (r, s1) = copyout pt (addr + word_of_nat i) [b] s
      in if r = -1 then (i, True, s1) else deliver pt addr (Suc i) bs s1)"

lemma queue_length: "length (queue_of p) = unat (nwrite p - nread p)"
  by (simp add: queue_of_def)

lemma queue_empty: "queue_of p = [] \<longleftrightarrow> nread p = nwrite p"
  by (metis queue_length length_0_conv right_minus_eq unat_0 unsigned_0 unsigned_word_eqI)

lemma queue_full: "pipe_ok p \<Longrightarrow> nwrite p = nread p + word_of_nat PIPESIZE \<longleftrightarrow> length (queue_of p) = PIPESIZE"
  using pp.ring_full_iff[of "nwrite p" "nread p"] by (simp add: pipe_ok_def queue_length)

lemma queue_put:
  fixes b :: u8
  assumes "pipe_ok p" "length (queue_of p) \<noteq> PIPESIZE"
  defines "p' \<equiv> p\<lparr>pdata := ring_put PIPESIZE (pdata p) (nwrite p) b, nwrite := nwrite p + 1\<rparr>"
  shows "queue_of p' = queue_of p @ [b]" "pipe_ok p'"
proof -
  have l: "unat (nwrite p - nread p) < PIPESIZE" using assms(1,2) by (simp add: pipe_ok_def queue_length)
  have d: "length (pdata p) = PIPESIZE" using assms(1) by (simp add: pipe_ok_def)
  show "queue_of p' = queue_of p @ [b]" using pp.ring_list_put[OF d l] by (simp add: queue_of_def p'_def)
  show "pipe_ok p'" using pp.ring_put_count[OF l] l d by (simp add: pipe_ok_def p'_def)
qed

lemma queue_take:
  assumes "nread p \<noteq> nwrite p"
  defines "p' \<equiv> p\<lparr>nread := nread p + 1\<rparr>"
  shows "queue_of p = ring_at PIPESIZE (pdata p) (nread p) # queue_of p'" "pipe_ok p \<Longrightarrow> pipe_ok p'"
  using pp.ring_list_take[of "nwrite p" "nread p"] pp.ring_take_count[of "nwrite p" "nread p"] assms
  by (auto simp: queue_of_def p'_def pipe_ok_def)

section \<open>Frames\<close>

lemma walkaddr_mem: "mem s' = mem s \<Longrightarrow> walkaddr pt va s' = walkaddr pt va s"
  by (simp add: walkaddr_path)

lemma copyin_mem: "mem s' = mem s \<Longrightarrow> copyin pt va n s' = copyin pt va n s"
proof (induction pt va n s rule: copyin.induct)
  case (1 pt va n s)
  then show ?case using walkaddr_mem[OF "1.prems"]
    by (subst copyin.simps, subst (2) copyin.simps) (simp add: Let_def)
qed

lemma upd_pipe_frame [simp]: "mem (upd_pipe pi f s) = mem s" "procs (upd_pipe pi f s) = procs s"
  "pipes (upd_pipe pi f s) pi = f (pipes s pi)" "pj \<noteq> pi \<Longrightarrow> pipes (upd_pipe pi f s) pj = pipes s pj"
  by (simp_all add: upd_pipe_def)

lemma pipes_more: "kstate.more s' = kstate.more s \<Longrightarrow> pipes s' = pipes s"
  by (cases s; cases s') simp

lemma procs_more: "kmem.more s' = kmem.more s \<Longrightarrow> procs s' = procs (s :: 'a kstate_scheme)"
  by (cases s; cases s') simp

lemma pipes_wakeup [simp]: "pipes (wakeup me ch s) = pipes s" "pipes (sleep_enter i ch s) = pipes s"
  by (rule pipes_more, rule wakeup_more) (simp add: sleep_enter_def upd_proc_def)

lemma user_mem:
  assumes "mem s' = mem s" "procs s' = procs s"
  shows "user_byte me addr s' = user_byte me addr s" "user_fault me addr s' = user_fault me addr s" "killed me s' = killed me s"
  using copyin_mem[OF assms(1)] assms(2) by (auto simp: user_byte_def user_fault_def killed_def fun_eq_iff)

text \<open>\<open>copyout\<close> of one byte only changes memory.\<close>

lemma copyout_pipes: "copyout pt va bs (s\<lparr>pipes := x\<rparr>) = (let (r, s1) = copyout pt va bs s in (r, s1\<lparr>pipes := x\<rparr>))"
proof (induction pt va bs s rule: copyout.induct)
  case (1 pt va bs s)
  have w: "walkaddr pt v (s\<lparr>pipes := x\<rparr>) = walkaddr pt v s" for v by (rule walkaddr_mem) simp
  have cm: "s\<lparr>pipes := x, mem := y\<rparr> = s\<lparr>mem := y, pipes := x\<rparr>" for y by (cases s) simp
  show ?case
  proof (cases "bs = [] \<or> walkaddr pt (PGROUNDDOWN va) s = 0")
    case True
    then show ?thesis by (subst copyout.simps, subst (2) copyout.simps) (auto simp: w Let_def)
  next
    case False
    define t where "t = s\<lparr>mem := store_bytes (mem s) (walkaddr pt (PGROUNDDOWN va) s + (va - PGROUNDDOWN va)) (take (page_chunk va (length bs)) bs)\<rparr>"
    have "copyout pt (PGROUNDDOWN va + PGSIZE) (drop (page_chunk va (length bs)) bs) (t\<lparr>pipes := x\<rparr>) =
        (let (r, s1) = copyout pt (PGROUNDDOWN va + PGSIZE) (drop (page_chunk va (length bs)) bs) t in (r, s1\<lparr>pipes := x\<rparr>))"
      unfolding t_def by (rule "1.IH") (use False in simp_all)
    then show ?thesis using False by (subst copyout.simps, subst (2) copyout.simps) (simp add: w Let_def t_def cm)
  qed
qed

lemma deliver_pipes:
  "deliver pt addr i bs (s\<lparr>pipes := x\<rparr>) = (case deliver pt addr i bs s of (j, lost, s1) \<Rightarrow> (j, lost, s1\<lparr>pipes := x\<rparr>))"
  by (induction pt addr i bs s rule: deliver.induct) (auto simp: copyout_pipes split: prod.splits)

section \<open>Writing and reading\<close>

text \<open>
  What a writer with \<open>n\<close> bytes from \<open>i\<close> on may come to: turned away, or \<open>k\<close> bytes appended (fewer than \<open>n\<close> only at a bad
  address), or asleep on a full queue at byte \<open>j\<close>.
\<close>

definition appends :: "nat \<Rightarrow> u64 \<Rightarrow> u64 \<Rightarrow> nat \<Rightarrow> nat \<Rightarrow> 'a ostate_scheme \<Rightarrow> (nat, 'a ostate_scheme) io \<Rightarrow> bool" where
  "appends me pi addr i n s out \<longleftrightarrow> (case out of
      Done r s' \<Rightarrow> (if 0 < n \<and> (\<not> readopen (pipes s pi) \<or> killed me s \<noteq> 0) then r = -1 \<and> s' = s
        else \<exists>k \<le> n. r = int (i + k) \<and> (k = n \<or> user_fault me addr s (i + k)) \<and> pipe_ok (pipes s' pi) \<and>
          queue_of (pipes s' pi) = queue_of (pipes s pi) @ map (user_byte me addr s) [i..<i + k])
    | Sleep j s' \<Rightarrow> i \<le> j \<and> j < i + n \<and> pipe_ok (pipes s' pi) \<and> length (queue_of (pipes s' pi)) = PIPESIZE \<and>
        queue_of (pipes s' pi) = queue_of (pipes s pi) @ map (user_byte me addr s) [i..<j])"

lemma appends_step:
  assumes a: "appends me pi addr (Suc i) n s1 out" and c: "readopen (pipes s pi)" "killed me s = 0"
    and s1: "queue_of (pipes s1 pi) = queue_of (pipes s pi) @ [user_byte me addr s i]" "readopen (pipes s1 pi)"
      "user_byte me addr s1 = user_byte me addr s" "user_fault me addr s1 = user_fault me addr s" "killed me s1 = killed me s"
  shows "appends me pi addr i (Suc n) s out"
proof -
  have up: "map (user_byte me addr s) [i..<Suc i + k] = user_byte me addr s i # map (user_byte me addr s) [Suc i..<Suc i + k]" for k
    by (simp add: upt_conv_Cons del: upt_Suc)
  show ?thesis
  proof (cases out)
    case (Done r s')
    then obtain k where "k \<le> n" "r = int (Suc i + k)" "k = n \<or> user_fault me addr s (Suc i + k)" "pipe_ok (pipes s' pi)"
      "queue_of (pipes s' pi) = queue_of (pipes s pi) @ map (user_byte me addr s) [i..<Suc i + k]"
      using a c s1 unfolding up by (auto simp: appends_def)
    then show ?thesis using Done c by (auto simp: appends_def intro!: exI[of _ "Suc k"])
  next
    case (Sleep j s')
    then have "Suc i \<le> j" using a by (simp add: appends_def)
    then show ?thesis using a Sleep c s1 up[of "j - Suc i"] by (auto simp: appends_def)
  qed
qed

lemma pipewrite_appends: "pipe_ok (pipes s pi) \<Longrightarrow> appends me pi addr i n s (pipewrite me pi addr i n s)"
proof (induction n arbitrary: i s)
  case (Suc n)
  let ?p = "pipes s pi"
  show ?case
  proof (cases "\<not> readopen ?p \<or> killed me s \<noteq> 0")
    case False
    then have op: "readopen ?p" "killed me s = 0" by simp_all
    show ?thesis
    proof (cases "length (queue_of ?p) = PIPESIZE")
      case True
      then show ?thesis using op Suc.prems queue_full[OF Suc.prems] by (simp add: appends_def)
    next
      case nf: False
      note nw = nf[folded queue_full[OF Suc.prems]]
      obtain r bs where c: "copyin (pagetable (proc_at s me)) (addr + word_of_nat i) 1 s = (r, bs)" by fastforce
      show ?thesis
      proof (cases "r = -1")
        case True
        then show ?thesis using op nw c Suc.prems by (auto simp: appends_def user_fault_def intro!: exI[of _ 0])
      next
        case nr: False
        define s1 where "s1 = upd_pipe pi (\<lambda>p. p\<lparr>pdata := ring_put PIPESIZE (pdata p) (nwrite p) (bs ! 0), nwrite := nwrite p + 1\<rparr>) s"
        have b: "user_byte me addr s i = bs ! 0" unfolding user_byte_def c by simp
        note q = queue_put[OF Suc.prems nf, of "bs ! 0"]
        have q1: "queue_of (pipes s1 pi) = queue_of ?p @ [user_byte me addr s i]" "pipe_ok (pipes s1 pi)" "readopen (pipes s1 pi)"
          using q op by (simp_all add: s1_def b)
        have m: "mem s1 = mem s" "procs s1 = procs s" by (simp_all add: s1_def)
        have st: "pipewrite me pi addr i (Suc n) s = pipewrite me pi addr (Suc i) n s1" using op nw c nr by (simp add: s1_def)
        show ?thesis unfolding st by (rule appends_step[OF Suc.IH[OF q1(2)] op q1(1,3) user_mem[OF m]])
      qed
    qed
  qed (simp add: appends_def)
qed (simp add: appends_def)

lemma pipe_take_deliver:
  fixes s :: "'a ostate_scheme"
  shows "\<exists>s2. pipe_take me pi addr i n s = (fst (deliver (pagetable (proc_at s me)) addr i (take n (queue_of (pipes s pi))) s), s2) \<and>
     (case deliver (pagetable (proc_at s me)) addr i (take n (queue_of (pipes s pi))) s of (j, lost, s1) \<Rightarrow>
        i \<le> j \<and> mem s2 = mem s1 \<and> queue_of (pipes s2 pi) = drop (j - i + (if lost then 1 else 0)) (queue_of (pipes s pi)) \<and>
        (pipe_ok (pipes s pi) \<longrightarrow> pipe_ok (pipes s2 pi)) \<and> (\<not> lost \<longrightarrow> j = i + length (take n (queue_of (pipes s pi)))))"
proof (induction n arbitrary: i s)
  case (Suc n)
  let ?p = "pipes s pi"
  show ?case
  proof (cases "nread ?p = nwrite ?p")
    case True
    then have "queue_of ?p = []" by (simp add: queue_empty)
    then show ?thesis using True by simp
  next
    case False
    define p' where "p' = ?p\<lparr>nread := nread ?p + 1\<rparr>"
    define b where "b = ring_at PIPESIZE (pdata ?p) (nread ?p)"
    note q = queue_take[OF False, folded p'_def b_def]
    let ?pt = "pagetable (proc_at s me)" and ?a = "addr + word_of_nat i"
    have u: "upd_pipe pi (\<lambda>p. p\<lparr>nread := nread p + 1\<rparr>) s = s\<lparr>pipes := (pipes s)(pi := p')\<rparr>" by (simp add: upd_pipe_def p'_def)
    obtain r t where c: "copyout ?pt ?a [b] s = (r, t)" by fastforce
    have c1: "copyout ?pt ?a [b] (s\<lparr>pipes := (pipes s)(pi := p')\<rparr>) = (r, t\<lparr>pipes := (pipes s)(pi := p')\<rparr>)"
      using copyout_pipes[where s = s and pt = ?pt and va = ?a and bs = "[b]"] c by simp
    define t1 where "t1 = t\<lparr>pipes := (pipes s)(pi := p')\<rparr>"
    have tp: "procs t1 = procs s" "mem t1 = mem t" "pipes t1 pi = p'"
      using copyout_rest[OF c] procs_more[of t s] by (simp_all add: t1_def rest_def)
    have st: "pipe_take me pi addr i (Suc n) s = (if r = -1 then (i, t1) else pipe_take me pi addr (Suc i) n t1)"
      using False c1 by (simp add: u b_def[symmetric] t1_def)
    show ?thesis
    proof (cases "r = -1")
      case True
      then show ?thesis using st c tp q by auto
    next
      case nr: False
      have dm: "deliver pt addr j bs t1 = (case deliver pt addr j bs t of (j, lost, s1) \<Rightarrow> (j, lost, s1\<lparr>pipes := (pipes s)(pi := p')\<rparr>))" for pt j bs
        unfolding t1_def by (rule deliver_pipes)
      show ?thesis using Suc.IH[of "Suc i" t1] st nr c tp q
        by (auto simp: dm split: prod.splits if_splits)
    qed
  qed
qed simp

text \<open>What a reader of \<open>m\<close> bytes may come to: asleep on an empty queue, turned away, or served from the front.\<close>

definition hands_out :: "nat \<Rightarrow> u64 \<Rightarrow> u64 \<Rightarrow> nat \<Rightarrow> 'a ostate_scheme \<Rightarrow> (unit, 'a ostate_scheme) io \<Rightarrow> bool" where
  "hands_out me pi addr m s out \<longleftrightarrow>
     (let q = queue_of (pipes s pi); idle = (q = [] \<and> writeopen (pipes s pi)) in
      case out of
        Sleep u s' \<Rightarrow> idle \<and> killed me s = 0 \<and> pipes s' = pipes s
      | Done r s' \<Rightarrow>
          if idle then r = -1 \<and> killed me s \<noteq> 0 \<and> s' = s
          else (case deliver (pagetable (proc_at s me)) addr 0 (take m q) s of (j, lost, s1) \<Rightarrow>
                 r = int j \<and> mem s' = mem s1 \<and> pipe_ok (pipes s' pi) \<and> (lost \<or> j = length (take m q)) \<and>
                 queue_of (pipes s' pi) = drop (j + (if lost then 1 else 0)) q))"

lemma mem_wakeup [simp]: "mem (wakeup me ch s) = mem s"
proof -
  have "mem (wakeup_loop is me ch s) = mem s" for "is"
    by (induction "is" me ch s rule: wakeup_loop.induct) (auto simp: wakeup_one_def tick_sys_time_def upd_proc_def Let_def)
  then show ?thesis by (simp add: wakeup_def)
qed

lemma piperead_hands_out:
  assumes "pipe_ok (pipes s pi)"
  shows "hands_out me pi addr m s (piperead me pi addr m s)"
proof (cases "nread (pipes s pi) = nwrite (pipes s pi) \<and> writeopen (pipes s pi)")
  case True
  then show ?thesis by (simp add: hands_out_def piperead_def queue_empty)
next
  case False
  obtain j lost s1 where d: "deliver (pagetable (proc_at s me)) addr 0 (take m (queue_of (pipes s pi))) s = (j, lost, s1)"
    by (cases "deliver (pagetable (proc_at s me)) addr 0 (take m (queue_of (pipes s pi))) s") blast
  obtain s2 where t: "pipe_take me pi addr 0 m s = (j, s2)" "mem s2 = mem s1"
    "queue_of (pipes s2 pi) = drop (j + (if lost then 1 else 0)) (queue_of (pipes s pi))" "pipe_ok (pipes s2 pi)"
    "\<not> lost \<longrightarrow> j = length (take m (queue_of (pipes s pi)))"
    using pipe_take_deliver[of me pi addr 0 m s] assms by (auto simp: d)
  have i: "\<not> (queue_of (pipes s pi) = [] \<and> writeopen (pipes s pi))" using False by (simp add: queue_empty)
  have r: "piperead me pi addr m s = Done (int j) (wakeup (Some me) (ChanNwrite pi) s2)" using False t(1) by (auto simp: piperead_def)
  show ?thesis unfolding hands_out_def Let_def r d io.case if_not_P[OF i] prod.case using t by auto
qed

text \<open>C13. A pipe is a bounded FIFO queue of bytes, through every wrap-around of its counters: \<open>pipewrite\<close> appends the
  writer's bytes in order, all of them unless an address is bad, and goes to sleep only on a queue of \<open>PIPESIZE\<close>
  bytes, keeping its place; \<open>piperead\<close> copies bytes from the front to the reader in order and leaves the rest, losing
  one only when its copy fails, and sleeps only on an empty queue with a writer.\<close>

theorem pipe_fifo:
  assumes "pipe_ok (pipes s pi)"
  shows "appends me pi addr i n s (pipewrite me pi addr i n s) \<and> hands_out me pi addr m s (piperead me pi addr m s)"
  by (rule conjI[OF pipewrite_appends[OF assms] piperead_hands_out[OF assms]])

text \<open>A queue of one byte whose counters are about to wrap, and a writer of two bytes.\<close>

definition wrap_pipe :: pipe where
  "wrap_pipe = \<lparr>pdata = replicate 511 0 @ [7], nread = 0xFFFFFFFF, nwrite = 0, readopen = True, writeopen = True\<rparr>"

definition pipe_state :: ostate where
  "pipe_state = \<lparr>mem = sample_tables, freelist = 0, kend = 0x80001234, config = RR, trampoline_pa = 0x80000000,
     forkret_pc = 0x80000100, procs = [blank_proc\<lparr>pagetable := 0x80003000\<rparr>], initproc = None, nextpid = 1, sys_time = 0, kticks = 0,
     uart_buf = replicate 32 0, uart_w = 0, uart_r = 0, uart_out = [], panicked = False,
     cons_buf = replicate 128 0, cons_r = 0, cons_w = 0, cons_e = 0, bufs = [], lru = [], disk = \<lambda>_. [], disk_trace = [],
     log_start = 2, log_size = 30, outstanding = 0, committing = False, log_dev = 1, lh_n = 0, lh_block = [],
     sb = \<lparr>magic = 0, fssize = 0, nblocks = 0, ninodes = 0, nlog = 0, logstart = 0, inodestart = 0, bmapstart = 0\<rparr>,
     itable = [], ftable = [], pipes = \<lambda>_. wrap_pipe\<rparr>"

theorem pipe_fifo_witness:
  "(\<exists>s'. pipewrite 0 0x80007000 8 0 2 pipe_state = Done 2 s' \<and> queue_of (pipes s' 0x80007000) = [7, 0, 0]) \<and>
   (\<exists>s'. piperead 0 0x80007000 8 5 pipe_state = Done 1 s' \<and> queue_of (pipes s' 0x80007000) = [])"
proof -
  let ?s = pipe_state and ?pt = "0x80003000 :: u64" and ?pi = "0x80007000 :: u64"
  have f: "mem ?s = sample_tables" "pagetable (proc_at ?s 0) = ?pt" "pipes ?s = (\<lambda>_. wrap_pipe)" "killed 0 ?s = 0"
    by (simp_all add: pipe_state_def killed_def blank_proc_def)
  have q: "queue_of wrap_pipe = [7]" by (simp add: queue_of_def wrap_pipe_def ring_list_def ring_at_def nth_append)
  have ro: "readopen wrap_pipe" by (simp add: wrap_pipe_def)
  have ok: "pipe_ok (pipes ?s ?pi)" by (simp add: f pipe_ok_def wrap_pipe_def)
  have P: "table_path 2 ?pt 0 sample_tables = [0x80003000, 0x80004000, 0x80005000]" and e: "ld64 sample_tables 0x80005000 = 0x20001817"
    using sample_entries sample_path by simp_all
  have w: "walkaddr ?pt 0 ?s = 0x80006000" by (simp add: walkaddr_path f P e PX_def pte_defs PTE2PA_def)
  have u: "uaddr ?pt ?s 8 = Some 0x80006008" "uaddr ?pt ?s 9 = Some 0x80006009" by (simp_all add: uaddr_def PGROUNDDOWN_def w)
  have c: "copyin ?pt 8 1 ?s = (0, [sample_tables 0x80006008])" "copyin ?pt 9 1 ?s = (0, [sample_tables 0x80006009])"
    using copyin_bytes[of 1 ?pt ?s 8] copyin_bytes[of 1 ?pt ?s 9] u f(1) by auto
  have z: "sample_tables 0x80006008 = 0" "sample_tables 0x80006009 = 0" by (simp_all add: sample_tables_def st64_def st32_def)
  note A = pipe_fifo[OF ok, of 0 8 0 2 5, THEN conjunct1] and R = pipe_fifo[OF ok, of 0 8 0 2 5, THEN conjunct2]
  have nf: "k < 2 \<Longrightarrow> \<not> user_fault 0 8 ?s k" for k using c f(2) by (auto simp: user_fault_def less_2_cases_iff)
  have ub: "map (user_byte 0 8 ?s) [0..<2] = [0, 0]" using c z f(2) by (simp add: user_byte_def upt_conv_Cons)
  have W: "\<exists>s'. pipewrite 0 ?pi 8 0 2 ?s = Done 2 s' \<and> queue_of (pipes s' ?pi) = [7, 0, 0]"
  proof (cases "pipewrite 0 ?pi 8 0 2 ?s")
    case (Done r s')
    then obtain k where k: "k \<le> 2" "r = int k" "k = 2 \<or> user_fault 0 8 ?s k" "queue_of (pipes s' ?pi) = [7] @ map (user_byte 0 8 ?s) [0..<k]"
      using A by (auto simp: appends_def f q ro)
    then have "k = 2" using nf[of k] by linarith
    then show ?thesis using k Done ub by simp
  next
    case (Sleep j s')
    then have "j < 2" "length ([7] @ map (user_byte 0 8 ?s) [0..<j]) = PIPESIZE" using A by (auto simp: appends_def f q)
    then show ?thesis by simp
  qed
  have co: "fst (copyout ?pt 8 [7] ?s) = 0"
    by (subst copyout.simps, subst copyout.simps) (simp add: w PGROUNDDOWN_def page_chunk_eq Let_def)
  obtain s1 where d: "deliver ?pt 8 0 (take 5 [7]) ?s = (1, False, s1)" using co by (cases "copyout ?pt 8 [7] ?s") simp
  have "\<exists>s'. piperead 0 ?pi 8 5 ?s = Done 1 s' \<and> queue_of (pipes s' ?pi) = []"
    using R d by (cases "piperead 0 ?pi 8 5 ?s") (auto simp: hands_out_def f q Let_def)
  then show ?thesis using W by blast
qed

end
