(* ===== verification/Virtio.thy ===== *)
theory Virtio
  imports Bio
begin

text \<open>
  \<open>kernel/virtio_disk.c\<close>: the disk driver.  Queue memory holds descriptors, the ring of requests made available to the
  device and the ring of the requests it has finished.  \<open>vdisk_lock\<close> is the atomicity of each part of a request: up to its
  sleep and from its wakeup on.  The device is the one of the virtio specification and works in between: it sees nothing
  but the queue memory, fetches heads from the available ring and follows their chains.
\<close>

section \<open>State\<close>

abbreviation NUM :: nat where "NUM \<equiv> 8"
abbreviation VRING_DESC_F_NEXT :: u16 where "VRING_DESC_F_NEXT \<equiv> 1"
abbreviation VRING_DESC_F_WRITE :: u16 where "VRING_DESC_F_WRITE \<equiv> 2"

text \<open>What a descriptor points to: nothing, a command header, the data of a buffer or a status byte.\<close>

datatype daddr = AddrNone | AddrOps nat | AddrData nat | AddrStatus nat

record virtq_desc =
  daddr :: daddr
  dlen :: u32
  dflags :: u16
  dnext :: u16

record virtio_blk_req =
  rtype :: u32
  reserved :: u32
  sector :: u64

record vstate = bstate +
  desc :: "virtq_desc list"
  vfree :: "bool list"
  avail_ring :: "u16 list"
  avail_idx :: u16
  used_ring :: "u32 list"
  dev_idx :: u16
  used_idx :: u16
  info_b :: "nat option list"
  info_status :: "u8 list"
  ops :: "virtio_blk_req list"
  b_disk :: "nat \<Rightarrow> bool"

definition free_chan :: chan where
  "free_chan = ChanDisk 0"

definition io_chan :: "nat \<Rightarrow> chan" where
  "io_chan b = ChanDisk (Suc b)"

section \<open>Start-up\<close>

text \<open>What the registers read (the status twice) is an argument; the result has the writes, in order, and
  the pages of the queue.\<close>

definition clear_bit :: "nat \<Rightarrow> u64 \<Rightarrow> u64" where
  "clear_bit k w = w AND NOT (push_bit k 1)"

definition virtio_disk_init :: "(nat \<Rightarrow> u32) \<Rightarrow> 'a vstate_scheme \<Rightarrow> ((nat \<times> u32) list \<times> (u64 \<times> u64 \<times> u64) \<times> 'a vstate_scheme) res" where
  "virtio_disk_init rd s =
     (let features = clear_bit 28 (clear_bit 29 (clear_bit 27 (clear_bit 12 (clear_bit 11 (clear_bit 7 (clear_bit 5
            (ucast (rd 0x010))))))))
      in if rd 0x000 \<noteq> 0x74726976 \<or> rd 0x004 \<noteq> 2 \<or> rd 0x008 \<noteq> 2 \<or> rd 0x00c \<noteq> 0x554d4551
         then Panic ''could not find virtio disk''
         else if rd 0x070 AND 8 = 0 then Panic ''virtio disk FEATURES_OK unset''
         else if rd 0x044 \<noteq> 0 then Panic ''virtio disk should not be ready''
         else if rd 0x034 = 0 then Panic ''virtio disk has no queue 0''
         else if rd 0x034 < of_nat NUM then Panic ''virtio disk max queue too short''
         else (case kalloc s of (d, s1) \<Rightarrow> case kalloc s1 of (a, s2) \<Rightarrow> case kalloc s2 of (u, s3) \<Rightarrow>
           if d = 0 \<or> a = 0 \<or> u = 0 then Panic ''virtio disk kalloc''
           else Ok ([(0x070, 0), (0x070, 1), (0x070, 3), (0x020, ucast features), (0x070, 11), (0x030, 0), (0x038, of_nat NUM),
                     (0x080, ucast d), (0x084, ucast (drop_bit 32 d)), (0x090, ucast a), (0x094, ucast (drop_bit 32 a)),
                     (0x0a0, ucast u), (0x0a4, ucast (drop_bit 32 u)), (0x044, 1), (0x070, rd 0x070 OR 4)],
                    (d, a, u),
                    s3\<lparr>mem := memset (memset (memset (mem s3) d 0 4096) a 0 4096) u 0 4096,
                       desc := replicate NUM \<lparr>daddr = AddrNone, dlen = 0, dflags = 0, dnext = 0\<rparr>,
                       vfree := replicate NUM True, avail_ring := replicate NUM 0, avail_idx := 0,
                       used_ring := replicate NUM 0, dev_idx := 0\<rparr>)))"

section \<open>Descriptors\<close>

fun first_free :: "nat list \<Rightarrow> bool list \<Rightarrow> nat option" where
  "first_free [] fr = None"
| "first_free (i # is) fr = (if fr ! i then Some i else first_free is fr)"

definition alloc_desc :: "'a vstate_scheme \<Rightarrow> nat option \<times> 'a vstate_scheme" where
  "alloc_desc s = (case first_free [0..<NUM] (vfree s) of
       Some i \<Rightarrow> (Some i, s\<lparr>vfree := (vfree s)[i := False]\<rparr>) | None \<Rightarrow> (None, s))"

definition free_desc :: "nat \<Rightarrow> nat \<Rightarrow> 'a vstate_scheme \<Rightarrow> 'a vstate_scheme res" where
  "free_desc me i s =
     (if i \<ge> NUM then Panic ''free_desc 1''
      else if vfree s ! i then Panic ''free_desc 2''
      else Ok (wakeup (Some me) free_chan
             (s\<lparr>desc := (desc s)[i := \<lparr>daddr = AddrNone, dlen = 0, dflags = 0, dnext = 0\<rparr>], vfree := (vfree s)[i := True]\<rparr>)))"

text \<open>The loop of \<open>free_chain\<close>: a chain is no longer than the table, since a descriptor is not freed twice.\<close>

fun free_chain_loop :: "nat \<Rightarrow> nat \<Rightarrow> nat \<Rightarrow> 'a vstate_scheme \<Rightarrow> 'a vstate_scheme res" where
  "free_chain_loop 0 me i s = Stuck"
| "free_chain_loop (Suc k) me i s =
     (let flag = dflags (desc s ! i); nxt = dnext (desc s ! i)
      in rbind (free_desc me i s) (\<lambda>s1.
           if flag AND VRING_DESC_F_NEXT \<noteq> 0 then free_chain_loop k me (unat nxt) s1 else Ok s1))"

definition free_chain :: "nat \<Rightarrow> nat \<Rightarrow> 'a vstate_scheme \<Rightarrow> 'a vstate_scheme res" where
  "free_chain me i s = free_chain_loop (NUM + 1) me i s"

fun free_descs :: "nat \<Rightarrow> nat list \<Rightarrow> 'a vstate_scheme \<Rightarrow> 'a vstate_scheme res" where
  "free_descs me [] s = Ok s"
| "free_descs me (i # is) s = rbind (free_desc me i s) (\<lambda>s1. free_descs me is s1)"

text \<open>The loop of \<open>alloc3_desc\<close> with \<open>n\<close> descriptors to go and those in \<open>got\<close>.\<close>

fun alloc_loop :: "nat \<Rightarrow> nat \<Rightarrow> nat list \<Rightarrow> 'a vstate_scheme \<Rightarrow> (nat list option \<times> 'a vstate_scheme) res" where
  "alloc_loop 0 me got s = Ok (Some got, s)"
| "alloc_loop (Suc n) me got s =
     (case alloc_desc s of
        (Some i, s1) \<Rightarrow> alloc_loop n me (got @ [i]) s1
      | (None, s1) \<Rightarrow> rbind (free_descs me got s1) (\<lambda>s2. Ok (None, s2)))"

definition alloc3_desc :: "nat \<Rightarrow> 'a vstate_scheme \<Rightarrow> (nat list option \<times> 'a vstate_scheme) res" where
  "alloc3_desc me s = alloc_loop 3 me [] s"

section \<open>A request\<close>

text \<open>The chain of a request for buffer \<open>b\<close>, handed to the device.  The sector number is computed in 32 bits.\<close>

definition put_request :: "nat \<Rightarrow> bool \<Rightarrow> nat \<Rightarrow> nat \<Rightarrow> nat \<Rightarrow> 'a vstate_scheme \<Rightarrow> 'a vstate_scheme" where
  "put_request b write i0 i1 i2 s =
     s\<lparr>ops := (ops s)[i0 := \<lparr>rtype = (if write then 1 else 0), reserved = 0, sector = ucast (blockno (bufs s ! b) * 2)\<rparr>],
       desc := (desc s)[i0 := \<lparr>daddr = AddrOps i0, dlen = 16, dflags = VRING_DESC_F_NEXT, dnext = of_nat i1\<rparr>,
                        i1 := \<lparr>daddr = AddrData b, dlen = 1024,
                               dflags = (if write then 0 else VRING_DESC_F_WRITE) OR VRING_DESC_F_NEXT, dnext = of_nat i2\<rparr>,
                        i2 := \<lparr>daddr = AddrStatus i0, dlen = 1, dflags = VRING_DESC_F_WRITE, dnext = 0\<rparr>],
       info_status := (info_status s)[i0 := 0xff],
       b_disk := (b_disk s)(b := True),
       info_b := (info_b s)[i0 := Some b],
       avail_ring := (avail_ring s)[unat (avail_idx s) mod NUM := of_nat i0],
       avail_idx := avail_idx s + 1\<rparr>"

text \<open>\<open>virtio_disk_rw\<close> up to its sleep: for descriptors (\<open>None\<close>, the call starts over when it wakes up) or for
  the end of the request with this head.\<close>

definition virtio_disk_rw :: "nat \<Rightarrow> nat \<Rightarrow> bool \<Rightarrow> 'a vstate_scheme \<Rightarrow> (nat option \<times> 'a vstate_scheme) res" where
  "virtio_disk_rw me b write s =
     rbind (alloc3_desc me s) (\<lambda>(r, s1). case r of
         None \<Rightarrow> Ok (None, sleep_enter me free_chan s1)
       | Some idx \<Rightarrow> Ok (Some (idx ! 0), sleep_enter me (io_chan b) (put_request b write (idx ! 0) (idx ! 1) (idx ! 2) s1)))"

text \<open>From a wakeup on: sleep again, or free the chain and return.\<close>

definition virtio_disk_resume :: "nat \<Rightarrow> nat \<Rightarrow> nat \<Rightarrow> 'a vstate_scheme \<Rightarrow> (bool \<times> 'a vstate_scheme) res" where
  "virtio_disk_resume me b i0 s =
     (let s1 = sleep_leave me s
      in if b_disk s1 b then Ok (False, sleep_enter me (io_chan b) s1)
         else rbind (free_chain me i0 (s1\<lparr>info_b := (info_b s1)[i0 := None]\<rparr>)) (\<lambda>s2. Ok (True, s2)))"

text \<open>The interrupt: the entries of the used ring that were not seen before.\<close>

fun intr_loop :: "nat \<Rightarrow> nat option \<Rightarrow> 'a vstate_scheme \<Rightarrow> 'a vstate_scheme res" where
  "intr_loop 0 me s = Ok s"
| "intr_loop (Suc n) me s =
     (let id = unat (used_ring s ! (unat (used_idx s) mod NUM))
      in if id \<ge> NUM then Stuck
         else if info_status s ! id \<noteq> 0 then Panic ''virtio_disk_intr status''
         else (case info_b s ! id of None \<Rightarrow> Stuck | Some b \<Rightarrow>
           (let s1 = wakeup me (io_chan b) (s\<lparr>b_disk := (b_disk s)(b := False)\<rparr>)
            in intr_loop n me (s1\<lparr>used_idx := used_idx s1 + 1\<rparr>))))"

definition virtio_disk_intr :: "nat option \<Rightarrow> 'a vstate_scheme \<Rightarrow> 'a vstate_scheme res" where
  "virtio_disk_intr me s = intr_loop (unat (dev_idx s - used_idx s)) me s"

section \<open>The device\<close>

text \<open>
  The device, as the virtio specification describes the split ring and a block request.  It keeps the index \<open>da\<close> of
  the next entry of the available ring it looks at and the heads \<open>hs\<close> of the requests it has fetched and not finished.
  It fetches a head when \<open>da\<close> differs from the driver's index; it finishes fetched requests in any order.

  \<open>device_done st h s\<close> finishes the request with head \<open>h\<close> with status \<open>st\<close>.  It reads nothing but the queue memory:
  from the head a 16-byte read-only command, then 1024 bytes that it may write exactly if the command is a read, then one
  byte that it may write; anything else is outside the specification, and the result is \<open>None\<close>.  With status 0 the block
  is transferred, otherwise the disk and the buffer are as before; the head enters the used ring.
\<close>

definition well_formed :: "virtq_desc \<Rightarrow> virtq_desc \<Rightarrow> virtq_desc \<Rightarrow> virtio_blk_req \<Rightarrow> bool" where
  "well_formed d0 d1 d2 rq \<longleftrightarrow>
     dlen d0 = 16 \<and> dflags d0 = VRING_DESC_F_NEXT \<and>
     dlen d1 = 1024 \<and> (rtype rq = 0 \<and> dflags d1 = 3 \<or> rtype rq = 1 \<and> dflags d1 = VRING_DESC_F_NEXT) \<and>
     dlen d2 = 1 \<and> dflags d2 = VRING_DESC_F_WRITE \<and>
     reserved rq = 0 \<and> sector rq = 2 * ucast (ucast (drop_bit 1 (sector rq)) :: u32)"

definition device_done :: "u8 \<Rightarrow> nat \<Rightarrow> 'a vstate_scheme \<Rightarrow> 'a vstate_scheme option" where
  "device_done st h s =
     (let d0 = desc s ! h; d1 = desc s ! unat (dnext d0); d2 = desc s ! unat (dnext d1)
      in if h \<ge> NUM \<or> unat (dnext d0) \<ge> NUM \<or> unat (dnext d1) \<ge> NUM then None
         else case (daddr d0, daddr d1, daddr d2) of
           (AddrOps r, AddrData b, AddrStatus q) \<Rightarrow>
             (let rq = ops s ! r; bno = ucast (drop_bit 1 (sector rq)) :: u32;
                  s1 = (if st \<noteq> 0 then s
                        else if rtype rq = 1
                        then s\<lparr>disk := (disk s)(bno := bdata (bufs s ! b)), disk_trace := disk_trace s @ [(bno, bdata (bufs s ! b))]\<rparr>
                        else upd_buf b (\<lambda>x. x\<lparr>bdata := disk s bno\<rparr>) s)
              in if well_formed d0 d1 d2 rq
                 then Some (s1\<lparr>info_status := (info_status s)[q := st],
                               used_ring := (used_ring s)[unat (dev_idx s) mod NUM := of_nat h], dev_idx := dev_idx s + 1\<rparr>)
                 else None)
         | _ \<Rightarrow> None)"

text \<open>The entries of a ring from index \<open>lo\<close> up to index \<open>hi\<close>; those the driver has made available and the device
  has not fetched; those the device has finished and the interrupt handler has not seen.\<close>

definition ring_window :: "'l::len word list \<Rightarrow> u16 \<Rightarrow> u16 \<Rightarrow> nat list" where
  "ring_window ring lo hi = map (\<lambda>k. unat (ring ! (unat (lo + of_nat k) mod NUM))) [0..<unat (hi - lo)]"

definition avail_queue :: "u16 \<Rightarrow> 'a vstate_scheme \<Rightarrow> nat list" where
  "avail_queue da s = ring_window (avail_ring s) da (avail_idx s)"

definition used_queue :: "'a vstate_scheme \<Rightarrow> nat list" where
  "used_queue s = ring_window (used_ring s) (used_idx s) (dev_idx s)"

section \<open>Requests in flight\<close>

text \<open>What a process asleep in \<open>virtio_disk_rw\<close> remembers: its three descriptors \<open>idx\<close> and its buffer.\<close>

record request =
  r0 :: nat
  r1 :: nat
  r2 :: nat
  rbuf :: nat

definition chain :: "request \<Rightarrow> nat list" where
  "chain r = [r0 r, r1 r, r2 r]"

text \<open>The descriptors linked from a head.\<close>

definition chain_of :: "'a vstate_scheme \<Rightarrow> nat \<Rightarrow> nat list" where
  "chain_of s h = (let i1 = unat (dnext (desc s ! h)) in [h, i1, unat (dnext (desc s ! i1))])"

definition request_of :: "'a vstate_scheme \<Rightarrow> nat \<Rightarrow> nat \<Rightarrow> request" where
  "request_of s h b = (let c = chain_of s h in \<lparr>r0 = c ! 0, r1 = c ! 1, r2 = c ! 2, rbuf = b\<rparr>)"

text \<open>The driver with its device: processes start requests for buffers without one (each holds the sleep lock of
  its buffer) or wait for descriptors, the device fetches heads and finishes requests in any order with any status,
  interrupts come at any time, a sleeping process may be woken at any time and returns if its buffer is done, and other
  kernel code runs in between without touching the driver's state.\<close>

inductive driver :: "u16 \<Rightarrow> nat list \<Rightarrow> request list \<Rightarrow> vstate \<Rightarrow> bool" where
  boot: "length (desc s) = NUM \<Longrightarrow> vfree s = replicate NUM True \<Longrightarrow> length (avail_ring s) = NUM \<Longrightarrow> length (used_ring s) = NUM \<Longrightarrow>
    length (info_b s) = NUM \<Longrightarrow> length (info_status s) = NUM \<Longrightarrow> length (ops s) = NUM \<Longrightarrow> used_idx s = dev_idx s \<Longrightarrow>
    driver (avail_idx s) [] [] s"
| start: "driver da hs rs s \<Longrightarrow> b \<notin> rbuf ` set rs \<Longrightarrow> virtio_disk_rw me b write s = Ok (Some h, s') \<Longrightarrow>
    driver da hs (rs @ [request_of s' h b]) s'"
| wait: "driver da hs rs s \<Longrightarrow> virtio_disk_rw me b write s = Ok (None, s') \<Longrightarrow> driver da hs rs s'"
| fetch: "driver da hs rs s \<Longrightarrow> da \<noteq> avail_idx s \<Longrightarrow>
    driver (da + 1) (hs @ [unat (avail_ring s ! (unat da mod NUM))]) rs s"
| complete: "driver da hs rs s \<Longrightarrow> h \<in> set hs \<Longrightarrow> device_done st h s = Some s' \<Longrightarrow> driver da (remove1 h hs) rs s'"
| interrupt: "driver da hs rs s \<Longrightarrow> virtio_disk_intr me s = Ok s' \<Longrightarrow> driver da hs rs s'"
| woken: "driver da hs rs s \<Longrightarrow> i < length rs \<Longrightarrow> virtio_disk_resume me (rbuf (rs ! i)) (r0 (rs ! i)) s = Ok (False, s') \<Longrightarrow>
    driver da hs rs s'"
| finish: "driver da hs rs s \<Longrightarrow> i < length rs \<Longrightarrow> virtio_disk_resume me (rbuf (rs ! i)) (r0 (rs ! i)) s = Ok (True, s') \<Longrightarrow>
    driver da hs (take i rs @ drop (Suc i) rs) s'"
| other: "driver da hs rs s \<Longrightarrow> bstate.more s' = bstate.more s \<Longrightarrow> driver da hs rs s'"

text \<open>A request is in place: its chain, its command and its entry in \<open>info\<close>.\<close>

definition in_place :: "'a vstate_scheme \<Rightarrow> request \<Rightarrow> bool" where
  "in_place s r \<longleftrightarrow>
     daddr (desc s ! r0 r) = AddrOps (r0 r) \<and> unat (dnext (desc s ! r0 r)) = r1 r \<and>
     daddr (desc s ! r1 r) = AddrData (rbuf r) \<and> unat (dnext (desc s ! r1 r)) = r2 r \<and>
     daddr (desc s ! r2 r) = AddrStatus (r0 r) \<and> well_formed (desc s ! r0 r) (desc s ! r1 r) (desc s ! r2 r) (ops s ! r0 r) \<and>
     info_b s ! r0 r = Some (rbuf r)"

text \<open>The heads of the requests that are not done yet: available, with the device, or finished by it.\<close>

definition queued :: "u16 \<Rightarrow> nat list \<Rightarrow> 'a vstate_scheme \<Rightarrow> nat list" where
  "queued da hs s = avail_queue da s @ hs @ used_queue s"

definition unfinished :: "request list \<Rightarrow> 'a vstate_scheme \<Rightarrow> nat set" where
  "unfinished rs s = r0 ` {r \<in> set rs. b_disk s (rbuf r)}"

definition driver_inv :: "u16 \<Rightarrow> nat list \<Rightarrow> request list \<Rightarrow> 'a vstate_scheme \<Rightarrow> bool" where
  "driver_inv da hs rs s \<longleftrightarrow>
     length (desc s) = NUM \<and> length (vfree s) = NUM \<and> length (avail_ring s) = NUM \<and> length (used_ring s) = NUM \<and>
     length (info_b s) = NUM \<and> length (info_status s) = NUM \<and> length (ops s) = NUM \<and>
     distinct (concat (map chain rs)) \<and> (\<forall>i<NUM. vfree s ! i \<longleftrightarrow> i \<notin> set (concat (map chain rs))) \<and>
     set (concat (map chain rs)) \<subseteq> {..<NUM} \<and> distinct (map rbuf rs) \<and> (\<forall>r\<in>set rs. in_place s r) \<and>
     distinct (queued da hs s) \<and> set (queued da hs s) = unfinished rs s"

lemma vfields:
  assumes "bstate.more s' = bstate.more s"
  shows "desc s' = desc s" "vfree s' = vfree s" "avail_ring s' = avail_ring s" "avail_idx s' = avail_idx s" "used_ring s' = used_ring s"
    "dev_idx s' = dev_idx s" "used_idx s' = used_idx s" "info_b s' = info_b s" "info_status s' = info_status s" "ops s' = ops s"
    "b_disk s' = b_disk s"
  using assms by (cases s; cases s'; simp)+

lemma in_place_more: "bstate.more s' = bstate.more s \<Longrightarrow> in_place s' r = in_place s r"
  using vfields[of s' s] by (simp add: in_place_def)

lemma queued_more: "bstate.more s' = bstate.more s \<Longrightarrow> queued da hs s' = queued da hs s"
  using vfields[of s' s] by (simp add: queued_def avail_queue_def used_queue_def)

lemma driver_inv_more: "bstate.more s' = bstate.more s \<Longrightarrow> driver_inv da hs rs s' = driver_inv da hs rs s"
  using vfields[of s' s] in_place_more[of s' s] queued_more[of s' s] by (simp add: driver_inv_def unfinished_def)

lemma wakeup_vmore [simp]: "bstate.more (wakeup me ch s) = bstate.more s" "bstate.more (sleep_enter p ch s) = bstate.more s"
  "bstate.more (sleep_leave p s) = bstate.more s"
  by (intro bstate_more_kstate; simp add: sleep_enter_def sleep_leave_def)+

lemmas wakeup_vfields [simp] = vfields[OF wakeup_vmore(1)] vfields[OF wakeup_vmore(2)] vfields[OF wakeup_vmore(3)]

section \<open>Rings\<close>

lemma ring_index: "unat ((w :: u16) + of_nat k) mod NUM = (unat w + k) mod NUM"
proof -
  have c: "x mod 65536 mod 8 = x mod (8 :: nat)" for x by (rule mod_mod_cancel) simp
  have 1: "unat (w + of_nat k) = (unat w + unat (of_nat k :: u16)) mod 65536" by (simp add: unat_word_ariths(1))
  have 2: "unat (of_nat k :: u16) = k mod 65536" by (simp add: unat_of_nat take_bit_eq_mod)
  have "unat (w + of_nat k) mod 8 = (unat w + k mod 65536) mod 8" unfolding 1 2 c ..
  also have "\<dots> = (unat w + k mod 65536 mod 8) mod 8" by (rule mod_add_right_eq[symmetric])
  also have "\<dots> = (unat w + k) mod 8" unfolding c by (rule mod_add_right_eq)
  finally show ?thesis .
qed

lemma shift_mod_neq: "l < k \<Longrightarrow> k < NUM \<Longrightarrow> (a + k) mod NUM \<noteq> (a + l) mod (NUM :: nat)"
proof
  assume kl: "l < k" "k < NUM" and e: "(a + k) mod NUM = (a + l) mod NUM"
  have "NUM dvd (a + k) - (a + l)" using kl(1) e mod_eq_dvd_iff_nat[of "a + l" "a + k" NUM] by simp
  then have "NUM dvd k - l" by simp
  then show False using kl nat_dvd_not_less[of "k - l" NUM] by simp
qed

lemma ring_window_empty [simp]: "ring_window ring lo lo = []"
  by (simp add: ring_window_def)

lemma length_ring_window: "length (ring_window ring lo hi) = unat (hi - lo)"
  by (simp add: ring_window_def)

text \<open>An entry added at the end, as long as the ring is not full, and an entry taken from the front.\<close>

lemma ring_window_push:
  assumes "length ring = NUM" "length (ring_window ring lo hi) < NUM"
  shows "ring_window (ring[unat hi mod NUM := v]) lo (hi + 1) = ring_window ring lo hi @ [unat v]"
proof -
  define n where "n = unat (hi - lo)"
  have n: "n < NUM" using assms(2) by (simp add: length_ring_window n_def)
  have hi: "hi = lo + of_nat n" by (simp add: n_def)
  have "hi + 1 - lo = of_nat (Suc n)" unfolding hi by simp
  then have n': "unat (hi + 1 - lo) = Suc n" using n by (simp add: unat_of_nat take_bit_eq_mod del: of_nat_Suc)
  have "unat hi mod NUM \<noteq> unat (lo + of_nat k) mod NUM" if "k < n" for k
    unfolding hi ring_index by (rule shift_mod_neq[OF that n])
  then show ?thesis
    unfolding ring_window_def n' n_def[symmetric] using assms(1) hi by simp
qed

lemma ring_window_pop:
  assumes "lo \<noteq> hi"
  shows "ring_window ring lo hi = unat (ring ! (unat lo mod NUM)) # ring_window ring (lo + 1) hi"
proof -
  have e: "hi - (lo + 1) = hi - lo - 1" by simp
  have "hi - lo \<noteq> 0" using assms by simp
  then have n: "unat (hi - lo) = Suc (unat (hi - (lo + 1)))" unfolding e by (simp add: unat_minus_one word_neq_0_conv unat_gt_0)
  have "ring_window ring lo hi = unat (ring ! (unat lo mod NUM)) #
      map (\<lambda>k. unat (ring ! (unat (lo + of_nat (Suc k)) mod NUM))) [0..<unat (hi - (lo + 1))]"
    unfolding ring_window_def n upt_conv_Cons[OF zero_less_Suc] list.map map_Suc_upt[symmetric] by (simp add: o_def)
  then show ?thesis by (simp add: ring_window_def add.assoc)
qed

section \<open>Allocation\<close>

text \<open>Everything of the driver but the descriptor table and its free marks.\<close>

definition same_rings :: "'a vstate_scheme \<Rightarrow> 'a vstate_scheme \<Rightarrow> bool" where
  "same_rings s s' \<longleftrightarrow> avail_ring s' = avail_ring s \<and> avail_idx s' = avail_idx s \<and> used_ring s' = used_ring s \<and> dev_idx s' = dev_idx s \<and>
     used_idx s' = used_idx s \<and> info_b s' = info_b s \<and> info_status s' = info_status s \<and> ops s' = ops s \<and> b_disk s' = b_disk s \<and>
     length (desc s') = length (desc s) \<and> length (vfree s') = length (vfree s)"

lemma same_rings_trans: "same_rings s t \<Longrightarrow> same_rings t u \<Longrightarrow> same_rings s u"
  by (simp add: same_rings_def)

lemma first_free_Some: "first_free is fr = Some i \<Longrightarrow> i \<in> set is \<and> fr ! i"
  by (induction "is") (auto split: if_splits)

lemma first_free_None: "first_free is fr = None \<Longrightarrow> \<forall>i\<in>set is. \<not> fr ! i"
  by (induction "is") (auto split: if_splits)

lemma free_desc_spec:
  assumes "i < NUM" "\<not> vfree s ! i" "length (vfree s) = NUM"
  shows "\<exists>s'. free_desc me i s = Ok s' \<and> same_rings s s' \<and> vfree s' = (vfree s)[i := True] \<and>
     desc s' = (desc s)[i := \<lparr>daddr = AddrNone, dlen = 0, dflags = 0, dnext = 0\<rparr>]"
  using assms by (simp add: free_desc_def same_rings_def)

lemma free_descs_spec:
  assumes "distinct is" "\<forall>i\<in>set is. i < NUM \<and> \<not> vfree s ! i" "length (vfree s) = NUM"
  shows "\<exists>s'. free_descs me is s = Ok s' \<and> same_rings s s' \<and> (\<forall>j<NUM. vfree s' ! j \<longleftrightarrow> vfree s ! j \<or> j \<in> set is) \<and>
     (\<forall>j. j \<notin> set is \<longrightarrow> desc s' ! j = desc s ! j)"
  using assms
proof (induction "is" arbitrary: s)
  case Nil
  then show ?case by (simp add: same_rings_def)
next
  case (Cons i "is")
  obtain s1 where s1: "free_desc me i s = Ok s1" "same_rings s s1" "vfree s1 = (vfree s)[i := True]"
    "desc s1 = (desc s)[i := \<lparr>daddr = AddrNone, dlen = 0, dflags = 0, dnext = 0\<rparr>]"
    using free_desc_spec[of i s me] Cons.prems by auto
  have pre: "distinct is" "\<forall>j\<in>set is. j < NUM \<and> \<not> vfree s1 ! j" "length (vfree s1) = NUM"
    using Cons.prems s1(3) by (auto simp: nth_list_update)
  obtain s' where s': "free_descs me is s1 = Ok s'" "same_rings s1 s'" "\<forall>j<NUM. vfree s' ! j \<longleftrightarrow> vfree s1 ! j \<or> j \<in> set is"
    "\<forall>j. j \<notin> set is \<longrightarrow> desc s' ! j = desc s1 ! j" using Cons.IH[OF pre] by blast
  have "\<forall>j<NUM. vfree s' ! j \<longleftrightarrow> vfree s ! j \<or> j \<in> set (i # is)" using s'(3) s1(3) Cons.prems(2,3) by (auto simp: nth_list_update)
  moreover have "\<forall>j. j \<notin> set (i # is) \<longrightarrow> desc s' ! j = desc s ! j" using s'(4) s1(4) by auto
  ultimately show ?case using s1(1) s'(1) same_rings_trans[OF s1(2) s'(2)] by simp
qed

lemma alloc_loop_spec:
  assumes "distinct got" "\<forall>i\<in>set got. i < NUM \<and> \<not> vfree s ! i" "length (vfree s) = NUM"
  shows "(\<exists>new s'. alloc_loop n me got s = Ok (Some (got @ new), s') \<and> length new = n \<and> distinct new \<and>
       (\<forall>i\<in>set new. i < NUM \<and> vfree s ! i) \<and> same_rings s s' \<and> desc s' = desc s \<and>
       bstate.truncate s' = bstate.truncate s \<and> (\<forall>j<NUM. vfree s' ! j \<longleftrightarrow> vfree s ! j \<and> j \<notin> set new)) \<or>
     (\<exists>s'. alloc_loop n me got s = Ok (None, s') \<and> same_rings s s' \<and> (\<forall>j<NUM. vfree s' ! j \<longleftrightarrow> vfree s ! j \<or> j \<in> set got) \<and>
       (\<forall>j<NUM. \<not> vfree s' ! j \<longrightarrow> desc s' ! j = desc s ! j))"
  using assms
proof (induction n arbitrary: got s)
  case 0
  then show ?case by (simp add: same_rings_def)
next
  case (Suc n)
  show ?case
  proof (cases "first_free [0..<NUM] (vfree s)")
    case None
    then have a: "alloc_desc s = (None, s)" by (simp add: alloc_desc_def)
    obtain s' where s': "free_descs me got s = Ok s'" "same_rings s s'" "\<forall>j<NUM. vfree s' ! j \<longleftrightarrow> vfree s ! j \<or> j \<in> set got"
      "\<forall>j. j \<notin> set got \<longrightarrow> desc s' ! j = desc s ! j"
      using free_descs_spec[OF Suc.prems] by blast
    have "\<forall>j<NUM. \<not> vfree s' ! j \<longrightarrow> desc s' ! j = desc s ! j" using s'(3,4) by blast
    then show ?thesis using a s' by simp
  next
    case (Some i)
    let ?s = "s\<lparr>vfree := (vfree s)[i := False]\<rparr>"
    have i: "i < NUM" "vfree s ! i" using first_free_Some[OF Some] by auto
    have a: "alloc_desc s = (Some i, ?s)" by (simp add: alloc_desc_def Some)
    have pre: "distinct (got @ [i])" "\<forall>j\<in>set (got @ [i]). j < NUM \<and> \<not> vfree ?s ! j" "length (vfree ?s) = NUM"
      using Suc.prems i by (auto simp: nth_list_update)
    have sr: "same_rings s ?s" by (simp add: same_rings_def)
    have e: "alloc_loop (Suc n) me got s = alloc_loop n me (got @ [i]) ?s" using a by simp
    from Suc.IH[OF pre] show ?thesis
    proof (elim disjE exE conjE)
      fix new s' assume h: "alloc_loop n me (got @ [i]) ?s = Ok (Some ((got @ [i]) @ new), s')" "length new = n" "distinct new"
        "\<forall>j\<in>set new. j < NUM \<and> vfree ?s ! j" "same_rings ?s s'" "desc s' = desc ?s" "bstate.truncate s' = bstate.truncate ?s"
        "\<forall>j<NUM. vfree s' ! j \<longleftrightarrow> vfree ?s ! j \<and> j \<notin> set new"
      have ni: "i \<notin> set new" using h(4) i Suc.prems(3) by auto
      have vn: "\<forall>j\<in>set new. j < NUM \<and> vfree s ! j" using h(4) Suc.prems(3) i by (auto simp: nth_list_update split: if_splits)
      have vf: "\<forall>j<NUM. vfree s' ! j \<longleftrightarrow> vfree s ! j \<and> j \<notin> set (i # new)" using h(8) Suc.prems(3) i by (auto simp: nth_list_update)
      have "alloc_loop (Suc n) me got s = Ok (Some (got @ (i # new)), s')" using e h(1) by simp
      moreover have "distinct (i # new)" using ni h(3) by simp
      moreover have "bstate.truncate s' = bstate.truncate s" using h(7) by (simp add: bstate.truncate_def)
      moreover have "\<forall>j\<in>set (i # new). j < NUM \<and> vfree s ! j" using vn i by simp
      ultimately show ?thesis using h(2,6) vf same_rings_trans[OF sr h(5)]
        by (intro disjI1 exI[of _ "i # new"] exI[of _ s']) simp
    next
      fix s' assume h: "alloc_loop n me (got @ [i]) ?s = Ok (None, s')" "same_rings ?s s'"
        "\<forall>j<NUM. vfree s' ! j \<longleftrightarrow> vfree ?s ! j \<or> j \<in> set (got @ [i])" "\<forall>j<NUM. \<not> vfree s' ! j \<longrightarrow> desc s' ! j = desc ?s ! j"
      have "\<forall>j<NUM. vfree s' ! j \<longleftrightarrow> vfree s ! j \<or> j \<in> set got" using h(3) i Suc.prems(3) by (auto simp: nth_list_update)
      then show ?thesis using e h(1,4) same_rings_trans[OF sr h(2)] by (intro disjI2 exI[of _ s']) simp
    qed
  qed
qed

section \<open>The invariant is kept\<close>

lemma length_chains: "length (concat (map chain rs)) = 3 * length rs"
  by (induction rs) (auto simp: chain_def)

lemma requests_bound:
  assumes "driver_inv da hs rs s"
  shows "length rs \<le> 2"
proof -
  have "card (set (concat (map chain rs))) \<le> card {..<NUM}"
    using assms by (intro card_mono) (simp_all add: driver_inv_def)
  moreover have "card (set (concat (map chain rs))) = 3 * length rs"
    using assms length_chains[of rs] distinct_card unfolding driver_inv_def by metis
  ultimately show ?thesis by simp
qed

text \<open>So neither ring is ever full.\<close>

lemma queued_bound:
  assumes inv: "driver_inv da hs rs s"
  shows "length (queued da hs s) \<le> 2"
proof -
  have "card (unfinished rs s) \<le> card (set rs)"
    unfolding unfinished_def by (rule order.trans[OF card_image_le card_mono]) auto
  also have "\<dots> \<le> length rs" by (rule card_length)
  finally have "card (set (queued da hs s)) \<le> 2" using inv requests_bound[OF inv] by (simp add: driver_inv_def)
  moreover have "distinct (queued da hs s)" using inv by (simp add: driver_inv_def)
  ultimately show ?thesis by (simp add: distinct_card)
qed

lemma chain_member: "r \<in> set rs \<Longrightarrow> r0 r \<in> set (concat (map chain rs)) \<and> r1 r \<in> set (concat (map chain rs)) \<and> r2 r \<in> set (concat (map chain rs))"
  by (auto simp: chain_def)

lemma chain_bounds: "driver_inv da hs rs s \<Longrightarrow> r \<in> set rs \<Longrightarrow> r0 r < NUM \<and> r1 r < NUM \<and> r2 r < NUM"
  using chain_member[of r rs] unfolding driver_inv_def by blast

text \<open>Two requests have no descriptor in common.\<close>

lemma chains_apart:
  assumes "distinct (concat (map chain rs))" "r \<in> set rs" "q \<in> set rs" "x \<in> set (chain r)" "x \<in> set (chain q)"
  shows "r = q"
  using assms
proof (induction rs)
  case (Cons p ps)
  then have d: "set (chain p) \<inter> set (concat (map chain ps)) = {}" "distinct (concat (map chain ps))" by auto
  show ?case using Cons.prems Cons.IH[OF d(2)] d(1) by auto
qed simp

lemma chain_distinct: "distinct (concat (map chain rs)) \<Longrightarrow> r \<in> set rs \<Longrightarrow> distinct (chain r)"
  by (induction rs) auto

lemma r0_inj:
  assumes "driver_inv da hs rs s" "r \<in> set rs" "q \<in> set rs" "r0 r = r0 q"
  shows "r = q"
  using chains_apart[of rs r q "r0 r"] assms by (simp add: driver_inv_def chain_def)

lemma rbuf_inj:
  assumes "driver_inv da hs rs s" "r \<in> set rs" "q \<in> set rs" "rbuf r = rbuf q"
  shows "r = q"
  using assms by (auto simp: driver_inv_def distinct_map inj_on_def)

text \<open>A head in one of the queues is the head of a request whose buffer is with the disk.\<close>

lemma queued_request:
  assumes "driver_inv da hs rs s" "h \<in> set (queued da hs s)"
  obtains r where "r \<in> set rs" "r0 r = h" "b_disk s (rbuf r)" "in_place s r"
  using assms unfolding driver_inv_def unfinished_def by auto

lemma in_place_fields:
  assumes "in_place s r" "\<forall>x\<in>set (chain r). desc s' ! x = desc s ! x" "info_b s' ! r0 r = info_b s ! r0 r" "ops s' ! r0 r = ops s ! r0 r"
  shows "in_place s' r"
  using assms by (simp add: in_place_def chain_def)

lemma in_place_chain: "in_place s r \<Longrightarrow> chain_of s (r0 r) = chain r"
  by (simp add: in_place_def chain_of_def chain_def)

lemma even_sector: "(ucast (x * 2) :: u64) = 2 * ucast (ucast (drop_bit 1 (ucast (x * 2) :: u64)) :: u32)" for x :: u32
proof -
  define y where "y = unat (x * 2)"
  have up: "unat (ucast z :: u64) = unat z" for z :: u32
    using unsigned_less[where 'a=nat, of z] by (simp add: unsigned_ucast_eq take_bit_eq_mod)
  have e: "even y" by (simp add: y_def unat_word_ariths dvd_mod_iff)
  have l: "y < 2 ^ 32" using unsigned_less[where w = "x * 2"] by (simp add: y_def)
  have 1: "unat (ucast (x * 2) :: u64) = y" by (simp add: y_def up)
  then have "unat (drop_bit 1 (ucast (x * 2) :: u64)) = y div 2" by (simp add: drop_bit_eq_div unat_div)
  then have "unat (ucast (drop_bit 1 (ucast (x * 2) :: u64)) :: u32) = y div 2"
    using l by (simp add: unsigned_ucast_eq take_bit_eq_mod)
  then have "unat (ucast (ucast (drop_bit 1 (ucast (x * 2) :: u64)) :: u32) :: u64) = y div 2" by (simp add: up)
  then have "unat (2 * ucast (ucast (drop_bit 1 (ucast (x * 2) :: u64)) :: u32) :: u64) = y"
    using e l by (simp add: unat_word_ariths)
  then show ?thesis using 1 by (simp add: word_unat_eq_iff)
qed

lemma put_request_inv:
  assumes inv: "driver_inv da hs rs s" and b: "b \<notin> rbuf ` set rs" and s1: "same_rings s s1" "desc s1 = desc s"
    and v: "\<forall>j<NUM. vfree s1 ! j \<longleftrightarrow> vfree s ! j \<and> j \<notin> {i0, i1, i2}" and d: "distinct [i0, i1, i2]"
    and f: "\<forall>j\<in>{i0, i1, i2}. j < NUM \<and> vfree s ! j"
  shows "driver_inv da hs (rs @ [\<lparr>r0 = i0, r1 = i1, r2 = i2, rbuf = b\<rparr>]) (put_request b write i0 i1 i2 s1) \<and>
    avail_queue da (put_request b write i0 i1 i2 s1) = avail_queue da s @ [i0]"
    (is "driver_inv da hs (rs @ [?r]) ?s \<and> _")
proof -
  have len: "length (desc s) = NUM" "length (vfree s1) = NUM" "length (info_b s1) = NUM" "length (info_status s1) = NUM"
    "length (ops s1) = NUM" "length (avail_ring s1) = NUM" "length (used_ring s1) = NUM"
    using inv s1 by (simp_all add: driver_inv_def same_rings_def)
  have old: "x \<notin> {i0, i1, i2}" if "x \<in> set (concat (map chain rs))" for x
    using that f inv unfolding driver_inv_def by blast
  have small: "unat (of_nat i1 :: u16) = i1" "unat (of_nat i2 :: u16) = i2" "unat (of_nat i0 :: u16) = i0" using f by (auto simp: unat_of_nat)
  have dsc: "desc ?s = (desc s)[i0 := \<lparr>daddr = AddrOps i0, dlen = 16, dflags = VRING_DESC_F_NEXT, dnext = of_nat i1\<rparr>,
                        i1 := \<lparr>daddr = AddrData b, dlen = 1024, dflags = (if write then 0 else VRING_DESC_F_WRITE) OR VRING_DESC_F_NEXT, dnext = of_nat i2\<rparr>,
                        i2 := \<lparr>daddr = AddrStatus i0, dlen = 1, dflags = VRING_DESC_F_WRITE, dnext = 0\<rparr>]"
    by (simp add: put_request_def s1(2))
  have ops: "ops ?s ! i0 = \<lparr>rtype = (if write then 1 else 0), reserved = 0, sector = ucast (blockno (bufs s1 ! b) * 2)\<rparr>"
    using f len by (simp add: put_request_def)
  have wf: "well_formed \<lparr>daddr = AddrOps i0, dlen = 16, dflags = VRING_DESC_F_NEXT, dnext = of_nat i1\<rparr>
      \<lparr>daddr = AddrData b, dlen = 1024, dflags = (if write then 0 else VRING_DESC_F_WRITE) OR VRING_DESC_F_NEXT, dnext = of_nat i2\<rparr>
      \<lparr>daddr = AddrStatus i0, dlen = 1, dflags = VRING_DESC_F_WRITE, dnext = 0\<rparr> (ops ?s ! i0)"
    unfolding ops well_formed_def virtio_blk_req.simps using even_sector[of "blockno (bufs s1 ! b)"] by simp
  have new: "in_place ?s ?r"
    unfolding in_place_def using wf unfolding dsc using d f len small by (auto simp: put_request_def)
  have keep: "in_place ?s r" if "r \<in> set rs" for r
  proof (rule in_place_fields[of s])
    show "in_place s r" using inv that by (simp add: driver_inv_def)
    have m: "x \<in> set (chain r) \<Longrightarrow> x \<notin> {i0, i1, i2}" for x using old[of x] that by auto
    show "\<forall>x\<in>set (chain r). desc ?s ! x = desc s ! x"
    proof
      fix x assume "x \<in> set (chain r)"
      then have "i0 \<noteq> x" "i1 \<noteq> x" "i2 \<noteq> x" using m[of x] by auto
      then show "desc ?s ! x = desc s ! x" unfolding dsc by simp
    qed
    have "r0 r \<noteq> i0" using m[of "r0 r"] by (simp add: chain_def)
    then show "info_b ?s ! r0 r = info_b s ! r0 r" "ops ?s ! r0 r = ops s ! r0 r"
      using s1 by (simp_all add: put_request_def same_rings_def)
  qed
  have "length (avail_queue da s) < NUM" using queued_bound[OF inv] by (simp add: queued_def)
  then have aq: "avail_queue da ?s = avail_queue da s @ [i0]"
    using s1(1) inv small by (simp add: avail_queue_def put_request_def same_rings_def ring_window_push driver_inv_def)
  have uq: "used_queue ?s = used_queue s" using s1(1) by (simp add: used_queue_def put_request_def same_rings_def)
  have "{r \<in> set (rs @ [?r]). b_disk ?s (rbuf r)} = insert ?r {r \<in> set rs. b_disk s (rbuf r)}"
    using b s1(1) by (auto simp: put_request_def same_rings_def)
  then have un: "unfinished (rs @ [?r]) ?s = insert i0 (unfinished rs s)" by (simp add: unfinished_def)
  have ni: "i0 \<notin> unfinished rs s" using old chain_member[of _ rs] unfolding unfinished_def by blast
  have qd: "distinct (queued da hs ?s) \<and> set (queued da hs ?s) = unfinished (rs @ [?r]) ?s"
    unfolding un using inv ni unfolding driver_inv_def queued_def aq uq by auto
  have dc: "distinct (concat (map chain (rs @ [?r])))" using inv old d by (auto simp: driver_inv_def chain_def)
  have vf: "\<forall>i<NUM. vfree ?s ! i \<longleftrightarrow> i \<notin> set (concat (map chain (rs @ [?r])))"
    using inv v by (auto simp: driver_inv_def put_request_def chain_def)
  have sub: "set (concat (map chain (rs @ [?r]))) \<subseteq> {..<NUM}" using inv f by (auto simp: driver_inv_def chain_def)
  have bd: "distinct (map rbuf (rs @ [?r]))" using inv b by (auto simp: driver_inv_def)
  have ls: "length (desc ?s) = NUM" "length (vfree ?s) = NUM" "length (avail_ring ?s) = NUM" "length (used_ring ?s) = NUM"
    "length (info_b ?s) = NUM" "length (info_status ?s) = NUM" "length (ops ?s) = NUM"
    using len s1 by (simp_all add: put_request_def)
  have al: "\<forall>r\<in>set (rs @ [?r]). in_place ?s r" using keep new by simp
  show ?thesis unfolding driver_inv_def using ls dc vf sub bd al qd aq by blast
qed

text \<open>The two outcomes of \<open>virtio_disk_rw\<close>.\<close>

lemma virtio_rw_inv:
  assumes inv: "driver_inv da hs rs s"
  shows "(\<exists>s'. virtio_disk_rw me b write s = Ok (None, s') \<and> driver_inv da hs rs s') \<or>
    (\<exists>i0 s'. virtio_disk_rw me b write s = Ok (Some i0, s') \<and>
       (b \<notin> rbuf ` set rs \<longrightarrow> driver_inv da hs (rs @ [request_of s' i0 b]) s' \<and> avail_queue da s' = avail_queue da s @ [i0]))"
proof -
  have l: "length (vfree s) = NUM" "length (desc s) = NUM" using inv by (simp_all add: driver_inv_def)
  have "distinct []" "\<forall>i\<in>set []. i < NUM \<and> \<not> vfree s ! i" by simp_all
  from alloc_loop_spec[OF this l(1), where me = me and n = 3] show ?thesis
  proof (elim disjE exE conjE)
    fix new s1 assume h: "alloc_loop 3 me [] s = Ok (Some ([] @ new), s1)" "length new = 3" "distinct new"
      "\<forall>i\<in>set new. i < NUM \<and> vfree s ! i" "same_rings s s1" "desc s1 = desc s" "bstate.truncate s1 = bstate.truncate s"
      "\<forall>j<NUM. vfree s1 ! j \<longleftrightarrow> vfree s ! j \<and> j \<notin> set new"
    obtain i0 i1 i2 where n: "new = [i0, i1, i2]" using h(2) by (auto simp: numeral_3_eq_3 length_Suc_conv)
    define t where "t = put_request b write i0 i1 i2 s1"
    define s' where "s' = sleep_enter me (io_chan b) t"
    have r: "virtio_disk_rw me b write s = Ok (Some i0, s')" using h(1) n by (simp add: virtio_disk_rw_def alloc3_desc_def s'_def t_def)
    have "driver_inv da hs (rs @ [request_of s' i0 b]) s' \<and> avail_queue da s' = avail_queue da s @ [i0]" if "b \<notin> rbuf ` set rs"
    proof -
      have D: "driver_inv da hs (rs @ [\<lparr>r0 = i0, r1 = i1, r2 = i2, rbuf = b\<rparr>]) t \<and> avail_queue da t = avail_queue da s @ [i0]"
        unfolding t_def by (rule put_request_inv[OF inv that h(5,6)]) (use h n in auto)
      then have "in_place t \<lparr>r0 = i0, r1 = i1, r2 = i2, rbuf = b\<rparr>" by (simp add: driver_inv_def)
      then have "request_of s' i0 b = \<lparr>r0 = i0, r1 = i1, r2 = i2, rbuf = b\<rparr>"
        by (simp add: request_of_def chain_of_def in_place_def s'_def Let_def)
      then show ?thesis using D unfolding s'_def driver_inv_more[OF wakeup_vmore(2)] by (simp add: avail_queue_def)
    qed
    then show ?thesis using r by blast
  next
    fix s1 assume h: "alloc_loop 3 me [] s = Ok (None, s1)" "same_rings s s1" "\<forall>j<NUM. vfree s1 ! j \<longleftrightarrow> vfree s ! j \<or> j \<in> set []"
      "\<forall>j<NUM. \<not> vfree s1 ! j \<longrightarrow> desc s1 ! j = desc s ! j"
    have "virtio_disk_rw me b write s = Ok (None, sleep_enter me free_chan s1)" using h(1) by (simp add: virtio_disk_rw_def alloc3_desc_def)
    moreover have "driver_inv da hs rs s1"
    proof -
      have "in_place s1 r" if r: "r \<in> set rs" for r
      proof (rule in_place_fields[of s])
        show "\<forall>x\<in>set (chain r). desc s1 ! x = desc s ! x"
        proof
          fix x assume "x \<in> set (chain r)"
          then have "x \<in> set (concat (map chain rs))" using r by auto
          then have "x < NUM" "\<not> vfree s ! x" using inv unfolding driver_inv_def by blast+
          then show "desc s1 ! x = desc s ! x" using h(3,4) by simp
        qed
      qed (use inv r h(2) in \<open>simp_all add: driver_inv_def same_rings_def\<close>)
      moreover have "queued da hs s1 = queued da hs s" "unfinished rs s1 = unfinished rs s"
        using h(2) by (simp_all add: queued_def avail_queue_def used_queue_def unfinished_def same_rings_def)
      ultimately show ?thesis using inv h(2,3) by (simp add: driver_inv_def same_rings_def)
    qed
    ultimately show ?thesis using driver_inv_more[OF wakeup_vmore(2)] by blast
  qed
qed

text \<open>The device fetches a head.\<close>

lemma avail_queue_pop: "da \<noteq> avail_idx s \<Longrightarrow> avail_queue da s = unat (avail_ring s ! (unat da mod NUM)) # avail_queue (da + 1) s"
  unfolding avail_queue_def by (rule ring_window_pop)

lemma fetch_inv:
  assumes inv: "driver_inv da hs rs s" and n: "da \<noteq> avail_idx s"
  shows "driver_inv (da + 1) (hs @ [unat (avail_ring s ! (unat da mod NUM))]) rs s"
proof -
  let ?h = "unat (avail_ring s ! (unat da mod NUM))"
  have q: "queued da hs s = ?h # avail_queue (da + 1) s @ hs @ used_queue s"
    unfolding queued_def avail_queue_pop[OF n] by simp
  have q': "queued (da + 1) (hs @ [?h]) s = avail_queue (da + 1) s @ hs @ [?h] @ used_queue s" by (simp add: queued_def)
  have "distinct (queued (da + 1) (hs @ [?h]) s) = distinct (queued da hs s)" unfolding q q' by auto
  moreover have "set (queued (da + 1) (hs @ [?h]) s) = set (queued da hs s)" unfolding q q' by auto
  ultimately show ?thesis using inv unfolding driver_inv_def by metis
qed

text \<open>The device finishes a request.\<close>

lemma device_inv:
  assumes inv: "driver_inv da hs rs s" and h: "h \<in> set hs"
  shows "\<exists>s'. device_done st h s = Some s' \<and> driver_inv da (remove1 h hs) rs s' \<and> used_queue s' = used_queue s @ [h] \<and>
    info_status s' ! h = st"
proof -
  have "h \<in> set (queued da hs s)" using h by (simp add: queued_def)
  then obtain r where r: "r \<in> set rs" "r0 r = h" "in_place s r" by (rule queued_request[OF inv])
  define rq where "rq = ops s ! h"
  define bno where "bno = (ucast (drop_bit 1 (sector rq)) :: u32)"
  define s1 where "s1 = (if st \<noteq> 0 then s else if rtype rq = 1
     then s\<lparr>disk := (disk s)(bno := bdata (bufs s ! rbuf r)), disk_trace := disk_trace s @ [(bno, bdata (bufs s ! rbuf r))]\<rparr>
     else upd_buf (rbuf r) (\<lambda>x. x\<lparr>bdata := disk s bno\<rparr>) s)"
  define s' where "s' = s1\<lparr>info_status := (info_status s)[h := st],
      used_ring := (used_ring s)[unat (dev_idx s) mod NUM := of_nat h], dev_idx := dev_idx s + 1\<rparr>"
  have bd: "r0 r < NUM" "r1 r < NUM" "r2 r < NUM" using chain_bounds[OF inv r(1)] by simp_all
  have dd: "device_done st h s = Some s'"
    using r(2,3) bd by (simp add: device_done_def in_place_def s'_def s1_def rq_def bno_def Let_def)
  have m1: "bstate.more s1 = bstate.more s" by (simp add: s1_def)
  note f = vfields[OF m1]
  have f': "desc s' = desc s" "vfree s' = vfree s" "avail_ring s' = avail_ring s" "avail_idx s' = avail_idx s" "info_b s' = info_b s"
    "ops s' = ops s" "b_disk s' = b_disk s" "used_idx s' = used_idx s" "length (info_status s') = length (info_status s)"
    "dev_idx s' = dev_idx s + 1" "used_ring s' = (used_ring s)[unat (dev_idx s) mod NUM := of_nat h]"
    using f by (simp_all add: s'_def)
  have ip: "in_place s' q = in_place s q" for q by (simp add: in_place_def f')
  have "length (used_queue s) < NUM" using queued_bound[OF inv] by (simp add: queued_def)
  moreover have hu: "unat (of_nat h :: u32) = h" using bd(1) r(2) by (simp add: unat_of_nat)
  ultimately have uq: "used_queue s' = used_queue s @ [h]"
    using inv unfolding used_queue_def f' by (subst ring_window_push) (simp_all add: driver_inv_def)
  have aq: "avail_queue da s' = avail_queue da s" by (simp add: avail_queue_def f')
  have un: "unfinished rs s' = unfinished rs s" by (simp add: unfinished_def f')
  have D: "distinct (queued da hs s)" "set (queued da hs s) = unfinished rs s" using inv by (simp_all add: driver_inv_def)
  have "distinct (queued da (remove1 h hs) s')"
    using D(1) h unfolding queued_def aq uq by (auto simp: distinct_remove1 dest: notin_set_remove1)
  moreover have "set (queued da (remove1 h hs) s') = unfinished rs s'"
    using D h unfolding un queued_def aq uq by auto
  ultimately have "driver_inv da (remove1 h hs) rs s'" using inv unfolding driver_inv_def f' ip by simp
  moreover have "info_status s' ! h = st" using bd(1) r(2) inv by (simp add: s'_def driver_inv_def)
  ultimately show ?thesis using dd uq by blast
qed

text \<open>The interrupt handler, when all requests it finds succeeded, and when one failed.\<close>

lemma intr_loop_spec:
  assumes "\<forall>k<length ps. unat (used_ring s ! (unat (used_idx s + of_nat k) mod NUM)) = ps ! k"
    and "\<forall>h\<in>set ps. h < NUM \<and> info_b s ! h = Some (bf h)"
  shows "if \<forall>h\<in>set ps. info_status s ! h = 0
     then \<exists>s'. intr_loop (length ps) me s = Ok s' \<and> desc s' = desc s \<and> vfree s' = vfree s \<and> avail_ring s' = avail_ring s \<and>
       avail_idx s' = avail_idx s \<and> used_ring s' = used_ring s \<and> info_b s' = info_b s \<and> info_status s' = info_status s \<and>
       ops s' = ops s \<and> dev_idx s' = dev_idx s \<and> used_idx s' = used_idx s + of_nat (length ps) \<and>
       b_disk s' = (\<lambda>b. b_disk s b \<and> b \<notin> bf ` set ps)
     else intr_loop (length ps) me s = Panic ''virtio_disk_intr status''"
  using assms
proof (induction ps arbitrary: s)
  case (Cons h ps)
  define s1 where "s1 = wakeup me (io_chan (bf h)) (s\<lparr>b_disk := (b_disk s)(bf h := False)\<rparr>)"
  define s2 where "s2 = s1\<lparr>used_idx := used_idx s1 + 1\<rparr>"
  have hd: "unat (used_ring s ! (unat (used_idx s) mod NUM)) = h" using Cons.prems(1)[rule_format, of 0] by simp
  have hb: "h < NUM" "info_b s ! h = Some (bf h)" using Cons.prems(2) by simp_all
  have f: "desc s2 = desc s" "vfree s2 = vfree s" "avail_ring s2 = avail_ring s" "avail_idx s2 = avail_idx s" "used_ring s2 = used_ring s"
    "info_b s2 = info_b s" "info_status s2 = info_status s" "ops s2 = ops s" "dev_idx s2 = dev_idx s" "used_idx s2 = used_idx s + 1"
    "b_disk s2 = (b_disk s)(bf h := False)"
    by (simp_all add: s2_def s1_def)
  have a: "\<forall>k<length ps. unat (used_ring s2 ! (unat (used_idx s2 + of_nat k) mod NUM)) = ps ! k"
  proof (intro allI impI)
    fix k assume "k < length ps"
    then have "unat (used_ring s ! (unat (used_idx s + of_nat (Suc k)) mod NUM)) = (h # ps) ! Suc k"
      by (intro Cons.prems(1)[rule_format]) simp
    then show "unat (used_ring s2 ! (unat (used_idx s2 + of_nat k) mod NUM)) = ps ! k" by (simp add: f add.assoc)
  qed
  have c: "\<forall>h\<in>set ps. h < NUM \<and> info_b s2 ! h = Some (bf h)" using Cons.prems(2) by (simp add: f)
  note IH = Cons.IH[OF a c, unfolded f]
  have e: "intr_loop (length (h # ps)) me s = (if info_status s ! h \<noteq> 0 then Panic ''virtio_disk_intr status'' else intr_loop (length ps) me s2)"
    using hb(1) unfolding list.size add_Suc_right add_0_right intr_loop.simps Let_def hd hb(2) s2_def s1_def by simp
  show ?case
  proof (cases "info_status s ! h = 0")
    case True
    show ?thesis
    proof (cases "\<forall>h\<in>set ps. info_status s ! h = 0")
      case all: True
      then obtain s' where s': "intr_loop (length ps) me s2 = Ok s'" "desc s' = desc s" "vfree s' = vfree s" "avail_ring s' = avail_ring s"
         "avail_idx s' = avail_idx s" "used_ring s' = used_ring s" "info_b s' = info_b s" "info_status s' = info_status s"
         "ops s' = ops s" "dev_idx s' = dev_idx s" "used_idx s' = used_idx s + 1 + of_nat (length ps)"
         "b_disk s' = (\<lambda>b. ((b_disk s)(bf h := False)) b \<and> b \<notin> bf ` set ps)"
        using IH by auto
      have "b_disk s' = (\<lambda>b. b_disk s b \<and> b \<notin> bf ` set (h # ps))" unfolding s'(12) by (rule ext) auto
      moreover have "used_idx s' = used_idx s + of_nat (length (h # ps))" using s'(11) by simp
      moreover have "intr_loop (length (h # ps)) me s = Ok s'" using e True s'(1) by simp
      ultimately show ?thesis using True all s'(2-10) by simp
    next
      case False
      then have "intr_loop (length ps) me s2 = Panic ''virtio_disk_intr status''" using IH by auto
      then show ?thesis using e True False by auto
    qed
  next
    case False
    then show ?thesis using e by auto
  qed
qed simp

lemma intr_inv:
  assumes inv: "driver_inv da hs rs s"
  shows "if \<forall>h\<in>set (used_queue s). info_status s ! h = 0
    then \<exists>s'. virtio_disk_intr me s = Ok s' \<and> driver_inv da hs rs s' \<and> used_queue s' = [] \<and>
      unfinished rs s' = unfinished rs s - set (used_queue s)
    else virtio_disk_intr me s = Panic ''virtio_disk_intr status''"
proof -
  define ps where "ps = used_queue s"
  have n: "unat (dev_idx s - used_idx s) = length ps" by (simp add: ps_def used_queue_def length_ring_window)
  have pk: "\<forall>k<length ps. unat (used_ring s ! (unat (used_idx s + of_nat k) mod NUM)) = ps ! k"
    by (simp add: ps_def used_queue_def ring_window_def)
  have D: "distinct (queued da hs s)" "set (queued da hs s) = unfinished rs s" using inv by (simp_all add: driver_inv_def)
  define bf where "bf h = the (info_b s ! h)" for h
  have ip: "in_place s r" if "r \<in> set rs" for r using inv that by (simp add: driver_inv_def)
  have bfr: "bf (r0 r) = rbuf r" "info_b s ! r0 r = Some (rbuf r)" if "r \<in> set rs" for r using ip[OF that] by (simp_all add: bf_def in_place_def)
  have pr: "\<exists>r\<in>set rs. r0 r = h" if "h \<in> set ps" for h
    using that queued_request[OF inv, of h] by (auto simp: ps_def queued_def)
  have pre: "\<forall>h\<in>set ps. h < NUM \<and> info_b s ! h = Some (bf h)"
    using pr chain_bounds[OF inv] bfr by fastforce
  show ?thesis
  proof (cases "\<forall>h\<in>set ps. info_status s ! h = 0")
    case True
    obtain s' where s': "intr_loop (length ps) me s = Ok s'" and f: "desc s' = desc s" "vfree s' = vfree s" "avail_ring s' = avail_ring s"
       "avail_idx s' = avail_idx s" "used_ring s' = used_ring s" "info_b s' = info_b s" "info_status s' = info_status s"
       "ops s' = ops s" "dev_idx s' = dev_idx s" "used_idx s' = used_idx s + of_nat (length ps)"
       "b_disk s' = (\<lambda>b. b_disk s b \<and> b \<notin> bf ` set ps)"
      using intr_loop_spec[OF pk pre, of me] True by auto
    have "dev_idx s = used_idx s + of_nat (length ps)" using n[symmetric] by simp
    then have uq: "used_queue s' = []" by (simp add: used_queue_def f)
    have aq: "avail_queue da s' = avail_queue da s" by (simp add: avail_queue_def f)
    have bs: "b_disk s' (rbuf r) \<longleftrightarrow> b_disk s (rbuf r) \<and> r0 r \<notin> set ps" if r: "r \<in> set rs" for r
    proof -
      have "rbuf r \<in> bf ` set ps \<longleftrightarrow> r0 r \<in> set ps"
      proof
        assume "rbuf r \<in> bf ` set ps"
        then obtain h where h: "h \<in> set ps" "rbuf r = bf h" by auto
        then obtain q where q: "q \<in> set rs" "r0 q = h" using pr by auto
        then have "rbuf r = rbuf q" using h bfr(1) by auto
        then show "r0 r \<in> set ps" using rbuf_inj[OF inv r q(1)] q h by simp
      next
        assume "r0 r \<in> set ps"
        then show "rbuf r \<in> bf ` set ps" using bfr(1)[OF r] by (metis image_eqI)
      qed
      then show ?thesis by (simp add: f)
    qed
    have un: "unfinished rs s' = unfinished rs s - set ps"
      using bs unfolding unfinished_def by auto
    have ip': "in_place s' q = in_place s q" for q by (simp add: in_place_def f)
    have "distinct (queued da hs s')" "set (queued da hs s') = unfinished rs s'"
      using D unfolding queued_def aq uq un ps_def by auto
    then have "driver_inv da hs rs s'" using inv unfolding driver_inv_def f ip' by simp
    then show ?thesis using s' n uq un True by (auto simp: virtio_disk_intr_def ps_def)
  next
    case False
    then have "intr_loop (length ps) me s = Panic ''virtio_disk_intr status''" using intr_loop_spec[OF pk pre, of me] by auto
    then show ?thesis using False n by (auto simp: virtio_disk_intr_def ps_def)
  qed
qed

lemma free_chain_spec:
  assumes v: "length (vfree t) = NUM" "distinct [i0, i1, i2]" "\<forall>x\<in>{i0, i1, i2}. x < NUM \<and> \<not> vfree t ! x"
    and d: "dflags (desc t ! i0) AND VRING_DESC_F_NEXT \<noteq> 0" "unat (dnext (desc t ! i0)) = i1"
      "dflags (desc t ! i1) AND VRING_DESC_F_NEXT \<noteq> 0" "unat (dnext (desc t ! i1)) = i2" "dflags (desc t ! i2) AND VRING_DESC_F_NEXT = 0"
  shows "\<exists>s'. free_chain me i0 t = Ok s' \<and> same_rings t s' \<and> (\<forall>j<NUM. vfree s' ! j \<longleftrightarrow> vfree t ! j \<or> j \<in> {i0, i1, i2}) \<and>
     (\<forall>j. j \<notin> {i0, i1, i2} \<longrightarrow> desc s' ! j = desc t ! j)"
proof -
  let ?z = "\<lparr>daddr = AddrNone, dlen = 0, dflags = 0, dnext = 0\<rparr>"
  obtain t1 where t1: "free_desc me i0 t = Ok t1" "same_rings t t1" "vfree t1 = (vfree t)[i0 := True]" "desc t1 = (desc t)[i0 := ?z]"
    using free_desc_spec[of i0 t me] v by auto
  obtain t2 where t2: "free_desc me i1 t1 = Ok t2" "same_rings t1 t2" "vfree t2 = (vfree t1)[i1 := True]" "desc t2 = (desc t1)[i1 := ?z]"
    using free_desc_spec[of i1 t1 me] v t1(3) by auto
  obtain t3 where t3: "free_desc me i2 t2 = Ok t3" "same_rings t2 t3" "vfree t3 = (vfree t2)[i2 := True]" "desc t3 = (desc t2)[i2 := ?z]"
    using free_desc_spec[of i2 t2 me] v t1(3) t2(3) by auto
  have d1: "desc t1 ! i1 = desc t ! i1" "desc t2 ! i2 = desc t ! i2" using v(2) t1(4) t2(4) by auto
  have n: "NUM + 1 = Suc (Suc (Suc 6))" by simp
  have "free_chain me i0 t = Ok t3"
    unfolding free_chain_def n free_chain_loop.simps Let_def using t1(1) t2(1) t3(1) d d1 by simp
  moreover have "same_rings t t3" using same_rings_trans[OF same_rings_trans[OF t1(2) t2(2)] t3(2)] .
  moreover have "\<forall>j<NUM. vfree t3 ! j \<longleftrightarrow> vfree t ! j \<or> j \<in> {i0, i1, i2}" using v t1(3) t2(3) t3(3) by (auto simp: nth_list_update)
  moreover have "\<forall>j. j \<notin> {i0, i1, i2} \<longrightarrow> desc t3 ! j = desc t ! j"
  proof (intro allI impI)
    fix j assume "j \<notin> {i0, i1, i2}"
    then have "i0 \<noteq> j" "i1 \<noteq> j" "i2 \<noteq> j" by auto
    then show "desc t3 ! j = desc t ! j" using t1(4) t2(4) t3(4) by simp
  qed
  ultimately show ?thesis by blast
qed

lemma resume_busy:
  assumes "b_disk s b"
  shows "\<exists>s'. virtio_disk_resume me b h s = Ok (False, s') \<and> bstate.more s' = bstate.more s"
  using assms by (simp add: virtio_disk_resume_def Let_def)

lemma resume_inv:
  assumes inv: "driver_inv da hs rs s" and i: "i < length rs" and fin: "\<not> b_disk s (rbuf (rs ! i))"
  shows "\<exists>s'. virtio_disk_resume me (rbuf (rs ! i)) (r0 (rs ! i)) s = Ok (True, s') \<and>
    driver_inv da hs (take i rs @ drop (Suc i) rs) s' \<and> (\<forall>j\<in>set (chain (rs ! i)). vfree s' ! j)"
proof -
  let ?r = "rs ! i" let ?rs = "take i rs @ drop (Suc i) rs"
  have r: "?r \<in> set rs" using i by simp
  have ip: "in_place s ?r" using inv r by (simp add: driver_inv_def)
  have split: "rs = take i rs @ ?r # drop (Suc i) rs" by (rule id_take_nth_drop[OF i])
  have srs: "set rs = insert ?r (set ?rs)" by (subst split) auto
  have D: "distinct (concat (map chain rs))" using inv by (simp add: driver_inv_def)
  have S: "set (concat (map chain rs)) = set (chain ?r) \<union> set (concat (map chain ?rs))"
    "set (chain ?r) \<inter> set (concat (map chain ?rs)) = {}" "distinct (concat (map chain ?rs))"
  proof -
    have "concat (map chain rs) = concat (map chain (take i rs)) @ chain ?r @ concat (map chain (drop (Suc i) rs))"
      by (subst split) simp
    then show "set (concat (map chain rs)) = set (chain ?r) \<union> set (concat (map chain ?rs))"
      "set (chain ?r) \<inter> set (concat (map chain ?rs)) = {}" "distinct (concat (map chain ?rs))" using D by auto
  qed
  have cr: "set (chain ?r) = {r0 ?r, r1 ?r, r2 ?r}" by (simp add: chain_def)
  define t where "t = (sleep_leave me s)\<lparr>info_b := (info_b s)[r0 ?r := None]\<rparr>"
  have ft: "desc t = desc s" "vfree t = vfree s" "avail_ring t = avail_ring s" "avail_idx t = avail_idx s" "used_ring t = used_ring s"
    "info_status t = info_status s" "ops t = ops s" "b_disk t = b_disk s" "dev_idx t = dev_idx s" "used_idx t = used_idx s"
    "info_b t = (info_b s)[r0 ?r := None]"
    by (simp_all add: t_def)
  have busy: "\<forall>x\<in>{r0 ?r, r1 ?r, r2 ?r}. x < NUM \<and> \<not> vfree t ! x" using inv r chain_member[OF r] unfolding driver_inv_def ft by blast
  have cd: "distinct [r0 ?r, r1 ?r, r2 ?r]" using chain_distinct[OF D r] by (simp add: chain_def)
  have lv: "length (vfree t) = NUM" using inv by (simp add: ft driver_inv_def)
  have fl: "dflags (desc t ! r0 ?r) AND VRING_DESC_F_NEXT \<noteq> 0" "unat (dnext (desc t ! r0 ?r)) = r1 ?r"
    "dflags (desc t ! r1 ?r) AND VRING_DESC_F_NEXT \<noteq> 0" "unat (dnext (desc t ! r1 ?r)) = r2 ?r"
    "dflags (desc t ! r2 ?r) AND VRING_DESC_F_NEXT = 0"
    using ip by (auto simp: in_place_def well_formed_def ft)
  obtain s' where s': "free_chain me (r0 ?r) t = Ok s'" "same_rings t s'"
    "\<forall>j<NUM. vfree s' ! j \<longleftrightarrow> vfree t ! j \<or> j \<in> {r0 ?r, r1 ?r, r2 ?r}"
    "\<forall>j. j \<notin> {r0 ?r, r1 ?r, r2 ?r} \<longrightarrow> desc s' ! j = desc t ! j"
    using free_chain_spec[OF lv cd busy fl, of me] by blast
  have res: "virtio_disk_resume me (rbuf ?r) (r0 ?r) s = Ok (True, s')"
    using s'(1) fin by (simp add: virtio_disk_resume_def t_def Let_def)
  have rest: "q \<in> set rs" "q \<noteq> ?r" if "q \<in> set ?rs" for q
  proof -
    show "q \<in> set rs" using that unfolding srs by simp
    show "q \<noteq> ?r"
    proof
      assume "q = ?r"
      then have "set (chain ?r) \<subseteq> set (concat (map chain ?rs))" using that by auto
      then show False using S(2) by (auto simp: chain_def)
    qed
  qed
  have keep: "in_place s' q" if q: "q \<in> set ?rs" for q
  proof (rule in_place_fields[of s])
    show "in_place s q" using inv rest(1)[OF q] by (simp add: driver_inv_def)
    show "\<forall>x\<in>set (chain q). desc s' ! x = desc s ! x"
    proof
      fix x assume "x \<in> set (chain q)"
      then have "x \<in> set (concat (map chain ?rs))" using q by auto
      then have "x \<notin> {r0 ?r, r1 ?r, r2 ?r}" using S(2) unfolding cr by blast
      then show "desc s' ! x = desc s ! x" using s'(4) ft(1) by simp
    qed
    have "r0 ?r \<noteq> r0 q" using r0_inj[OF inv rest(1)[OF q] r] rest(2)[OF q] by auto
    then show "info_b s' ! r0 q = info_b s ! r0 q" using s'(2) ft by (simp add: same_rings_def)
    show "ops s' ! r0 q = ops s ! r0 q" using s'(2) ft by (simp add: same_rings_def)
  qed
  have q: "queued da hs s' = queued da hs s" using s'(2) ft by (simp add: queued_def avail_queue_def used_queue_def same_rings_def)
  have "{q \<in> set ?rs. b_disk s' (rbuf q)} = {q \<in> set rs. b_disk s (rbuf q)}"
    using fin s'(2) ft unfolding srs by (auto simp: same_rings_def)
  then have "unfinished ?rs s' = unfinished rs s" by (simp add: unfinished_def)
  then have "distinct (queued da hs s') \<and> set (queued da hs s') = unfinished ?rs s'" using inv unfolding q by (simp add: driver_inv_def)
  moreover have "distinct (map rbuf ?rs)"
  proof -
    have "distinct (map rbuf rs)" using inv by (simp add: driver_inv_def)
    then have "distinct (map rbuf (take i rs @ ?r # drop (Suc i) rs))" using split by simp
    then show ?thesis by auto
  qed
  moreover have vf: "\<forall>j<NUM. vfree s' ! j \<longleftrightarrow> j \<notin> set (concat (map chain ?rs))"
  proof (intro allI impI)
    fix j :: nat assume j: "j < NUM"
    have "vfree s ! j \<longleftrightarrow> j \<notin> set (concat (map chain rs))" using inv j by (simp add: driver_inv_def)
    then show "vfree s' ! j \<longleftrightarrow> j \<notin> set (concat (map chain ?rs))" using s'(3) j S(1,2) unfolding ft cr by blast
  qed
  moreover have "set (concat (map chain ?rs)) \<subseteq> {..<NUM}"
  proof -
    have "set (concat (map chain rs)) \<subseteq> {..<NUM}" using inv by (simp add: driver_inv_def)
    then show ?thesis using S(1) by blast
  qed
  moreover have "length (desc s') = NUM \<and> length (vfree s') = NUM \<and> length (avail_ring s') = NUM \<and> length (used_ring s') = NUM \<and>
     length (info_b s') = NUM \<and> length (info_status s') = NUM \<and> length (ops s') = NUM"
    using inv s'(2) ft by (simp add: driver_inv_def same_rings_def)
  moreover have "\<forall>q\<in>set ?rs. in_place s' q" using keep by blast
  ultimately have "driver_inv da hs ?rs s'" unfolding driver_inv_def using S(3) by blast
  moreover have "\<forall>j\<in>set (chain ?r). vfree s' ! j" using s'(3) busy unfolding cr by blast
  ultimately show ?thesis using res by blast
qed

lemma boot_inv:
  assumes "length (desc s) = NUM" "vfree s = replicate NUM True" "length (avail_ring s) = NUM" "length (used_ring s) = NUM"
    "length (info_b s) = NUM" "length (info_status s) = NUM" "length (ops s) = NUM" "used_idx s = dev_idx s"
  shows "driver_inv (avail_idx s) [] [] s"
  using assms by (simp add: driver_inv_def queued_def avail_queue_def used_queue_def unfinished_def)

lemma driver_keeps_inv: "driver da hs rs s \<Longrightarrow> driver_inv da hs rs s"
proof (induction rule: driver.induct)
  case (start da hs rs s b me w h s')
  from virtio_rw_inv[OF start.IH, of me b w] start.hyps show ?case by auto
next
  case (wait da hs rs s me b w s')
  from virtio_rw_inv[OF wait.IH, of me b w] wait.hyps show ?case by auto
next
  case (fetch da hs rs s)
  then show ?case by (intro fetch_inv)
next
  case (complete da hs rs s h st s')
  then show ?case using device_inv[OF complete.IH complete.hyps(2), of st] by auto
next
  case (interrupt da hs rs s me s')
  then show ?case using intr_inv[OF interrupt.IH, of me] by (auto split: if_splits)
next
  case (woken da hs rs s i me s')
  then have "b_disk s (rbuf (rs ! i))" using resume_inv[OF woken.IH woken.hyps(2), of me] by auto
  from resume_busy[OF this, of me "r0 (rs ! i)"] woken show ?case using driver_inv_more[of s' s] by auto
next
  case (finish da hs rs s i me s')
  have "\<not> b_disk s (rbuf (rs ! i))"
  proof
    assume "b_disk s (rbuf (rs ! i))"
    from resume_busy[OF this, of me "r0 (rs ! i)"] finish.hyps(3) show False by simp
  qed
  from resume_inv[OF finish.IH finish.hyps(2) this, of me] finish.hyps(3) show ?case by simp
next
  case (other da hs rs s s')
  then show ?case using driver_inv_more by blast
qed (rule boot_inv)

text \<open>\<open>virtio_disk_init\<close> leaves the driver in its boot state.\<close>

lemma init_boots:
  assumes "virtio_disk_init rd s = Ok (w, pages, s')" "used_idx s = 0"
    "length (info_b s) = NUM" "length (info_status s) = NUM" "length (ops s) = NUM"
  shows "driver 0 [] [] s'"
proof -
  have k: "bstate.more (snd (kalloc t)) = bstate.more t" for t :: vstate by (simp add: kalloc_def Let_def)
  obtain t :: vstate and m where t: "s' = t\<lparr>mem := m, desc := replicate NUM \<lparr>daddr = AddrNone, dlen = 0, dflags = 0, dnext = 0\<rparr>,
      vfree := replicate NUM True, avail_ring := replicate NUM 0, avail_idx := 0, used_ring := replicate NUM 0, dev_idx := 0\<rparr>"
    "t = snd (kalloc (snd (kalloc (snd (kalloc s)))))"
    using assms(1) unfolding virtio_disk_init_def by (auto simp: Let_def case_prod_beta split: if_splits)
  have "bstate.more t = bstate.more s" unfolding t(2) by (simp add: k)
  from vfields[OF this] show ?thesis using driver.boot[of s'] assms(2-) unfolding t(1) by simp
qed

text \<open>A process asleep on a buffer that the handler marks done is woken.\<close>

lemma intr_loop_wakes:
  assumes "intr_loop n me s = Ok s'" "p < length (procs s)" "me \<noteq> Some p" "\<not> b_disk s' b"
    and "pstate (proc_at s p) = RUNNABLE \<or> pstate (proc_at s p) = SLEEPING \<and> pchan (proc_at s p) = io_chan b \<and> b_disk s b"
  shows "pstate (proc_at s' p) = RUNNABLE"
  using assms
proof (induction n arbitrary: s)
  case (Suc n)
  let ?id = "unat (used_ring s ! (unat (used_idx s) mod NUM))"
  obtain c where c: "info_b s ! ?id = Some c" using Suc.prems(1) by (auto simp: Let_def split: if_splits option.splits)
  let ?t = "s\<lparr>b_disk := (b_disk s)(c := False)\<rparr>"
  define s1 where "s1 = wakeup me (io_chan c) ?t"
  define s2 where "s2 = s1\<lparr>used_idx := used_idx s1 + 1\<rparr>"
  have r: "intr_loop n me s2 = Ok s'" using Suc.prems(1) c by (simp add: s2_def s1_def Let_def split: if_splits)
  have st: "pstate (proc_at s2 p) = (if woken me (io_chan c) p (proc_at s p) then RUNNABLE else pstate (proc_at s p))"
    "pchan (proc_at s2 p) = pchan (proc_at s p)" "length (procs s2) = length (procs s)" "b_disk s2 = (b_disk s)(c := False)"
    using wakeup_state[of p ?t me "io_chan c"] Suc.prems(2) by (simp_all add: s2_def s1_def)
  have "pstate (proc_at s2 p) = RUNNABLE \<or> pstate (proc_at s2 p) = SLEEPING \<and> pchan (proc_at s2 p) = io_chan b \<and> b_disk s2 b"
    using Suc.prems(3,5) st by (cases "c = b") (auto simp: woken_def)
  then show ?case using Suc.prems(2-4) st(3) by (intro Suc.IH[OF r]) auto
qed simp

section \<open>Safety\<close>

text \<open>C6. However requests, completions and interrupts interleave, with any status the device returns: every descriptor is
  free or belongs to the chain of exactly one request in flight, linked from its head; the request of every buffer that is
  with the disk stands exactly once in the available ring, with the device or in the used ring, so none is lost or handed
  over twice; the device finds a well-formed chain at every head it fetches; a new request is set up or waits, without
  panic; the interrupt handler sees all finished requests and wakes the processes that sleep on them, unless one of them
  failed, when it panics; and a process whose buffer is done gets its request back and its three descriptors are freed, without \<open>free_desc\<close> panicking.\<close>

theorem virtio_driver_safe:
  assumes "driver da hs rs s"
  shows "distinct (concat (map chain rs)) \<and> (\<forall>j<NUM. vfree s ! j \<longleftrightarrow> j \<notin> set (concat (map chain rs))) \<and>
     (\<forall>r\<in>set rs. chain_of s (r0 r) = chain r) \<and>
     distinct (avail_queue da s @ hs @ used_queue s) \<and>
     set (avail_queue da s @ hs @ used_queue s) = r0 ` {r \<in> set rs. b_disk s (rbuf r)} \<and>
     (\<forall>h\<in>set hs. device_done st h s \<noteq> None) \<and>
     (\<exists>r s'. virtio_disk_rw me b w s = Ok (r, s')) \<and>
     (if \<forall>h\<in>set (used_queue s). info_status s ! h = 0
      then \<exists>s'. virtio_disk_intr me2 s = Ok s' \<and> used_queue s' = [] \<and>
        {r \<in> set rs. b_disk s' (rbuf r)} = {r \<in> set rs. b_disk s (rbuf r) \<and> r0 r \<notin> set (used_queue s)} \<and>
        (\<forall>r\<in>set rs. \<forall>p<length (procs s). me2 \<noteq> Some p \<and> pstate (proc_at s p) = SLEEPING \<and> pchan (proc_at s p) = io_chan (rbuf r) \<and>
           r0 r \<in> set (used_queue s) \<longrightarrow> pstate (proc_at s' p) = RUNNABLE)
      else virtio_disk_intr me2 s = Panic ''virtio_disk_intr status'') \<and>
     (\<forall>i<length rs. \<not> b_disk s (rbuf (rs ! i)) \<longrightarrow> (\<exists>s'. virtio_disk_resume me3 (rbuf (rs ! i)) (r0 (rs ! i)) s = Ok (True, s') \<and>
        (\<forall>j\<in>set (chain (rs ! i)). vfree s' ! j)))"
proof -
  have inv: "driver_inv da hs rs s" by (rule driver_keeps_inv[OF assms])
  have A: "distinct (concat (map chain rs))" "\<forall>j<NUM. vfree s ! j \<longleftrightarrow> j \<notin> set (concat (map chain rs))"
    "\<forall>r\<in>set rs. chain_of s (r0 r) = chain r"
    using inv in_place_chain unfolding driver_inv_def by blast+
  have B: "distinct (queued da hs s)" "set (queued da hs s) = unfinished rs s" using inv by (simp_all add: driver_inv_def)
  have C: "\<forall>h\<in>set hs. device_done st h s \<noteq> None" using device_inv[OF inv, of _ st] by fastforce
  have E: "\<exists>r s'. virtio_disk_rw me b w s = Ok (r, s')" using virtio_rw_inv[OF inv, of me b w] by (elim disjE exE conjE) simp_all
  have un: "{r \<in> set rs. b_disk s' (rbuf r)} = {r \<in> set rs. b_disk s (rbuf r) \<and> r0 r \<notin> set (used_queue s)}"
    if "unfinished rs s' = unfinished rs s - set (used_queue s)" for s' :: vstate
  proof -
    have "r0 r \<in> unfinished rs t \<longleftrightarrow> b_disk t (rbuf r)" if "r \<in> set rs" for r and t :: vstate
      using that r0_inj[OF inv] unfolding unfinished_def by blast
    then show ?thesis using that by blast
  qed
  have F: "if \<forall>h\<in>set (used_queue s). info_status s ! h = 0
      then \<exists>s'. virtio_disk_intr me2 s = Ok s' \<and> used_queue s' = [] \<and>
        {r \<in> set rs. b_disk s' (rbuf r)} = {r \<in> set rs. b_disk s (rbuf r) \<and> r0 r \<notin> set (used_queue s)} \<and>
        (\<forall>r\<in>set rs. \<forall>p<length (procs s). me2 \<noteq> Some p \<and> pstate (proc_at s p) = SLEEPING \<and> pchan (proc_at s p) = io_chan (rbuf r) \<and>
           r0 r \<in> set (used_queue s) \<longrightarrow> pstate (proc_at s' p) = RUNNABLE)
      else virtio_disk_intr me2 s = Panic ''virtio_disk_intr status''"
  proof (cases "\<forall>h\<in>set (used_queue s). info_status s ! h = 0")
    case True
    then obtain s' where s': "virtio_disk_intr me2 s = Ok s'" "used_queue s' = []" "unfinished rs s' = unfinished rs s - set (used_queue s)"
      using intr_inv[OF inv, of me2] by auto
    have "pstate (proc_at s' p) = RUNNABLE" if "r \<in> set rs" "p < length (procs s)" "me2 \<noteq> Some p" "pstate (proc_at s p) = SLEEPING"
      "pchan (proc_at s p) = io_chan (rbuf r)" "r0 r \<in> set (used_queue s)" for r p
    proof -
      have "b_disk s (rbuf r)" using that(1,6) B(2) r0_inj[OF inv that(1)] by (auto simp: queued_def unfinished_def)
      moreover have "\<not> b_disk s' (rbuf r)" using un[OF s'(3)] that(1,6) by blast
      ultimately show ?thesis using intr_loop_wakes[OF s'(1)[unfolded virtio_disk_intr_def] that(2,3), of "rbuf r"] that(4,5) by simp
    qed
    then show ?thesis using True s'(1,2) un[OF s'(3)] by auto
  next
    case False
    then show ?thesis using intr_inv[OF inv, of me2] by auto
  qed
  have G: "\<forall>i<length rs. \<not> b_disk s (rbuf (rs ! i)) \<longrightarrow> (\<exists>s'. virtio_disk_resume me3 (rbuf (rs ! i)) (r0 (rs ! i)) s = Ok (True, s') \<and>
        (\<forall>j\<in>set (chain (rs ! i)). vfree s' ! j))"
    using resume_inv[OF inv, of _ me3] by blast
  show ?thesis using A B C E F G unfolding queued_def unfinished_def by blast
qed

section \<open>A request alone\<close>

lemma block_of_sector:
  assumes "unat (x :: u32) < 2 ^ 31"
  shows "ucast (drop_bit 1 (ucast (x * 2) :: u64)) = x"
proof -
  have "unat (x * 2) = 2 * unat x" using assms by (simp add: unat_word_ariths)
  then have "unat (drop_bit 1 (ucast (x * 2) :: u64)) = unat x" by (simp add: drop_bit_eq_div unat_div)
  then have "unat (ucast (drop_bit 1 (ucast (x * 2) :: u64)) :: u32) = unat x mod 2 ^ 32" by (simp add: unsigned_ucast_eq take_bit_eq_mod)
  then show ?thesis using assms by (simp add: word_unat_eq_iff)
qed

lemma alloc_three:
  assumes "length (vfree s) = NUM" "\<forall>i<NUM. vfree s ! i"
  shows "\<exists>i0 i1 i2 s1. alloc3_desc me s = Ok (Some [i0, i1, i2], s1) \<and> distinct [i0, i1, i2] \<and> (\<forall>i\<in>{i0, i1, i2}. i < NUM) \<and>
    desc s1 = desc s \<and> same_rings s s1 \<and> bstate.truncate s1 = bstate.truncate s"
proof -
  have f: "\<exists>i. first_free [0..<NUM] fr = Some i" if "i < NUM" "fr ! i" for i fr
    using first_free_None[of "[0..<NUM]" fr] that by (cases "first_free [0..<NUM] fr") auto
  have step: "\<exists>i. alloc_desc t = (Some i, t\<lparr>vfree := (vfree t)[i := False]\<rparr>) \<and> i < NUM" if "j < NUM" "vfree t ! j" for j and t :: "'a vstate_scheme"
    using f[OF that] first_free_Some[of "[0..<NUM]" "vfree t"] by (auto simp: alloc_desc_def)
  have "\<exists>new s'. alloc_loop 3 me [] s = Ok (Some new, s')"
  proof -
    obtain a where a: "alloc_desc s = (Some a, s\<lparr>vfree := (vfree s)[a := False]\<rparr>)" "a < NUM" using step[of 0 s] assms by auto
    let ?s1 = "s\<lparr>vfree := (vfree s)[a := False]\<rparr>"
    have "\<exists>j<3. j \<noteq> a" by (cases "a = 0") (auto intro: exI[of _ "0::nat"] exI[of _ "1::nat"])
    then obtain j where j: "j < 3" "j \<noteq> a" by blast
    have "vfree ?s1 ! j" using assms j by simp
    then obtain b where b: "alloc_desc ?s1 = (Some b, ?s1\<lparr>vfree := (vfree ?s1)[b := False]\<rparr>)" "b < NUM" using step[of j ?s1] j by auto
    let ?s2 = "?s1\<lparr>vfree := (vfree ?s1)[b := False]\<rparr>"
    have "\<exists>k<3. k \<noteq> a \<and> k \<noteq> b"
    proof (rule ccontr)
      assume n: "\<not> ?thesis"
      have "i = a \<or> i = b" if "i < 3" for i using n that by blast
      from this[of 0] this[of 1] this[of 2] show False by auto
    qed
    then obtain k where k: "k < 3" "k \<noteq> a" "k \<noteq> b" by blast
    have "vfree ?s2 ! k" using assms k by simp
    then obtain c where c: "alloc_desc ?s2 = (Some c, ?s2\<lparr>vfree := (vfree ?s2)[c := False]\<rparr>)" using step[of k ?s2] k by auto
    show ?thesis unfolding numeral_3_eq_3 using a(1) b(1) c by simp
  qed
  then obtain new s' where n: "alloc_loop 3 me [] s = Ok (Some new, s')" by blast
  have "distinct []" "\<forall>i\<in>set []. i < NUM \<and> \<not> vfree s ! i" by simp_all
  from alloc_loop_spec[OF this assms(1), where me = me and n = 3] show ?thesis
  proof (elim disjE exE conjE)
    fix new s1 assume h: "alloc_loop 3 me [] s = Ok (Some ([] @ new), s1)" "length new = 3" "distinct new"
      "\<forall>i\<in>set new. i < NUM \<and> vfree s ! i" "same_rings s s1" "desc s1 = desc s" "bstate.truncate s1 = bstate.truncate s"
    obtain i0 i1 i2 where "new = [i0, i1, i2]" using h(2) by (auto simp: numeral_3_eq_3 length_Suc_conv)
    then show ?thesis using h by (intro exI[of _ i0] exI[of _ i1] exI[of _ i2] exI[of _ s1]) (simp add: alloc3_desc_def)
  qed (use n in simp)
qed

text \<open>The blocks, in the cache and on the disk.\<close>

definition same_blocks :: "'a bstate_scheme \<Rightarrow> 'b bstate_scheme \<Rightarrow> bool" where
  "same_blocks s s' \<longleftrightarrow> bufs s' = bufs s \<and> disk s' = disk s \<and> disk_trace s' = disk_trace s"

lemma same_blocks_trans: "same_blocks s t \<Longrightarrow> same_blocks t u \<Longrightarrow> same_blocks s u"
  by (simp add: same_blocks_def)

lemma same_blocks_refl [simp]: "same_blocks s s"
  by (simp add: same_blocks_def)

lemma sleep_more: "kstate.more (sleep_enter me ch s) = kstate.more s" "kstate.more (sleep_leave me s) = kstate.more s"
  by (simp_all add: sleep_enter_def sleep_leave_def)

lemmas sleep_blocks [simp] = bstate_fields[OF iostate_more_kstate[OF sleep_more(1)]] bstate_fields[OF iostate_more_kstate[OF sleep_more(2)]]

lemma free_chain_loop_blocks: "free_chain_loop k me i s = Ok s' \<Longrightarrow> same_blocks s s'"
proof (induction k arbitrary: i s)
  case (Suc k)
  obtain s1 where s1: "free_desc me i s = Ok s1" using Suc.prems by (cases "free_desc me i s") (auto simp: Let_def)
  have b: "same_blocks s s1" using s1 by (auto simp: free_desc_def same_blocks_def split: if_splits)
  show ?case
  proof (cases "dflags (desc s ! i) AND VRING_DESC_F_NEXT \<noteq> 0")
    case True
    then have "same_blocks s1 s'" using Suc.prems s1 by (intro Suc.IH) (simp add: Let_def)
    then show ?thesis by (rule same_blocks_trans[OF b])
  qed (use Suc.prems s1 b in \<open>simp add: Let_def\<close>)
qed simp

lemma intr_loop_blocks: "intr_loop n me s = Ok s' \<Longrightarrow> same_blocks s s'"
proof (induction n arbitrary: s)
  case (Suc n)
  let ?id = "unat (used_ring s ! (unat (used_idx s) mod NUM))"
  obtain b where b: "info_b s ! ?id = Some b" using Suc.prems by (auto simp: Let_def split: if_splits option.splits)
  define s1 where "s1 = wakeup me (io_chan b) (s\<lparr>b_disk := (b_disk s)(b := False)\<rparr>)"
  have "same_blocks (s1\<lparr>used_idx := used_idx s1 + 1\<rparr>) s'"
    using Suc.prems b by (intro Suc.IH) (simp add: s1_def Let_def split: if_splits)
  then show ?case by (simp add: s1_def same_blocks_def)
qed simp

lemma truncate_blocks: "bstate.truncate s' = bstate.truncate s \<Longrightarrow> same_blocks s s'"
  by (cases s; cases s') (simp add: bstate.truncate_def same_blocks_def)

text \<open>The steps of a request that runs alone: set up, done by the device, resumed.\<close>

lemma request_alone:
  assumes "driver da [] [] s"
  shows "\<exists>h s1. virtio_disk_rw me b w s = Ok (Some h, s1) \<and> driver da [] [request_of s1 h b] s1 \<and> avail_queue da s1 = [h] \<and>
    in_place s1 (request_of s1 h b) \<and>
    ops s1 ! h = \<lparr>rtype = (if w then 1 else 0), reserved = 0, sector = ucast (blockno (bufs s ! b) * 2)\<rparr> \<and>
    same_blocks s s1 \<and> length (procs s1) = length (procs s) \<and>
    (me < length (procs s) \<longrightarrow> pstate (proc_at s1 me) = SLEEPING \<and> pchan (proc_at s1 me) = io_chan b)"
proof -
  have inv: "driver_inv da [] [] s" by (rule driver_keeps_inv[OF assms])
  then have v: "length (vfree s) = NUM" "\<forall>i<NUM. vfree s ! i" "length (ops s) = NUM" and q: "avail_queue da s = []"
    by (simp_all add: driver_inv_def queued_def unfinished_def)
  obtain i0 i1 i2 sA where A: "alloc3_desc me s = Ok (Some [i0, i1, i2], sA)" "i0 < NUM" "same_rings s sA" "bstate.truncate sA = bstate.truncate s"
    using alloc_three[OF v(1,2), of me] by auto
  define s1 where "s1 = sleep_enter me (io_chan b) (put_request b w i0 i1 i2 sA)"
  have r1: "virtio_disk_rw me b w s = Ok (Some i0, s1)" using A(1) by (simp add: virtio_disk_rw_def s1_def)
  have bA: "bufs sA = bufs s" "disk sA = disk s" "disk_trace sA = disk_trace s" using truncate_blocks[OF A(4)] by (simp_all add: same_blocks_def)
  have pA: "procs sA = procs s" using A(4) by (cases s; cases sA) (simp add: bstate.truncate_def)
  have "ops s1 ! i0 = \<lparr>rtype = (if w then 1 else 0), reserved = 0, sector = ucast (blockno (bufs s ! b) * 2)\<rparr>"
    using A(2,3) v(3) by (simp add: s1_def put_request_def same_rings_def bA)
  moreover have "same_blocks s s1" by (simp add: s1_def put_request_def bA same_blocks_def)
  moreover have "length (procs s1) = length (procs s)" by (simp add: s1_def put_request_def sleep_enter_def pA)
  moreover have "me < length (procs s) \<longrightarrow> pstate (proc_at s1 me) = SLEEPING \<and> pchan (proc_at s1 me) = io_chan b"
    by (simp add: s1_def put_request_def sleep_enter_def pA)
  moreover have "driver da [] [request_of s1 i0 b] s1" using driver.start[OF assms _ r1] by simp
  moreover have I: "driver_inv da [] [request_of s1 i0 b] s1" "avail_queue da s1 = [i0]"
    using virtio_rw_inv[OF inv, of me b w] r1 q by auto
  moreover have "in_place s1 (request_of s1 i0 b)" using I(1) by (simp add: driver_inv_def)
  ultimately show ?thesis using r1 by blast
qed

lemma device_done_alone:
  assumes "device_done 0 h s1 = Some s2" "in_place s1 r" "r0 r = h" "rbuf r = b" "h < NUM"
    and "ops s1 ! h = \<lparr>rtype = (if w then 1 else 0), reserved = 0, sector = x\<rparr>" "ucast (drop_bit 1 x) = blockno (bufs s ! b)"
    and "same_blocks s s1"
  shows "same_blocks (disk_rw b w s) s2 \<and> procs s2 = procs s1"
proof -
  have d: "daddr (desc s1 ! h) = AddrOps h" "daddr (desc s1 ! unat (dnext (desc s1 ! h))) = AddrData b"
    "daddr (desc s1 ! unat (dnext (desc s1 ! unat (dnext (desc s1 ! h))))) = AddrStatus h"
    using assms(2-4) by (simp_all add: in_place_def)
  show ?thesis
    using assms(1,5-) d unfolding device_done_def
    by (cases w) (auto simp: disk_rw_def same_blocks_def upd_buf_def Let_def split: if_splits)
qed

lemma serve_alone:
  assumes "driver da [] [r] s" "avail_queue da s = [r0 r]"
  shows "\<exists>s'. device_done 0 (r0 r) s = Some s' \<and> driver (da + 1) [] [r] s' \<and> used_queue s' = [r0 r] \<and>
    info_status s' ! r0 r = 0 \<and> b_disk s' (rbuf r)"
proof -
  have ne: "da \<noteq> avail_idx s" using assms(2) by (auto simp: avail_queue_def)
  then have "unat (avail_ring s ! (unat da mod NUM)) = r0 r" using avail_queue_pop[OF ne] assms(2) by simp
  then have F: "driver (da + 1) [r0 r] [r] s" using driver.fetch[OF assms(1) ne] by simp
  have "unfinished [r] s \<subseteq> {r0 r}" by (auto simp: unfinished_def)
  moreover have "distinct (queued da [] s)" "set (queued da [] s) = unfinished [r] s"
    using driver_keeps_inv[OF assms(1)] by (simp_all add: driver_inv_def)
  ultimately have "set (used_queue s) \<subseteq> {r0 r}" "r0 r \<notin> set (used_queue s)" using assms(2) by (auto simp: queued_def)
  then have uq: "used_queue s = []" using subset_singletonD by fastforce
  obtain s' where s': "device_done 0 (r0 r) s = Some s'" "driver_inv (da + 1) [] [r] s'" "used_queue s' = [r0 r]" "info_status s' ! r0 r = 0"
    using device_inv[OF driver_keeps_inv[OF F], of "r0 r" 0] uq by auto
  have "b_disk s' (rbuf r)" using queued_request[OF s'(2), of "r0 r"] s'(3) by (auto simp: queued_def)
  then show ?thesis using s' driver.complete[OF F _ s'(1)] by simp
qed

lemma seen_alone:
  assumes "driver da [] [r] s" "used_queue s = [r0 r]" "info_status s ! r0 r = 0"
  shows "\<exists>s'. virtio_disk_intr me s = Ok s' \<and> driver da [] [r] s' \<and> \<not> b_disk s' (rbuf r)"
proof -
  obtain s' where s': "virtio_disk_intr me s = Ok s'" "unfinished [r] s' = unfinished [r] s - {r0 r}"
    using intr_inv[OF driver_keeps_inv[OF assms(1)], of me] assms(2,3) by auto
  have "\<not> b_disk s' (rbuf r)"
  proof
    assume "b_disk s' (rbuf r)"
    then have "r0 r \<in> unfinished [r] s'" by (auto simp: unfinished_def intro!: image_eqI[where x = r])
    then show False using s'(2) by blast
  qed
  then show ?thesis using s'(1) driver.interrupt[OF assms(1) s'(1)] by blast
qed

lemma resume_blocks:
  assumes "virtio_disk_resume me b h s = Ok (True, s')"
  shows "same_blocks s s'"
proof -
  obtain t where "free_chain me h t = Ok s'" "same_blocks s t"
    using assms by (auto simp: virtio_disk_resume_def Let_def same_blocks_def split: if_splits)
  then show ?thesis using free_chain_loop_blocks same_blocks_trans unfolding free_chain_def by blast
qed

text \<open>C5. The buffer cache may take a disk request for one atomic step: for a block number below \<open>2 ^ 31\<close> (above, the
  sector number wraps), a request that runs alone on an idle driver puts exactly one new head in the available ring; the
  device finds the chain there; when it succeeds, the interrupt handler wakes the process, and its return leaves buffers
  and disk exactly as \<open>disk_rw\<close> does and the driver idle again.\<close>

theorem virtio_refines_disk_rw:
  assumes "driver da [] [] s" "unat (blockno (bufs s ! b)) < 2 ^ 31"
  shows "\<exists>h s1 s2 s3 s4. virtio_disk_rw me b w s = Ok (Some h, s1) \<and> avail_queue da s1 = [h] \<and> device_done 0 h s1 = Some s2 \<and>
     virtio_disk_intr irq s2 = Ok s3 \<and> (me < length (procs s) \<and> irq \<noteq> Some me \<longrightarrow> pstate (proc_at s3 me) = RUNNABLE) \<and>
     virtio_disk_resume me b h s3 = Ok (True, s4) \<and> same_blocks (disk_rw b w s) s4 \<and> driver (da + 1) [] [] s4"
proof -
  obtain h s1 where s1: "virtio_disk_rw me b w s = Ok (Some h, s1)" "driver da [] [request_of s1 h b] s1" "avail_queue da s1 = [h]"
    "in_place s1 (request_of s1 h b)" "ops s1 ! h = \<lparr>rtype = (if w then 1 else 0), reserved = 0, sector = ucast (blockno (bufs s ! b) * 2)\<rparr>"
    "same_blocks s s1" "length (procs s1) = length (procs s)"
    "me < length (procs s) \<Longrightarrow> pstate (proc_at s1 me) = SLEEPING \<and> pchan (proc_at s1 me) = io_chan b"
    using request_alone[OF assms(1), of me b w] by blast
  let ?r = "request_of s1 h b"
  have r: "r0 ?r = h" "rbuf ?r = b" by (simp_all add: request_of_def chain_of_def Let_def)
  obtain s2 where s2: "device_done 0 h s1 = Some s2" and D2: "driver (da + 1) [] [?r] s2" "used_queue s2 = [h]"
    "info_status s2 ! h = 0" "b_disk s2 b"
    using serve_alone[OF s1(2)] s1(3) r by auto
  have d2: "same_blocks (disk_rw b w s) s2 \<and> procs s2 = procs s1"
    by (rule device_done_alone[OF s2 s1(4) r _ s1(5) block_of_sector[OF assms(2)] s1(6)])
       (use chain_bounds[OF driver_keeps_inv[OF s1(2)], of ?r] r in simp)
  obtain s3 where s3: "virtio_disk_intr irq s2 = Ok s3" and D3: "driver (da + 1) [] [?r] s3" and nb: "\<not> b_disk s3 b"
    using seen_alone[OF D2(1), of irq] D2(2,3) r by auto
  have b3: "same_blocks s2 s3" using s3 intr_loop_blocks unfolding virtio_disk_intr_def by blast
  have wk: "pstate (proc_at s3 me) = RUNNABLE" if "me < length (procs s)" "irq \<noteq> Some me"
    using intr_loop_wakes[OF s3[unfolded virtio_disk_intr_def] _ that(2) nb] that(1) s1(7,8) d2 D2(4) by simp
  obtain s4 where s4: "virtio_disk_resume me b h s3 = Ok (True, s4)"
    using resume_inv[OF driver_keeps_inv[OF D3], of 0 me] nb r by auto
  have "same_blocks s3 s4" by (rule resume_blocks[OF s4])
  then have "same_blocks (disk_rw b w s) s4" using same_blocks_trans d2 b3 by blast
  moreover have "driver (da + 1) [] [] s4" using driver.finish[OF D3, of 0 me s4] s4 r by simp
  ultimately show ?thesis using s1(1,3) s2 s3 wk s4 by blast
qed

section \<open>Witnesses\<close>

definition sample_vstate :: vstate where
  "sample_vstate = \<lparr>mem = \<lambda>_. 0, freelist = 0, kend = 0x80001234, config = RR, trampoline_pa = 0x80000000,
     forkret_pc = 0x80000100, procs = [blank_proc], initproc = None, nextpid = 1, sys_time = 0, kticks = 0,
     uart_buf = replicate 32 0, uart_w = 0, uart_r = 0, uart_out = [], panicked = False,
     cons_buf = replicate 128 0, cons_r = 0, cons_w = 0, cons_e = 0,
     bufs = [\<lparr>bvalid = True, bdev = 1, blockno = 45, block = initsleeplock, refcnt = 1, bdata = [1, 2, 3]\<rparr>],
     lru = [0], disk = \<lambda>_. [], disk_trace = [],
     desc = replicate NUM \<lparr>daddr = AddrNone, dlen = 0, dflags = 0, dnext = 0\<rparr>, vfree = replicate NUM True,
     avail_ring = replicate NUM 0, avail_idx = 0, used_ring = replicate NUM 0, dev_idx = 0, used_idx = 0,
     info_b = replicate NUM None, info_status = replicate NUM 0, ops = replicate NUM \<lparr>rtype = 0, reserved = 0, sector = 0\<rparr>,
     b_disk = \<lambda>_. False\<rparr>"

lemma sample_driver: "driver 0 [] [] sample_vstate"
  using driver.boot[of sample_vstate] by (simp add: sample_vstate_def)

text \<open>A request in flight that the device has fetched and failed, and the same one done.\<close>

theorem virtio_driver_safe_witness:
  "\<exists>h s1 s2. virtio_disk_rw 0 0 True sample_vstate = Ok (Some h, s1) \<and> avail_queue 0 s1 = [h] \<and> \<not> vfree s1 ! h \<and>
     device_done 1 h s1 = Some s2 \<and> virtio_disk_intr None s2 = Panic ''virtio_disk_intr status''"
proof -
  obtain h s1 where r: "virtio_disk_rw 0 0 True sample_vstate = Ok (Some h, s1)" "driver 0 [] [request_of s1 h 0] s1" "avail_queue 0 s1 = [h]"
    using request_alone[OF sample_driver, of 0 0 True] by blast
  let ?r = "request_of s1 h 0"
  have r0: "r0 ?r = h" by (simp add: request_of_def chain_of_def Let_def)
  have ne: "0 \<noteq> avail_idx s1" using r(3) by (auto simp: avail_queue_def)
  have F: "driver 1 [h] [?r] s1" using driver.fetch[OF r(2) ne] avail_queue_pop[OF ne] r(3) by simp
  have nf: "\<not> vfree s1 ! h"
    using virtio_driver_safe[OF r(2), of 0 0 0 True None 0] chain_bounds[OF driver_keeps_inv[OF r(2)], of ?r] r0
    by (auto simp: chain_def)
  obtain s2 where s2: "device_done 1 h s1 = Some s2" using virtio_driver_safe[OF F, of 1 0 0 True None 0] by auto
  have D: "driver 1 [] [?r] s2" using driver.complete[OF F _ s2] by simp
  have st: "h \<in> set (used_queue s2)" "info_status s2 ! h \<noteq> 0" using device_inv[OF driver_keeps_inv[OF F], of h 1] s2 by auto
  then have bad: "\<not> (\<forall>h\<in>set (used_queue s2). info_status s2 ! h = 0)" by blast
  have "virtio_disk_intr None s2 = Panic ''virtio_disk_intr status''"
    using virtio_driver_safe[OF D, of 0 0 0 True None 0] unfolding if_not_P[OF bad] by blast
  then show ?thesis using r nf s2 by blast
qed

theorem virtio_refines_disk_rw_witness:
  "\<exists>h s1 s2 s3 s4. virtio_disk_rw 0 0 True sample_vstate = Ok (Some h, s1) \<and> avail_queue 0 s1 = [h] \<and> device_done 0 h s1 = Some s2 \<and>
     virtio_disk_intr None s2 = Ok s3 \<and> pstate (proc_at s3 0) = RUNNABLE \<and>
     virtio_disk_resume 0 0 h s3 = Ok (True, s4) \<and> disk s4 45 = [1, 2, 3] \<and> driver 1 [] [] s4"
proof -
  have b: "unat (blockno (bufs sample_vstate ! 0)) < 2 ^ 31" by (simp add: sample_vstate_def)
  obtain h s1 s2 s3 s4 where r: "virtio_disk_rw 0 0 True sample_vstate = Ok (Some h, s1)" "avail_queue 0 s1 = [h]" "device_done 0 h s1 = Some s2"
    "virtio_disk_intr None s2 = Ok s3" "0 < length (procs sample_vstate) \<and> None \<noteq> Some (0 :: nat) \<longrightarrow> pstate (proc_at s3 0) = RUNNABLE"
    "virtio_disk_resume 0 0 h s3 = Ok (True, s4)" "same_blocks (disk_rw 0 True sample_vstate) s4" "driver (0 + 1) [] [] s4"
    using virtio_refines_disk_rw[OF sample_driver b, of 0 True None] by (elim exE conjE)
  have "disk s4 45 = [1, 2, 3]" using r(7) by (simp add: same_blocks_def disk_rw_def sample_vstate_def)
  moreover have "pstate (proc_at s3 0) = RUNNABLE" using r(5) by (simp add: sample_vstate_def)
  ultimately show ?thesis using r(1-4,6,8) by auto
qed

end
