(* ===== verification/Ulib.thy ===== *)
theory Ulib
  imports Console
begin

text \<open>
  \<open>user/ulib.c\<close> and \<open>user/printf.c\<close>: the library the user programs are linked with.  The string
  functions run over the byte-addressed memory of the process; a loop that only a NUL byte ends
  takes fuel.  \<open>char\<close> is unsigned, as it is on RISC-V.
\<close>

section \<open>ulib.c\<close>

fun strcpy_fuel :: "nat \<Rightarrow> u64 \<Rightarrow> u64 \<Rightarrow> mem \<Rightarrow> mem res" where
  "strcpy_fuel 0 s t m = Stuck"
| "strcpy_fuel (Suc k) s t m =
     (let m' = m(s := m t) in if m t \<noteq> 0 then strcpy_fuel k (s + 1) (t + 1) m' else Ok m')"

fun strcmp_fuel :: "nat \<Rightarrow> u64 \<Rightarrow> u64 \<Rightarrow> mem \<Rightarrow> int res" where
  "strcmp_fuel 0 p q m = Stuck"
| "strcmp_fuel (Suc k) p q m =
     (if m p \<noteq> 0 \<and> m p = m q then strcmp_fuel k (p + 1) (q + 1) m else Ok (uint (m p) - uint (m q)))"

definition u_strlen :: "nat \<Rightarrow> mem \<Rightarrow> u64 \<Rightarrow> u32 res" where
  "u_strlen k m s = rbind (strlen_fuel k m s) (\<lambda>n. Ok (word_of_int n))"

text \<open>The index of \<open>memset\<close> is an \<open>int\<close>: past \<open>2 ^ 31\<close> it would overflow.\<close>

definition u_memset :: "mem \<Rightarrow> u64 \<Rightarrow> int \<Rightarrow> u32 \<Rightarrow> mem res" where
  "u_memset m dst c n = (if unat n \<le> 2 ^ 31 then Ok (memset_loop (unat n) dst (word_of_int c) m) else Stuck)"

fun strchr_fuel :: "nat \<Rightarrow> u64 \<Rightarrow> u8 \<Rightarrow> mem \<Rightarrow> u64 res" where
  "strchr_fuel 0 s c m = Stuck"
| "strchr_fuel (Suc k) s c m =
     (if m s = 0 then Ok 0 else if m s = c then Ok s else strchr_fuel k (s + 1) c m)"

text \<open>\<open>gets\<close> reads the standard input a byte at a time; with the memory it leaves the unread input.\<close>

fun gets_loop :: "u8 list \<Rightarrow> u64 \<Rightarrow> int \<Rightarrow> int \<Rightarrow> mem \<Rightarrow> mem \<times> u8 list" where
  "gets_loop inp buf i mx m =
     (if i + 1 < mx
      then (case inp of
          [] \<Rightarrow> (m(buf + word_of_int i := 0), [])
        | c # cs \<Rightarrow>
            let m' = m(buf + word_of_int i := c)
            in if c = 10 \<or> c = 13 then (m'(buf + word_of_int (i + 1) := 0), cs) else gets_loop cs buf (i + 1) mx m')
      else (m(buf + word_of_int i := 0), inp))"

declare gets_loop.simps [simp del]

definition gets :: "u8 list \<Rightarrow> u64 \<Rightarrow> int \<Rightarrow> mem \<Rightarrow> mem \<times> u8 list" where
  "gets inp buf mx m = gets_loop inp buf 0 mx m"

text \<open>\<open>stat\<close> over the system calls it makes, which are arguments: what they return and the state after.\<close>

definition u_stat :: "('s \<Rightarrow> int \<times> 's) \<Rightarrow> (int \<Rightarrow> 's \<Rightarrow> int \<times> 's) \<Rightarrow> (int \<Rightarrow> 's \<Rightarrow> 's) \<Rightarrow> 's \<Rightarrow> int \<times> 's" where
  "u_stat opn fst_call cls s =
     (case opn s of (fd, s1) \<Rightarrow>
        if fd < 0 then (- 1, s1) else (case fst_call fd s1 of (r, s2) \<Rightarrow> (r, cls fd s2)))"

text \<open>Signed overflow in \<open>atoi\<close> is undefined; the model wraps.\<close>

fun atoi_fuel :: "nat \<Rightarrow> u64 \<Rightarrow> int \<Rightarrow> mem \<Rightarrow> int res" where
  "atoi_fuel 0 s n m = Stuck"
| "atoi_fuel (Suc k) s n m =
     (if 48 \<le> m s \<and> m s \<le> 57 then atoi_fuel k (s + 1) (i32 (n * 10 + uint (m s) - 48)) m else Ok n)"

definition atoi :: "nat \<Rightarrow> u64 \<Rightarrow> mem \<Rightarrow> int res" where
  "atoi k s m = atoi_fuel k s 0 m"

definition u_memmove :: "mem \<Rightarrow> u64 \<Rightarrow> u64 \<Rightarrow> int \<Rightarrow> mem" where
  "u_memmove m dst src n =
     (if src > dst then move_forward (nat n) src dst m
      else move_backward (nat n) (src + word_of_int n) (dst + word_of_int n) m)"

definition u_memcmp :: "mem \<Rightarrow> u64 \<Rightarrow> u64 \<Rightarrow> u32 \<Rightarrow> int" where
  "u_memcmp m s1 s2 n = memcmp_loop (unat n) s1 s2 m"

definition u_memcpy :: "mem \<Rightarrow> u64 \<Rightarrow> u64 \<Rightarrow> u32 \<Rightarrow> mem" where
  "u_memcpy m dst src n = u_memmove m dst src (sint n)"

section \<open>printf.c\<close>

text \<open>The bytes each call of \<open>putc\<close> writes, in order.\<close>

definition udigit :: "nat \<Rightarrow> u8" where
  "udigit d = (if d < 10 then 48 + word_of_nat d else 55 + word_of_nat d)"

function udigits_of :: "nat \<Rightarrow> nat \<Rightarrow> u8 list" where
  "udigits_of b x = udigit (x mod b) # (if x div b = 0 \<or> b < 2 then [] else udigits_of b (x div b))"
  by pat_completeness auto
termination
proof (relation "measure snd")
  fix b x :: nat assume "\<not> (x div b = 0 \<or> b < 2)"
  then have "x div b < x" by (cases "x = 0") (auto intro!: div_less_dividend)
  then show "((b, x div b), b, x) \<in> measure snd" by simp
qed simp

declare udigits_of.simps [simp del]

definition u_printint :: "int \<Rightarrow> nat \<Rightarrow> bool \<Rightarrow> u8 list" where
  "u_printint xx b sg =
     (let neg = sg \<and> xx < 0; x = word_of_int (if neg then - xx else xx) :: u32
      in rev (udigits_of b (unat x) @ (if neg then [45] else [])))"

definition u_printptr :: "u64 \<Rightarrow> u8 list" where
  "u_printptr x = [48, 120] @ map (\<lambda>i. udigit (unat (drop_bit 60 (push_bit (4 * i) x)))) [0..<16]"

text \<open>\<open>vprintf\<close>: \<open>state\<close> tells whether a percent sign has just been read; \<open>va_arg\<close> of another kind
  than the argument is undefined.  \<open>%l\<close> passes the 64-bit argument on as an \<open>int\<close>.\<close>

fun vprintf :: "bool \<Rightarrow> u8 list \<Rightarrow> fmtarg list \<Rightarrow> u8 list res" where
  "vprintf _ [] ap = Ok []"
| "vprintf False (c # fmt) ap = (if c = 37 then vprintf True fmt ap else emit [c] (vprintf False fmt ap))"
| "vprintf True (c # fmt) ap =
     (if c = 100 then (case ap of ArgInt n # as \<Rightarrow> emit (u_printint n 10 True) (vprintf False fmt as) | _ \<Rightarrow> Stuck)
      else if c = 108 then (case ap of ArgPtr x # as \<Rightarrow> emit (u_printint (i32 (uint x)) 10 False) (vprintf False fmt as) | _ \<Rightarrow> Stuck)
      else if c = 120 then (case ap of ArgInt n # as \<Rightarrow> emit (u_printint n 16 False) (vprintf False fmt as) | _ \<Rightarrow> Stuck)
      else if c = 112 then (case ap of ArgPtr x # as \<Rightarrow> emit (u_printptr x) (vprintf False fmt as) | _ \<Rightarrow> Stuck)
      else if c = 115 then (case ap of
           ArgStr None # as \<Rightarrow> emit null_text (vprintf False fmt as)
         | ArgStr (Some t) # as \<Rightarrow> emit (takeWhile (\<lambda>b. b \<noteq> 0) t) (vprintf False fmt as)
         | _ \<Rightarrow> Stuck)
      else if c = 99 then (case ap of ArgInt n # as \<Rightarrow> emit [word_of_int n] (vprintf False fmt as) | _ \<Rightarrow> Stuck)
      else if c = 37 then emit [c] (vprintf False fmt ap)
      else emit [37, c] (vprintf False fmt ap))"

definition u_printf :: "u8 list \<Rightarrow> fmtarg list \<Rightarrow> u8 list res" where
  "u_printf fmt ap = vprintf False fmt ap"

end
