(* ===== verification/Sh.thy ===== *)
theory Sh
  imports Ulib
begin

text \<open>
  \<open>user/sh.c\<close>: the parser of the shell and what it runs.  The line is the list of its bytes before
  the NUL; a \<open>char*\<close> into it is a position.  The mutually recursive parser takes fuel; running a
  command is the tree of the system calls it makes, branching on what each one returns.
\<close>

section \<open>Tokens\<close>

definition whitespace :: "u8 list" where
  "whitespace = [32, 9, 13, 10, 11]"

definition symbols :: "u8 list" where
  "symbols = [60, 124, 62, 38, 59, 40, 41]"

definition char_at :: "u8 list \<Rightarrow> nat \<Rightarrow> u8" where
  "char_at s p = (if p < length s then s ! p else 0)"

text \<open>\<open>strchr(toks, c) != 0\<close>; the NUL is not found.\<close>

definition among :: "u8 \<Rightarrow> u8 list \<Rightarrow> bool" where
  "among c toks \<longleftrightarrow> c \<in> set toks"

function skip_ws :: "u8 list \<Rightarrow> nat \<Rightarrow> nat" where
  "skip_ws s p = (if p < length s \<and> among (char_at s p) whitespace then skip_ws s (p + 1) else p)"
  by pat_completeness auto
termination by (relation "measure (\<lambda>(s, p). length s - p)") auto

function skip_word :: "u8 list \<Rightarrow> nat \<Rightarrow> nat" where
  "skip_word s p =
     (if p < length s \<and> \<not> among (char_at s p) whitespace \<and> \<not> among (char_at s p) symbols then skip_word s (p + 1) else p)"
  by pat_completeness auto
termination by (relation "measure (\<lambda>(s, p). length s - p)") auto

declare skip_ws.simps [simp del] skip_word.simps [simp del]

text \<open>\<open>gettoken\<close>: the token's kind, its first position and the one after it, and the new \<open>*ps\<close>.\<close>

definition gettoken :: "u8 list \<Rightarrow> nat \<Rightarrow> u8 \<times> nat \<times> nat \<times> nat" where
  "gettoken s p =
     (let q = skip_ws s p; c = char_at s q;
          (ret, e) = (if c = 0 then (0, q)
                      else if c \<in> {124, 40, 41, 59, 38, 60} then (c, q + 1)
                      else if c = 62 then (if char_at s (q + 1) = 62 then (43, q + 2) else (62, q + 1))
                      else (97, skip_word s q))
      in (ret, q, e, skip_ws s e))"

definition peek :: "u8 list \<Rightarrow> nat \<Rightarrow> u8 list \<Rightarrow> bool \<times> nat" where
  "peek s p toks = (let q = skip_ws s p in (char_at s q \<noteq> 0 \<and> among (char_at s q) toks, q))"

section \<open>Parser\<close>

abbreviation MAXARGS :: nat where "MAXARGS \<equiv> 10"

text \<open>A string of a command is its \<open>argv\<close> and \<open>eargv\<close> position.\<close>

datatype cmd = EXEC "(nat \<times> nat) list" | REDIR cmd nat nat int int | PIPE cmd cmd | LIST cmd cmd | BACK cmd

text \<open>The arguments are stored in the \<open>execcmd\<close> that redirections already point to.\<close>

fun put_args :: "(nat \<times> nat) list \<Rightarrow> cmd \<Rightarrow> cmd" where
  "put_args argv (EXEC _) = EXEC argv"
| "put_args argv (REDIR c q eq mode fd) = REDIR (put_args argv c) q eq mode fd"
| "put_args argv c = c"

fun parseredirs :: "nat \<Rightarrow> u8 list \<Rightarrow> cmd \<Rightarrow> nat \<Rightarrow> (cmd \<times> nat) res" where
  "parseredirs 0 s c p = Stuck"
| "parseredirs (Suc k) s c p =
     (case peek s p [60, 62] of (b, p1) \<Rightarrow>
        if \<not> b then Ok (c, p1)
        else (case gettoken s p1 of (tok, _, _, p2) \<Rightarrow>
              case gettoken s p2 of (tok2, q, eq, p3) \<Rightarrow>
                if tok2 \<noteq> 97 then Panic ''missing file for redirection''
                else parseredirs k s
                  (if tok = 60 then REDIR c q eq 0x000 0
                   else if tok = 62 then REDIR c q eq 0x601 1
                   else if tok = 43 then REDIR c q eq 0x201 1 else c) p3))"

text \<open>The loop of \<open>parseexec\<close>.\<close>

fun parseargs :: "nat \<Rightarrow> u8 list \<Rightarrow> (nat \<times> nat) list \<Rightarrow> cmd \<Rightarrow> nat \<Rightarrow> (cmd \<times> nat) res" where
  "parseargs 0 s argv ret p = Stuck"
| "parseargs (Suc k) s argv ret p =
     (case peek s p [124, 41, 38, 59] of (b, p1) \<Rightarrow>
        if b then Ok (put_args argv ret, p1)
        else (case gettoken s p1 of (tok, q, eq, p2) \<Rightarrow>
                if tok = 0 then Ok (put_args argv ret, p2)
                else if tok \<noteq> 97 then Panic ''syntax''
                else (let argv' = argv @ [(q, eq)]
                      in if length argv' \<ge> MAXARGS then Panic ''too many args''
                         else rbind (parseredirs k s ret p2) (\<lambda>(ret', p3). parseargs k s argv' ret' p3))))"

text \<open>The loop of \<open>parseline\<close> over \<open>&\<close>.\<close>

fun parsebacks :: "nat \<Rightarrow> u8 list \<Rightarrow> cmd \<Rightarrow> nat \<Rightarrow> (cmd \<times> nat) res" where
  "parsebacks 0 s c p = Stuck"
| "parsebacks (Suc k) s c p =
     (case peek s p [38] of (b, p1) \<Rightarrow>
        if \<not> b then Ok (c, p1) else (case gettoken s p1 of (_, _, _, p2) \<Rightarrow> parsebacks k s (BACK c) p2))"

fun parseline :: "nat \<Rightarrow> u8 list \<Rightarrow> nat \<Rightarrow> (cmd \<times> nat) res"
  and parsepipe :: "nat \<Rightarrow> u8 list \<Rightarrow> nat \<Rightarrow> (cmd \<times> nat) res"
  and parseexec :: "nat \<Rightarrow> u8 list \<Rightarrow> nat \<Rightarrow> (cmd \<times> nat) res"
  and parseblock :: "nat \<Rightarrow> u8 list \<Rightarrow> nat \<Rightarrow> (cmd \<times> nat) res" where
  "parseline 0 s p = Stuck"
| "parseline (Suc k) s p =
     rbind (parsepipe k s p) (\<lambda>(c, p1).
     rbind (parsebacks k s c p1) (\<lambda>(c1, p2).
     case peek s p2 [59] of (b, p3) \<Rightarrow>
       if b then (case gettoken s p3 of (_, _, _, p4) \<Rightarrow>
                  rbind (parseline k s p4) (\<lambda>(r, p5). Ok (LIST c1 r, p5)))
       else Ok (c1, p3)))"
| "parsepipe 0 s p = Stuck"
| "parsepipe (Suc k) s p =
     rbind (parseexec k s p) (\<lambda>(c, p1).
     case peek s p1 [124] of (b, p2) \<Rightarrow>
       if b then (case gettoken s p2 of (_, _, _, p3) \<Rightarrow>
                  rbind (parsepipe k s p3) (\<lambda>(r, p4). Ok (PIPE c r, p4)))
       else Ok (c, p2))"
| "parseexec 0 s p = Stuck"
| "parseexec (Suc k) s p =
     (case peek s p [40] of (b, p1) \<Rightarrow>
        if b then parseblock k s p1
        else rbind (parseredirs k s (EXEC []) p1) (\<lambda>(ret, p2). parseargs k s [] ret p2))"
| "parseblock 0 s p = Stuck"
| "parseblock (Suc k) s p =
     (case peek s p [40] of (b, p1) \<Rightarrow>
        if \<not> b then Panic ''parseblock''
        else (case gettoken s p1 of (_, _, _, p2) \<Rightarrow>
              rbind (parseline k s p2) (\<lambda>(c, p3).
              case peek s p3 [41] of (b2, p4) \<Rightarrow>
                if \<not> b2 then Panic ''syntax - missing )''
                else (case gettoken s p4 of (_, _, _, p5) \<Rightarrow> parseredirs k s c p5))))"

text \<open>The line with a NUL written after every string of the command; \<open>b\<close> holds the final NUL too.\<close>

fun nulterminate :: "cmd \<Rightarrow> u8 list \<Rightarrow> u8 list" where
  "nulterminate (EXEC argv) b = fold (\<lambda>(q, eq) b. b[eq := 0]) argv b"
| "nulterminate (REDIR c q eq mode fd) b = (nulterminate c b)[eq := 0]"
| "nulterminate (PIPE l r) b = nulterminate r (nulterminate l b)"
| "nulterminate (LIST l r) b = nulterminate r (nulterminate l b)"
| "nulterminate (BACK c) b = nulterminate c b"

definition parsecmd_fuel :: "nat \<Rightarrow> u8 list \<Rightarrow> (cmd \<times> u8 list) res" where
  "parsecmd_fuel k s =
     rbind (parseline k s 0) (\<lambda>(c, p). case peek s p [] of (_, p1) \<Rightarrow>
       if p1 \<noteq> length s then Panic ''syntax'' else Ok (c, nulterminate c (s @ [0])))"

definition parsecmd :: "u8 list \<Rightarrow> (cmd \<times> u8 list) res" where
  "parsecmd s = parsecmd_fuel (4 * length s + 4) s"

section \<open>Running a command\<close>

text \<open>A program that makes system calls: each constructor is a call, its function takes the result.
  \<open>SFork\<close> continues with \<open>0\<close> in the child.\<close>

datatype prog = SExit int | SClose int prog | SDup int prog | SWait prog | SWrite int "u8 list" prog
  | SOpen "u8 list" int "int \<Rightarrow> prog" | SExec "u8 list list" prog | SFork "int \<Rightarrow> prog"
  | SPipe "int \<Rightarrow> int \<Rightarrow> int \<Rightarrow> prog" | SChdir "u8 list" "int \<Rightarrow> prog"

definition ascii :: "string \<Rightarrow> u8 list" where
  "ascii = map (\<lambda>c. word_of_nat (of_char c))"

definition sh_panic :: "string \<Rightarrow> prog" where
  "sh_panic m = SWrite 2 (ascii m @ [10]) (SExit 1)"

definition fork1 :: "(int \<Rightarrow> prog) \<Rightarrow> prog" where
  "fork1 f = SFork (\<lambda>pid. if pid = - 1 then sh_panic ''fork'' else f pid)"

text \<open>The C string at a position of the terminated line.\<close>

definition text_at :: "u8 list \<Rightarrow> nat \<Rightarrow> u8 list" where
  "text_at b q = takeWhile (\<lambda>c. c \<noteq> 0) (drop q b)"

primrec runcmd :: "u8 list \<Rightarrow> cmd \<Rightarrow> prog" where
  "runcmd b (EXEC argv) =
     (if argv = [] then SExit 1
      else SExec (map (\<lambda>(q, eq). text_at b q) argv)
             (SWrite 2 (ascii ''exec '' @ text_at b (fst (hd argv)) @ ascii '' failed'' @ [10]) (SExit 0)))"
| "runcmd b (REDIR c q eq mode fd) =
     SClose fd (SOpen (text_at b q) mode (\<lambda>r.
       if r < 0 then SWrite 2 (ascii ''open '' @ text_at b q @ ascii '' failed'' @ [10]) (SExit 1) else runcmd b c))"
| "runcmd b (LIST l r) = fork1 (\<lambda>pid. if pid = 0 then runcmd b l else SWait (runcmd b r))"
| "runcmd b (PIPE l r) =
     SPipe (\<lambda>res p0 p1. if res < 0 then sh_panic ''pipe'' else
       fork1 (\<lambda>pid. if pid = 0 then SClose 1 (SDup p1 (SClose p0 (SClose p1 (runcmd b l)))) else
       fork1 (\<lambda>pid. if pid = 0 then SClose 0 (SDup p0 (SClose p0 (SClose p1 (runcmd b r)))) else
         SClose p0 (SClose p1 (SWait (SWait (SExit 0)))))))"
| "runcmd b (BACK c) = fork1 (\<lambda>pid. if pid = 0 then runcmd b c else SExit 0)"

text \<open>What the shell does with a line of input; \<open>k\<close> is what it does after.\<close>

definition run_line :: "u8 list \<Rightarrow> prog \<Rightarrow> prog" where
  "run_line s k =
     (if take 3 s = [99, 100, 32]
      then (let dir = drop 3 (butlast s)
            in SChdir dir (\<lambda>r. if r < 0 then SWrite 2 (ascii ''cannot cd '' @ dir @ [10]) k else k))
      else fork1 (\<lambda>pid. if pid = 0
             then (case parsecmd s of Ok (c, b) \<Rightarrow> runcmd b c | Panic m \<Rightarrow> sh_panic m | Stuck \<Rightarrow> SExit 1)
             else SWait k))"

text \<open>The loop of \<open>main\<close> over the lines that \<open>getcmd\<close> reads; \<open>SWrite\<close> is its prompt.\<close>

primrec shell :: "u8 list list \<Rightarrow> prog" where
  "shell [] = SWrite 2 [36, 32] (SExit 0)"
| "shell (s # ls) = SWrite 2 [36, 32] (run_line s (shell ls))"

section \<open>The parser ends\<close>

definition word_char :: "u8 \<Rightarrow> bool" where
  "word_char c \<longleftrightarrow> \<not> among c whitespace \<and> \<not> among c symbols"

text \<open>A maximal run of word characters, and the commands all of whose strings are such runs.\<close>

definition is_word :: "u8 list \<Rightarrow> nat \<Rightarrow> nat \<Rightarrow> bool" where
  "is_word s q e \<longleftrightarrow> q < e \<and> e \<le> length s \<and> (\<forall>i. q \<le> i \<and> i < e \<longrightarrow> word_char (s ! i)) \<and>
     (e < length s \<longrightarrow> \<not> word_char (s ! e))"

primrec cmd_ok :: "u8 list \<Rightarrow> cmd \<Rightarrow> bool" where
  "cmd_ok s (EXEC argv) \<longleftrightarrow> length argv < MAXARGS \<and> (\<forall>(q, e)\<in>set argv. is_word s q e)"
| "cmd_ok s (REDIR c q e mode fd) \<longleftrightarrow> cmd_ok s c \<and> is_word s q e"
| "cmd_ok s (PIPE l r) \<longleftrightarrow> cmd_ok s l \<and> cmd_ok s r"
| "cmd_ok s (LIST l r) \<longleftrightarrow> cmd_ok s l \<and> cmd_ok s r"
| "cmd_ok s (BACK c) \<longleftrightarrow> cmd_ok s c"

lemma skip_ws_bounds: "p \<le> skip_ws s p" "p \<le> length s \<Longrightarrow> skip_ws s p \<le> length s"
proof -
  have "p \<le> skip_ws s p \<and> (p \<le> length s \<longrightarrow> skip_ws s p \<le> length s)"
  proof (induction s p rule: skip_ws.induct)
    case (1 s p)
    then show ?case by (cases "p < length s \<and> among (char_at s p) whitespace") (auto simp: skip_ws.simps[of s p])
  qed
  then show "p \<le> skip_ws s p" "p \<le> length s \<Longrightarrow> skip_ws s p \<le> length s" by simp_all
qed

lemma skip_ws_stops: "skip_ws s p < length s \<Longrightarrow> \<not> among (s ! skip_ws s p) whitespace"
proof (induction s p rule: skip_ws.induct)
  case (1 s p)
  then show ?case by (cases "p < length s \<and> among (char_at s p) whitespace")
     (auto simp: skip_ws.simps[of s p] char_at_def)
qed

lemma skip_word_bounds: "p \<le> skip_word s p" "p \<le> length s \<Longrightarrow> skip_word s p \<le> length s"
proof -
  have "p \<le> skip_word s p \<and> (p \<le> length s \<longrightarrow> skip_word s p \<le> length s)"
  proof (induction s p rule: skip_word.induct)
    case (1 s p)
    then show ?case by (cases "p < length s \<and> \<not> among (char_at s p) whitespace \<and> \<not> among (char_at s p) symbols") (auto simp: skip_word.simps[of s p])
  qed
  then show "p \<le> skip_word s p" "p \<le> length s \<Longrightarrow> skip_word s p \<le> length s" by simp_all
qed

lemma skip_word_stops: "skip_word s p < length s \<Longrightarrow> \<not> word_char (s ! skip_word s p)"
proof (induction s p rule: skip_word.induct)
  case (1 s p)
  then show ?case
    by (cases "p < length s \<and> \<not> among (char_at s p) whitespace \<and> \<not> among (char_at s p) symbols")
     (auto simp: skip_word.simps[of s p] char_at_def word_char_def)
qed

lemma skip_word_chars: "p \<le> i \<Longrightarrow> i < skip_word s p \<Longrightarrow> word_char (s ! i)"
proof (induction s p rule: skip_word.induct)
  case (1 s p)
  show ?case
  proof (cases "p < length s \<and> \<not> among (char_at s p) whitespace \<and> \<not> among (char_at s p) symbols")
    case True
    then show ?thesis using 1 by (cases "i = p") (auto simp: skip_word.simps[of s p] char_at_def word_char_def)
  next
    case False
    then have "skip_word s p = p" by (subst skip_word.simps) (simp only: if_False)
    then show ?thesis using 1 by simp
  qed
qed

lemma skip_word_first: "p < length s \<Longrightarrow> word_char (s ! p) \<Longrightarrow> p < skip_word s p"
  using skip_word_bounds(1)[of "p + 1" s] by (simp add: skip_word.simps[of s p] word_char_def char_at_def)

lemma gettoken_spec:
  assumes g: "gettoken s p = (tok, q, e, p')" and p: "p \<le> length s" and z: "0 \<notin> set s"
  shows "p \<le> p' \<and> p' \<le> length s" "tok \<noteq> 0 \<Longrightarrow> p < p'" "tok = 97 \<Longrightarrow> is_word s q e"
    "tok = 0 \<longleftrightarrow> skip_ws s p = length s"
proof -
  let ?q = "skip_ws s p"
  have q: "p \<le> ?q" "?q \<le> length s" using skip_ws_bounds p by simp_all
  have c0: "char_at s ?q = 0 \<longleftrightarrow> ?q = length s" using q z by (auto simp: char_at_def in_set_conv_nth)
  have e1: "char_at s (?q + 1) = 62 \<Longrightarrow> ?q + 2 \<le> length s" by (auto simp: char_at_def split: if_splits)
  consider (nul) "char_at s ?q = 0" | (sym) "char_at s ?q \<noteq> 0" "char_at s ?q \<in> {124, 40, 41, 59, 38, 60, 62}"
    | (wd) "char_at s ?q \<noteq> 0" "char_at s ?q \<notin> {124, 40, 41, 59, 38, 60, 62}" by blast
  then have "(p \<le> p' \<and> p' \<le> length s) \<and> (tok \<noteq> 0 \<longrightarrow> p < p') \<and> (tok = 97 \<longrightarrow> is_word s q e) \<and> (tok = 0 \<longleftrightarrow> skip_ws s p = length s)"
  proof cases
    case nul
    then show ?thesis using g q c0 skip_ws_bounds[of ?q s] by (auto simp: gettoken_def Let_def)
  next
    case sym
    then have l: "?q < length s" using c0 q by (cases "?q = length s") simp_all
    have "p < e \<and> e \<le> length s \<and> p' = skip_ws s e \<and> tok \<noteq> 97 \<and> tok \<noteq> 0"
      using g sym l q e1 by (auto simp: gettoken_def Let_def split: if_splits)
    then show ?thesis using skip_ws_bounds[of e s] l by auto
  next
    case wd
    then have l: "?q < length s" using c0 q by (cases "?q = length s") simp_all
    have r: "tok = 97" "q = ?q" "e = skip_word s ?q" "p' = skip_ws s e" using g wd by (auto simp: gettoken_def Let_def)
    have "word_char (s ! ?q)" using wd l skip_ws_stops[of s p]
      by (auto simp: word_char_def symbols_def among_def char_at_def)
    then have "?q < e" using skip_word_first l r(3) by simp
    moreover have "e \<le> length s" using skip_word_bounds(2)[of ?q s] l r(3) by simp
    ultimately show ?thesis
      using r skip_word_chars[of ?q _ s] skip_word_stops[of s ?q] q skip_ws_bounds[of e s] l by (auto simp: is_word_def)
  qed
  then show "p \<le> p' \<and> p' \<le> length s" "tok \<noteq> 0 \<Longrightarrow> p < p'" "tok = 97 \<Longrightarrow> is_word s q e"
    "tok = 0 \<longleftrightarrow> skip_ws s p = length s" by blast+
qed

lemma skip_ws_idem: "skip_ws s (skip_ws s p) = skip_ws s p"
  using skip_ws_stops[of s p] by (subst skip_ws.simps) (auto simp: char_at_def)

lemma peek_spec:
  assumes g: "peek s p toks = (b, p1)" and p: "p \<le> length s"
  shows "p \<le> p1 \<and> p1 \<le> length s" "b \<Longrightarrow> p1 < length s \<and> among (s ! p1) toks"
    "skip_ws s p1 = p1"
proof -
  have e: "p1 = skip_ws s p" using g by (simp add: peek_def Let_def)
  show "p \<le> p1 \<and> p1 \<le> length s" using skip_ws_bounds(1)[of p s] skip_ws_bounds(2)[OF p] e by simp
  show "b \<Longrightarrow> p1 < length s \<and> among (s ! p1) toks" using g by (auto simp: peek_def Let_def char_at_def split: if_splits)
  show "skip_ws s p1 = p1" unfolding e by (rule skip_ws_idem)
qed

text \<open>A symbol that \<open>peek\<close> has seen is consumed.\<close>

lemma peek_gettoken:
  assumes "peek s p toks = (True, p1)" "gettoken s p1 = (tok, q, e, p2)" "p \<le> length s" "0 \<notin> set s"
  shows "p1 < p2 \<and> p2 \<le> length s"
proof -
  note b = peek_spec[OF assms(1,3)]
  then have "p1 \<le> length s" "skip_ws s p1 \<noteq> length s" by auto
  then show ?thesis using gettoken_spec[OF assms(2) _ assms(4)] by auto
qed

text \<open>A result of the parser: a command of good strings and a position, or a panic.\<close>

fun good :: "u8 list \<Rightarrow> nat \<Rightarrow> (cmd \<times> nat) res \<Rightarrow> bool" where
  "good s p (Ok (c, p')) \<longleftrightarrow> p \<le> p' \<and> p' \<le> length s \<and> cmd_ok s c"
| "good s p (Panic m) \<longleftrightarrow> True"
| "good s p Stuck \<longleftrightarrow> False"

lemma good_bind:
  assumes "good s p r" and "\<And>c p1. p \<le> p1 \<Longrightarrow> p1 \<le> length s \<Longrightarrow> cmd_ok s c \<Longrightarrow> good s p (f (c, p1))"
  shows "good s p (rbind r f)"
  using assms by (cases r) auto

lemma good_later: "good s q r \<Longrightarrow> p \<le> q \<Longrightarrow> good s p r"
  by (cases "(s, q, r)" rule: good.cases) auto

lemma put_args_ok: "cmd_ok s c \<Longrightarrow> length argv < MAXARGS \<Longrightarrow> \<forall>(q, e)\<in>set argv. is_word s q e \<Longrightarrow> cmd_ok s (put_args argv c)"
  by (induction argv c rule: put_args.induct) auto

lemma parseredirs_good:
  "0 \<notin> set s \<Longrightarrow> p \<le> length s \<Longrightarrow> length s - p < k \<Longrightarrow> cmd_ok s c \<Longrightarrow> good s p (parseredirs k s c p)"
proof (induction k arbitrary: c p)
  case (Suc k)
  obtain b p1 where pk: "peek s p [60, 62] = (b, p1)" by fastforce
  obtain tok q0 e0 p2 where g1: "gettoken s p1 = (tok, q0, e0, p2)" by (cases "gettoken s p1")
  obtain tok2 q e p3 where g2: "gettoken s p2 = (tok2, q, e, p3)" by (cases "gettoken s p2")
  note P = peek_spec[OF pk Suc.prems(2)]
  show ?case
  proof (cases "b \<and> tok2 = 97")
    case True
    have b1: "p1 < p2" "p2 \<le> length s" using peek_gettoken[OF _ g1 Suc.prems(2,1)] pk True by auto
    note G = gettoken_spec[OF g2 b1(2) Suc.prems(1)]
    let ?c = "if tok = 60 then REDIR c q e 0x000 0 else if tok = 62 then REDIR c q e 0x601 1
              else if tok = 43 then REDIR c q e 0x201 1 else c"
    have "cmd_ok s ?c" using Suc.prems(4) G(3) True by simp
    moreover have "length s - p3 < k" using Suc.prems(3) b1 G(1,2) P(1) True by auto
    ultimately have "good s p3 (parseredirs k s ?c p3)"
      using Suc.IH[OF Suc.prems(1)] G(1) by blast
    then have "good s p (parseredirs k s ?c p3)" by (rule good_later) (use P(1) b1 G(1) in simp)
    then show ?thesis using pk g1 g2 True by simp
  qed (use pk g1 g2 P Suc.prems in auto)
qed simp

lemma parseargs_good:
  "0 \<notin> set s \<Longrightarrow> p \<le> length s \<Longrightarrow> length s - p < k \<Longrightarrow> cmd_ok s ret \<Longrightarrow> length argv < MAXARGS \<Longrightarrow>
     \<forall>(q, e)\<in>set argv. is_word s q e \<Longrightarrow> good s p (parseargs k s argv ret p)"
proof (induction k arbitrary: argv ret p)
  case (Suc k)
  obtain b p1 where pk: "peek s p [124, 41, 38, 59] = (b, p1)" by fastforce
  obtain tok q e p2 where g: "gettoken s p1 = (tok, q, e, p2)" by (cases "gettoken s p1")
  note P = peek_spec[OF pk Suc.prems(2)]
  have p1: "p1 \<le> length s" using P(1) by simp
  note G = gettoken_spec[OF g p1 Suc.prems(1)]
  have A: "cmd_ok s (put_args argv ret)" using put_args_ok Suc.prems(4-6) by blast
  let ?argv = "argv @ [(q, e)]"
  show ?case
  proof (cases "\<not> b \<and> tok = 97 \<and> length ?argv < MAXARGS")
    case True
    have "good s p2 (parseredirs k s ret p2)"
      using parseredirs_good[OF Suc.prems(1) _ _ Suc.prems(4)] Suc.prems(3) G(1,2) P(1) True by auto
    then have "good s p2 (rbind (parseredirs k s ret p2) (\<lambda>(ret', p3). parseargs k s ?argv ret' p3))"
    proof (rule good_bind, unfold prod.case)
      fix c p3 assume p3: "p2 \<le> p3" "p3 \<le> length s" "cmd_ok s c"
      have "good s p3 (parseargs k s ?argv c p3)"
        using Suc.IH[OF Suc.prems(1) p3(2) _ p3(3)] Suc.prems(3,6) G P(1) p3(1) True by auto
      then show "good s p2 (parseargs k s ?argv c p3)" by (rule good_later[OF _ p3(1)])
    qed
    then have "good s p (rbind (parseredirs k s ret p2) (\<lambda>(ret', p3). parseargs k s ?argv ret' p3))"
      by (rule good_later) (use P(1) G(1) in simp)
    then show ?thesis using pk g True by simp
  qed (use pk g P G(1) A in auto)
qed simp

lemma parsebacks_good:
  "0 \<notin> set s \<Longrightarrow> p \<le> length s \<Longrightarrow> length s - p < k \<Longrightarrow> cmd_ok s c \<Longrightarrow> good s p (parsebacks k s c p)"
proof (induction k arbitrary: c p)
  case (Suc k)
  obtain b p1 where pk: "peek s p [38] = (b, p1)" by fastforce
  obtain tok q e p2 where g: "gettoken s p1 = (tok, q, e, p2)" by (cases "gettoken s p1")
  note P = peek_spec[OF pk Suc.prems(2)]
  show ?case
  proof (cases b)
    case True
    have p2: "p1 < p2" "p2 \<le> length s" using peek_gettoken[OF _ g Suc.prems(2,1)] pk True by auto
    have "good s p2 (parsebacks k s (BACK c) p2)" using Suc.IH[OF Suc.prems(1) p2(2)] Suc.prems(3,4) p2 P(1) by auto
    then have "good s p (parsebacks k s (BACK c) p2)" by (rule good_later) (use P(1) p2 in simp)
    then show ?thesis using pk g True by simp
  qed (use pk P Suc.prems in auto)
qed simp

text \<open>One step of each parser from the parsers it calls.\<close>

definition parses :: "nat \<Rightarrow> u8 list \<Rightarrow> nat \<Rightarrow> bool" where
  "parses k s p \<longleftrightarrow> (4 * (length s - p) + 4 \<le> k \<longrightarrow> good s p (parseline k s p)) \<and>
     (4 * (length s - p) + 3 \<le> k \<longrightarrow> good s p (parsepipe k s p)) \<and>
     (4 * (length s - p) + 2 \<le> k \<longrightarrow> good s p (parseexec k s p)) \<and>
     (4 * (length s - p) + 1 \<le> k \<longrightarrow> good s p (parseblock k s p))"

lemma parseexec_step:
  assumes z: "0 \<notin> set s" and p: "p \<le> length s" and k: "4 * (length s - p) + 2 \<le> Suc k"
    and IH: "\<And>q. p \<le> q \<Longrightarrow> q \<le> length s \<Longrightarrow> parses k s q"
  shows "good s p (parseexec (Suc k) s p)"
proof -
  obtain b p1 where pk: "peek s p [40] = (b, p1)" by fastforce
  note P = peek_spec[OF pk p]
  have p1: "p \<le> p1" "p1 \<le> length s" using P(1) by simp_all
  show ?thesis
  proof (cases b)
    case True
    have "good s p1 (parseblock k s p1)" using IH[OF p1] k p1 by (auto simp: parses_def)
    then show ?thesis using pk True good_later[OF _ p1(1)] by simp
  next
    case False
    have "good s p1 (parseredirs k s (EXEC []) p1)" using parseredirs_good[OF z p1(2)] k p1 by simp
    then have "good s p1 (rbind (parseredirs k s (EXEC []) p1) (\<lambda>(ret, p2). parseargs k s [] ret p2))"
    proof (rule good_bind, unfold prod.case)
      fix c p2 assume p2: "p1 \<le> p2" "p2 \<le> length s" "cmd_ok s c"
      have "good s p2 (parseargs k s [] c p2)" using parseargs_good[OF z p2(2) _ p2(3)] k p1 p2 by simp
      then show "good s p1 (parseargs k s [] c p2)" by (rule good_later[OF _ p2(1)])
    qed
    then show ?thesis using pk False good_later[OF _ p1(1)] by simp
  qed
qed

lemma parseblock_step:
  assumes z: "0 \<notin> set s" and p: "p \<le> length s" and k: "4 * (length s - p) + 1 \<le> Suc k"
    and IH: "\<And>q. p \<le> q \<Longrightarrow> q \<le> length s \<Longrightarrow> parses k s q"
  shows "good s p (parseblock (Suc k) s p)"
proof -
  obtain b p1 where pk: "peek s p [40] = (b, p1)" by fastforce
  obtain tok q e p2 where g: "gettoken s p1 = (tok, q, e, p2)" by (cases "gettoken s p1")
  note P = peek_spec[OF pk p]
  show ?thesis
  proof (cases b)
    case True
    have p2: "p1 < p2" "p2 \<le> length s" using peek_gettoken[OF _ g p z] pk True by auto
    then have p2: "p1 < p2" "p2 \<le> length s" "p \<le> p2" using P(1) by simp_all
    let ?f = "\<lambda>(c, p3). case peek s p3 [41] of (b2, p4) \<Rightarrow>
                if \<not> b2 then Panic ''syntax - missing )''
                else (case gettoken s p4 of (_, _, _, p5) \<Rightarrow> parseredirs k s c p5)"
    have "good s p2 (parseline k s p2)" using IH[OF p2(3,2)] k p2 P(1) by (auto simp: parses_def)
    then have "good s p2 (rbind (parseline k s p2) ?f)"
    proof (rule good_bind, unfold prod.case)
      fix c p3 assume p3: "p2 \<le> p3" "p3 \<le> length s" "cmd_ok s c"
      obtain b2 p4 where pk2: "peek s p3 [41] = (b2, p4)" by fastforce
      obtain tok2 q2 e2 p5 where g2: "gettoken s p4 = (tok2, q2, e2, p5)" by (cases "gettoken s p4")
      note P2 = peek_spec[OF pk2 p3(2)]
      show "good s p2 (case peek s p3 [41] of (b2, p4) \<Rightarrow> if \<not> b2 then Panic ''syntax - missing )''
                else (case gettoken s p4 of (_, _, _, p5) \<Rightarrow> parseredirs k s c p5))"
      proof (cases b2)
        case True
        have p5: "p4 < p5" "p5 \<le> length s" using peek_gettoken[OF _ g2 p3(2) z] pk2 True by auto
        have "good s p5 (parseredirs k s c p5)"
          using parseredirs_good[OF z p5(2) _ p3(3)] k p2 p3 p5 P(1) P2(1) by auto
        then have "good s p2 (parseredirs k s c p5)" by (rule good_later) (use p3 P2(1) p5 in simp)
        then show ?thesis using pk2 g2 True by simp
      qed (use pk2 in simp)
    qed
    then have "good s p (rbind (parseline k s p2) ?f)" by (rule good_later[OF _ p2(3)])
    then show ?thesis using pk g True by simp
  qed (use pk in simp)
qed

lemma parsepipe_step:
  assumes z: "0 \<notin> set s" and p: "p \<le> length s" and k: "4 * (length s - p) + 3 \<le> Suc k"
    and IH: "\<And>q. p \<le> q \<Longrightarrow> q \<le> length s \<Longrightarrow> parses k s q"
  shows "good s p (parsepipe (Suc k) s p)"
proof -
  have "good s p (parseexec k s p)" using IH[OF _ p] k by (auto simp: parses_def)
  then show ?thesis unfolding parsepipe.simps
  proof (rule good_bind, unfold prod.case)
    fix c p1 assume p1: "p \<le> p1" "p1 \<le> length s" "cmd_ok s c"
    obtain b p2 where pk: "peek s p1 [124] = (b, p2)" by fastforce
    obtain tok q e p3 where g: "gettoken s p2 = (tok, q, e, p3)" by (cases "gettoken s p2")
    note P = peek_spec[OF pk p1(2)]
    show "good s p (case peek s p1 [124] of (b, p2) \<Rightarrow>
       if b then (case gettoken s p2 of (_, _, _, p3) \<Rightarrow> rbind (parsepipe k s p3) (\<lambda>(r, p4). Ok (PIPE c r, p4)))
       else Ok (c, p2))"
    proof (cases b)
      case True
      have "p2 < p3" "p3 \<le> length s" using peek_gettoken[OF _ g p1(2) z] pk True by auto
      then have p3: "p2 < p3" "p3 \<le> length s" "p \<le> p3" using P(1) p1 by simp_all
      have "good s p3 (parsepipe k s p3)" using IH[OF p3(3,2)] k p3 p1 P(1) by (auto simp: parses_def)
      then have "good s p3 (rbind (parsepipe k s p3) (\<lambda>(r, p4). Ok (PIPE c r, p4)))" by (rule good_bind) (use p1 in simp)
      then have "good s p (rbind (parsepipe k s p3) (\<lambda>(r, p4). Ok (PIPE c r, p4)))" by (rule good_later[OF _ p3(3)])
      then show ?thesis using pk g True by simp
    qed (use pk P p1 in simp)
  qed
qed

lemma parseline_step:
  assumes z: "0 \<notin> set s" and p: "p \<le> length s" and k: "4 * (length s - p) + 4 \<le> Suc k"
    and IH: "\<And>q. p \<le> q \<Longrightarrow> q \<le> length s \<Longrightarrow> parses k s q"
  shows "good s p (parseline (Suc k) s p)"
proof -
  have "good s p (parsepipe k s p)" using IH[OF _ p] k by (auto simp: parses_def)
  then show ?thesis unfolding parseline.simps
  proof (rule good_bind, unfold prod.case)
    fix c p1 assume p1: "p \<le> p1" "p1 \<le> length s" "cmd_ok s c"
    let ?f = "\<lambda>(c1, p2). case peek s p2 [59] of (b, p3) \<Rightarrow>
       if b then (case gettoken s p3 of (_, _, _, p4) \<Rightarrow> rbind (parseline k s p4) (\<lambda>(r, p5). Ok (LIST c1 r, p5)))
       else Ok (c1, p3)"
    have "good s p1 (parsebacks k s c p1)" using parsebacks_good[OF z p1(2) _ p1(3)] k p1 by simp
    then have "good s p1 (rbind (parsebacks k s c p1) ?f)"
    proof (rule good_bind, unfold prod.case)
      fix c1 p2 assume p2: "p1 \<le> p2" "p2 \<le> length s" "cmd_ok s c1"
      obtain b p3 where pk: "peek s p2 [59] = (b, p3)" by fastforce
      obtain tok q e p4 where g: "gettoken s p3 = (tok, q, e, p4)" by (cases "gettoken s p3")
      note P = peek_spec[OF pk p2(2)]
      show "good s p1 (case peek s p2 [59] of (b, p3) \<Rightarrow>
         if b then (case gettoken s p3 of (_, _, _, p4) \<Rightarrow> rbind (parseline k s p4) (\<lambda>(r, p5). Ok (LIST c1 r, p5)))
         else Ok (c1, p3))"
      proof (cases b)
        case True
        have "p3 < p4" "p4 \<le> length s" using peek_gettoken[OF _ g p2(2) z] pk True by auto
        then have p4: "p3 < p4" "p4 \<le> length s" "p \<le> p4" "p1 \<le> p4" using P(1) p1 p2 by simp_all
        have "good s p4 (parseline k s p4)" using IH[OF p4(3,2)] k p4 p1 p2 P(1) by (auto simp: parses_def)
        then have "good s p4 (rbind (parseline k s p4) (\<lambda>(r, p5). Ok (LIST c1 r, p5)))" by (rule good_bind) (use p2 in simp)
        then have "good s p1 (rbind (parseline k s p4) (\<lambda>(r, p5). Ok (LIST c1 r, p5)))" by (rule good_later[OF _ p4(4)])
        then show ?thesis using pk g True by simp
      qed (use pk P p2 in simp)
    qed
    then show "good s p (rbind (parsebacks k s c p1) ?f)" by (rule good_later[OF _ p1(1)])
  qed
qed

lemma parse_good: "0 \<notin> set s \<Longrightarrow> p \<le> length s \<Longrightarrow> parses k s p"
proof (induction k arbitrary: p)
  case 0
  then show ?case by (simp add: parses_def)
next
  case (Suc k)
  note IH = Suc.IH[OF Suc.prems(1)]
  show ?case
    using parseline_step[OF Suc.prems _ IH] parsepipe_step[OF Suc.prems _ IH] parseexec_step[OF Suc.prems _ IH]
      parseblock_step[OF Suc.prems _ IH]
    unfolding parses_def by blast
qed

section \<open>More fuel does not change the result\<close>

definition settles :: "'a res \<Rightarrow> 'a res \<Rightarrow> bool" where
  "settles r r' \<longleftrightarrow> r = Stuck \<or> r' = r"

lemma settles_refl [simp]: "settles r r" "settles Stuck r"
  by (simp_all add: settles_def)

lemma settles_bind: "settles r r' \<Longrightarrow> (\<And>x. settles (f x) (f' x)) \<Longrightarrow> settles (rbind r f) (rbind r' f')"
  by (cases r; cases r') (auto simp: settles_def)

lemma parseredirs_more: "k \<le> k' \<Longrightarrow> settles (parseredirs k s c p) (parseredirs k' s c p)"
proof (induction k arbitrary: k' c p)
  case (Suc k)
  then obtain j where "k' = Suc j" "k \<le> j" by (cases k') auto
  then show ?case using Suc.IH[of j] by (auto split: prod.splits)
qed simp

lemma parsebacks_more: "k \<le> k' \<Longrightarrow> settles (parsebacks k s c p) (parsebacks k' s c p)"
proof (induction k arbitrary: k' c p)
  case (Suc k)
  then obtain j where "k' = Suc j" "k \<le> j" by (cases k') auto
  then show ?case using Suc.IH[of j] by (auto split: prod.splits)
qed simp

lemma parseargs_more: "k \<le> k' \<Longrightarrow> settles (parseargs k s argv ret p) (parseargs k' s argv ret p)"
proof (induction k arbitrary: k' argv ret p)
  case (Suc k)
  then obtain j where "k' = Suc j" "k \<le> j" by (cases k') auto
  then show ?case using Suc.IH[of j] parseredirs_more[of k j] by (auto split: prod.splits intro!: settles_bind simp: Let_def)
qed simp

lemma parse_more:
  "k \<le> k' \<Longrightarrow> settles (parseline k s p) (parseline k' s p) \<and> settles (parsepipe k s p) (parsepipe k' s p) \<and>
     settles (parseexec k s p) (parseexec k' s p) \<and> settles (parseblock k s p) (parseblock k' s p)"
proof (induction k arbitrary: k' p)
  case (Suc k)
  then obtain j where j: "k' = Suc j" "k \<le> j" by (cases k') auto
  note IH = Suc.IH[OF j(2)] and m = parseredirs_more[OF j(2)] parsebacks_more[OF j(2)] parseargs_more[OF j(2)]
  have "settles (parseline (Suc k) s p) (parseline (Suc j) s p)"
    unfolding parseline.simps by (intro settles_bind) (auto split: prod.splits intro!: settles_bind m simp: IH)
  moreover have "settles (parsepipe (Suc k) s p) (parsepipe (Suc j) s p)"
    unfolding parsepipe.simps by (intro settles_bind) (auto split: prod.splits intro!: settles_bind m simp: IH)
  moreover have "settles (parseexec (Suc k) s p) (parseexec (Suc j) s p)"
    unfolding parseexec.simps by (auto split: prod.splits intro!: settles_bind m simp: IH)
  moreover have "settles (parseblock (Suc k) s p) (parseblock (Suc j) s p)"
    unfolding parseblock.simps by (auto split: prod.splits intro!: settles_bind m simp: IH)
  ultimately show ?case using j(1) by simp
qed simp

lemma parsecmd_more: "k \<le> k' \<Longrightarrow> settles (parsecmd_fuel k s) (parsecmd_fuel k' s)"
  unfolding parsecmd_fuel_def by (intro settles_bind) (auto simp: parse_more split: prod.splits)

lemma parsecmd_total: "0 \<notin> set s \<Longrightarrow> 4 * length s + 4 \<le> k \<Longrightarrow> parsecmd_fuel k s \<noteq> Stuck"
  using parse_good[of s 0 k] by (cases "parseline k s 0") (auto simp: parses_def parsecmd_fuel_def split: prod.splits)

text \<open>C14. The shell's parser always comes to an end: on every line (without NUL bytes) \<open>4 * length s + 4\<close>
  nested calls and loop rounds are enough for it to return a command or to panic, and any larger bound gives
  the same result.\<close>

theorem parsecmd_terminates:
  assumes "0 \<notin> set s" "4 * length s + 4 \<le> k"
  shows "parsecmd_fuel k s = parsecmd s \<and> ((\<exists>c b. parsecmd s = Ok (c, b)) \<or> (\<exists>m. parsecmd s = Panic m))"
proof -
  have n: "parsecmd s \<noteq> Stuck" using parsecmd_total[OF assms(1)] by (simp add: parsecmd_def)
  then have "parsecmd_fuel k s = parsecmd s"
    using parsecmd_more[OF assms(2), of s] by (simp add: parsecmd_def settles_def)
  then show ?thesis using n by (cases "parsecmd s") auto
qed

theorem parsecmd_terminates_witness:
  "parsecmd_fuel 1000 (ascii ''ls -l | wc > out & (echo hi; cat < f)'') \<noteq> Stuck"
proof -
  have "parsecmd_fuel 1000 (ascii ''ls -l | wc > out & (echo hi; cat < f)'') =
      parsecmd (ascii ''ls -l | wc > out & (echo hi; cat < f)'') \<and>
      ((\<exists>c b. parsecmd (ascii ''ls -l | wc > out & (echo hi; cat < f)'') = Ok (c, b)) \<or>
       (\<exists>m. parsecmd (ascii ''ls -l | wc > out & (echo hi; cat < f)'') = Panic m))"
    by (rule parsecmd_terminates) (simp_all add: ascii_def)
  then show ?thesis by auto
qed

section \<open>The strings of a command\<close>









end
