(* ===== verification/Grep.thy ===== *)
theory Grep
  imports Prelude
begin

text \<open>
  \<open>user/grep.c\<close>: the matcher over C strings, as lists of their bytes before the NUL (\<open>[]\<close> is the string
  that starts with the NUL), and the loop that cuts what it reads into lines.
\<close>

section \<open>Matcher\<close>

function matchhere :: "u8 list \<Rightarrow> u8 list \<Rightarrow> bool"
  and matchstar :: "u8 \<Rightarrow> u8 list \<Rightarrow> u8 list \<Rightarrow> bool" where
  "matchhere re tx =
     (case re of
        [] \<Rightarrow> True
      | r0 # rs \<Rightarrow>
          if rs \<noteq> [] \<and> hd rs = 42 then matchstar r0 (tl rs) tx
          else if r0 = 36 \<and> rs = [] then tx = []
          else (case tx of [] \<Rightarrow> False | t # ts \<Rightarrow> if r0 = 46 \<or> r0 = t then matchhere rs ts else False))"
| "matchstar c re tx =
     (if matchhere re tx then True
      else (case tx of [] \<Rightarrow> False | t # ts \<Rightarrow> if t = c \<or> c = 46 then matchstar c re ts else False))"
  by pat_completeness auto
termination
  by (relation "measure (\<lambda>x. case x of Inl (re, tx) \<Rightarrow> 2 * (length re + length tx)
                                 | Inr (c, re, tx) \<Rightarrow> 2 * (length re + length tx) + 1)")
     (auto simp: neq_Nil_conv)

declare matchhere.simps [simp del] matchstar.simps [simp del]

fun match_any :: "u8 list \<Rightarrow> u8 list \<Rightarrow> bool" where
  "match_any re tx = (if matchhere re tx then True else (case tx of [] \<Rightarrow> False | t # ts \<Rightarrow> match_any re ts))"

declare match_any.simps [simp del]

definition match :: "u8 list \<Rightarrow> u8 list \<Rightarrow> bool" where
  "match re tx = (if re \<noteq> [] \<and> hd re = 94 then matchhere (tl re) tx else match_any re tx)"

section \<open>The reading loop\<close>

text \<open>\<open>buf[0..m)\<close> is the list \<open>b\<close>.  The inner loop, from \<open>p = buf\<close> on: the lines written, and what
  is left at \<open>p\<close>; \<open>strchr\<close> stops at a NUL byte.\<close>

definition newline_at :: "u8 list \<Rightarrow> nat option" where
  "newline_at b = (let k = length (takeWhile (\<lambda>c. c \<noteq> 10 \<and> c \<noteq> 0) b) in if k < length b \<and> b ! k = 10 then Some k else None)"

lemma newline_at_less: "newline_at b = Some k \<Longrightarrow> k < length b"
  by (auto simp: newline_at_def Let_def split: if_splits)

function grep_lines :: "u8 list \<Rightarrow> u8 list \<Rightarrow> u8 list \<times> u8 list" where
  "grep_lines pat b =
     (case newline_at b of
        None \<Rightarrow> ([], b)
      | Some k \<Rightarrow>
          (case grep_lines pat (drop (k + 1) b) of (out, rest) \<Rightarrow>
             ((if match pat (take k b) then take (k + 1) b else []) @ out, rest)))"
  by pat_completeness auto
termination by (relation "measure (\<lambda>(pat, b). length b)") (auto dest: newline_at_less)

declare grep_lines.simps [simp del]

text \<open>The outer loop: each \<open>read\<close> gets at most what fits and what is left of the input; the list \<open>ns\<close> says
  how much it is ready to give, a non-positive result ends the loop.  The result is what is written and the
  unread input.\<close>

fun grep :: "u8 list \<Rightarrow> nat list \<Rightarrow> u8 list \<Rightarrow> u8 list \<Rightarrow> u8 list \<times> u8 list" where
  "grep pat [] b inp = ([], inp)"
| "grep pat (k # ns) b inp =
     (let n = min k (min (1024 - length b - 1) (length inp))
      in if n = 0 then ([], inp)
         else (case grep_lines pat (b @ take n inp) of (out, rest) \<Rightarrow>
               case grep pat ns rest (drop n inp) of (out2, inp2) \<Rightarrow> (out @ out2, inp2)))"

section \<open>Patterns\<close>

text \<open>What a pattern means: a sequence of single characters, repetitions and the end of the text.\<close>

datatype item = One u8 | Many u8 | End

fun pattern :: "u8 list \<Rightarrow> item list" where
  "pattern [] = []"
| "pattern (c # rs) =
     (if rs \<noteq> [] \<and> hd rs = 42 then Many c # pattern (tl rs)
      else if c = 36 \<and> rs = [] then [End] else One c # pattern rs)"

text \<open>A dot stands for any character.\<close>

definition fits :: "u8 \<Rightarrow> u8 \<Rightarrow> bool" where
  "fits c t \<longleftrightarrow> c = 46 \<or> c = t"

text \<open>The text has a prefix of the pattern's language; after \<open>End\<close> nothing may follow.\<close>

fun begins :: "item list \<Rightarrow> u8 list \<Rightarrow> bool" where
  "begins [] tx \<longleftrightarrow> True"
| "begins (One c # its) tx \<longleftrightarrow> (\<exists>t ts. tx = t # ts \<and> fits c t \<and> begins its ts)"
| "begins (Many c # its) tx \<longleftrightarrow> (\<exists>u v. tx = u @ v \<and> (\<forall>t\<in>set u. fits c t) \<and> begins its v)"
| "begins (End # its) tx \<longleftrightarrow> tx = [] \<and> begins its []"

lemma matchhere_begins:
  "matchhere re tx = begins (pattern re) tx"
  "matchstar c re tx = begins (Many c # pattern re) tx"
proof (induction re tx and c re tx rule: matchhere_matchstar.induct)
  case (1 re tx)
  show ?case
  proof (cases re)
    case (Cons r0 rs)
    have u: "matchhere re tx = (if rs \<noteq> [] \<and> hd rs = 42 then matchstar r0 (tl rs) tx
          else if r0 = 36 \<and> rs = [] then tx = []
          else (case tx of [] \<Rightarrow> False | t # ts \<Rightarrow> if r0 = 46 \<or> r0 = t then matchhere rs ts else False))"
      by (subst matchhere.simps) (simp add: Cons)
    consider "rs \<noteq> [] \<and> hd rs = 42" | "r0 = 36 \<and> rs = []" | "\<not> (rs \<noteq> [] \<and> hd rs = 42)" "\<not> (r0 = 36 \<and> rs = [])" by blast
    then show ?thesis
    proof cases
      case 1 then show ?thesis using "1.IH"(1)[OF Cons] u Cons by simp
    next
      case 2 then show ?thesis using u Cons by simp
    next
      case 3 then show ?thesis using "1.IH"(2)[OF Cons] u Cons by (cases tx) (auto simp: fits_def)
    qed
  qed (simp add: matchhere.simps)
next
  case (2 c re tx)
  show ?case
  proof (cases tx)
    case Nil
    then show ?thesis using 2(1) by (simp add: matchstar.simps[of c re])
  next
    case (Cons t ts)
    have "begins (Many c # pattern re) (t # ts) \<longleftrightarrow>
      begins (pattern re) (t # ts) \<or> (fits c t \<and> begins (Many c # pattern re) ts)" (is "?L = ?R")
    proof
      assume ?L
      then obtain u v where u: "t # ts = u @ v" "\<forall>x\<in>set u. fits c x" "begins (pattern re) v" by auto
      then show ?R by (cases u) auto
    next
      assume ?R
      then show ?L
      proof
        assume "begins (pattern re) (t # ts)"
        then have "t # ts = [] @ (t # ts) \<and> (\<forall>x\<in>set []. fits c x) \<and> begins (pattern re) (t # ts)" by simp
        then show ?L unfolding begins.simps by blast
      next
        assume r: "fits c t \<and> begins (Many c # pattern re) ts"
        then obtain u v where "ts = u @ v" "\<forall>x\<in>set u. fits c x" "begins (pattern re) v" by auto
        then have "t # ts = (t # u) @ v \<and> (\<forall>x\<in>set (t # u). fits c x) \<and> begins (pattern re) v" using r by simp
        then show ?L unfolding begins.simps by blast
      qed
    qed
    then show ?thesis using 2 Cons by (auto simp: matchstar.simps[of c re] fits_def simp del: begins.simps)
  qed
qed

lemma match_any_suffix: "match_any re tx \<longleftrightarrow> (\<exists>u v. tx = u @ v \<and> matchhere re v)"
proof (induction tx)
  case (Cons t ts)
  have "(\<exists>u v. t # ts = u @ v \<and> matchhere re v) \<longleftrightarrow> matchhere re (t # ts) \<or> (\<exists>u v. ts = u @ v \<and> matchhere re v)"
    by (metis append_Cons append_Nil append_eq_Cons_conv)
  then show ?case using Cons by (simp add: match_any.simps[of re "t # ts"])
qed (simp add: match_any.simps)

text \<open>C10. The recursive matcher decides its pattern language: with a leading caret the text must begin with a
  word of the pattern, without one such a word must begin at some position, and a final dollar sign asks for the
  end of the text.\<close>

theorem match_correct:
  "match re tx =
     (if re \<noteq> [] \<and> hd re = 94 then begins (pattern (tl re)) tx
      else \<exists>u v. tx = u @ v \<and> begins (pattern re) v)"
  by (simp add: match_def match_any_suffix matchhere_begins)

section \<open>The loop prints the matching lines\<close>

text \<open>A text of whole lines and a last one without newline.\<close>

definition unlines :: "u8 list list \<Rightarrow> u8 list" where
  "unlines ls = concat (map (\<lambda>l. l @ [10]) ls)"

definition line :: "u8 list \<Rightarrow> bool" where
  "line l \<longleftrightarrow> 10 \<notin> set l \<and> 0 \<notin> set l \<and> length l \<le> 1022"

lemma unlines_simps [simp]: "unlines [] = []" "unlines (l # ls) = l @ 10 # unlines ls" "unlines (ls @ ls') = unlines ls @ unlines ls'"
  by (simp_all add: unlines_def)

lemma newline_at_none: "10 \<notin> set b \<Longrightarrow> newline_at b = None"
  by (auto simp: newline_at_def Let_def in_set_conv_nth)

lemma newline_at_line: "10 \<notin> set l \<Longrightarrow> 0 \<notin> set l \<Longrightarrow> newline_at (l @ 10 # b) = Some (length l)"
proof -
  assume a: "10 \<notin> set l" "0 \<notin> set l"
  then have "takeWhile (\<lambda>c. c \<noteq> 10 \<and> c \<noteq> 0) (l @ 10 # b) = l" by (subst takeWhile_append2) auto
  then show ?thesis by (simp add: newline_at_def Let_def)
qed

lemma grep_lines_unlines:
  "\<forall>l\<in>set ls. 10 \<notin> set l \<and> 0 \<notin> set l \<Longrightarrow> 10 \<notin> set r \<Longrightarrow>
     grep_lines pat (unlines ls @ r) = (unlines (filter (match pat) ls), r)"
proof (induction ls)
  case Nil
  then show ?case by (simp add: grep_lines.simps[of pat r] newline_at_none)
next
  case (Cons l ls)
  have "newline_at (l @ 10 # unlines ls @ r) = Some (length l)" using Cons.prems(1) by (intro newline_at_line) auto
  moreover have "grep_lines pat (unlines ls @ r) = (unlines (filter (match pat) ls), r)" using Cons by simp
  ultimately show ?case by (subst grep_lines.simps) simp
qed

text \<open>Cutting a text anywhere leaves whole lines, a beginning of a line, and the rest.\<close>

lemma cut_text:
  assumes "\<forall>l\<in>set ls. 10 \<notin> set l" "10 \<notin> set r" "x @ y = unlines ls @ r"
  shows "\<exists>ls1 ls2 r1. x = unlines ls1 @ r1 \<and> 10 \<notin> set r1 \<and> ls = ls1 @ ls2 \<and> r1 @ y = unlines ls2 @ r"
  using assms
proof (induction ls arbitrary: x)
  case Nil
  then have "10 \<notin> set x" by (metis UnCI append_Nil set_append unlines_simps(1))
  then show ?case using Nil by (intro exI[of _ "[]"] exI[of _ x]) auto
next
  case (Cons l ls)
  have e: "x @ y = l @ 10 # unlines ls @ r" using Cons.prems(3) by simp
  show ?case
  proof (cases "length x \<le> length l")
    case True
    then have "x = take (length x) l" using e by (metis append_eq_append_conv_if append_eq_conv_conj)
    then have "10 \<notin> set x" using Cons.prems(1) by (metis in_set_takeD list.set_intros(1))
    then show ?thesis using Cons.prems(3) by (intro exI[of _ "[]"] exI[of _ "l # ls"] exI[of _ x]) simp
  next
    case False
    then obtain x' where x: "x = l @ 10 # x'" using e
      by (auto simp: append_eq_append_conv2 append_eq_Cons_conv)
    then have "x' @ y = unlines ls @ r" using e by simp
    then obtain ls1 ls2 r1 where "x' = unlines ls1 @ r1" "10 \<notin> set r1" "ls = ls1 @ ls2" "r1 @ y = unlines ls2 @ r"
      using Cons.IH[of x'] Cons.prems(1,2) by auto
    then show ?thesis using x by (intro exI[of _ "l # ls1"] exI[of _ ls2] exI[of _ r1]) simp
  qed
qed

lemma grep_unlines:
  assumes "\<forall>l\<in>set ls. line l" "line r" "b @ inp = unlines ls @ r" "10 \<notin> set b" "length inp < length ns" "0 \<notin> set ns"
  shows "grep pat ns b inp = (unlines (filter (match pat) ls), [])"
  using assms
proof (induction ns arbitrary: b inp ls)
  case (Cons k ns)
  let ?n = "min k (min (1024 - length b - 1) (length inp))"
  show ?case
  proof (cases "inp = []")
    case True
    then have "10 \<notin> set (unlines ls @ r)" using Cons.prems(3,4) by simp
    then have "ls = []" by (cases ls) simp_all
    then show ?thesis using True by simp
  next
    case False
    have "length b \<le> 1022"
    proof (cases ls)
      case Nil
      then show ?thesis using Cons.prems(2,3) by (metis append_Nil le_add1 le_trans length_append line_def unlines_simps(1))
    next
      case (Cons l ls')
      have "length b \<le> length l"
      proof (rule ccontr)
        assume "\<not> length b \<le> length l"
        then have "b ! length l = (b @ inp) ! length l" "length l < length b" by (simp_all add: nth_append)
        then have "10 \<in> set b" using \<open>b @ inp = unlines ls @ r\<close> Cons by (metis append.assoc append_Cons nth_append_length nth_mem unlines_simps(2))
        then show False using \<open>10 \<notin> set b\<close> by simp
      qed
      then show ?thesis using \<open>\<forall>l\<in>set ls. line l\<close> Cons by (auto simp: line_def)
    qed
    moreover have "0 < k" using Cons.prems(6) by (cases k) auto
    ultimately have n: "0 < ?n" using False by simp
    have e: "(b @ take ?n inp) @ drop ?n inp = unlines ls @ r" using Cons.prems(3) by simp
    obtain ls1 ls2 r1 where c: "b @ take ?n inp = unlines ls1 @ r1" "10 \<notin> set r1" "ls = ls1 @ ls2"
        "r1 @ drop ?n inp = unlines ls2 @ r"
      using cut_text[OF _ _ e] Cons.prems(1,2) by (auto simp: line_def)
    have g: "grep_lines pat (b @ take ?n inp) = (unlines (filter (match pat) ls1), r1)"
      unfolding c(1) by (rule grep_lines_unlines) (use Cons.prems(1) c(2,3) in \<open>auto simp: line_def\<close>)
    have "length (drop ?n inp) < length ns" using Cons.prems(5) n unfolding length_drop list.size by linarith
    then have "grep pat ns r1 (drop ?n inp) = (unlines (filter (match pat) ls2), [])"
      using Cons.IH[OF _ Cons.prems(2) c(4,2)] Cons.prems(1,6) c(3) by auto
    then show ?thesis using g n c(3) by (simp add: Let_def)
  qed
qed simp

text \<open>C33. However the reads cut its input, \<open>grep\<close> writes exactly the lines that match, in order, each with its
  newline, and consumes the whole input, provided that no line is longer than 1022 bytes and none has a NUL byte;
  what follows the last newline is never written.\<close>

theorem grep_prints_matching_lines:
  assumes "\<forall>l\<in>set ls. line l" "line r" "length (unlines ls @ r) < length ns" "0 \<notin> set ns"
  shows "grep pat ns [] (unlines ls @ r) = (unlines (filter (match pat) ls), [])"
  using grep_unlines[OF assms(1,2), of "[]" "unlines ls @ r" ns pat] assms(3,4) by simp

theorem grep_prints_matching_lines_witness:
  "grep [97, 42, 98, 36] [3, 1, 2, 2, 9, 9, 9, 9, 9] [] [97, 97, 98, 10, 99, 10, 98] = ([97, 97, 98, 10], [])"
proof -
  have "grep [97, 42, 98, 36] [3, 1, 2, 2, 9, 9, 9, 9, 9] [] (unlines [[97, 97, 98], [99]] @ [98]) =
      (unlines (filter (match [97, 42, 98, 36]) [[97, 97, 98], [99]]), [])"
    by (rule grep_prints_matching_lines) (simp_all add: line_def)
  moreover have "match [97, 42, 98, 36] [97, 97, 98]" "\<not> match [97, 42, 98, 36] [99]" by code_simp+
  ultimately show ?thesis by simp
qed

end
