(* ===== verification/Chunks.thy ===== *)
theory Chunks
  imports Prelude
begin

text \<open>
  \<open>networks/messaging_via_chunks\<close>: \<open>fake_client.c\<close> and \<open>fake_server.c\<close> share \<open>send_chunks\<close> and
  \<open>receive_chunks\<close>.  A string is the list of its bytes before the NUL.  The network is an argument: what each
  \<open>recvfrom\<close> delivers and what the clock reads.  An array access out of bounds is \<open>Stuck\<close>.
\<close>

section \<open>Data\<close>

abbreviation CHUNK_SIZE :: nat where "CHUNK_SIZE \<equiv> 8"
abbreviation TIMEOUT :: int where "TIMEOUT \<equiv> 100000"
abbreviation MAX_RETRIES :: nat where "MAX_RETRIES \<equiv> 100"
abbreviation MAX_CHUNKS :: nat where "MAX_CHUNKS \<equiv> 10"
abbreviation BUFFER_SIZE :: nat where "BUFFER_SIZE \<equiv> 80"

record data_packet =
  sequence_number :: int
  total_chunks :: int
  data :: "u8 list"

text \<open>\<open>strncpy(dst, src, n)\<close>: \<open>n\<close> bytes are written, zeros after the end of the source.\<close>

definition strncpy_to :: "u8 list \<Rightarrow> nat \<Rightarrow> u8 list \<Rightarrow> nat \<Rightarrow> u8 list" where
  "strncpy_to dst off src n =
     take off dst @ take n (takeWhile (\<lambda>c. c \<noteq> 0) src @ replicate n 0) @ drop (off + n) dst"

section \<open>Sender\<close>

definition chunk_count :: "u8 list \<Rightarrow> nat" where
  "chunk_count msg = (length msg + CHUNK_SIZE - 1) div CHUNK_SIZE"

text \<open>Chunk \<open>i\<close>, from what the uninitialised array holds before.\<close>

definition make_chunk :: "(nat \<Rightarrow> u8 list) \<Rightarrow> u8 list \<Rightarrow> nat \<Rightarrow> data_packet" where
  "make_chunk junk msg i =
     (let d = strncpy_to (junk i) 0 (drop (i * CHUNK_SIZE) msg) CHUNK_SIZE;
          e = (if i = chunk_count msg - 1 then length msg - i * CHUNK_SIZE else CHUNK_SIZE)
      in \<lparr>sequence_number = int (i + 1), total_chunks = int (chunk_count msg), data = d[e := 0]\<rparr>)"

definition make_chunks :: "(nat \<Rightarrow> u8 list) \<Rightarrow> u8 list \<Rightarrow> data_packet list res" where
  "make_chunks junk msg =
     (if chunk_count msg \<le> MAX_CHUNKS then Ok (map (make_chunk junk msg) [0..<chunk_count msg]) else Stuck)"

text \<open>The state of the sender: when each chunk was sent (microseconds), which are acknowledged, and the
  trace of the chunks sent.\<close>

record sender =
  sent_times :: "int list"
  ack_recv :: "bool list"
  sent :: "nat list"

text \<open>The first transmission; \<open>up i\<close> tells whether \<open>sendto\<close> succeeds.\<close>

definition send_all :: "(nat \<Rightarrow> int) \<Rightarrow> (nat \<Rightarrow> bool) \<Rightarrow> nat \<Rightarrow> sender" where
  "send_all now up n =
     \<lparr>sent_times = map now [0..<n], ack_recv = replicate n False, sent = filter up [0..<n]\<rparr>"

text \<open>A round of the resend loop: the acknowledgement got (or none), then every chunk that is not
  acknowledged and was sent \<open>TIMEOUT\<close> ago is sent again.  \<open>now i\<close> and \<open>stamp i\<close> are the two readings of
  the clock for chunk \<open>i\<close>.\<close>

definition note_ack :: "int option \<Rightarrow> sender \<Rightarrow> sender" where
  "note_ack ack s =
     (case ack of None \<Rightarrow> s
      | Some n \<Rightarrow> if n \<ge> 1 \<and> n \<le> int (length (ack_recv s)) then s\<lparr>ack_recv := (ack_recv s)[nat (n - 1) := True]\<rparr> else s)"

fun resend :: "(nat \<Rightarrow> int) \<Rightarrow> (nat \<Rightarrow> int) \<Rightarrow> (nat \<Rightarrow> bool) \<Rightarrow> nat list \<Rightarrow> sender \<Rightarrow> nat \<times> sender" where
  "resend now stamp up [] s = (0, s)"
| "resend now stamp up (i # rest) s =
     (if \<not> ack_recv s ! i
      then resend now stamp up rest
             (if now i - sent_times s ! i \<ge> TIMEOUT
              then s\<lparr>sent_times := (sent_times s)[i := stamp i], sent := (if up i then sent s @ [i] else sent s)\<rparr>
              else s)
      else (case resend now stamp up rest s of (n, s') \<Rightarrow> (n + 1, s')))"

text \<open>What the network and the clock do in one round.\<close>

record round =
  ack_in :: "int option"
  clock :: "nat \<Rightarrow> int"
  clock2 :: "nat \<Rightarrow> int"
  link_up :: "nat \<Rightarrow> bool"

text \<open>The loop: rounds until all is acknowledged or \<open>MAX_RETRIES\<close> rounds are over.\<close>

fun retry_loop :: "nat \<Rightarrow> (nat \<Rightarrow> round) \<Rightarrow> nat \<Rightarrow> nat \<Rightarrow> nat \<Rightarrow> sender \<Rightarrow> bool \<times> sender" where
  "retry_loop 0 env r n cnt s = (cnt = n, s)"
| "retry_loop (Suc k) env r n cnt s =
     (if cnt < n
      then (case resend (clock (env r)) (clock2 (env r)) (link_up (env r)) [0..<n] (note_ack (ack_in (env r)) s) of
              (cnt', s') \<Rightarrow> retry_loop k env (r + 1) n cnt' s')
      else (cnt = n, s))"

text \<open>\<open>send_chunks\<close>: the packets, whether it reports that all are acknowledged, and its last state.\<close>

definition send_chunks ::
  "(nat \<Rightarrow> u8 list) \<Rightarrow> (nat \<Rightarrow> int) \<Rightarrow> (nat \<Rightarrow> bool) \<Rightarrow> (nat \<Rightarrow> round) \<Rightarrow> u8 list \<Rightarrow> (data_packet list \<times> bool \<times> sender) res" where
  "send_chunks junk now up env msg =
     rbind (make_chunks junk msg) (\<lambda>ps.
       case retry_loop MAX_RETRIES env 0 (length ps) 0 (send_all now up (length ps)) of
         (ok, s) \<Rightarrow> Ok (ps, ok, s))"

section \<open>Receiver\<close>

record receiver =
  recv_packets :: nat
  total :: int
  ack_chunk :: "bool list"
  rec_buf :: "u8 list"
  acked :: "int list"

text \<open>The receiver when it starts; the buffer is what it holds from before.\<close>

definition receiver_init :: "u8 list \<Rightarrow> receiver" where
  "receiver_init buf =
     \<lparr>recv_packets = 0, total = - 1, ack_chunk = replicate (MAX_CHUNKS + 1) False, rec_buf = buf, acked = []\<rparr>"

text \<open>One packet: \<open>up\<close> tells whether its acknowledgement could be sent.\<close>

definition recv_packet :: "data_packet \<times> bool \<Rightarrow> receiver \<Rightarrow> receiver res" where
  "recv_packet pu s =
     (case pu of (p, up) \<Rightarrow>
      let s1 = (if total s = - 1 then s\<lparr>total := total_chunks p\<rparr> else s);
          n = sequence_number p
      in if n < 0 \<or> n \<ge> int (length (ack_chunk s1)) then Stuck
         else if ack_chunk s1 ! nat n then Ok s1
         else if n = 0 \<or> nat n * CHUNK_SIZE > length (rec_buf s1) then Stuck
         else Ok (s1\<lparr>ack_chunk := (ack_chunk s1)[nat n := True], recv_packets := recv_packets s1 + 1,
                     rec_buf := strncpy_to (rec_buf s1) (nat (n - 1) * CHUNK_SIZE) (data p) CHUNK_SIZE,
                     acked := (if up then acked s1 @ [n] else acked s1)\<rparr>))"

text \<open>The loop over what arrives (a failed \<open>recvfrom\<close> is just polled again), and the NUL it ends with.
  \<open>None\<close>: the loop is still waiting when the packets are used up.\<close>

fun recv_loop :: "(data_packet \<times> bool) list \<Rightarrow> receiver \<Rightarrow> (receiver \<times> (data_packet \<times> bool) list) option res" where
  "recv_loop ps s =
     (if total s = - 1 \<or> int (recv_packets s) < total s
      then (case ps of [] \<Rightarrow> Ok None | p # rest \<Rightarrow> rbind (recv_packet p s) (\<lambda>s'. recv_loop rest s'))
      else Ok (Some (s, ps)))"

declare recv_loop.simps [simp del]

text \<open>\<open>receive_chunks\<close>: the buffer and the acknowledgements sent.\<close>

definition receive_chunks :: "(data_packet \<times> bool) list \<Rightarrow> u8 list \<Rightarrow> (u8 list \<times> int list) option res" where
  "receive_chunks ps buf =
     rbind (recv_loop ps (receiver_init buf)) (\<lambda>r. case r of
        None \<Rightarrow> Ok None
      | Some (s, rest) \<Rightarrow>
          if recv_packets s * CHUNK_SIZE < length (rec_buf s)
          then Ok (Some ((rec_buf s)[recv_packets s * CHUNK_SIZE := 0], acked s)) else Stuck)"

section \<open>Any delivery order rebuilds the message\<close>

lemma length_strncpy_to [simp]: "off + n \<le> length dst \<Longrightarrow> length (strncpy_to dst off src n) = length dst"
  by (simp add: strncpy_to_def)

lemma strncpy_to_nth:
  assumes "off + n \<le> length dst" "i < length dst"
  shows "strncpy_to dst off src n ! i =
    (if off \<le> i \<and> i < off + n then (takeWhile (\<lambda>c. c \<noteq> 0) src @ replicate n 0) ! (i - off) else dst ! i)"
proof -
  define W where "W = takeWhile (\<lambda>c. c \<noteq> 0) src @ replicate n 0"
  have "n \<le> length W" by (simp add: W_def)
  then have "(take off dst @ take n W @ drop (off + n) dst) ! i = (if off \<le> i \<and> i < off + n then W ! (i - off) else dst ! i)"
    using assms by (auto simp: nth_append)
  then show ?thesis by (simp add: strncpy_to_def W_def)
qed

definition msg_byte :: "u8 list \<Rightarrow> nat \<Rightarrow> u8" where
  "msg_byte msg m = (if m < length msg then msg ! m else 0)"

lemma chunk_count_bounds:
  assumes "i < chunk_count msg"
  shows "i * CHUNK_SIZE < length msg" "i \<noteq> chunk_count msg - 1 \<Longrightarrow> (i + 1) * CHUNK_SIZE \<le> length msg"
    "i = chunk_count msg - 1 \<Longrightarrow> length msg \<le> (i + 1) * CHUNK_SIZE"
proof -
  have "8 * chunk_count msg \<le> length msg + 7" "length msg + 7 < 8 * chunk_count msg + 8"
    unfolding chunk_count_def by presburger+
  then show "i * CHUNK_SIZE < length msg" "i \<noteq> chunk_count msg - 1 \<Longrightarrow> (i + 1) * CHUNK_SIZE \<le> length msg"
    "i = chunk_count msg - 1 \<Longrightarrow> length msg \<le> (i + 1) * CHUNK_SIZE" using assms by auto
qed

lemma chunk_text:
  assumes "i < chunk_count msg" "0 \<notin> set msg" "length (junk i) = 9"
  shows "takeWhile (\<lambda>c. c \<noteq> 0) (data (make_chunk junk msg i)) = take CHUNK_SIZE (drop (i * CHUNK_SIZE) msg)"
proof -
  let ?w = "take CHUNK_SIZE (drop (i * CHUNK_SIZE) msg)"
  let ?e = "if i = chunk_count msg - 1 then length msg - i * CHUNK_SIZE else CHUNK_SIZE"
  have e: "?e = length ?w" using chunk_count_bounds[OF assms(1)] by auto
  have w: "\<forall>c\<in>set ?w. c \<noteq> 0" using assms(2) by (auto dest: in_set_dropD in_set_takeD)
  have tw: "takeWhile (\<lambda>c. c \<noteq> 0) (drop (i * CHUNK_SIZE) msg) = drop (i * CHUNK_SIZE) msg"
    using assms(2) by (auto simp: takeWhile_eq_all_conv dest: in_set_dropD)
  have "take 8 (drop (i * CHUNK_SIZE) msg @ replicate 8 0) = ?w @ replicate (8 - length ?w) 0" by (simp add: min_def)
  then have "strncpy_to (junk i) 0 (drop (i * CHUNK_SIZE) msg) CHUNK_SIZE = ?w @ replicate (8 - length ?w) 0 @ drop 8 (junk i)"
    unfolding strncpy_to_def tw by simp
  then have d: "data (make_chunk junk msg i) = (?w @ replicate (8 - length ?w) 0 @ drop 8 (junk i))[length ?w := 0]"
    unfolding make_chunk_def Let_def e by simp
  have "replicate (8 - length ?w) 0 @ drop 8 (junk i) \<noteq> []" using assms(3) by simp
  then obtain y ys where "replicate (8 - length ?w) 0 @ drop 8 (junk i) = y # ys"
    unfolding neq_Nil_conv by blast
  then have "data (make_chunk junk msg i) = ?w @ 0 # ys" unfolding d by (simp add: list_update_append)
  then show ?thesis using w by (simp add: takeWhile_append2)
qed

text \<open>The receiver after the chunks numbered in \<open>D\<close> (from 0) have arrived.\<close>

definition received :: "u8 list \<Rightarrow> nat set \<Rightarrow> receiver \<Rightarrow> bool" where
  "received msg D s \<longleftrightarrow> D \<subseteq> {..<chunk_count msg} \<and> recv_packets s = card D \<and> length (ack_chunk s) = MAX_CHUNKS + 1 \<and>
     total s = (if D = {} then - 1 else int (chunk_count msg)) \<and> length (rec_buf s) = BUFFER_SIZE \<and>
     (\<forall>i<chunk_count msg. ack_chunk s ! (i + 1) \<longleftrightarrow> i \<in> D) \<and>
     (\<forall>i\<in>D. \<forall>j<CHUNK_SIZE. rec_buf s ! (i * CHUNK_SIZE + j) = msg_byte msg (i * CHUNK_SIZE + j))"

lemma recv_packet_received:
  assumes r: "received msg D s" and i: "i < chunk_count msg" and m: "chunk_count msg \<le> 9" "0 \<notin> set msg" and j: "length (junk i) = 9"
  shows "\<exists>s'. recv_packet (make_chunk junk msg i, up) s = Ok s' \<and> received msg (insert i D) s'"
proof -
  let ?p = "make_chunk junk msg i"
  let ?t = "if total s = - 1 then s\<lparr>total := int (chunk_count msg)\<rparr> else s"
  have p: "sequence_number ?p = int (i + 1)" "total_chunks ?p = int (chunk_count msg)" by (simp_all add: make_chunk_def Let_def)
  have fin: "finite D" using r finite_subset by (auto simp: received_def)
  have t: "ack_chunk ?t = ack_chunk s" "rec_buf ?t = rec_buf s" "recv_packets ?t = recv_packets s" "total ?t = int (chunk_count msg)"
    "acked ?t = acked s" using r by (auto simp: received_def)
  have al: "length (ack_chunk s) = 11" "length (rec_buf s) = 80" using r by (simp_all add: received_def)
  show ?thesis
  proof (cases "i \<in> D")
    case True
    then have "ack_chunk s ! (i + 1)" using r i by (simp add: received_def)
    then have "recv_packet (?p, up) s = Ok ?t" using p t al i m(1) by (simp add: recv_packet_def Let_def nat_add_distrib)
    moreover have "received msg (insert i D) ?t" using r True t by (auto simp: received_def insert_absorb)
    ultimately show ?thesis by blast
  next
    case False
    then have na: "\<not> ack_chunk s ! Suc i" using r i by (auto simp: received_def)
    let ?buf = "strncpy_to (rec_buf s) (i * CHUNK_SIZE) (data ?p) CHUNK_SIZE"
    let ?s' = "?t\<lparr>ack_chunk := (ack_chunk s)[Suc i := True], recv_packets := recv_packets s + 1, rec_buf := ?buf,
                  acked := (if up then acked s @ [int (i + 1)] else acked s)\<rparr>"
    have "nat (int (Suc i)) = Suc i" by simp
    then have st: "recv_packet (?p, up) s = Ok ?s'" using p t al i m(1) na by (simp add: recv_packet_def Let_def)
    have fit: "i * CHUNK_SIZE + CHUNK_SIZE \<le> length (rec_buf s)" using i m(1) al by simp
    have tw: "takeWhile (\<lambda>c. c \<noteq> 0) (data ?p) = take CHUNK_SIZE (drop (i * CHUNK_SIZE) msg)" by (rule chunk_text[OF i m(2)]) (rule j)
    have new: "?buf ! (i * CHUNK_SIZE + k) = msg_byte msg (i * CHUNK_SIZE + k)" if "k < CHUNK_SIZE" for k
      using that fit al chunk_count_bounds(1)[OF i]
      by (subst strncpy_to_nth) (auto simp: tw nth_append msg_byte_def)
    have old: "?buf ! (l * CHUNK_SIZE + k) = rec_buf s ! (l * CHUNK_SIZE + k)" if "k < CHUNK_SIZE" "l \<noteq> i" "l < chunk_count msg" for l k
      using that fit al m(1) by (subst strncpy_to_nth) auto
    have lt: "l < chunk_count msg \<and> l \<noteq> i" if "l \<in> D" for l using that r False by (auto simp: received_def)
    have buf: "?buf ! (l * CHUNK_SIZE + k) = msg_byte msg (l * CHUNK_SIZE + k)" if "l \<in> insert i D" "k < CHUNK_SIZE" for l k
    proof (cases "l = i")
      case False
      then have l: "l \<in> D" using that(1) by simp
      then have "rec_buf s ! (l * CHUNK_SIZE + k) = msg_byte msg (l * CHUNK_SIZE + k)" using r that(2) by (simp add: received_def)
      then show ?thesis using old[OF that(2)] lt[OF l] by simp
    qed (use new that in simp)
    have ac: "(ack_chunk s)[Suc i := True] ! Suc l \<longleftrightarrow> l \<in> insert i D" if "l < chunk_count msg" for l
      using that r al m(1) by (cases "l = i") (auto simp: received_def)
    have "insert i D \<subseteq> {..<chunk_count msg}" using lt i by auto
    then have "received msg (insert i D) ?s'" unfolding received_def
      using r False fin fit buf t al ac by (simp add: received_def)
    then show ?thesis using st by blast
  qed
qed

lemma chunk_count_size: "length msg \<le> 8 * chunk_count msg" "8 * chunk_count msg < length msg + 8" "msg \<noteq> [] \<Longrightarrow> 0 < chunk_count msg"
proof -
  have b: "length msg \<le> 8 * chunk_count msg" "8 * chunk_count msg < length msg + 8"
    unfolding chunk_count_def by presburger+
  then show "length msg \<le> 8 * chunk_count msg" "8 * chunk_count msg < length msg + 8" "msg \<noteq> [] \<Longrightarrow> 0 < chunk_count msg"
    by (auto simp flip: length_greater_0_conv)
qed

lemma recv_loop_done: "received msg {..<chunk_count msg} s \<Longrightarrow> msg \<noteq> [] \<Longrightarrow> recv_loop ps s = Ok (Some (s, ps))"
  using chunk_count_size(3)[of msg] by (subst recv_loop.simps) (auto simp: received_def)

text \<open>The loop over deliveries of the chunks \<open>is\<close>: it ends with all of them, if all are there.\<close>

lemma recv_loop_received:
  assumes "received msg D s" "msg \<noteq> []" "chunk_count msg \<le> 9" "0 \<notin> set msg"
    and "\<forall>(i, up)\<in>set ds. i < chunk_count msg \<and> length (junk i) = 9" "{..<chunk_count msg} \<subseteq> D \<union> fst ` set ds"
  shows "\<exists>s' rest. recv_loop (map (\<lambda>(i, up). (make_chunk junk msg i, up)) ds) s = Ok (Some (s', rest)) \<and>
     received msg {..<chunk_count msg} s'"
  using assms
proof (induction ds arbitrary: D s)
  case Nil
  then have "D = {..<chunk_count msg}" by (auto simp: received_def)
  then show ?case using recv_loop_done[of msg s "[]"] Nil by auto
next
  case (Cons d ds)
  obtain i up where d: "d = (i, up)" by fastforce
  show ?case
  proof (cases "D = {..<chunk_count msg}")
    case True
    then show ?thesis using recv_loop_done Cons.prems(1,2) by blast
  next
    case False
    then have "D \<subset> {..<chunk_count msg}" using Cons.prems(1) by (auto simp: received_def)
    then have "card D < chunk_count msg" by (metis card_lessThan finite_lessThan psubset_card_mono)
    then have go: "total s = - 1 \<or> int (recv_packets s) < total s" using Cons.prems(1) by (auto simp: received_def)
    obtain s1 where s1: "recv_packet (make_chunk junk msg i, up) s = Ok s1" "received msg (insert i D) s1"
      using recv_packet_received[OF Cons.prems(1) _ Cons.prems(3,4)] Cons.prems(5) d by fastforce
    obtain s' rest where "recv_loop (map (\<lambda>(i, up). (make_chunk junk msg i, up)) ds) s1 = Ok (Some (s', rest))"
      "received msg {..<chunk_count msg} s'"
      using Cons.IH[OF s1(2) Cons.prems(2-4)] Cons.prems(5,6) d by auto
    then show ?thesis using go s1(1) d by (subst recv_loop.simps) auto
  qed
qed

text \<open>C9. Chunked messages arrive whole: the packets \<open>send_chunks\<close> makes of a message of 1 to 72 bytes, delivered in
  any order and any number of times each as long as each comes at least once, and whether or not acknowledgements
  get through, make \<open>receive_chunks\<close> return a buffer that holds exactly the message as a C string.\<close>

theorem chunks_roundtrip:
  assumes "0 \<notin> set msg" "msg \<noteq> []" "length msg \<le> 72" "\<forall>i. length (junk i) = CHUNK_SIZE + 1" "length buf = BUFFER_SIZE"
    and "make_chunks junk msg = Ok cs" "\<forall>(i, up)\<in>set ds. i < length cs" "{..<length cs} \<subseteq> fst ` set ds"
  shows "\<exists>buf' acks. receive_chunks (map (\<lambda>(i, up). (cs ! i, up)) ds) buf = Ok (Some (buf', acks)) \<and>
     takeWhile (\<lambda>c. c \<noteq> 0) buf' = msg"
proof -
  let ?n = "chunk_count msg"
  have n: "?n \<le> 9" "length msg \<le> 8 * ?n" "0 < ?n" using chunk_count_size[of msg] assms(2,3) by linarith+
  have cs: "cs = map (make_chunk junk msg) [0..<?n]" using assms(6) by (simp add: make_chunks_def split: if_splits)
  have mp: "map (\<lambda>(i, up). (cs ! i, up)) ds = map (\<lambda>(i, up). (make_chunk junk msg i, up)) ds"
    using assms(7) cs by auto
  have i: "received msg {} (receiver_init buf)" using n assms(5) by (simp add: received_def receiver_init_def)
  obtain s rest where s: "recv_loop (map (\<lambda>(i, up). (make_chunk junk msg i, up)) ds) (receiver_init buf) = Ok (Some (s, rest))"
    "received msg {..<?n} s"
  proof -
    have "\<forall>(i, up)\<in>set ds. i < ?n \<and> length (junk i) = 9" "{..<?n} \<subseteq> {} \<union> fst ` set ds" using assms(4,7,8) cs by auto
    then show ?thesis using recv_loop_received[OF i assms(2) n(1) assms(1)] that by blast
  qed
  let ?b = "(rec_buf s)[recv_packets s * CHUNK_SIZE := 0]"
  have R: "recv_packets s = ?n" "length (rec_buf s) = 80" using s(2) by (simp_all add: received_def)
  have bytes: "rec_buf s ! m = msg_byte msg m" if "m < 8 * ?n" for m
  proof -
    have "m div 8 < ?n" "m mod 8 < 8" using that by (simp_all add: less_mult_imp_div_less mult.commute)
    then have "rec_buf s ! ((m div 8) * 8 + m mod 8) = msg_byte msg ((m div 8) * 8 + m mod 8)"
      using s(2) unfolding received_def by blast
    then show ?thesis by simp
  qed
  have "takeWhile (\<lambda>c. c \<noteq> 0) ?b = take (length msg) ?b"
  proof (rule takeWhile_eq_take_P_nth)
    fix i assume i: "i < length msg"
    then have "?b ! i = msg ! i" using bytes[of i] n R by (simp add: msg_byte_def)
    then show "?b ! i \<noteq> 0" using assms(1) i nth_mem by metis
  next
    assume l: "length msg < length ?b"
    then show "\<not> ?b ! length msg \<noteq> 0" using bytes[of "length msg"] n R l by (cases "length msg = 8 * ?n") (auto simp: msg_byte_def mult.commute)
  qed
  also have "\<dots> = msg" by (rule nth_equalityI) (use bytes n R assms(3) in \<open>auto simp: msg_byte_def\<close>)
  finally show ?thesis using s(1) R n by (auto simp: receive_chunks_def mp)
qed

theorem chunks_roundtrip_witness:
  "\<exists>cs buf' acks. make_chunks (\<lambda>_. replicate 9 7) [104, 101, 108, 108, 111, 32, 119, 111, 114, 108, 100] = Ok cs \<and>
     receive_chunks [(cs ! 1, True), (cs ! 1, False), (cs ! 0, True)] (replicate 80 5) = Ok (Some (buf', acks)) \<and>
     takeWhile (\<lambda>c. c \<noteq> 0) buf' = [104, 101, 108, 108, 111, 32, 119, 111, 114, 108, 100]"
proof -
  let ?m = "[104, 101, 108, 108, 111, 32, 119, 111, 114, 108, 100] :: u8 list"
  obtain cs where cs: "make_chunks (\<lambda>_. replicate 9 7) ?m = Ok cs" "length cs = 2"
    by (simp add: make_chunks_def chunk_count_def)
  have "{..<2} = {0, 1 :: nat}" by auto
  then have "\<exists>buf' acks. receive_chunks (map (\<lambda>(i, up). (cs ! i, up)) [(1, True), (1, False), (0, True)]) (replicate 80 5) =
      Ok (Some (buf', acks)) \<and> takeWhile (\<lambda>c. c \<noteq> 0) buf' = ?m"
    by (intro chunks_roundtrip[OF _ _ _ _ _ cs(1)]) (simp_all add: cs(2) del: replicate.simps)
  then show ?thesis using cs(1) by auto
qed

end
