(* ===== verification/TicTacToe.thy ===== *)
theory TicTacToe
  imports Prelude
begin

text \<open>
  \<open>networks/tic-tac-toe\<close>: the TCP and the UDP server.  The board code and the handling of a move are the same
  text in both.  What \<open>recv\<close> returns is an argument (\<open>None\<close> for a result that is not positive); what is
  sent is the trace \<open>sent_to\<close> of destinations and bytes.  The set-up of the sockets is not modelled.
\<close>

section \<open>Board\<close>

definition bytes :: "string \<Rightarrow> u8 list" where
  "bytes = map (\<lambda>c. word_of_nat (of_char c))"

record game =
  board :: "u8 list list"
  current_player :: nat
  buffer :: "u8 list"
  sent_to :: "(nat \<times> u8 list) list"

definition cell :: "u8 list list \<Rightarrow> nat \<Rightarrow> nat \<Rightarrow> u8" where
  "cell b i j = b ! i ! j"

definition reset_game :: "game \<Rightarrow> game" where
  "reset_game g = g\<lparr>board := replicate 3 (replicate 3 32), current_player := 0\<rparr>"

definition check_winner :: "u8 list list \<Rightarrow> bool" where
  "check_winner b \<longleftrightarrow>
     list_ex (\<lambda>i. (cell b i 0 \<noteq> 32 \<and> cell b i 0 = cell b i 1 \<and> cell b i 1 = cell b i 2) \<or>
                  (cell b 0 i \<noteq> 32 \<and> cell b 0 i = cell b 1 i \<and> cell b 1 i = cell b 2 i)) [0, 1, 2] \<or>
     (cell b 0 0 \<noteq> 32 \<and> cell b 0 0 = cell b 1 1 \<and> cell b 1 1 = cell b 2 2) \<or>
     (cell b 0 2 \<noteq> 32 \<and> cell b 0 2 = cell b 1 1 \<and> cell b 1 1 = cell b 2 0)"

definition check_draw :: "u8 list list \<Rightarrow> bool" where
  "check_draw b \<longleftrightarrow> list_all (\<lambda>i. list_all (\<lambda>j. cell b i j \<noteq> 32) [0, 1, 2]) [0, 1, 2]"

section \<open>Messages\<close>

definition send_message :: "nat \<Rightarrow> u8 list \<Rightarrow> game \<Rightarrow> game" where
  "send_message i m g = g\<lparr>sent_to := sent_to g @ [(i, m)]\<rparr>"

definition board_text :: "u8 list list \<Rightarrow> u8 list" where
  "board_text b =
     (let row = (\<lambda>i. [32, cell b i 0] @ bytes '' | '' @ [cell b i 1] @ bytes '' | '' @ [cell b i 2, 10]);
          rule = bytes ''---|---|---'' @ [10]
      in row 0 @ rule @ row 1 @ rule @ row 2)"

definition send_board :: "game \<Rightarrow> game" where
  "send_board g = send_message 1 (board_text (board g)) (send_message 0 (board_text (board g)) g)"

text \<open>\<open>sprintf\<close> and \<open>recv\<close> into the buffer, and the C string it holds.\<close>

definition sprintf_buf :: "u8 list \<Rightarrow> game \<Rightarrow> game" where
  "sprintf_buf m g = g\<lparr>buffer := m @ 0 # drop (length m + 1) (buffer g)\<rparr>"

definition recv_buf :: "u8 list \<Rightarrow> game \<Rightarrow> game" where
  "recv_buf d g = g\<lparr>buffer := d @ drop (length d) (buffer g)\<rparr>"

definition buffer_text :: "game \<Rightarrow> u8 list" where
  "buffer_text g = takeWhile (\<lambda>c. c \<noteq> 0) (buffer g)"

text \<open>\<open>buffer[n] = 0\<close> after a \<open>recv\<close> of \<open>n\<close> bytes; a full buffer is written past its end.\<close>

definition terminate_buf :: "nat \<Rightarrow> game \<Rightarrow> game res" where
  "terminate_buf n g = (if n < length (buffer g) then Ok (g\<lparr>buffer := (buffer g)[n := 0]\<rparr>) else Stuck)"

text \<open>\<open>sscanf\<close> with \<open>%d %d\<close>: blanks, a sign, digits.  A number that is no \<open>int\<close> is undefined in C; here it
  has its value.\<close>

definition blank :: "u8 \<Rightarrow> bool" where
  "blank c \<longleftrightarrow> c = 32 \<or> (9 \<le> c \<and> c \<le> 13)"

definition is_digit :: "u8 \<Rightarrow> bool" where
  "is_digit c \<longleftrightarrow> 48 \<le> c \<and> c \<le> 57"

definition scan_int :: "u8 list \<Rightarrow> (int \<times> u8 list) option" where
  "scan_int s =
     (let s1 = dropWhile blank s;
          (neg, s2) = (case s1 of [] \<Rightarrow> (False, s1) | c # cs \<Rightarrow> if c = 45 then (True, cs) else if c = 43 then (False, cs) else (False, s1));
          ds = takeWhile is_digit s2
      in if ds = [] then None
         else (let n = fold (\<lambda>d n. 10 * n + (uint d - 48)) ds 0
               in Some (if neg then - n else n, dropWhile is_digit s2)))"

definition scan_move :: "u8 list \<Rightarrow> (int \<times> int) option" where
  "scan_move s = (case scan_int s of None \<Rightarrow> None | Some (r, s1) \<Rightarrow>
     (case scan_int s1 of None \<Rightarrow> None | Some (c, s2) \<Rightarrow> Some (r, c)))"

section \<open>A turn\<close>

datatype outcome = Playing | Won | Drawn

definition symbol :: "nat \<Rightarrow> u8" where
  "symbol p = (if p = 0 then 88 else 79)"

definition put_mark :: "nat \<Rightarrow> nat \<Rightarrow> game \<Rightarrow> game" where
  "put_mark i j g = g\<lparr>board := (board g)[i := (board g ! i)[j := symbol (current_player g)]]\<rparr>"

definition send_both :: "u8 list \<Rightarrow> game \<Rightarrow> game" where
  "send_both m g = send_message 1 m (send_message 0 m g)"

text \<open>What the server does with the text it has received: from \<open>sscanf\<close> to the end of the loop body.\<close>

definition handle_move :: "game \<Rightarrow> outcome \<times> game" where
  "handle_move g =
     (case scan_move (buffer_text g) of
        Some (row, col) \<Rightarrow>
          if row \<ge> 1 \<and> row \<le> 3 \<and> col \<ge> 1 \<and> col \<le> 3 \<and> cell (board g) (nat (row - 1)) (nat (col - 1)) = 32
          then (let g1 = put_mark (nat (row - 1)) (nat (col - 1)) g
                in if check_winner (board g1)
                   then (Won, (let g2 = sprintf_buf (bytes ''Player '' @ [48 + word_of_nat (current_player g1 + 1)] @ bytes '' wins!'' @ [10])
                                          (send_board g1)
                               in send_both (buffer_text g2) g2))
                   else if check_draw (board g1)
                   then (Drawn, send_both (bytes ''The game is a draw!'' @ [10]) (send_board g1))
                   else (Playing, g1\<lparr>current_player := (current_player g1 + 1) mod 2\<rparr>))
          else (Playing, send_message (current_player g) (bytes ''Invalid move. Try again.'' @ [10]) g)
      | None \<Rightarrow> (Playing, send_message (current_player g) (bytes ''Invalid input. Use the format row col.'' @ [10]) g))"

text \<open>The start of a turn: the board, then the prompts.\<close>

definition prompt :: "game \<Rightarrow> game" where
  "prompt g =
     (let g1 = sprintf_buf (bytes ''Enter your move (row col): '') (send_board g);
          g2 = sprintf_buf (bytes ''Waiting for opponent's move'' @ [10]) (send_message (current_player g1) (buffer_text g1) g1)
      in send_message (1 - current_player g2) (buffer_text g2) g2)"

text \<open>A turn of the TCP server does not terminate the string it receives; a turn of the UDP server does, and
  takes a datagram from anyone for the current player's.\<close>

definition tcp_turn :: "u8 list option \<Rightarrow> game \<Rightarrow> (outcome \<times> game) res" where
  "tcp_turn r g =
     (let g1 = prompt g in case r of None \<Rightarrow> Ok (Playing, g1) | Some d \<Rightarrow> Ok (handle_move (recv_buf d g1)))"

definition udp_turn :: "u8 list option \<Rightarrow> game \<Rightarrow> (outcome \<times> game) res" where
  "udp_turn r g =
     (let g1 = prompt g in case r of None \<Rightarrow> Ok (Playing, g1)
      | Some d \<Rightarrow> rbind (terminate_buf (length d) (recv_buf d g1)) (\<lambda>g2. Ok (handle_move g2)))"

text \<open>The inner loop: turns until the game is over or nothing more arrives.\<close>

fun game_loop :: "(u8 list option \<Rightarrow> game \<Rightarrow> (outcome \<times> game) res) \<Rightarrow> u8 list option list \<Rightarrow> game \<Rightarrow>
    (outcome \<times> game \<times> u8 list option list) res" where
  "game_loop turn [] g = Ok (Playing, g, [])"
| "game_loop turn (r # rs) g =
     rbind (turn r g) (\<lambda>(oc, g'). if oc = Playing then game_loop turn rs g' else Ok (oc, g', rs))"

section \<open>Before and after a game\<close>

definition ready_text :: "u8 list" where
  "ready_text = bytes ''ready'' @ [10]"

text \<open>TCP: each pass of the loop asks the players that are not ready, in order; \<open>i\<close> is the player of the pass.
  The result tells whether both are ready and what is left to receive.\<close>

definition recv_ready :: "u8 list option \<Rightarrow> game \<Rightarrow> (bool \<times> game) res" where
  "recv_ready r g = (case r of None \<Rightarrow> Ok (False, g)
     | Some d \<Rightarrow> rbind (terminate_buf (length d) (recv_buf d g)) (\<lambda>g1. Ok (buffer_text g1 = ready_text, g1)))"

function tcp_ready :: "nat \<Rightarrow> bool \<Rightarrow> bool \<Rightarrow> u8 list option list \<Rightarrow> game \<Rightarrow> (bool \<times> u8 list option list \<times> game) res" where
  "tcp_ready i r1 r2 rs g =
     (if i = 0
      then (if r1 \<and> r2 then Ok (True, rs, g)
            else if r1 then tcp_ready 1 r1 r2 rs g
            else (case rs of [] \<Rightarrow> Ok (False, [], g)
                  | r # rest \<Rightarrow> rbind (recv_ready r g) (\<lambda>(ok, g1). tcp_ready 1 ok r2 rest g1)))
      else (if r2 then tcp_ready 0 r1 r2 rs g
            else (case rs of [] \<Rightarrow> Ok (False, [], g)
                  | r # rest \<Rightarrow> rbind (recv_ready r g) (\<lambda>(ok, g1). tcp_ready 0 r1 ok rest g1))))"
  by pat_completeness auto
termination
  by (relation "measure (\<lambda>(i, r1, r2, rs, g). 2 * length rs + (if i = 0 then (if r1 \<and> \<not> r2 then 1 else 0) else (if r2 then 1 else 0)))")
    auto

declare tcp_ready.simps [simp del]

text \<open>TCP: both players are asked whether to play again; an answer that begins with \<open>yes\<close> agrees, and an error
  counts as no.  The answers used up are dropped from the input.\<close>

definition tcp_answer :: "nat \<Rightarrow> u8 list option \<Rightarrow> game \<Rightarrow> (bool \<times> game) res" where
  "tcp_answer i r g =
     (let g1 = send_message i (bytes ''Do you want to play again? (yes/no): '') g
      in case r of None \<Rightarrow> Ok (False, g1)
         | Some d \<Rightarrow> rbind (terminate_buf (length d) (recv_buf d g1)) (\<lambda>g2. Ok (take 3 (buffer_text g2) = bytes ''yes'', g2)))"

definition tcp_replay :: "u8 list option \<Rightarrow> u8 list option \<Rightarrow> game \<Rightarrow> (bool \<times> game) res" where
  "tcp_replay a1 a2 g =
     rbind (tcp_answer 0 a1 g) (\<lambda>(rp1, g1).
     rbind (tcp_answer 1 a2 g1) (\<lambda>(rp2, g2).
       if rp1 \<and> rp2 then Ok (True, send_both (bytes ''Starting a new game!'' @ [10]) g2)
       else (let m = bytes ''Ending the game as your opponent don'' @ [39] @ bytes ''t want to play.'' @ [10]
             in Ok (False, if rp2 then send_message 1 m g2 else if rp1 then send_message 0 m g2 else g2))))"

text \<open>UDP: the two players are the senders of the first two datagrams \<open>ready\<close>.\<close>

fun udp_connect :: "nat \<Rightarrow> u8 list option list \<Rightarrow> game \<Rightarrow> (bool \<times> u8 list option list \<times> game) res" where
  "udp_connect n [] g = Ok (2 \<le> n, [], g)"
| "udp_connect n (r # rs) g =
     (if 2 \<le> n then Ok (True, r # rs, g)
      else rbind (recv_ready r g) (\<lambda>(ok, g1).
        if ok then (let g2 = sprintf_buf (bytes ''Welcome to Tic-Tac-Toe! You are Player '' @ [48 + word_of_nat (n + 1)] @
                               bytes ''. Your symbol is '' @ [symbol n] @ bytes ''.'' @ [10]) g1
                    in udp_connect (n + 1) rs (send_message n (buffer_text g2) g2))
        else udp_connect n rs g1))"

text \<open>UDP: two answers \<open>yes\<close>, from whomever, start a new game; one \<open>no\<close> ends the server.\<close>

fun udp_replay :: "nat \<Rightarrow> u8 list option list \<Rightarrow> game \<Rightarrow> (bool option \<times> u8 list option list \<times> game) res" where
  "udp_replay n rs g =
     (if 2 \<le> n then Ok (Some True, rs, g)
      else (case rs of
          [] \<Rightarrow> Ok (None, [], g)
        | None # rest \<Rightarrow> udp_replay n rest g
        | Some d # rest \<Rightarrow> rbind (terminate_buf (length d) (recv_buf d g)) (\<lambda>g1.
            if buffer_text g1 = bytes ''yes'' @ [10] then udp_replay (n + 1) rest g1
            else if buffer_text g1 = bytes ''no'' @ [10]
            then (let g2 = sprintf_buf (bytes ''Thanks for playing!'' @ [10]) g1
                  in Ok (Some False, rest, send_both (buffer_text g2) g2))
            else udp_replay n rest g1)))"

declare udp_replay.simps [simp del]

text \<open>The outer loop of each server; \<open>k\<close> bounds the number of games.\<close>

definition start_game :: "game \<Rightarrow> game" where
  "start_game g = send_both (bytes ''Game is starting!'' @ [10]) (reset_game g)"

fun tcp_games :: "nat \<Rightarrow> u8 list option list \<Rightarrow> game \<Rightarrow> game res" where
  "tcp_games 0 rs g = Stuck"
| "tcp_games (Suc k) rs g =
     rbind (game_loop tcp_turn rs ((start_game g)\<lparr>buffer := replicate 1024 0\<rparr>)) (\<lambda>(oc, g1, rest).
       if oc = Playing then Ok g1
       else (case rest of
          a1 # a2 # rest2 \<Rightarrow> rbind (tcp_replay a1 a2 g1) (\<lambda>(again, g2). if again then tcp_games k rest2 g2 else Ok g2)
        | _ \<Rightarrow> Ok g1))"

fun udp_games :: "nat \<Rightarrow> u8 list option list \<Rightarrow> game \<Rightarrow> game res" where
  "udp_games 0 rs g = Stuck"
| "udp_games (Suc k) rs g =
     rbind (game_loop udp_turn rs (start_game g)) (\<lambda>(oc, g1, rest).
       if oc = Playing then Ok g1
       else (let g2 = sprintf_buf (bytes ''Do you want to play again? (yes/no)'' @ [10]) g1
             in rbind (udp_replay 0 rest (send_both (buffer_text g2) g2)) (\<lambda>(again, rest2, g3).
                  if again = Some True then udp_games k rest2 g3 else Ok g3)))"

section \<open>The rules of the game\<close>



















lemma board_frames [simp]:
  "board (send_message i m g) = board g" "current_player (send_message i m g) = current_player g"
  "board (send_board g) = board g" "current_player (send_board g) = current_player g"
  "board (send_both m g) = board g" "current_player (send_both m g) = current_player g"
  "board (sprintf_buf m g) = board g" "current_player (sprintf_buf m g) = current_player g"
  "board (recv_buf d g) = board g" "current_player (recv_buf d g) = current_player g"
  "board (prompt g) = board g" "current_player (prompt g) = current_player g" "current_player (put_mark i j g) = current_player g"
  by (simp_all add: send_message_def send_board_def send_both_def sprintf_buf_def recv_buf_def prompt_def Let_def put_mark_def)





section \<open>The loop of either server\<close>









end
