(* ===== verification/Spec2Isabelle.thy ===== *)
theory Spec2Isabelle
  imports Kernel Filesys Mkfs Pipe Virtio Ulib Sh Grep Chunks TicTacToe
begin

text \<open>
  A model of the repository: the xv6 kernel for RISC-V with its extensions (system call counts, alarms,
  the MLFQ and lottery schedulers, \<open>waitx\<close>), the user programs with logic of their own, and the
  networking programs.  Paths below are relative to \<open>initial-xv6/src\<close>, those of the networking programs
  to \<open>networks\<close>.

  The parts of the program, the theory of each, and what is proved of it.

  \<^item> \<open>Prelude\<close>: machine words, the result type \<open>res\<close> (\<open>Ok\<close>, \<open>Panic\<close> for \<open>panic()\<close>, \<open>Stuck\<close> for a loop
    without end or an access outside an array), conversion to \<open>int\<close> (\<open>i32\<close>), byte-addressed memory.
  \<^item> \<open>CStrings\<close> (\<open>kernel/string.c\<close>): \<open>memmove\<close> copies whatever the overlap, \<open>safestrcpy\<close> always
    terminates its copy, \<open>strncmp\<close> is 0 exactly on equal prefixes.
  \<^item> \<open>Kalloc\<close> (\<open>kernel/kalloc.c\<close>): the free list is threaded through the free pages of the memory; its
    abstraction is the list of their addresses.  The locale \<open>page_allocator\<close> is what the rest of the
    kernel relies on, interpreted on \<open>kalloc\<close> and \<open>kfree\<close>.
  \<^item> \<open>Vm\<close> (\<open>kernel/vm.c\<close>, \<open>riscv.h\<close>): Sv39 page tables in that same memory.  After \<open>mappages\<close>, \<open>walkaddr\<close>
    finds what was mapped; what \<open>copyout\<close> writes \<open>copyin\<close> reads back.
  \<^item> \<open>Spinlock\<close> (\<open>kernel/spinlock.c\<close>): interrupt nesting, and mutual exclusion of any number of CPUs over
    the atomic accesses of \<open>acquire\<close> and \<open>release\<close> (\<open>lstep\<close>).
  \<^item> \<open>Proc\<close> (\<open>kernel/proc.c\<close>, \<open>proc.h\<close>): the process table, \<open>fork\<close> and \<open>exit\<close> with the operations of the file layer
    as arguments.  Exact effects of \<open>exit\<close>, \<open>wait\<close>, \<open>waitx\<close>, \<open>kill\<close>, \<open>wakeup\<close>, and the double release of a stale
    \<open>backup\<close> page.
  \<^item> \<open>Kernel\<close>: \<open>fork\<close> and \<open>exit\<close> put together with the file layer (locale \<open>file_layer\<close>, interpreted on \<open>File\<close>, \<open>Fs\<close>
    and \<open>Log\<close>).  The step relation \<open>kstep\<close> has a rule per operation on the table and counts the pids taken;
    \<open>process_table_invariant\<close> holds in every reachable state.
  \<^item> \<open>Sched\<close>: the three schedulers as functions of the table they read.  The locale \<open>sched_policy\<close> is what
    the dispatch loop relies on (the process picked is runnable, and one is picked when one is), with an
    interpretation for each scheduler; bounded waiting for round robin, and what exactly MLFQ and the
    lottery pick.
  \<^item> \<open>Syscall\<close> (\<open>kernel/syscall.c\<close>, \<open>sysproc.c\<close>) and \<open>Trap\<close> (\<open>kernel/trap.c\<close>): fetching arguments, the
    dispatch table and the counting of calls; traps, the clock, alarms and the accounting of MLFQ.
  \<^item> \<open>Ring\<close>: the locale \<open>ring_buffer\<close>, an array with two free-running counters that wrap, shared by the
    transmit buffer of the UART, the input buffer of the console and the pipes.
  \<^item> \<open>Console\<close> (\<open>kernel/uart.c\<close>, \<open>console.c\<close>, \<open>printf.c\<close>): output leaves in order and none is lost; the
    interrupt handler of the console refines a line editor over lists; \<open>printint\<close> prints the number.
  \<^item> \<open>Bio\<close> (\<open>kernel/sleeplock.c\<close>, \<open>bio.c\<close>): the buffer cache and its invariant \<open>cache_ok\<close>.
  \<^item> \<open>Log\<close> (\<open>kernel/log.c\<close>): the write-ahead log.  \<open>log_crash_atomic\<close>: cut the writes of a commit after any
    prefix, reboot, recover, and the file system holds all of the transaction or none of it.
  \<^item> \<open>Fs\<close> (\<open>kernel/fs.c\<close>), \<open>File\<close> (\<open>file.c\<close>, \<open>pipe.c\<close>), \<open>Sysfile\<close> (\<open>sysfile.c\<close>), \<open>Exec\<close> (\<open>exec.c\<close>): inodes,
    directories, paths, open files, pipes, the system calls on them, loading a program, and \<open>forkret\<close>, the
    first thing a new process runs.
  \<^item> \<open>Pipe\<close>: the pipes of \<open>File\<close> as bounded queues: each call of \<open>pipewrite\<close> appends a prefix of the bytes of
    its caller and \<open>piperead\<close> takes bytes from the front, and nothing else of the pipes moves.
  \<^item> \<open>Transaction\<close>, \<open>Blockmap\<close>, \<open>Files\<close>: the file system seen from one process inside a transaction, layer by
    layer.  \<open>Transaction\<close> abstracts buffer cache, log and disk to a function from block numbers to contents
    (\<open>view\<close>), which \<open>bread\<close>, \<open>log_write\<close> and \<open>brelse\<close> read and update, and shows that \<open>balloc\<close> and
    \<open>bfree\<close> take from and return to the set of free blocks.  \<open>Blockmap\<close> shows that \<open>bmap\<close> looks up or extends an
    injective map from indices to blocks, the indirect block included.  \<open>Files\<close> reads files as lists of
    bytes: \<open>readi\<close> is a segment of the list, \<open>writei\<close> patches it, \<open>dirlookup\<close> and \<open>dirlink\<close> are lookup and
    insertion in the list of entries.
  \<^item> \<open>Crash\<close>: the same file as it lies on the disk after a crash and a recovery.  \<open>Image\<close>: a small disk laid out
    as \<open>mkfs\<close> does, on which the hypotheses of the theorems are shown to hold.
  \<^item> \<open>Mkfs\<close> (\<open>mkfs/mkfs.c\<close>): the program that builds the image.  It succeeds whenever inodes and blocks suffice,
    every file of the image reads back as it was given (\<open>mkfs_builds_image\<close>), and the image meets what the
    theorems on the file system ask of a disk (\<open>mkfs_image_mounts\<close>).
  \<^item> \<open>Filesys\<close>: the theorems across the layers: \<open>readi\<close> after \<open>writei\<close> returns the bytes written and every
    other file keeps its contents, \<open>dirlookup\<close> after \<open>dirlink\<close>, and \<open>writei_crash_atomic\<close>: cut
    the disk writes of the commit that follows a \<open>writei\<close> anywhere, recover, and the file is the old one or the new one.
  \<^item> \<open>Virtio\<close> (\<open>kernel/virtio_disk.c\<close>): the driver with several requests in flight.  The step relation
    \<open>driver\<close> interleaves submissions, a device that reads only the queue memory (it fetches heads from the available
    ring and finishes well-formed chains in any order, with any status), interrupts and wakeups; no request is lost,
    handed over twice or freed twice, and a request on its own is the atomic \<open>disk_rw\<close> that \<open>Bio\<close> uses.
  \<^item> \<open>Ulib\<close> (\<open>user/ulib.c\<close>, \<open>user/printf.c\<close>), \<open>Sh\<close> (\<open>user/sh.c\<close>), \<open>Grep\<close> (\<open>user/grep.c\<close>): the parser of the shell
    terminates on every line and every string of its tree lies inside the line and is terminated; the matcher
    of \<open>grep\<close> decides a declarative notion of match, and \<open>grep\<close> prints exactly the matching lines.
  \<^item> \<open>Chunks\<close> (\<open>messaging_via_chunks\<close>), \<open>TicTacToe\<close> (\<open>tic-tac-toe\<close>): a message arrives as it was sent
    whatever the order and repetition of its chunks; both servers keep to the rules of the game (locale
    \<open>turns\<close>, interpreted on a turn of each server).

  How the state corresponds.  The kernel's state is one record that grows with the components: \<open>kmem\<close>
  (memory, free list), \<open>kstate\<close> (process table, clock, scheduler), \<open>iostate\<close> (UART, console), \<open>bstate\<close>
  (disk, buffer cache), \<open>lstate\<close> (log), \<open>fstate\<close> (inodes), \<open>ostate\<close> (open files, pipes); \<open>vstate\<close> extends
  \<open>bstate\<close> with the queues of the disk.  The fields have the names of the C variables, prefixed where a name
  is taken.  Pointers to elements of a static array are indices, null pointers \<open>None\<close> or 0; memory that is
  not an array of structures (pages, page tables, trapframes, user memory) is the byte-addressed memory
  itself.  C integers keep their width: words where they are unsigned, \<open>i32\<close> where an \<open>int\<close> is stored.

  Concurrency.  A section between \<open>acquire\<close> and \<open>release\<close> of one spin lock is one atomic step, which
  \<open>spinlock_mutual_exclusion\<close> justifies; an operation that sleeps inside such a section is split where it
  sleeps, as a result \<open>Sleep\<close> with what is needed to resume (\<open>io\<close>, \<open>SBlock\<close>).  Sleep locks and
  \<open>disk_rw\<close> are taken without a switch to another process: finding a sleep lock taken is \<open>Stuck\<close>.  \<open>fork\<close> and \<open>exit\<close>
  take several locks one after the other in the code and are one step each in the model.

  The theorems on the file system are about one process between \<open>begin_op\<close> and \<open>end_op\<close> whose blocks are all
  brought in by \<open>bread\<close> and recorded by \<open>log_write\<close>; the number of blocks a transaction may still record is
  counted against the room in the header of the log, and a write that would exceed it is outside their hypotheses.

  Fuel and bounds.  The parser of the shell takes \<open>4 * length line + 4\<close> levels, which
  \<open>parsecmd_terminates\<close> shows to be enough; the length of a descriptor chain is bounded by \<open>NUM + 1\<close>;
  the number of digits of a machine word by 64; the depth of \<open>freewalk\<close> by the three levels of Sv39; string
  functions that only a NUL byte ends take the size of the memory they may read.  A \<open>Stuck\<close> that fuel
  would cause is excluded in the theorems, whose results are \<open>Ok\<close>.

  Parameters: what the devices deliver (characters of the UART, the answers of the PLIC, how often a status
  register reads busy), what the network delivers and the clock reads, linker symbols.

  Not modelled: assembly (\<open>entry.S\<close>, \<open>swtch.S\<close>, \<open>trampoline.S\<close>, \<open>kernelvec.S\<close>), the boot code in
  \<open>start.c\<close>, \<open>main.c\<close> and \<open>plic.c\<close> (writes to device registers), \<open>ramdisk.c\<close> (not linked), satp and the TLB;
  the programs that are tests or call one system call (\<open>usertests.c\<close>, \<open>grind.c\<close>, \<open>cat.c\<close> and the like); the
  set-up of sockets; the allocator of user programs (\<open>umalloc.c\<close>).  Inside modelled functions: debug output (the loop
  of \<open>usertrap\<close> that prints the queues), the opening of the console before the first prompt of the shell, and the write
  to the notification register of the disk (the device may fetch a head as soon as the index says so).
\<close>

end
